(* ===== verification/Prelude.thy ===== *)
theory Prelude
  imports Main "HOL-Library.Word" "HOL-Library.Signed_Division"
begin

text \<open>
  The prelude of the development: the machine integer types of the crate, the
  integer operators of Rust's standard library that the code uses (saturating,
  checked and clamping ones), results as sums, and the generic facts about them
  that the components share.

  Unsigned and signed fields of the crate's structs are words of the field's width
  (an \<open>i64\<close> is read with \<open>sint\<close>). The intermediate \<open>i128\<close> values of the time
  arithmetic are mathematical integers, with every saturating or checked operator
  of the source written out at 128 bits.
\<close>

named_theorems sat_defs \<open>definitions of the saturating and checked operators\<close>
named_theorems range_simps \<open>limits of the machine integer types\<close>
named_theorems result_simps \<open>case analysis over results\<close>
named_theorems guard_simps \<open>guards that return nothing\<close>

type_synonym u8 = "8 word"
type_synonym u16 = "16 word"
type_synonym u32 = "32 word"
type_synonym u64 = "64 word"
type_synonym i16 = "16 word"
type_synonym i64 = "64 word"
type_synonym bytes = "8 word list"

subsection \<open>Ranges of the signed integer types\<close>

abbreviation i64_min :: int where "i64_min \<equiv> - 9223372036854775808"
abbreviation i64_max :: int where "i64_max \<equiv> 9223372036854775807"
abbreviation i128_min :: int where "i128_min \<equiv> - 170141183460469231731687303715884105728"
abbreviation i128_max :: int where "i128_max \<equiv> 170141183460469231731687303715884105727"
abbreviation u128_max :: int where "u128_max \<equiv> 340282366920938463463374607431768211455"

definition in_i64 :: "int \<Rightarrow> bool" where
  "in_i64 x \<longleftrightarrow> i64_min \<le> x \<and> x \<le> i64_max"

definition in_i128 :: "int \<Rightarrow> bool" where
  "in_i128 x \<longleftrightarrow> i128_min \<le> x \<and> x \<le> i128_max"

definition in_u128 :: "int \<Rightarrow> bool" where
  "in_u128 x \<longleftrightarrow> 0 \<le> x \<and> x \<le> u128_max"

declare in_i64_def [range_simps] in_i128_def [range_simps] in_u128_def [range_simps]

definition clamp :: "int \<Rightarrow> int \<Rightarrow> int \<Rightarrow> int" where
  "clamp lo hi x = (if x < lo then lo else if hi < x then hi else x)"

definition sat64 :: "int \<Rightarrow> int" where
  "sat64 x = clamp i64_min i64_max x"

definition sat128 :: "int \<Rightarrow> int" where
  "sat128 x = clamp i128_min i128_max x"

definition sat_add :: "int \<Rightarrow> int \<Rightarrow> int" where
  "sat_add a b = sat128 (a + b)"

definition sat_sub :: "int \<Rightarrow> int \<Rightarrow> int" where
  "sat_sub a b = sat128 (a - b)"

definition sat_mul :: "int \<Rightarrow> int \<Rightarrow> int" where
  "sat_mul a b = sat128 (a * b)"

definition usat128 :: "int \<Rightarrow> int" where
  "usat128 x = clamp 0 u128_max x"

definition checked_i128 :: "int \<Rightarrow> int option" where
  "checked_i128 x = (if in_i128 x then Some x else None)"

definition checked_i64 :: "int \<Rightarrow> int option" where
  "checked_i64 x = (if in_i64 x then Some x else None)"

definition div_ceil :: "int \<Rightarrow> int \<Rightarrow> int" where
  "div_ceil a b = (a + b - 1) div b"

declare sat64_def [sat_defs] sat128_def [sat_defs] sat_add_def [sat_defs] sat_sub_def [sat_defs]
  sat_mul_def [sat_defs] usat128_def [sat_defs] clamp_def [sat_defs]
  checked_i128_def [sat_defs] checked_i64_def [sat_defs]

lemma clamp_id [simp]: "lo \<le> x \<Longrightarrow> x \<le> hi \<Longrightarrow> clamp lo hi x = x"
  by (simp add: clamp_def)

lemma clamp_lower: "lo \<le> hi \<Longrightarrow> lo \<le> clamp lo hi x"
  by (simp add: clamp_def)

lemma clamp_upper: "lo \<le> hi \<Longrightarrow> clamp lo hi x \<le> hi"
  by (simp add: clamp_def)

lemma clamp_mono: "lo \<le> hi \<Longrightarrow> x \<le> y \<Longrightarrow> clamp lo hi x \<le> clamp lo hi y"
  by (simp add: clamp_def)

lemma clamp_clamp [simp]: "lo \<le> hi \<Longrightarrow> clamp lo hi (clamp lo hi x) = clamp lo hi x"
  by (simp add: clamp_def)

lemma sat128_id [simp]: "in_i128 x \<Longrightarrow> sat128 x = x"
  by (simp add: sat128_def in_i128_def)

lemma sat128_in [simp]: "in_i128 (sat128 x)"
  by (simp add: sat128_def in_i128_def clamp_def)

lemma sat64_id [simp]: "in_i64 x \<Longrightarrow> sat64 x = x"
  by (simp add: sat64_def in_i64_def)

lemma sat64_in [simp]: "in_i64 (sat64 x)"
  by (simp add: sat64_def in_i64_def clamp_def)

lemma sat64_mono: "x \<le> y \<Longrightarrow> sat64 x \<le> sat64 y"
  by (simp add: sat64_def clamp_mono)

lemma sat128_mono: "x \<le> y \<Longrightarrow> sat128 x \<le> sat128 y"
  by (simp add: sat128_def clamp_mono)

lemma in_i64_in_i128: "in_i64 x \<Longrightarrow> in_i128 x"
  by (simp add: in_i64_def in_i128_def)

lemma sat_add_exact [simp]: "in_i128 (a + b) \<Longrightarrow> sat_add a b = a + b"
  by (simp add: sat_add_def)

lemma sat_sub_exact [simp]: "in_i128 (a - b) \<Longrightarrow> sat_sub a b = a - b"
  by (simp add: sat_sub_def)

lemma sat_mul_exact [simp]: "in_i128 (a * b) \<Longrightarrow> sat_mul a b = a * b"
  by (simp add: sat_mul_def)

lemma sat_add_in [simp]: "in_i128 (sat_add a b)"
  by (simp add: sat_add_def)

lemma sat_sub_in [simp]: "in_i128 (sat_sub a b)"
  by (simp add: sat_sub_def)

lemma sat_mul_in [simp]: "in_i128 (sat_mul a b)"
  by (simp add: sat_mul_def)

subsection \<open>Signed words\<close>

lemma sint_i64_bounds: "i64_min \<le> sint (x :: i64) \<and> sint x \<le> i64_max"
  using sint_range_size [of x] by (simp add: word_size)

lemma sint_in_i64 [simp]: "in_i64 (sint (x :: i64))"
  using sint_i64_bounds [of x] by (simp add: in_i64_def)

lemma sint_in_i128 [simp]: "in_i128 (sint (x :: i64))"
  by (rule in_i64_in_i128) simp

lemma sint_of_i64 [simp]: "in_i64 x \<Longrightarrow> sint (word_of_int x :: i64) = x"
  by (simp add: sint_sbintrunc' signed_take_bit_int_eq_self in_i64_def)

lemma word_of_sint_i64 [simp]: "word_of_int (sint (x :: i64)) = x"
  by simp

lemma word_of_int_i64_inj:
  assumes "in_i64 x" and "in_i64 y" and "(word_of_int x :: i64) = word_of_int y"
  shows "x = y"
  using assms by (metis sint_of_i64)

subsection \<open>Unsigned words\<close>

lemma unat_bound: "unat (x :: 'a :: len word) < 2 ^ LENGTH('a)"
  by (simp add: unsigned_less)

lemma word_unat_eqI: "unat x = unat y \<Longrightarrow> x = (y :: 'a :: len word)"
  by (fact unsigned_word_eqI)

subsection \<open>Truncating division\<close>

text \<open>Rust's \<open>/\<close> and \<open>%\<close> on signed integers are \<open>sdiv\<close> and \<open>smod\<close>.\<close>

lemma sdiv_smod_sum: "(a :: int) sdiv b * b + a smod b = a"
  by (rule sdiv_mult_smod_eq)

lemma abs_smod_less: "b \<noteq> 0 \<Longrightarrow> \<bar>(a :: int) smod b\<bar> < \<bar>b\<bar>"
  by (simp add: smod_int_alt_def abs_mult abs_sgn_eq)

lemma abs_sdiv_le: "\<bar>(a :: int) sdiv b\<bar> \<le> \<bar>a\<bar>"
proof (cases "b = 0")
  case False
  have "\<bar>a\<bar> div \<bar>b\<bar> \<le> \<bar>a\<bar> div 1"
    by (rule zdiv_mono2) (use False in auto)
  then show ?thesis
    using False by (auto simp: signed_divide_int_def abs_mult abs_sgn_eq pos_imp_zdiv_nonneg_iff)
qed simp

lemma smod_sign_pos: "0 \<le> (a :: int) \<Longrightarrow> 0 \<le> a smod b"
  by (cases "b = 0") (auto simp: smod_int_alt_def sgn_if)

lemma smod_sign_neg: "(a :: int) \<le> 0 \<Longrightarrow> a smod b \<le> 0"
  by (cases "b = 0") (auto simp: smod_int_alt_def sgn_if)

subsection \<open>Results\<close>

text \<open>A Rust \<open>Result\<close> is a sum with the error on the left; \<open>bind_res\<close> is the \<open>?\<close> operator.\<close>

fun bind_res :: "'e + 'a \<Rightarrow> ('a \<Rightarrow> 'e + 'b) \<Rightarrow> 'e + 'b" where
  "bind_res (Inl e) f = Inl e"
| "bind_res (Inr x) f = f x"

lemma bind_res_Inr_iff [result_simps]:
  "bind_res r f = Inr y \<longleftrightarrow> (\<exists>x. r = Inr x \<and> f x = Inr y)"
  by (cases r) auto

lemma bind_res_Inl_iff [result_simps]:
  "bind_res r f = Inl e \<longleftrightarrow> r = Inl e \<or> (\<exists>x. r = Inr x \<and> f x = Inl e)"
  by (cases r) auto

lemma bind_res_assoc: "bind_res (bind_res r f) g = bind_res r (\<lambda>x. bind_res (f x) g)"
  by (cases r) auto

fun ok_or :: "'e \<Rightarrow> 'a option \<Rightarrow> 'e + 'a" where
  "ok_or e None = Inl e"
| "ok_or e (Some x) = Inr x"

lemma ok_or_Inr_iff [result_simps]: "ok_or e x = Inr y \<longleftrightarrow> x = Some y"
  by (cases x) auto

lemma ok_or_Inl_iff [result_simps]: "ok_or e x = Inl e' \<longleftrightarrow> x = None \<and> e' = e"
  by (cases x) auto

text \<open>Guards of code that returns an option.\<close>

lemma guard_None [guard_simps]: "(if c then None else x) = Some y \<longleftrightarrow> \<not> c \<and> x = Some y"
  by simp

lemma guard_Some [guard_simps]: "(if c then Some x else None) = Some y \<longleftrightarrow> c \<and> x = y"
  by simp

fun map_err :: "('e \<Rightarrow> 'f) \<Rightarrow> 'e + 'a \<Rightarrow> 'f + 'a" where
  "map_err g (Inl e) = Inl (g e)"
| "map_err g (Inr x) = Inr x"

lemma map_err_Inr_iff [result_simps]: "map_err g r = Inr x \<longleftrightarrow> r = Inr x"
  by (cases r) auto

end
