(* ===== verification/F64.thy ===== *)
theory F64
  imports Prelude "HOL-Library.Log_Nat"
begin

text \<open>
  Rust's \<open>f64\<close>: IEEE 754 binary64 with round-to-nearest, ties to even. A finite
  non-zero number (and \<open>+0\<close>) is its rational value, \<open>-0\<close>, the infinities and NaN
  are constructors of their own (the payload of a NaN is never observed by the crate).
  Every operator is the exact rational operation followed by one rounding, so the
  definitions compute. The lemmas show that the rounding is exact on integers of at
  most 53 bits, monotone, and within half a unit in the last place.
\<close>

datatype f64 = NaN | PosInf | NegInf | NegZero | Fin rat

subsection \<open>Rounding\<close>

definition half_even :: "rat \<Rightarrow> int" where
  "half_even x =
     (let f = \<lfloor>x\<rfloor>; r = x - of_int f
      in if r < 1 / 2 then f else if 1 / 2 < r then f + 1 else if even f then f else f + 1)"

definition ilog2 :: "rat \<Rightarrow> int" where
  "ilog2 x = (let (n, d) = quotient_of x; e = bitlen n - bitlen d
              in if 2 powi e \<le> x then e else e - 1)"

text \<open>Exponent of the unit in the last place, not below that of the subnormal numbers.\<close>

definition ulp_exp :: "rat \<Rightarrow> int" where
  "ulp_exp x = max (ilog2 x - 52) (- 1074)"

text \<open>The nearest multiple of the unit in the last place, for a positive number.\<close>

definition round_pos :: "rat \<Rightarrow> rat" where
  "round_pos x = of_int (half_even (x / 2 powi ulp_exp x)) * 2 powi ulp_exp x"

definition mk_zero :: "bool \<Rightarrow> f64" where
  "mk_zero neg = (if neg then NegZero else Fin 0)"

definition mk_inf :: "bool \<Rightarrow> f64" where
  "mk_inf neg = (if neg then NegInf else PosInf)"

definition round_f64 :: "bool \<Rightarrow> rat \<Rightarrow> f64" where
  "round_f64 neg x =
     (if x = 0 then mk_zero neg
      else let v = round_pos \<bar>x\<bar>
           in if v = 0 then mk_zero (x < 0)
              else if 2 ^ 1024 \<le> v then mk_inf (x < 0)
              else Fin (if x < 0 then - v else v))"

subsection \<open>Classification and comparison\<close>

fun is_nan :: "f64 \<Rightarrow> bool" where
  "is_nan NaN = True"
| "is_nan _ = False"

fun is_inf :: "f64 \<Rightarrow> bool" where
  "is_inf PosInf = True"
| "is_inf NegInf = True"
| "is_inf _ = False"

definition is_finite :: "f64 \<Rightarrow> bool" where
  "is_finite x \<longleftrightarrow> \<not> is_nan x \<and> \<not> is_inf x"

fun is_neg :: "f64 \<Rightarrow> bool" where
  "is_neg NegInf = True"
| "is_neg NegZero = True"
| "is_neg (Fin r) = (r < 0)"
| "is_neg _ = False"

text \<open>The value of a finite number.\<close>

fun val :: "f64 \<Rightarrow> rat" where
  "val (Fin r) = r"
| "val _ = 0"

definition is_zero :: "f64 \<Rightarrow> bool" where
  "is_zero x \<longleftrightarrow> is_finite x \<and> val x = 0"

fun f64_lt :: "f64 \<Rightarrow> f64 \<Rightarrow> bool" where
  "f64_lt NaN _ = False"
| "f64_lt _ NaN = False"
| "f64_lt PosInf _ = False"
| "f64_lt NegInf y = (y \<noteq> NegInf)"
| "f64_lt x PosInf = True"
| "f64_lt x NegInf = False"
| "f64_lt x y = (val x < val y)"

text \<open>\<open>==\<close> on \<open>f64\<close>: NaN differs from itself, the zeros are equal.\<close>

fun f64_eq :: "f64 \<Rightarrow> f64 \<Rightarrow> bool" where
  "f64_eq NaN _ = False"
| "f64_eq _ NaN = False"
| "f64_eq x y = (x = y \<or> (is_zero x \<and> is_zero y))"

definition f64_le :: "f64 \<Rightarrow> f64 \<Rightarrow> bool" where
  "f64_le x y \<longleftrightarrow> f64_lt x y \<or> f64_eq x y"

text \<open>The numbers that are doubles: a finite one is its own rounding.\<close>

fun f64_repr :: "f64 \<Rightarrow> bool" where
  "f64_repr (Fin r) = (r = 0 \<or> round_pos \<bar>r\<bar> = \<bar>r\<bar> \<and> \<bar>r\<bar> < 2 ^ 1024)"
| "f64_repr _ = True"

subsection \<open>Arithmetic\<close>

fun f64_neg :: "f64 \<Rightarrow> f64" where
  "f64_neg NaN = NaN"
| "f64_neg PosInf = NegInf"
| "f64_neg NegInf = PosInf"
| "f64_neg NegZero = Fin 0"
| "f64_neg (Fin r) = (if r = 0 then NegZero else Fin (- r))"

definition f64_add :: "f64 \<Rightarrow> f64 \<Rightarrow> f64" where
  "f64_add a b =
     (if is_nan a \<or> is_nan b then NaN
      else if is_inf a then (if is_inf b \<and> is_neg a \<noteq> is_neg b then NaN else a)
      else if is_inf b then b
      else round_f64 (is_neg a \<and> is_neg b) (val a + val b))"

definition f64_sub :: "f64 \<Rightarrow> f64 \<Rightarrow> f64" where
  "f64_sub a b = f64_add a (f64_neg b)"

definition f64_mul :: "f64 \<Rightarrow> f64 \<Rightarrow> f64" where
  "f64_mul a b =
     (if is_nan a \<or> is_nan b then NaN
      else if is_inf a \<or> is_inf b
        then (if is_zero a \<or> is_zero b then NaN else mk_inf (is_neg a \<noteq> is_neg b))
      else round_f64 (is_neg a \<noteq> is_neg b) (val a * val b))"

definition f64_div :: "f64 \<Rightarrow> f64 \<Rightarrow> f64" where
  "f64_div a b =
     (if is_nan a \<or> is_nan b then NaN
      else if is_inf a then (if is_inf b then NaN else mk_inf (is_neg a \<noteq> is_neg b))
      else if is_inf b then mk_zero (is_neg a \<noteq> is_neg b)
      else if is_zero b
        then (if is_zero a then NaN else mk_inf (is_neg a \<noteq> is_neg b))
      else round_f64 (is_neg a \<noteq> is_neg b) (val a / val b))"

text \<open>\<open>f64::round\<close>: to the nearest integer, ties away from zero.\<close>

definition round_away :: "rat \<Rightarrow> int" where
  "round_away x = (if x < 0 then - \<lfloor>- x + 1 / 2\<rfloor> else \<lfloor>x + 1 / 2\<rfloor>)"

fun f64_round :: "f64 \<Rightarrow> f64" where
  "f64_round (Fin r) = (if round_away r = 0 then mk_zero (r < 0) else Fin (of_int (round_away r)))"
| "f64_round x = x"

text \<open>\<open>x as iN\<close>: truncation, saturating at the type's limits, NaN to zero.\<close>

fun f64_to_int :: "int \<Rightarrow> int \<Rightarrow> f64 \<Rightarrow> int" where
  "f64_to_int lo hi NaN = 0"
| "f64_to_int lo hi PosInf = hi"
| "f64_to_int lo hi NegInf = lo"
| "f64_to_int lo hi NegZero = 0"
| "f64_to_int lo hi (Fin r) = clamp lo hi (if r < 0 then - \<lfloor>- r\<rfloor> else \<lfloor>r\<rfloor>)"

definition f64_of_int :: "int \<Rightarrow> f64" where
  "f64_of_int n = round_f64 False (of_int n)"

text \<open>\<open>f64::clamp\<close> for limits that are no NaN.\<close>

definition f64_clamp :: "f64 \<Rightarrow> f64 \<Rightarrow> f64 \<Rightarrow> f64" where
  "f64_clamp lo hi x = (if f64_lt x lo then lo else if f64_lt hi x then hi else x)"

subsection \<open>Rounding to integers\<close>

lemma half_even_of_int [simp]: "half_even (of_int n) = n"
  by (simp add: half_even_def)

lemma half_even_le_iff_aux: "half_even x \<le> \<lfloor>x\<rfloor> + 1" "\<lfloor>x\<rfloor> \<le> half_even x"
  by (auto simp: half_even_def Let_def)

lemma half_even_mono:
  assumes "x \<le> y"
  shows "half_even x \<le> half_even y"
proof (cases "\<lfloor>x\<rfloor> = \<lfloor>y\<rfloor>")
  case True
  with assms show ?thesis by (auto simp: half_even_def Let_def)
next
  case False
  with assms have "\<lfloor>x\<rfloor> + 1 \<le> \<lfloor>y\<rfloor>" by (meson add1_zle_eq floor_mono order_le_neq_trans)
  with half_even_le_iff_aux(1)[of x] half_even_le_iff_aux(2)[of y] show ?thesis by linarith
qed

lemma half_even_err: "\<bar>of_int (half_even x) - x\<bar> \<le> 1 / 2"
proof -
  have "of_int \<lfloor>x\<rfloor> \<le> x" "x < of_int \<lfloor>x\<rfloor> + 1" by linarith+
  then show ?thesis by (auto simp: half_even_def Let_def abs_le_iff)
qed

lemma round_away_err: "\<bar>of_int (round_away x) - x\<bar> \<le> 1 / 2"
proof -
  have f: "of_int \<lfloor>z\<rfloor> \<le> z" "z < of_int \<lfloor>z\<rfloor> + 1" for z :: rat by linarith+
  show ?thesis
    using f[of "- x + 1 / 2"] f[of "x + 1 / 2"] unfolding round_away_def abs_le_iff
    by (cases "x < 0") (simp_all del: minus_add_distrib, linarith+)
qed

lemma round_away_of_int [simp]: "round_away (of_int n) = n"
proof (cases "n < 0")
  case True
  have "\<lfloor>- (of_int n :: rat) + 1 / 2\<rfloor> = - n" by linarith
  with True show ?thesis by (simp add: round_away_def)
next
  case False
  have "\<lfloor>(of_int n :: rat) + 1 / 2\<rfloor> = n" by linarith
  with False show ?thesis by (simp add: round_away_def)
qed

lemma round_away_numeral [simp]: "round_away (numeral k) = numeral k"
  using round_away_of_int [of "numeral k"] by simp

lemma round_away_0 [simp]: "round_away 0 = 0"
  using round_away_of_int [of 0] by simp

lemma round_away_mono:
  assumes "x \<le> y"
  shows "round_away x \<le> round_away y"
proof -
  have nn: "0 \<le> \<lfloor>z + 1 / 2\<rfloor>" if "0 \<le> z" for z :: rat
    using that by linarith
  consider "y < 0" | "x < 0" "0 \<le> y" | "0 \<le> x" by linarith
  then show ?thesis
  proof cases
    case 1
    with assms have "\<lfloor>- y + 1 / 2\<rfloor> \<le> \<lfloor>- x + 1 / 2\<rfloor>" by (intro floor_mono) simp
    with 1 assms show ?thesis by (simp add: round_away_def)
  next
    case 2
    then have "0 \<le> \<lfloor>- x + 1 / 2\<rfloor>" "0 \<le> \<lfloor>y + 1 / 2\<rfloor>" using nn[of "- x"] nn[of y] by linarith+
    moreover have "\<not> y < 0" using 2 by simp
    ultimately show ?thesis using 2 unfolding round_away_def by (simp only: if_True if_False)
  next
    case 3
    with assms have "\<lfloor>x + 1 / 2\<rfloor> \<le> \<lfloor>y + 1 / 2\<rfloor>" by (intro floor_mono) simp
    with 3 assms show ?thesis by (simp add: round_away_def)
  qed
qed

text \<open>An integer less than half away is the one rounding gives.\<close>

lemma round_away_near:
  assumes "\<bar>x - of_int n\<bar> < 1 / 2"
  shows "round_away x = n"
proof -
  have "\<bar>of_int (round_away x) - (of_int n :: rat)\<bar> < 1"
    using assms round_away_err[of x] by linarith
  then have "\<bar>of_int (round_away x - n) :: rat\<bar> < 1" by simp
  then have "\<bar>round_away x - n\<bar> < 1" by (metis of_int_1 of_int_abs of_int_less_iff)
  then show ?thesis by simp
qed

subsection \<open>The binary logarithm\<close>

lemma quotient_of_pos:
  assumes "0 < x" and "quotient_of x = (n, d)"
  shows "0 < n" and "0 < d" and "x = of_int n / of_int d"
proof -
  show d: "0 < d" using assms(2) quotient_of_denom_pos by blast
  show x: "x = of_int n / of_int d" using assms(2) quotient_of_div by blast
  show "0 < n" using assms(1) d x by (simp add: zero_less_divide_iff)
qed

lemma powi_bitlen:
  assumes "0 < n"
  shows "2 powi (bitlen n - 1) \<le> (of_int n :: rat)" and "(of_int n :: rat) < 2 powi bitlen n"
proof -
  have b: "2 ^ nat (bitlen n - 1) \<le> n" "n < 2 ^ nat (bitlen n)"
    using bitlen_bounds[OF assms] by auto
  have p: "0 < bitlen n" using assms by (metis bitlen_eq_zero_iff bitlen_nonneg linorder_not_less order_le_less)
  have "(of_int (2 ^ nat (bitlen n - 1)) :: rat) \<le> of_int n" using b(1) by (simp only: of_int_le_iff)
  then show "2 powi (bitlen n - 1) \<le> (of_int n :: rat)"
    using p by (simp add: power_int_def)
  have "(of_int n :: rat) < of_int (2 ^ nat (bitlen n))" using b(2) by (simp only: of_int_less_iff)
  then show "(of_int n :: rat) < 2 powi bitlen n"
    using p by (simp add: power_int_def)
qed

lemma ilog2_bounds:
  assumes "0 < x"
  shows "2 powi ilog2 x \<le> x" and "x < 2 powi (ilog2 x + 1)"
proof -
  obtain n d where q: "quotient_of x = (n, d)" by fastforce
  note p = quotient_of_pos[OF assms q]
  let ?e = "bitlen n - bitlen d"
  have dpos: "(0 :: rat) < of_int d" using p(2) by simp
  have "2 powi (bitlen n - 1) / 2 powi bitlen d \<le> (of_int n :: rat) / of_int d"
    by (rule frac_le) (use powi_bitlen[OF p(1)] powi_bitlen[OF p(2)] dpos p(1) in auto)
  moreover have "(2 :: rat) powi (?e - 1) = 2 powi (bitlen n - 1) / 2 powi bitlen d"
    by (simp add: power_int_diff)
  ultimately have lo: "2 powi (?e - 1) \<le> x" by (simp add: p(3))
  have "(of_int n :: rat) / of_int d < 2 powi bitlen n / 2 powi (bitlen d - 1)"
    by (rule frac_less) (use powi_bitlen[OF p(1)] powi_bitlen[OF p(2)] p(1) in auto)
  moreover have "(2 :: rat) powi (?e + 1) = 2 powi bitlen n / 2 powi (bitlen d - 1)"
    by (simp add: power_int_diff power_int_add)
  ultimately have hi: "x < 2 powi (?e + 1)" by (simp add: p(3))
  from lo hi show "2 powi ilog2 x \<le> x" "x < 2 powi (ilog2 x + 1)"
    by (auto simp: ilog2_def q Let_def)
qed

lemma powi_less_iff: "(2 :: rat) powi a < 2 powi b \<longleftrightarrow> a < b"
proof
  show "(2 :: rat) powi a < 2 powi b" if "a < b"
    by (rule power_int_strict_increasing[OF that]) simp
  show "a < b" if "(2 :: rat) powi a < 2 powi b"
  proof (rule ccontr)
    assume "\<not> a < b"
    then have "(2 :: rat) powi b \<le> 2 powi a" by (intro power_int_increasing) simp_all
    with that show False by simp
  qed
qed

lemma powi_le_iff: "(2 :: rat) powi a \<le> 2 powi b \<longleftrightarrow> a \<le> b"
  by (metis linorder_not_less powi_less_iff)

lemma ilog2_unique:
  assumes "0 < x" and "2 powi e \<le> x" and "x < 2 powi (e + 1)"
  shows "ilog2 x = e"
proof -
  have "2 powi ilog2 x < (2 :: rat) powi (e + 1)" "2 powi e < (2 :: rat) powi (ilog2 x + 1)"
    using ilog2_bounds[OF assms(1)] assms by linarith+
  then show ?thesis by (simp add: powi_less_iff)
qed

lemma ilog2_mono:
  assumes "0 < x" and "x \<le> y"
  shows "ilog2 x \<le> ilog2 y"
proof -
  have "2 powi ilog2 x < (2 :: rat) powi (ilog2 y + 1)"
    using ilog2_bounds(1)[OF assms(1)] ilog2_bounds(2)[of y] assms by linarith
  then show ?thesis by (simp add: powi_less_iff)
qed

subsection \<open>Rounding positive numbers\<close>

lemma powi_of_int:
  assumes "0 \<le> k"
  shows "(2 :: rat) powi k = of_int (2 ^ nat k)"
  using assms by (simp add: power_int_def)

lemma scaled_bounds:
  assumes "0 < x"
  shows "x / 2 powi ulp_exp x < 2 powi (ilog2 x + 1 - ulp_exp x)"
    and "2 powi (ilog2 x - ulp_exp x) \<le> x / 2 powi ulp_exp x"
  using ilog2_bounds[OF assms] by (simp_all add: power_int_diff divide_strict_right_mono divide_right_mono)

lemma round_pos_nonneg:
  assumes "0 < x"
  shows "0 \<le> round_pos x"
proof -
  have "0 \<le> \<lfloor>x / 2 powi ulp_exp x\<rfloor>" using assms by simp
  then have "0 \<le> half_even (x / 2 powi ulp_exp x)"
    using half_even_le_iff_aux(2) [of "x / 2 powi ulp_exp x"] by linarith
  then show ?thesis by (simp add: round_pos_def)
qed

text \<open>The rounded number lies between the powers of two around the number.\<close>

lemma round_pos_upper:
  assumes "0 < x" and "x \<le> 2 powi k" and "ulp_exp x \<le> k"
  shows "round_pos x \<le> 2 powi k"
proof -
  have "x / 2 powi ulp_exp x \<le> 2 powi k / 2 powi ulp_exp x"
    using assms(2) by (simp add: divide_right_mono)
  also have "\<dots> = of_int (2 ^ nat (k - ulp_exp x))"
    using assms(3) powi_of_int[of "k - ulp_exp x"] by (simp add: power_int_diff)
  finally have "half_even (x / 2 powi ulp_exp x) \<le> 2 ^ nat (k - ulp_exp x)"
    using half_even_mono half_even_of_int by metis
  then have "(of_int (half_even (x / 2 powi ulp_exp x)) :: rat) \<le> 2 powi (k - ulp_exp x)"
    using assms(3) by (simp add: powi_of_int del: of_int_power)
  then have "round_pos x \<le> 2 powi (k - ulp_exp x) * 2 powi ulp_exp x"
    unfolding round_pos_def by (intro mult_right_mono) simp_all
  then show ?thesis by (simp add: power_int_diff)
qed

lemma round_pos_lower:
  assumes "0 < x" and "2 powi k \<le> x" and "ulp_exp x \<le> k"
  shows "2 powi k \<le> round_pos x"
proof -
  have "of_int (2 ^ nat (k - ulp_exp x)) = (2 :: rat) powi k / 2 powi ulp_exp x"
    using assms(3) powi_of_int[of "k - ulp_exp x"] by (simp add: power_int_diff)
  also have "\<dots> \<le> x / 2 powi ulp_exp x"
    using assms(2) by (simp add: divide_right_mono)
  finally have "2 ^ nat (k - ulp_exp x) \<le> half_even (x / 2 powi ulp_exp x)"
    using half_even_mono half_even_of_int by metis
  then have "2 powi (k - ulp_exp x) \<le> (of_int (half_even (x / 2 powi ulp_exp x)) :: rat)"
    using assms(3) by (simp add: powi_of_int del: of_int_power)
  then have "2 powi (k - ulp_exp x) * 2 powi ulp_exp x \<le> round_pos x"
    unfolding round_pos_def by (intro mult_right_mono) simp_all
  then show ?thesis by (simp add: power_int_diff)
qed

lemma round_pos_mono:
  assumes "0 < x" and "x \<le> y"
  shows "round_pos x \<le> round_pos y"
proof (cases "ulp_exp x = ulp_exp y")
  case True
  then have "x / 2 powi ulp_exp x \<le> y / 2 powi ulp_exp y"
    using assms by (simp add: divide_right_mono)
  from half_even_mono[OF this] True show ?thesis
    by (simp add: round_pos_def mult_right_mono)
next
  case False
  have le: "ilog2 x \<le> ilog2 y" by (rule ilog2_mono[OF assms])
  with False have y: "ulp_exp y = ilog2 y - 52" "ulp_exp x < ulp_exp y" "ilog2 x < ilog2 y"
    by (auto simp: ulp_exp_def)
  have ypos: "0 < y" using assms by linarith
  have "x < 2 powi (ilog2 x + 1)" by (rule ilog2_bounds(2)[OF assms(1)])
  also have "(2 :: rat) powi (ilog2 x + 1) \<le> 2 powi ilog2 y" using y(3) by (simp add: powi_le_iff)
  finally have "round_pos x \<le> 2 powi ilog2 y"
    using assms(1) y by (intro round_pos_upper) simp_all
  also have "\<dots> \<le> round_pos y"
    by (rule round_pos_lower[OF ypos ilog2_bounds(1)[OF ypos]]) (simp add: y(1))
  finally show ?thesis .
qed

lemma round_pos_err:
  assumes "0 < x"
  shows "\<bar>round_pos x - x\<bar> \<le> 2 powi ulp_exp x / 2"
proof -
  let ?u = "2 powi ulp_exp x :: rat"
  have u: "0 < ?u" by simp
  have "round_pos x - x = (of_int (half_even (x / ?u)) - x / ?u) * ?u"
    by (simp add: round_pos_def algebra_simps)
  then have "\<bar>round_pos x - x\<bar> = \<bar>of_int (half_even (x / ?u)) - x / ?u\<bar> * ?u"
    by (simp add: abs_mult)
  also have "\<dots> \<le> 1 / 2 * ?u"
    by (rule mult_right_mono[OF half_even_err]) simp
  finally show ?thesis by simp
qed

text \<open>Relative error of at most \<open>2 ^ -53\<close> for a number that is not subnormal.\<close>

lemma round_pos_rel_err:
  assumes "2 powi (- 1022) \<le> x"
  shows "\<bar>round_pos x - x\<bar> \<le> x / 2 ^ 53"
proof -
  have x: "0 < x"
    using assms by (meson less_le_trans zero_less_power_int zero_less_numeral)
  have "2 powi (- 1022) < (2 :: rat) powi (ilog2 x + 1)"
    using assms ilog2_bounds(2)[OF x] by linarith
  then have "- 1022 < ilog2 x + 1" by (simp only: powi_less_iff)
  then have e: "ulp_exp x = ilog2 x - 52" by (simp add: ulp_exp_def)
  have "2 powi ulp_exp x / 2 = (2 powi ilog2 x :: rat) / 2 ^ 53"
    by (simp add: e power_int_diff)
  also have "\<dots> \<le> x / 2 ^ 53"
    using ilog2_bounds(1)[OF x] by (simp add: divide_right_mono)
  finally show ?thesis using round_pos_err[OF x] by linarith
qed

text \<open>Rounding changes no number with at most 53 significant bits.\<close>

lemma round_pos_exact:
  assumes "0 < n" and "n < 2 ^ 53" and "- 1074 \<le> k"
  shows "round_pos (of_int n * 2 powi k) = of_int n * 2 powi k"
proof -
  let ?x = "of_int n * 2 powi k :: rat"
  have xpos: "0 < ?x" using assms(1) by simp
  have "?x < 2 powi 53 * 2 powi k"
    using assms(2) by (intro mult_strict_right_mono) (simp_all flip: of_int_power)
  moreover have "(2 :: rat) powi (53 + k) = 2 powi 53 * 2 powi k" by (rule power_int_add) simp
  ultimately have "2 powi ilog2 ?x < (2 :: rat) powi (53 + k)"
    using ilog2_bounds(1)[OF xpos] by linarith
  then have le: "ulp_exp ?x \<le> k" using assms(3) by (simp only: powi_less_iff ulp_exp_def)
  then have "?x / 2 powi ulp_exp ?x = of_int (n * 2 ^ nat (k - ulp_exp ?x))"
    using powi_of_int[of "k - ulp_exp ?x"] by (simp add: power_int_diff flip: times_divide_eq_right)
  then have "round_pos ?x = ?x / 2 powi ulp_exp ?x * 2 powi ulp_exp ?x"
    by (simp only: round_pos_def half_even_of_int)
  then show ?thesis by simp
qed

lemma round_pos_int:
  assumes "0 < n" and "n \<le> 2 ^ 53"
  shows "round_pos (of_int n) = of_int n"
proof (cases "n = 2 ^ 53")
  case True
  then show ?thesis using round_pos_exact[of 1 53] by simp
next
  case False
  then show ?thesis using round_pos_exact[of n 0] assms by simp
qed

subsection \<open>Rounding to \<open>f64\<close>\<close>

lemma round_f64_int [simp]:
  assumes "\<bar>n\<bar> \<le> 2 ^ 53"
  shows "round_f64 neg (of_int n) = (if n = 0 then mk_zero neg else Fin (of_int n))"
proof (cases "n = 0")
  case False
  have r: "round_pos \<bar>of_int n\<bar> = of_int \<bar>n\<bar>"
    using round_pos_int[of "\<bar>n\<bar>"] False assms by simp
  have "of_int \<bar>n\<bar> \<le> (of_int (2 ^ 53) :: rat)" using assms by (simp only: of_int_le_iff)
  also have "\<dots> < 2 ^ 1024" by simp
  finally have "\<not> (2 :: rat) ^ 1024 \<le> of_int \<bar>n\<bar>" by linarith
  with False show ?thesis by (simp add: round_f64_def Let_def r)
qed (simp add: round_f64_def)

lemma f64_of_int_exact: "\<bar>n\<bar> \<le> 2 ^ 53 \<Longrightarrow> f64_of_int n = Fin (of_int n)"
  by (simp add: f64_of_int_def mk_zero_def)

lemma round_f64_Fin:
  assumes "0 < x" and "round_pos x < 2 ^ 1024" and "round_pos x \<noteq> 0"
  shows "round_f64 neg x = Fin (round_pos x)" and "round_f64 neg (- x) = Fin (- round_pos x)"
  using assms by (simp_all add: round_f64_def Let_def)

text \<open>The result of rounding a positive number between two integers of 53 bits stays between.\<close>

lemma round_f64_between:
  assumes "of_int a \<le> x" and "x \<le> of_int b" and "0 < a" and "b \<le> 2 ^ 53"
  shows "\<exists>r. round_f64 neg x = Fin r \<and> round_f64 neg (- x) = Fin (- r) \<and>
             r = round_pos x \<and> of_int a \<le> r \<and> r \<le> of_int b"
proof -
  have apos: "(0 :: rat) < of_int a" using assms(3) by simp
  then have x: "0 < x" using assms(1) by linarith
  have ab: "a \<le> b" using assms(1,2) by (meson of_int_le_iff order_trans)
  have a: "of_int a \<le> round_pos x"
    using round_pos_mono[OF apos assms(1)] round_pos_int[of a] assms(3,4) ab by simp
  have b: "round_pos x \<le> of_int b"
    using round_pos_mono[OF x assms(2)] round_pos_int[of b] assms(3,4) ab by simp
  have "(of_int b :: rat) \<le> of_int (2 ^ 53)" using assms(4) by (simp only: of_int_le_iff)
  also have "\<dots> < 2 ^ 1024" by simp
  finally have "round_pos x < 2 ^ 1024" using b by linarith
  with x a b apos show ?thesis by (simp add: round_f64_Fin)
qed

lemma f64_repr_int: "\<bar>n\<bar> \<le> 2 ^ 53 \<Longrightarrow> f64_repr (Fin (of_int n))"
proof (cases "n = 0")
  case False
  assume n: "\<bar>n\<bar> \<le> 2 ^ 53"
  then have "round_pos (of_int \<bar>n\<bar>) = of_int \<bar>n\<bar>" using False by (intro round_pos_int) auto
  moreover have "of_int \<bar>n\<bar> \<le> (of_int (2 ^ 53) :: rat)" using n by (simp only: of_int_le_iff)
  ultimately show ?thesis by simp
qed simp

lemma f64_repr_numeral: "numeral k \<le> (2 ^ 53 :: int) \<Longrightarrow> f64_repr (Fin (numeral k))"
  using f64_repr_int [of "numeral k"] by simp

lemma round_pos_1 [simp]: "round_pos 1 = 1"
  using round_pos_int [of 1] by simp

end
