(* ===== verification/LinkTime.thy ===== *)
theory LinkTime
  imports Prelude F64
begin

text \<open>
  The time helpers of \<open>src/link/mod.rs\<close>: \<open>micros\<close>, \<open>duration_nanos\<close>,
  \<open>duration_from_nanos\<close> and \<open>round_ratio\<close>.

  \<open>chrono::Duration\<close> is a count of nanoseconds. The functions of the third-party
  crates (\<open>chrono\<close>'s accessors and constructors, \<open>num_traits\<close>' decoding of a
  double) are fields of the record \<open>ext\<close>, an argument of every definition that
  calls them; \<open>ext_ok\<close> states what their documentation promises, and \<open>std_ext\<close>
  is a concrete record with these laws.
\<close>

subsection \<open>The third-party functions\<close>

type_synonym duration = int

record ext =
  dur_min :: duration
  dur_max :: duration
  num_seconds :: "duration \<Rightarrow> int"
  subsec_nanos :: "duration \<Rightarrow> int"
  num_microseconds :: "duration \<Rightarrow> int option"
  of_seconds :: "int \<Rightarrow> duration"
  of_nanoseconds :: "int \<Rightarrow> duration"
  of_microseconds :: "int \<Rightarrow> duration"
  dur_add :: "duration \<Rightarrow> duration \<Rightarrow> duration"
  dur_neg :: "duration \<Rightarrow> duration"
  integer_decode :: "f64 \<Rightarrow> int \<times> int \<times> int"

abbreviation max_nanos :: int where "max_nanos \<equiv> 9223372036854775807000000"

definition valid_dur :: "ext \<Rightarrow> duration \<Rightarrow> bool" where
  "valid_dur E d \<longleftrightarrow> dur_min E \<le> d \<and> d \<le> dur_max E"

text \<open>
  \<open>Duration::MIN\<close> and \<open>MAX\<close> are \<open>i64::MAX\<close> milliseconds either way; the accessors
  truncate towards zero; \<open>num_microseconds\<close> is \<open>None\<close> when the count does not fit \<open>i64\<close>;
  a constructor, a sum or a negation is exact when its value is a duration.
\<close>

definition chrono_ok :: "ext \<Rightarrow> bool" where
  "chrono_ok E \<longleftrightarrow>
     dur_min E = - max_nanos \<and> dur_max E = max_nanos
   \<and> (\<forall>d. valid_dur E d \<longrightarrow> num_seconds E d = d sdiv 1000000000)
   \<and> (\<forall>d. valid_dur E d \<longrightarrow> subsec_nanos E d = d smod 1000000000)
   \<and> (\<forall>d. valid_dur E d \<longrightarrow> num_microseconds E d = checked_i64 (d sdiv 1000))
   \<and> (\<forall>s. valid_dur E (s * 1000000000) \<longrightarrow> of_seconds E s = s * 1000000000)
   \<and> (\<forall>n. in_i64 n \<longrightarrow> of_nanoseconds E n = n)
   \<and> (\<forall>m. in_i64 m \<longrightarrow> of_microseconds E m = m * 1000)
   \<and> (\<forall>a b. valid_dur E a \<longrightarrow> valid_dur E b \<longrightarrow> valid_dur E (a + b) \<longrightarrow> dur_add E a b = a + b)
   \<and> (\<forall>d. valid_dur E d \<longrightarrow> dur_neg E d = - d)"

text \<open>
  \<open>integer_decode\<close> of a finite double: mantissa, exponent and sign with
  \<open>x = sign * mantissa * 2 powi exponent\<close>, the mantissa below \<open>2 ^ 53\<close> and zero only
  for zero, the exponent at least \<open>- 1075\<close> and at most \<open>971\<close>, and the mantissa of a number
  without fractional bits normalised.
\<close>

definition decode_ok :: "ext \<Rightarrow> bool" where
  "decode_ok E \<longleftrightarrow>
     (\<forall>x m e s. is_finite x \<and> f64_repr x \<longrightarrow> integer_decode E x = (m, e, s) \<longrightarrow>
        val x = of_int (s * m) * 2 powi e \<and> 0 \<le> m \<and> m < 2 ^ 53
        \<and> s = (if is_neg x then - 1 else 1) \<and> - 1075 \<le> e \<and> e \<le> 971
        \<and> (0 \<le> e \<longrightarrow> 2 ^ 52 \<le> m))"

definition ext_ok :: "ext \<Rightarrow> bool" where
  "ext_ok E \<longleftrightarrow> chrono_ok E \<and> decode_ok E"

subsection \<open>The helpers\<close>

definition micros :: "ext \<Rightarrow> duration \<Rightarrow> int" where
  "micros E d =
     (case num_microseconds E d of
        Some m \<Rightarrow> m
      | None \<Rightarrow> (if d < 0 then i64_min else i64_max))"

definition duration_nanos :: "ext \<Rightarrow> duration \<Rightarrow> int" where
  "duration_nanos E d = num_seconds E d * 1000000000 + subsec_nanos E d"

definition duration_from_nanos :: "ext \<Rightarrow> int \<Rightarrow> duration" where
  "duration_from_nanos E nanos =
     (let nanos = clamp (duration_nanos E (dur_min E)) (duration_nanos E (dur_max E)) nanos
      in dur_add E (of_seconds E (nanos sdiv 1000000000)) (of_nanoseconds E (nanos smod 1000000000)))"

definition round_ratio :: "int \<Rightarrow> int \<Rightarrow> int" where
  "round_ratio numerator denominator =
     (if denominator = 0
      then (if numerator < 0 then i128_min else if numerator = 0 then 0 else i128_max)
      else let quotient = numerator sdiv denominator;
               remainder = numerator smod denominator
           in if \<bar>remainder\<bar> \<ge> div_ceil \<bar>denominator\<bar> 2
              then quotient + (if (numerator < 0) = (denominator < 0) then 1 else - 1)
              else quotient)"

subsection \<open>Durations\<close>

lemma chrono_limits [simp]:
  assumes "chrono_ok E"
  shows "dur_min E = - max_nanos" and "dur_max E = max_nanos"
  using assms by (simp_all add: chrono_ok_def)

lemma valid_dur_iff: "chrono_ok E \<Longrightarrow> valid_dur E d \<longleftrightarrow> \<bar>d\<bar> \<le> max_nanos"
  by (auto simp: valid_dur_def)

lemma chrono_laws:
  assumes "chrono_ok E"
  shows "valid_dur E d \<Longrightarrow> num_seconds E d = d sdiv 1000000000"
    and "valid_dur E d \<Longrightarrow> subsec_nanos E d = d smod 1000000000"
    and "valid_dur E d \<Longrightarrow> num_microseconds E d = checked_i64 (d sdiv 1000)"
    and "valid_dur E (s * 1000000000) \<Longrightarrow> of_seconds E s = s * 1000000000"
    and "in_i64 n \<Longrightarrow> of_nanoseconds E n = n"
    and "in_i64 n \<Longrightarrow> of_microseconds E n = n * 1000"
    and "valid_dur E a \<Longrightarrow> valid_dur E b \<Longrightarrow> valid_dur E (a + b) \<Longrightarrow> dur_add E a b = a + b"
    and "valid_dur E d \<Longrightarrow> dur_neg E d = - d"
  using assms unfolding chrono_ok_def by blast+

lemma duration_nanos_id [simp]:
  assumes "chrono_ok E" and "valid_dur E d"
  shows "duration_nanos E d = d"
  using sdiv_smod_sum [of d 1000000000]
  by (simp only: duration_nanos_def chrono_laws [OF assms(1)] assms)

lemma valid_limits [simp]:
  assumes "chrono_ok E"
  shows "valid_dur E (- max_nanos)" and "valid_dur E max_nanos" and "valid_dur E 0"
  using assms by (simp_all add: valid_dur_def)

lemma smod_parts_bound:
  shows "\<bar>(n :: int) sdiv c * c\<bar> \<le> \<bar>n\<bar>" and "\<bar>(n :: int) smod c\<bar> \<le> \<bar>n\<bar>"
proof -
  have *: "\<bar>n\<bar> = \<bar>n\<bar> div \<bar>c\<bar> * \<bar>c\<bar> + \<bar>n\<bar> mod \<bar>c\<bar>" by simp
  have "0 \<le> \<bar>n\<bar> mod \<bar>c\<bar>" by (cases "c = 0") auto
  moreover have "0 \<le> \<bar>n\<bar> div \<bar>c\<bar> * \<bar>c\<bar>"
    by (cases "c = 0") (auto simp: pos_imp_zdiv_nonneg_iff)
  moreover have "\<bar>n sdiv c * c\<bar> \<le> \<bar>n\<bar> div \<bar>c\<bar> * \<bar>c\<bar>"
    by (cases "c = 0"; cases "n = 0")
      (auto simp: signed_divide_int_def abs_mult abs_sgn_eq pos_imp_zdiv_nonneg_iff)
  moreover have "\<bar>n smod c\<bar> \<le> \<bar>n\<bar> mod \<bar>c\<bar>"
    by (cases "c = 0"; cases "n = 0") (auto simp: smod_int_alt_def abs_mult abs_sgn_eq)
  ultimately show "\<bar>n sdiv c * c\<bar> \<le> \<bar>n\<bar>" and "\<bar>n smod c\<bar> \<le> \<bar>n\<bar>" using * by linarith+
qed

lemma duration_from_nanos_clamp:
  assumes "chrono_ok E"
  shows "duration_from_nanos E n = clamp (- max_nanos) max_nanos n"
proof -
  define m where "m = clamp (- max_nanos) max_nanos n"
  have m: "\<bar>m\<bar> \<le> max_nanos" by (auto simp: m_def clamp_def)
  have v: "valid_dur E (m sdiv 1000000000 * 1000000000)" "valid_dur E (m smod 1000000000)"
    "valid_dur E m"
    using smod_parts_bound [of m 1000000000] m by (simp_all add: valid_dur_iff assms)
  have "in_i64 (m smod 1000000000)"
    using abs_smod_less [of 1000000000 m] by (auto simp: in_i64_def)
  then have "dur_add E (of_seconds E (m sdiv 1000000000)) (of_nanoseconds E (m smod 1000000000)) = m"
    using v sdiv_smod_sum [of m 1000000000] by (simp add: chrono_laws [OF assms])
  then show ?thesis
    by (simp add: duration_from_nanos_def assms flip: m_def)
qed

lemma duration_from_nanos_id [simp]:
  assumes "chrono_ok E" and "valid_dur E n"
  shows "duration_from_nanos E n = n"
  using assms by (simp add: duration_from_nanos_clamp valid_dur_def)

lemma valid_duration_from_nanos [simp]: "chrono_ok E \<Longrightarrow> valid_dur E (duration_from_nanos E n)"
  by (simp add: duration_from_nanos_clamp valid_dur_def clamp_def)

lemma micros_sat64:
  assumes "chrono_ok E" and "valid_dur E d"
  shows "micros E d = sat64 (d sdiv 1000)"
proof -
  have "d < 0 \<Longrightarrow> d sdiv 1000 \<le> 0" "0 \<le> d \<Longrightarrow> 0 \<le> d sdiv 1000"
    by (auto simp: signed_divide_int_def sgn_if pos_imp_zdiv_nonneg_iff)
  then show ?thesis using assms
    by (auto simp: micros_def chrono_laws checked_i64_def in_i64_def sat64_def clamp_def)
qed

lemma micros_in_i64 [simp]:
  assumes "chrono_ok E" and "valid_dur E d"
  shows "in_i64 (micros E d)"
  using assms by (simp add: micros_sat64)

subsection \<open>Rounding a ratio\<close>

lemma int_div_less:
  assumes "0 < (c :: int)" and "a < b * c"
  shows "a div c < b"
proof (rule ccontr)
  assume "\<not> a div c < b"
  then have "b * c \<le> a div c * c" using assms by (intro mult_right_mono) auto
  then show False using assms div_mult_mod_eq [of a c] pos_mod_sign [of c a] by linarith
qed

lemma int_div_less_iff:
  assumes "0 < (c :: int)"
  shows "a div c < b \<longleftrightarrow> a < b * c"
proof
  assume "a div c < b"
  then have "(a div c + 1) * c \<le> b * c" using assms by (intro mult_right_mono) auto
  then show "a < b * c"
    using div_mult_mod_eq [of a c] pos_mod_bound [OF assms, of a]
    unfolding distrib_right mult_1 by linarith
qed (use assms int_div_less in blast)

text \<open>The closed form of rounding half away from zero.\<close>

lemma round_away_ratio:
  assumes "d \<noteq> 0"
  shows "round_away (of_int n / of_int d) = sgn n * sgn d * ((2 * \<bar>n\<bar> + \<bar>d\<bar>) div (2 * \<bar>d\<bar>))"
proof -
  have pos: "\<lfloor>of_int a / of_int b + (1 :: rat) / 2\<rfloor> = (2 * a + b) div (2 * b)" if "0 < b" for a b :: int
  proof -
    have "of_int a / of_int b + (1 :: rat) / 2 = of_int (2 * a + b) / of_int (2 * b)"
      using that by (simp add: field_simps)
    then show ?thesis by (simp only: floor_divide_of_int_eq)
  qed
  consider "0 < d" | "d < 0" using assms by linarith
  then show ?thesis
  proof cases
    case 1
    then show ?thesis using pos [of d n] pos [of d "- n"]
      by (cases "n < 0") (auto simp: round_away_def sgn_if divide_less_0_iff)
  next
    case 2
    then show ?thesis using pos [of "- d" n] pos [of "- d" "- n"]
      by (cases "0 < n") (auto simp: round_away_def sgn_if divide_less_0_iff)
  qed
qed

lemma half_up_div:
  assumes "0 < (b :: int)" and "0 \<le> a"
  shows "(2 * a + b) div (2 * b) = a div b + (if div_ceil b 2 \<le> a mod b then 1 else 0)"
proof -
  have r: "0 \<le> a mod b" "a mod b < b" using assms by auto
  have "2 * (q * b + r) + b = (2 * r + b) + q * (2 * b)" for q r
    by (simp add: algebra_simps)
  from this [of "a div b" "a mod b"]
  have "2 * a + b = (2 * (a mod b) + b) + (a div b) * (2 * b)"
    by (simp only: div_mult_mod_eq)
  then have "(2 * a + b) div (2 * b) = a div b + (2 * (a mod b) + b) div (2 * b)"
    using assms by (subst \<open>2 * a + b = _\<close>, intro div_mult_self1) simp
  moreover have "(2 * (a mod b) + b) div (2 * b) = (if div_ceil b 2 \<le> a mod b then 1 else 0)"
    using r by (auto simp: div_ceil_def int_div_pos_eq [of _ _ 1 "2 * (a mod b) - b"]
        intro: div_pos_pos_trivial)
  ultimately show ?thesis by simp
qed

text \<open>\<open>round_ratio\<close> is exact division followed by one rounding.\<close>

lemma round_ratio_round_away:
  assumes "d \<noteq> 0"
  shows "round_ratio n d = round_away (of_int n / of_int d)"
proof -
  have "div_ceil \<bar>d\<bar> 2 > 0" using assms by (simp add: div_ceil_def)
  then show ?thesis
    using assms half_up_div [of "\<bar>d\<bar>" "\<bar>n\<bar>"]
    by (auto simp: round_ratio_def round_away_ratio Let_def signed_divide_int_def smod_int_alt_def
        abs_mult abs_sgn_eq sgn_if)
qed

lemma round_ratio_closed:
  assumes "d \<noteq> 0"
  shows "round_ratio n d = sgn n * sgn d * ((2 * \<bar>n\<bar> + \<bar>d\<bar>) div (2 * \<bar>d\<bar>))"
  by (simp only: round_ratio_round_away [OF assms] round_away_ratio [OF assms])

lemma round_ratio_pos:
  assumes "0 < d" and "0 \<le> n"
  shows "round_ratio n d = (2 * n + d) div (2 * d)"
  using assms by (cases "n = 0") (simp_all add: round_ratio_closed div_pos_pos_trivial)

lemma round_ratio_minus [simp]: "d \<noteq> 0 \<Longrightarrow> round_ratio (- n) d = - round_ratio n d"
  by (simp add: round_ratio_closed)

lemma round_ratio_minus_den: "d \<noteq> 0 \<Longrightarrow> round_ratio n (- d) = - round_ratio n d"
  by (simp add: round_ratio_closed)

lemma round_ratio_0 [simp]: "round_ratio 0 d = 0"
  by (cases "d = 0") (simp add: round_ratio_def, simp add: round_ratio_closed)

lemma round_ratio_mult [simp]: "d \<noteq> 0 \<Longrightarrow> round_ratio (k * d) d = k"
  by (simp add: round_ratio_round_away)

lemma round_ratio_err:
  assumes "d \<noteq> 0"
  shows "2 * \<bar>round_ratio n d * d - n\<bar> \<le> \<bar>d\<bar>"
proof -
  have d: "(0 :: rat) < \<bar>of_int d\<bar>" using assms by simp
  have "\<bar>of_int (round_ratio n d) - of_int n / of_int d\<bar> \<le> (1 :: rat) / 2"
    unfolding round_ratio_round_away [OF assms] by (rule round_away_err)
  then have "\<bar>of_int (round_ratio n d) - of_int n / of_int d\<bar> * \<bar>of_int d\<bar> \<le> 1 / 2 * \<bar>of_int d :: rat\<bar>"
    by (rule mult_right_mono) simp
  then have "\<bar>of_int (round_ratio n d) * of_int d - of_int n\<bar> \<le> 1 / 2 * \<bar>of_int d :: rat\<bar>"
    using assms by (simp add: left_diff_distrib flip: abs_mult)
  then have "of_int (2 * \<bar>round_ratio n d * d - n\<bar>) \<le> (of_int \<bar>d\<bar> :: rat)" by simp
  then show ?thesis by (simp only: of_int_le_iff)
qed

lemma round_ratio_near:
  assumes "2 * \<bar>n - b * d\<bar> < \<bar>d\<bar>"
  shows "round_ratio n d = b"
proof -
  have d: "d \<noteq> 0" using assms by auto
  have "of_int (2 * \<bar>n - b * d\<bar>) < (of_int \<bar>d\<bar> :: rat)" using assms by (simp only: of_int_less_iff)
  then have lt: "2 * \<bar>of_int n - of_int b * of_int d\<bar> < \<bar>of_int d :: rat\<bar>" by simp
  have eq: "of_int n / of_int d - of_int b = ((of_int n - of_int b * of_int d) / of_int d :: rat)"
    using d by (simp add: diff_divide_distrib)
  have "\<bar>of_int n / of_int d - of_int b\<bar> < (1 / 2 :: rat)"
    unfolding eq abs_divide using lt d by (simp add: divide_less_eq)
  then show ?thesis unfolding round_ratio_round_away [OF d] by (rule round_away_near)
qed

lemma abs_round_ratio_le:
  assumes "d \<noteq> 0"
  shows "\<bar>round_ratio n d\<bar> \<le> \<bar>n\<bar>"
proof (cases "n = 0")
  case False
  have "2 * \<bar>n\<bar> * 1 \<le> 2 * \<bar>n\<bar> * \<bar>d\<bar>" using assms by (intro mult_left_mono) auto
  then have "2 * \<bar>n\<bar> + \<bar>d\<bar> < (\<bar>n\<bar> + 1) * (2 * \<bar>d\<bar>)"
    using assms by (simp add: distrib_right mult.left_commute mult.assoc del: mult_le_cancel_left)
  then have "(2 * \<bar>n\<bar> + \<bar>d\<bar>) div (2 * \<bar>d\<bar>) < \<bar>n\<bar> + 1"
    using assms by (intro int_div_less) simp_all
  then show ?thesis using assms False
    by (simp add: round_ratio_closed abs_mult abs_sgn_eq pos_imp_zdiv_nonneg_iff)
qed simp

lemma round_ratio_in_i128:
  assumes "in_i128 n" and "d \<noteq> 0" and "n \<noteq> i128_min"
  shows "in_i128 (round_ratio n d)"
  using assms abs_round_ratio_le [of d n] by (auto simp: in_i128_def)

lemma round_ratio_mono:
  assumes "0 < d" and "m \<le> n"
  shows "round_ratio m d \<le> round_ratio n d"
  using assms by (simp add: round_ratio_round_away round_away_mono divide_right_mono)

subsection \<open>A concrete instance of the third-party functions\<close>

fun std_decode :: "f64 \<Rightarrow> int \<times> int \<times> int" where
  "std_decode (Fin r) =
     (if r = 0 then (0, - 1075, 1)
      else (\<lfloor>\<bar>r\<bar> / 2 powi ulp_exp \<bar>r\<bar>\<rfloor>, ulp_exp \<bar>r\<bar>, if r < 0 then - 1 else 1))"
| "std_decode NegZero = (0, - 1075, - 1)"
| "std_decode _ = (0, 0, 1)"

definition std_ext :: ext where
  "std_ext =
     \<lparr>dur_min = - max_nanos, dur_max = max_nanos,
      num_seconds = (\<lambda>d. d sdiv 1000000000), subsec_nanos = (\<lambda>d. d smod 1000000000),
      num_microseconds = (\<lambda>d. checked_i64 (d sdiv 1000)),
      of_seconds = (\<lambda>s. s * 1000000000), of_nanoseconds = (\<lambda>n. n),
      of_microseconds = (\<lambda>m. m * 1000), dur_add = (+), dur_neg = uminus, integer_decode = std_decode\<rparr>"

lemma std_chrono_ok [simp]: "chrono_ok std_ext"
  by (simp add: chrono_ok_def std_ext_def)

lemma std_decode_ok [simp]: "decode_ok std_ext"
proof -
  have "val x = of_int (s * m) * 2 powi e \<and> 0 \<le> m \<and> m < 2 ^ 53
      \<and> s = (if is_neg x then - 1 else 1) \<and> - 1075 \<le> e \<and> e \<le> 971 \<and> (0 \<le> e \<longrightarrow> 2 ^ 52 \<le> m)"
    if fin: "is_finite x" and rep: "f64_repr x" and dec: "std_decode x = (m, e, s)" for x m e s
  proof (cases x)
    case (Fin r)
    show ?thesis
    proof (cases "r = 0")
      case False
      define a where "a = \<bar>r\<bar>"
      have a: "0 < a" using False by (simp add: a_def)
      have rnd: "round_pos a = a" and lim: "a < 2 powi 1024" using rep Fin False by (simp_all add: a_def)
      have m: "m = \<lfloor>a / 2 powi e\<rfloor>" and e: "e = ulp_exp a" and s: "s = (if r < 0 then - 1 else 1)"
        using dec Fin False by (auto simp: a_def)
      have "a / 2 powi e = of_int (half_even (a / 2 powi e))"
        using rnd by (simp add: round_pos_def e divide_eq_eq)
      then have am: "a / 2 powi e = of_int m" unfolding m by (metis floor_of_int)
      then have av: "a = of_int m * 2 powi e" by (simp add: divide_eq_eq)
      have "2 powi ilog2 a < (2 :: rat) powi 1024" using ilog2_bounds(1) [OF a] lim by linarith
      then have il: "ilog2 a < 1024" by (simp only: powi_less_iff)
      have "(of_int m :: rat) < 2 powi (ilog2 a + 1 - e)" using scaled_bounds(1) [OF a] am e by simp
      also have "\<dots> \<le> 2 powi 53" by (simp add: powi_le_iff e ulp_exp_def del: power_int_numeral)
      finally have "of_int m < (of_int (2 ^ 53) :: rat)" by simp
      then have "m < 2 ^ 53" by (simp only: of_int_less_iff)
      moreover have "2 ^ 52 \<le> m" if "0 \<le> e"
      proof -
        have "ilog2 a - e = 52" using that by (simp add: e ulp_exp_def)
        then have "of_int (2 ^ 52) \<le> (of_int m :: rat)" using scaled_bounds(2) [OF a] am e by simp
        then show ?thesis by (simp only: of_int_le_iff)
      qed
      moreover have "(0 :: rat) \<le> of_int m" unfolding am [symmetric] using a by simp
      moreover have "val x = of_int (s * m) * 2 powi e" using av Fin s by (auto simp: a_def)
      ultimately show ?thesis using Fin s il by (auto simp: e ulp_exp_def)
    qed (use Fin dec in auto)
  qed (use fin dec in \<open>auto simp: is_finite_def\<close>)
  moreover have "integer_decode std_ext = std_decode" by (simp add: std_ext_def)
  ultimately show ?thesis unfolding decode_ok_def by (simp only:) blast
qed

lemma std_ext_ok [simp]: "ext_ok std_ext"
  by (simp add: ext_ok_def)

end
