(* ===== verification/Encoding.thy ===== *)
theory Encoding
  imports Prelude
begin

text \<open>
  The wire encoding layer, \<open>src/encoding.rs\<close>: big-endian fixed-width integers, booleans,
  byte arrays, tuples and IPv4 addresses. \<open>encode_to\<close> appends to a buffer, \<open>decode_from\<close>
  returns the value and the number of bytes it consumed. The traits \<open>Encode\<close> and
  \<open>Decode\<close> are the locale \<open>wire_codec\<close>: what every implementation promises
  (encoding succeeds, decoding what was encoded gives it back whatever follows,
  decoding never claims more bytes than it was given). Tuples are codecs whenever their
  parts are. The encoding of \<open>f64\<close> (bit patterns, used by no message of the crate) is left out.
\<close>

subsection \<open>Errors\<close>

datatype encode_error = StringTooLong nat | MessageTooLarge nat nat

datatype decode_error = UnexpectedEnd | InvalidBool u8

type_synonym 'a encoder = "'a \<Rightarrow> bytes \<Rightarrow> encode_error + bytes"
type_synonym 'a decoder = "bytes \<Rightarrow> decode_error + 'a \<times> nat"

subsection \<open>Big-endian bytes\<close>

text \<open>\<open>to_be_bytes\<close> and \<open>from_be_bytes\<close> of the unsigned integer of \<open>n\<close> bytes.\<close>

fun be_bytes :: "nat \<Rightarrow> nat \<Rightarrow> bytes" where
  "be_bytes 0 x = []"
| "be_bytes (Suc n) x = word_of_nat (x div 256 ^ n) # be_bytes n x"

definition from_be :: "bytes \<Rightarrow> nat" where
  "from_be bs = foldl (\<lambda>a b. a * 256 + unat b) 0 bs"

subsection \<open>Helpers: \<open>encode_to_vec\<close> and \<open>decode_from_slice\<close>\<close>

definition encode_to_vec :: "'a encoder \<Rightarrow> 'a \<Rightarrow> encode_error + bytes" where
  "encode_to_vec enc v = enc v []"

definition decode_from_slice :: "'a decoder \<Rightarrow> bytes \<Rightarrow> decode_error + 'a \<times> nat" where
  "decode_from_slice dec bs = dec bs"

subsection \<open>Primitive implementations\<close>

definition encode_u8 :: "u8 encoder" where
  "encode_u8 v out = Inr (out @ [v])"

definition decode_u8 :: "u8 decoder" where
  "decode_u8 bs = (if bs = [] then Inl UnexpectedEnd else Inr (bs ! 0, 1))"

definition encode_u16 :: "u16 encoder" where
  "encode_u16 v out = Inr (out @ be_bytes 2 (unat v))"

definition decode_u16 :: "u16 decoder" where
  "decode_u16 bs =
     (if length bs < 2 then Inl UnexpectedEnd
      else Inr (word_of_nat (from_be [bs ! 0, bs ! 1]), 2))"

definition encode_i16 :: "i16 encoder" where
  "encode_i16 v out = Inr (out @ be_bytes 2 (unat v))"

definition decode_i16 :: "i16 decoder" where
  "decode_i16 bs =
     (if length bs < 2 then Inl UnexpectedEnd
      else Inr (word_of_nat (from_be [bs ! 0, bs ! 1]), 2))"

definition encode_u32 :: "u32 encoder" where
  "encode_u32 v out = Inr (out @ be_bytes 4 (unat v))"

definition decode_u32 :: "u32 decoder" where
  "decode_u32 bs =
     (if length bs < 4 then Inl UnexpectedEnd
      else Inr (word_of_nat (from_be [bs ! 0, bs ! 1, bs ! 2, bs ! 3]), 4))"

definition encode_u64 :: "u64 encoder" where
  "encode_u64 v out = Inr (out @ be_bytes 8 (unat v))"

definition decode_u64 :: "u64 decoder" where
  "decode_u64 bs =
     (if length bs < 8 then Inl UnexpectedEnd
      else Inr (word_of_nat (from_be (take 8 bs)), 8))"

definition encode_i64 :: "i64 encoder" where
  "encode_i64 v out = Inr (out @ be_bytes 8 (unat v))"

definition decode_i64 :: "i64 decoder" where
  "decode_i64 bs =
     (if length bs < 8 then Inl UnexpectedEnd
      else Inr (word_of_nat (from_be (take 8 bs)), 8))"

definition encode_bool :: "bool encoder" where
  "encode_bool v out = Inr (out @ [if v then 1 else 0])"

definition decode_bool :: "bool decoder" where
  "decode_bool bs =
     (if bs = [] then Inl UnexpectedEnd
      else if bs ! 0 = 0 then Inr (False, 1)
      else if bs ! 0 = 1 then Inr (True, 1)
      else Inl (InvalidBool (bs ! 0)))"

text \<open>A byte array \<open>[u8; N]\<close> is a list of length \<open>N\<close>.\<close>

definition encode_array :: "bytes encoder" where
  "encode_array v out = Inr (out @ v)"

definition decode_array :: "nat \<Rightarrow> bytes decoder" where
  "decode_array n bs = (if length bs < n then Inl UnexpectedEnd else Inr (take n bs, n))"

definition encode_pair :: "'a encoder \<Rightarrow> 'b encoder \<Rightarrow> ('a \<times> 'b) encoder" where
  "encode_pair e1 e2 v out = bind_res (e1 (fst v) out) (\<lambda>out. e2 (snd v) out)"

definition decode_pair :: "'a decoder \<Rightarrow> 'b decoder \<Rightarrow> ('a \<times> 'b) decoder" where
  "decode_pair d1 d2 bs =
     bind_res (d1 bs) (\<lambda>(a, n1). bind_res (d2 (drop n1 bs)) (\<lambda>(b, n2). Inr ((a, b), n1 + n2)))"

definition encode_triple ::
  "'a encoder \<Rightarrow> 'b encoder \<Rightarrow> 'c encoder \<Rightarrow> ('a \<times> 'b \<times> 'c) encoder" where
  "encode_triple e1 e2 e3 v out =
     (case v of (a, b, c) \<Rightarrow>
        bind_res (e1 a out) (\<lambda>out. bind_res (e2 b out) (\<lambda>out. e3 c out)))"

definition decode_triple ::
  "'a decoder \<Rightarrow> 'b decoder \<Rightarrow> 'c decoder \<Rightarrow> ('a \<times> 'b \<times> 'c) decoder" where
  "decode_triple d1 d2 d3 bs =
     bind_res (d1 bs) (\<lambda>(a, n1). bind_res (d2 (drop n1 bs)) (\<lambda>(b, n2).
       bind_res (d3 (drop (n1 + n2) bs)) (\<lambda>(c, n3). Inr ((a, b, c), n1 + n2 + n3))))"

text \<open>\<open>Ipv4Addr\<close>: the four octets.\<close>

type_synonym ipv4 = "u8 \<times> u8 \<times> u8 \<times> u8"

definition encode_ipv4 :: "ipv4 encoder" where
  "encode_ipv4 v out = (case v of (a, b, c, d) \<Rightarrow> Inr (out @ [a, b, c, d]))"

definition decode_ipv4 :: "ipv4 decoder" where
  "decode_ipv4 bs =
     (if length bs < 4 then Inl UnexpectedEnd
      else Inr ((bs ! 0, bs ! 1, bs ! 2, bs ! 3), 4))"

subsection \<open>Big-endian bytes: round trip\<close>

lemma length_be_bytes [simp]: "length (be_bytes n x) = n"
  by (induction n) auto

lemma from_be_Nil [simp]: "from_be [] = 0"
  by (simp add: from_be_def)

lemma from_be_snoc [simp]: "from_be (bs @ [b]) = from_be bs * 256 + unat b"
  by (simp add: from_be_def)

lemma foldl_be_shift:
  "foldl (\<lambda>a (b :: u8). a * 256 + unat b) acc bs
     = acc * 256 ^ length bs + foldl (\<lambda>a b. a * 256 + unat b) 0 bs"
proof (induction bs rule: rev_induct)
  case (snoc b bs)
  show ?case by (simp add: snoc.IH distrib_right mult.assoc mult.commute [of 256])
qed simp

lemma from_be_Cons: "from_be (b # bs) = unat b * 256 ^ length bs + from_be bs"
  unfolding from_be_def by (simp add: foldl_be_shift [of "unat b"])

lemma from_be_bound: "from_be bs < 256 ^ length bs"
proof (induction bs)
  case (Cons b bs)
  have "(unat b + 1) * 256 ^ length bs \<le> 256 * 256 ^ length bs"
    by (rule mult_le_mono1) (use unat_bound [of b] in simp)
  then have "unat b * 256 ^ length bs + 256 ^ length bs \<le> 256 * 256 ^ length bs"
    by (simp add: distrib_right)
  then have "unat b * 256 ^ length bs + from_be bs < 256 * 256 ^ length bs"
    using Cons.IH by linarith
  then show ?case by (simp add: from_be_Cons)
qed simp

lemma from_be_be_bytes: "from_be (be_bytes n x) = x mod 256 ^ n"
proof (induction n)
  case (Suc n)
  have "from_be (be_bytes (Suc n) x) = (x div 256 ^ n mod 256) * 256 ^ n + x mod 256 ^ n"
    by (simp add: from_be_Cons Suc unat_of_nat)
  also have "\<dots> = x mod (256 ^ n * 256)"
    using mod_mult2_eq [of x "256 ^ n" 256] by simp
  finally show ?case by (simp add: mult.commute)
qed simp

lemma be_bytes_from_be_aux:
  "n = length bs \<Longrightarrow> be_bytes n (k * 256 ^ n + from_be bs) = bs"
proof (induction bs arbitrary: n k)
  case (Cons b bs)
  let ?m = "length bs"
  have eq: "k * 256 ^ Suc ?m + from_be (b # bs) = (k * 256 + unat b) * 256 ^ ?m + from_be bs"
    by (simp add: from_be_Cons algebra_simps)
  have "((k * 256 + unat b) * 256 ^ ?m + from_be bs) div 256 ^ ?m = k * 256 + unat b"
    using from_be_bound [of bs] by simp
  moreover have "(word_of_nat (k * 256 + unat b) :: u8) = b"
    by (rule word_unat_eqI, subst unat_of_nat) (use unat_bound [of b] in simp)
  ultimately have "(word_of_nat (((k * 256 + unat b) * 256 ^ ?m + from_be bs) div 256 ^ ?m) :: u8) = b"
    by simp
  then show ?case unfolding Cons.prems length_Cons eq be_bytes.simps using Cons.IH by simp
qed simp

lemma be_bytes_from_be [simp]: "be_bytes (length bs) (from_be bs) = bs"
  using be_bytes_from_be_aux [of "length bs" bs 0] by simp

subsection \<open>The contract of \<open>Encode\<close> and \<open>Decode\<close>\<close>

text \<open>
  \<open>size\<close> is \<open>encoded_size\<close>; \<open>image\<close> is the byte string of a value, and \<open>good\<close> the values
  the round trip is promised for.
\<close>

locale wire_codec =
  fixes enc :: "'a encoder" and dec :: "'a decoder"
    and size :: "'a \<Rightarrow> nat" and image :: "'a \<Rightarrow> bytes" and good :: "'a \<Rightarrow> bool"
  assumes enc_image: "good v \<Longrightarrow> enc v out = Inr (out @ image v)"
    and size_image: "good v \<Longrightarrow> length (image v) = size v"
    and dec_image: "good v \<Longrightarrow> dec (image v @ rest) = Inr (v, size v)"
    and dec_bound: "dec bs = Inr (v, n) \<Longrightarrow> n \<le> length bs"
begin

lemma roundtrip:
  assumes "good v"
  shows "\<exists>bs. encode_to_vec enc v = Inr bs \<and> length bs = size v
           \<and> decode_from_slice dec (bs @ rest) = Inr (v, size v)"
  using assms by (simp add: encode_to_vec_def decode_from_slice_def enc_image size_image dec_image)

lemma enc_inject:
  assumes "good v" and "good w" and "enc v out = enc w out"
  shows "v = w"
  using assms dec_image [of v "[]"] dec_image [of w "[]"] by (simp add: enc_image)

end

text \<open>The laws of two codecs give those of the pair.\<close>

locale wire_codec_pair =
  fst: wire_codec e1 d1 s1 i1 g1 + snd: wire_codec e2 d2 s2 i2 g2
  for e1 :: "'a encoder" and d1 s1 i1 g1 and e2 :: "'b encoder" and d2 s2 i2 g2
begin

lemma pair_codec:
  "wire_codec (encode_pair e1 e2) (decode_pair d1 d2)
     (\<lambda>v. s1 (fst v) + s2 (snd v)) (\<lambda>v. i1 (fst v) @ i2 (snd v))
     (\<lambda>v. g1 (fst v) \<and> g2 (snd v))"
proof
  fix v :: "'a \<times> 'b" and out rest
  assume g: "g1 (fst v) \<and> g2 (snd v)"
  then show "encode_pair e1 e2 v out = Inr (out @ i1 (fst v) @ i2 (snd v))"
    by (simp add: encode_pair_def fst.enc_image snd.enc_image)
  show "length (i1 (fst v) @ i2 (snd v)) = s1 (fst v) + s2 (snd v)"
    using g by (simp add: fst.size_image snd.size_image)
  have "drop (s1 (fst v)) (i1 (fst v) @ i2 (snd v) @ rest) = i2 (snd v) @ rest"
    using g by (simp add: fst.size_image)
  then show "decode_pair d1 d2 ((i1 (fst v) @ i2 (snd v)) @ rest) = Inr (v, s1 (fst v) + s2 (snd v))"
    using g by (simp add: decode_pair_def fst.dec_image snd.dec_image)
next
  fix bs v n
  assume "decode_pair d1 d2 bs = Inr (v, n)"
  then obtain a n1 b n2 where "d1 bs = Inr (a, n1)" "d2 (drop n1 bs) = Inr (b, n2)" "n = n1 + n2"
    by (auto simp: decode_pair_def result_simps split: prod.splits)
  then show "n \<le> length bs" using fst.dec_bound snd.dec_bound by fastforce
qed

end

sublocale wire_codec_pair \<subseteq> pair: wire_codec "encode_pair e1 e2" "decode_pair d1 d2"
  "\<lambda>v. s1 (fst v) + s2 (snd v)" "\<lambda>v. i1 (fst v) @ i2 (snd v)"
  "\<lambda>v. g1 (fst v) \<and> g2 (snd v)"
  by (rule pair_codec)

subsection \<open>The primitive codecs\<close>

lemma u8_list_take:
  "length (xs :: bytes) \<ge> 2 \<Longrightarrow> [xs ! 0, xs ! 1] = take 2 xs"
  "length xs \<ge> 4 \<Longrightarrow> [xs ! 0, xs ! 1, xs ! 2, xs ! 3] = take 4 xs"
  by (cases xs; cases "tl xs"; cases "tl (tl xs)"; cases "tl (tl (tl xs))"; simp)+

lemma word_of_be_u16 [simp]: "(word_of_nat (from_be (be_bytes 2 (unat (v :: u16)))) :: u16) = v"
  using unat_bound [of v] by (simp add: from_be_be_bytes)

lemma word_of_be_u32 [simp]: "(word_of_nat (from_be (be_bytes 4 (unat (v :: u32)))) :: u32) = v"
  using unat_bound [of v] by (simp add: from_be_be_bytes)

lemma word_of_be_u64 [simp]: "(word_of_nat (from_be (be_bytes 8 (unat (v :: u64)))) :: u64) = v"
  using unat_bound [of v] by (simp add: from_be_be_bytes)

lemma decode_u16_take:
  "decode_u16 bs = (if length bs < 2 then Inl UnexpectedEnd else Inr (word_of_nat (from_be (take 2 bs)), 2))"
  unfolding decode_u16_def using u8_list_take(1) [of bs] by (simp del: One_nat_def)

lemma decode_i16_take:
  "decode_i16 bs = (if length bs < 2 then Inl UnexpectedEnd else Inr (word_of_nat (from_be (take 2 bs)), 2))"
  unfolding decode_i16_def using u8_list_take(1) [of bs] by (simp del: One_nat_def)

lemma decode_u32_take:
  "decode_u32 bs = (if length bs < 4 then Inl UnexpectedEnd else Inr (word_of_nat (from_be (take 4 bs)), 4))"
  unfolding decode_u32_def using u8_list_take(2) [of bs] by (simp del: One_nat_def)

interpretation u8c: wire_codec encode_u8 decode_u8 "\<lambda>_. 1" "\<lambda>v. [v]" "\<lambda>_. True"
  by unfold_locales (auto simp: encode_u8_def decode_u8_def neq_Nil_conv split: if_splits)

interpretation u16c: wire_codec encode_u16 decode_u16 "\<lambda>_. 2" "\<lambda>v. be_bytes 2 (unat v)" "\<lambda>_. True"
  by unfold_locales (auto simp: encode_u16_def decode_u16_take split: if_splits)

interpretation i16c: wire_codec encode_i16 decode_i16 "\<lambda>_. 2" "\<lambda>v. be_bytes 2 (unat v)" "\<lambda>_. True"
  by unfold_locales (auto simp: encode_i16_def decode_i16_take split: if_splits)

interpretation u32c: wire_codec encode_u32 decode_u32 "\<lambda>_. 4" "\<lambda>v. be_bytes 4 (unat v)" "\<lambda>_. True"
  by unfold_locales (auto simp: encode_u32_def decode_u32_take split: if_splits)

interpretation u64c: wire_codec encode_u64 decode_u64 "\<lambda>_. 8" "\<lambda>v. be_bytes 8 (unat v)" "\<lambda>_. True"
  by unfold_locales (auto simp: encode_u64_def decode_u64_def split: if_splits)

interpretation i64c: wire_codec encode_i64 decode_i64 "\<lambda>_. 8" "\<lambda>v. be_bytes 8 (unat v)" "\<lambda>_. True"
  by unfold_locales (auto simp: encode_i64_def decode_i64_def split: if_splits)

interpretation boolc: wire_codec encode_bool decode_bool "\<lambda>_. 1"
  "\<lambda>v. [if v then 1 else 0]" "\<lambda>_. True"
  by unfold_locales (auto simp: encode_bool_def decode_bool_def Suc_le_eq split: if_splits)

interpretation arrayc: wire_codec encode_array "decode_array n" "\<lambda>_. n" "\<lambda>v. v" "\<lambda>v. length v = n"
  for n
  by unfold_locales (auto simp: encode_array_def decode_array_def split: if_splits)

interpretation ipv4c: wire_codec encode_ipv4 decode_ipv4 "\<lambda>_. 4"
  "\<lambda>v. case v of (a, b, c, d) \<Rightarrow> [a, b, c, d]" "\<lambda>_. True"
  by unfold_locales (auto simp: encode_ipv4_def decode_ipv4_def split: if_splits)

text \<open>A triple is read and written as a pair whose second part is a pair.\<close>

lemma encode_triple_pair: "encode_triple e1 e2 e3 = encode_pair e1 (encode_pair e2 e3)"
  by (auto simp: fun_eq_iff encode_triple_def encode_pair_def split: prod.splits)

lemma decode_triple_pair: "decode_triple d1 d2 d3 bs = decode_pair d1 (decode_pair d2 d3) bs"
proof (cases "d1 bs")
  case (Inr an)
  obtain a n1 where an: "an = (a, n1)" by fastforce
  show ?thesis
  proof (cases "d2 (drop n1 bs)")
    case (Inr bn)
    obtain b n2 where bn: "bn = (b, n2)" by fastforce
    show ?thesis using \<open>d1 bs = Inr an\<close> Inr an bn
      by (cases "d3 (drop (n1 + n2) bs)")
        (auto simp: decode_triple_def decode_pair_def add.commute add.assoc)
  qed (simp add: decode_triple_def decode_pair_def Inr an)
qed (simp add: decode_triple_def decode_pair_def)

end
