(* ===== verification/Tempo.thy ===== *)
theory Tempo
  imports LinkTime Encoding
begin

text \<open>
  Beats and tempo: \<open>src/link/beats.rs\<close> and \<open>src/link/tempo.rs\<close>. Beats are fixed-point
  microbeats in an \<open>i64\<close> with saturating arithmetic; a tempo is a double whose period in
  microseconds drives every conversion between beats and time. The conversions divide
  before they multiply (\<open>micros_from_microbeats\<close>, \<open>nanos_from_microbeats\<close>) or fall back to
  a bitwise long division (\<open>microbeats_from_nanos\<close>), so that no intermediate value leaves
  128 bits; the lemmas show that each of them is the exact quotient rounded once, half
  away from zero, and saturated.
\<close>

section \<open>Beats\<close>

datatype beats = Beats (beats_value: i64)

abbreviation mb :: "beats \<Rightarrow> int" where "mb b \<equiv> sint (beats_value b)"

definition from_microbeats :: "i64 \<Rightarrow> beats" where
  "from_microbeats micro_beats = Beats micro_beats"

definition beats_new :: "f64 \<Rightarrow> beats" where
  "beats_new b = Beats (word_of_int (f64_to_int i64_min i64_max (f64_round (f64_mul b (Fin 1000000)))))"

definition beats_floating :: "beats \<Rightarrow> f64" where
  "beats_floating b = f64_div (f64_of_int (mb b)) (Fin 1000000)"

definition beats_abs :: "beats \<Rightarrow> beats" where
  "beats_abs b = Beats (word_of_int (sat64 \<bar>mb b\<bar>))"

definition beats_mod :: "beats \<Rightarrow> beats \<Rightarrow> beats" where
  "beats_mod a b =
     Beats (if mb b = 0 \<or> (mb a = i64_min \<and> mb b = - 1) then 0
            else word_of_int (mb a smod mb b))"

definition beats_neg :: "beats \<Rightarrow> beats" where
  "beats_neg b = Beats (word_of_int (sat64 (- mb b)))"

definition beats_add :: "beats \<Rightarrow> beats \<Rightarrow> beats" where
  "beats_add a b = Beats (word_of_int (sat64 (mb a + mb b)))"

definition beats_sub :: "beats \<Rightarrow> beats \<Rightarrow> beats" where
  "beats_sub a b = Beats (word_of_int (sat64 (mb a - mb b)))"

definition encode_beats :: "beats encoder" where
  "encode_beats b out = encode_i64 (beats_value b) out"

definition decode_beats :: "beats decoder" where
  "decode_beats bs = bind_res (decode_i64 bs) (\<lambda>(v, n). Inr (Beats v, n))"

section \<open>Tempo\<close>

datatype tempo = Tempo (tempo_value: f64)

definition bpm :: "tempo \<Rightarrow> f64" where
  "bpm t = tempo_value t"

definition tempo_from :: "ext \<Rightarrow> duration \<Rightarrow> tempo" where
  "tempo_from E d =
     Tempo (f64_div (f64_mul (Fin 60) (Fin 1000000000)) (f64_of_int (duration_nanos E d)))"

definition period_micros :: "tempo \<Rightarrow> int" where
  "period_micros t =
     f64_to_int i128_min i128_max (f64_round (f64_div (f64_mul (Fin 60) (Fin 1000000)) (bpm t)))"

definition micros_per_beat :: "ext \<Rightarrow> tempo \<Rightarrow> duration" where
  "micros_per_beat E t = duration_from_nanos E (sat_mul (period_micros t) 1000)"

text \<open>
  One step of the long division of \<open>scale * remainder\<close> by \<open>denominator\<close>: double the pair
  of quotient and residue, then add the remainder when the bit of \<open>scale\<close> is set.
\<close>

definition scale_step :: "int \<Rightarrow> int \<Rightarrow> bool \<Rightarrow> int \<times> int \<Rightarrow> int \<times> int" where
  "scale_step denominator remainder on st =
     (let (fraction, residue) = st;
          fraction = fraction * 2;
          (fraction, residue) =
            (if residue \<ge> denominator - residue
             then (fraction + 1, residue - (denominator - residue))
             else (fraction, residue * 2))
      in if on
         then (if residue \<ge> denominator - remainder
               then (fraction + 1, residue - (denominator - remainder))
               else (fraction, residue + remainder))
         else (fraction, residue))"

text \<open>The bits of the scale, the highest first (\<open>(0..n).rev()\<close>).\<close>

fun scale_loop :: "nat \<Rightarrow> int \<Rightarrow> int \<Rightarrow> int \<Rightarrow> int \<times> int \<Rightarrow> int \<times> int" where
  "scale_loop 0 scale denominator remainder st = st"
| "scale_loop (Suc k) scale denominator remainder st =
     scale_loop k scale denominator remainder
       (scale_step denominator remainder (bit scale k) st)"

definition microbeats_wide :: "int \<Rightarrow> int \<Rightarrow> int" where
  "microbeats_wide nanos period =
     (let negative = ((nanos < 0) \<noteq> (period < 0));
          magnitude = \<bar>nanos\<bar>;
          denominator = \<bar>period\<bar>;
          remainder = magnitude mod denominator;
          scale = 1000;
          (fraction, residue) = scale_loop 10 scale denominator remainder (0, 0);
          rounded = usat128 (usat128 (usat128 (magnitude div denominator * scale) + fraction)
                      + (if residue \<ge> div_ceil denominator 2 then 1 else 0));
          bounded = min rounded i128_max
      in if negative
         then (if rounded > i128_max then i128_min else - bounded)
         else bounded)"

definition microbeats_from_nanos :: "tempo \<Rightarrow> int \<Rightarrow> int" where
  "microbeats_from_nanos t nanos =
     (let period = period_micros t
      in if period = 0 then round_ratio nanos period
         else case checked_i128 (nanos * 1000) of
                Some scaled \<Rightarrow> round_ratio scaled period
              | None \<Rightarrow> microbeats_wide nanos period)"

definition micros_from_microbeats :: "tempo \<Rightarrow> int \<Rightarrow> int" where
  "micros_from_microbeats t b =
     (let period = period_micros t
      in sat_add (sat_add (sat_mul (b sdiv 1000000) period)
                          (sat_mul (b smod 1000000) (period sdiv 1000000)))
                 (round_ratio ((b smod 1000000) * (period smod 1000000)) 1000000))"

definition nanos_from_microbeats :: "tempo \<Rightarrow> int \<Rightarrow> int" where
  "nanos_from_microbeats t b =
     (let period = period_micros t
      in sat_add (sat_add (sat_mul (b sdiv 1000) period)
                          (sat_mul (b smod 1000) (period sdiv 1000)))
                 (round_ratio ((b smod 1000) * (period smod 1000)) 1000))"

definition micros_to_beats :: "ext \<Rightarrow> tempo \<Rightarrow> duration \<Rightarrow> beats" where
  "micros_to_beats E t d =
     from_microbeats (word_of_int (sat64 (microbeats_from_nanos t (duration_nanos E d))))"

definition beats_to_micros :: "ext \<Rightarrow> tempo \<Rightarrow> beats \<Rightarrow> duration" where
  "beats_to_micros E t b =
     duration_from_nanos E (sat_mul (micros_from_microbeats t (mb b)) 1000)"

definition encode_tempo :: "ext \<Rightarrow> tempo encoder" where
  "encode_tempo E t out = encode_i64 (word_of_int (micros E (micros_per_beat E t))) out"

definition decode_tempo :: "ext \<Rightarrow> tempo decoder" where
  "decode_tempo E bs =
     bind_res (decode_i64 bs) (\<lambda>(m, n). Inr (tempo_from E (of_microseconds E (sint m)), n))"

section \<open>Saturation of beats\<close>

lemma mb_simps [simp]:
  "mb (beats_abs a) = sat64 \<bar>mb a\<bar>"
  "mb (beats_neg a) = sat64 (- mb a)"
  "mb (beats_add a b) = sat64 (mb a + mb b)"
  "mb (beats_sub a b) = sat64 (mb a - mb b)"
  by (simp_all add: beats_abs_def beats_neg_def beats_add_def beats_sub_def)

lemma beats_eq_iff: "a = b \<longleftrightarrow> mb a = mb b"
  by (cases a; cases b) (auto simp: signed_word_eqI)

lemma mb_mod: "mb (beats_mod a b) = (if mb b = 0 then 0 else mb a smod mb b)"
proof -
  have "in_i64 (mb a smod mb b)"
    if "mb b \<noteq> 0"
    using smod_parts_bound(2) [of "mb a" "mb b"] abs_smod_less [OF that, of "mb a"]
      sint_i64_bounds [of "beats_value a"] sint_i64_bounds [of "beats_value b"]
    by (auto simp: in_i64_def abs_le_iff abs_less_iff)
  moreover have "mb b = - 1 \<Longrightarrow> mb a smod mb b = 0" by (simp add: smod_int_alt_def)
  ultimately show ?thesis by (auto simp: beats_mod_def)
qed

interpretation beatsc: wire_codec encode_beats decode_beats "\<lambda>_. 8"
  "\<lambda>b. be_bytes 8 (unat (beats_value b))" "\<lambda>_. True"
  by unfold_locales
    (auto simp: encode_beats_def decode_beats_def i64c.enc_image i64c.dec_image result_simps
      dest: i64c.dec_bound)

section \<open>Exactness of the conversions\<close>

subsection \<open>Long division\<close>

lemma scale_step_inv:
  assumes "0 \<le> remainder" and "remainder < den" and "0 \<le> residue" and "residue < den"
    and "fraction * den + residue = p * remainder"
    and "scale_step den remainder on (fraction, residue) = (f', r')"
  shows "0 \<le> r'" and "r' < den" and "f' * den + r' = (2 * p + (if on then 1 else 0)) * remainder"
  using assms by (auto simp: scale_step_def Let_def algebra_simps split: if_splits)

lemma scale_loop_inv:
  assumes "0 \<le> remainder" and "remainder < den" and "0 \<le> residue" and "residue < den"
    and "fraction * den + residue = drop_bit k scale * remainder"
    and "scale_loop k scale den remainder (fraction, residue) = (f', r')"
  shows "0 \<le> r' \<and> r' < den \<and> f' * den + r' = scale * remainder"
  using assms
proof (induction k arbitrary: fraction residue)
  case (Suc k)
  obtain f1 r1 where st: "scale_step den remainder (bit scale k) (fraction, residue) = (f1, r1)"
    by fastforce
  have bits: "drop_bit k scale = 2 * drop_bit (Suc k) scale + (if bit scale k then 1 else 0)"
    by (simp add: drop_bit_Suc bit_iff_odd_drop_bit drop_bit_half)
  from scale_step_inv [OF Suc.prems(1-5) st] bits Suc.IH [of r1 f1] Suc.prems st
  show ?case by simp
qed simp

lemma scale_loop_1000:
  assumes "0 \<le> remainder" and "remainder < den"
  shows "scale_loop 10 1000 den remainder (0, 0)
           = (1000 * remainder div den, 1000 * remainder mod den)"
proof -
  obtain f r where fr: "scale_loop 10 1000 den remainder (0, 0) = (f, r)" by fastforce
  have "0 \<le> r \<and> r < den \<and> f * den + r = 1000 * remainder"
    by (rule scale_loop_inv [OF assms _ _ _ fr]) (use assms in \<open>auto simp: drop_bit_eq_div\<close>)
  then have r: "0 \<le> r" "r < den" "1000 * remainder = r + f * den" by auto
  then have "(1000 * remainder) div den = f" "(1000 * remainder) mod den = r" by auto
  with fr show ?thesis by simp
qed

lemma usat128_sum:
  assumes "0 \<le> a" and "0 \<le> b"
  shows "usat128 (usat128 a + b) = usat128 (a + b)"
  using assms by (auto simp: usat128_def clamp_def)

lemma sign_saturate:
  assumes "0 \<le> q" and "b \<noteq> 0" and "a = 0 \<Longrightarrow> q = 0"
  shows "(if (a < 0) \<noteq> (b < 0)
          then (if usat128 q > i128_max then i128_min else - min (usat128 q) i128_max)
          else min (usat128 q) i128_max) = sat128 (sgn a * sgn b * q)"
proof (cases "a = 0")
  case False
  have q: "usat128 q = min q u128_max" using assms(1) by (simp add: usat128_def clamp_def)
  have s: "sat128 q = min q i128_max" "sat128 (- q) = max (- q) i128_min"
    using assms(1) by (simp_all add: sat128_def clamp_def)
  consider "sgn a * sgn b = 1" "(a < 0) = (b < 0)" | "sgn a * sgn b = - 1" "(a < 0) \<noteq> (b < 0)"
    using False assms(2) by (cases "a < 0"; cases "b < 0") auto
  then show ?thesis by cases (simp_all add: q s min_def max_def)
qed (use assms in \<open>simp add: usat128_def sat128_def\<close>)

lemma microbeats_wide_exact:
  assumes "period \<noteq> 0"
  shows "microbeats_wide nanos period = sat128 (round_ratio (nanos * 1000) period)"
proof -
  define d where "d = \<bar>period\<bar>"
  define m where "m = \<bar>nanos\<bar>"
  define q where "q = (2 * (m * 1000) + d) div (2 * d)"
  have d: "0 < d" and m: "0 \<le> m" using assms by (auto simp: d_def m_def)
  have split: "m * 1000 = m div d * 1000 * d + 1000 * (m mod d)"
    using div_mult_mod_eq [of m d] by (metis (no_types) distrib_right mult.commute mult.left_commute)
  then have "m * 1000 div d = m div d * 1000 + 1000 * (m mod d) div d"
    and "m * 1000 mod d = 1000 * (m mod d) mod d" using d by simp_all
  then have q: "q = m div d * 1000 + 1000 * (m mod d) div d
                   + (if div_ceil d 2 \<le> 1000 * (m mod d) mod d then 1 else 0)"
    using half_up_div [OF d, of "m * 1000"] m by (simp add: q_def)
  have nn: "0 \<le> m div d * 1000" "0 \<le> 1000 * (m mod d) div d"
    using d m by (simp_all add: pos_imp_zdiv_nonneg_iff)
  have "0 \<le> q" unfolding q using nn by simp
  have loop: "scale_loop 10 1000 d (m mod d) (0, 0) = (1000 * (m mod d) div d, 1000 * (m mod d) mod d)"
    by (rule scale_loop_1000) (use d in auto)
  have "microbeats_wide nanos period =
      (if (nanos < 0) \<noteq> (period < 0)
       then (if usat128 q > i128_max then i128_min else - min (usat128 q) i128_max)
       else min (usat128 q) i128_max)"
    unfolding microbeats_wide_def Let_def m_def [symmetric] d_def [symmetric] loop q
    using nn by (simp add: usat128_sum add.assoc)
  also have "\<dots> = sat128 (sgn nanos * sgn period * q)"
    by (rule sign_saturate) (use \<open>0 \<le> q\<close> assms d in \<open>auto simp: q_def m_def\<close>)
  also have "sgn nanos * sgn period * q = round_ratio (nanos * 1000) period"
    using assms by (simp add: round_ratio_closed q_def m_def d_def abs_mult sgn_mult)
  finally show ?thesis .
qed

text \<open>Time to beats: one rounding of the exact quotient, whatever path the code takes.\<close>

lemma microbeats_from_nanos_exact:
  assumes "period_micros t \<noteq> 0"
  shows "microbeats_from_nanos t nanos = sat128 (round_ratio (nanos * 1000) (period_micros t))"
proof (cases "in_i128 (nanos * 1000)")
  case True
  have "nanos * 1000 mod 1000 \<noteq> i128_min mod 1000" by simp
  then have "nanos * 1000 \<noteq> i128_min" by metis
  with True assms show ?thesis
    by (simp add: microbeats_from_nanos_def checked_i128_def round_ratio_in_i128)
next
  case False
  then show ?thesis using assms
    by (simp add: microbeats_from_nanos_def checked_i128_def microbeats_wide_exact)
qed

subsection \<open>Split products\<close>

lemma split_product_nonneg:
  assumes "0 \<le> b" and "0 \<le> p" and "0 < (M :: int)"
  shows "b div M * p + b mod M * (p div M) + (2 * (b mod M * (p mod M)) + M) div (2 * M)
           = (2 * (b * p) + M) div (2 * M)"
proof -
  define q r s u where "q = b div M" and "r = b mod M" and "s = p div M" and "u = p mod M"
  have b: "b = q * M + r" and p: "p = s * M + u" by (simp_all add: q_def r_def s_def u_def)
  have "2 * (b * p) + M = (2 * (r * u) + M) + (q * p + r * s) * (2 * M)"
    unfolding b p by (simp add: algebra_simps)
  then have "(2 * (b * p) + M) div (2 * M) = (q * p + r * s) + (2 * (r * u) + M) div (2 * M)"
    using assms(3) by (subst \<open>2 * (b * p) + M = _\<close>, intro div_mult_self1) simp
  then show ?thesis by (simp add: q_def r_def s_def u_def)
qed

lemma sat_add_nonneg: "0 \<le> x \<Longrightarrow> 0 \<le> y \<Longrightarrow> sat_add (sat128 x) y = sat128 (x + y)"
  by (simp add: sat_defs)

lemma sat_add_nonpos: "x \<le> 0 \<Longrightarrow> y \<le> 0 \<Longrightarrow> sat_add (sat128 x) y = sat128 (x + y)"
  by (simp add: sat_defs)

lemma sat_add_sat_right:
  assumes "0 \<le> x \<and> 0 \<le> y \<or> x \<le> 0 \<and> y \<le> 0"
  shows "sat_add x (sat128 y) = sat_add x y"
  using assms by (simp add: sat_defs) linarith

lemma sat_sum_same_sign:
  assumes "0 \<le> x \<and> 0 \<le> y \<and> 0 \<le> z \<or> x \<le> 0 \<and> y \<le> 0 \<and> z \<le> 0"
  shows "sat_add (sat_add (sat128 x) (sat128 y)) z = sat128 (x + y + z)"
proof -
  have "0 \<le> sat128 x \<longleftrightarrow> 0 \<le> x" "sat128 x \<le> 0 \<longleftrightarrow> x \<le> 0"
    by (simp_all add: sat128_def clamp_def)
  then show ?thesis using assms
    by (metis add_nonneg_nonneg add_nonpos_nonpos sat_add_nonneg sat_add_nonpos sat_add_sat_right)
qed

text \<open>
  Multiplying the parts of \<open>beats\<close> and of the period, saturating each partial result, gives
  the exact product divided by the scale, rounded once and saturated.
\<close>

lemma split_product:
  assumes "0 < M"
  shows "sat_add (sat_add (sat_mul (b sdiv M) p) (sat_mul (b smod M) (p sdiv M)))
           (round_ratio ((b smod M) * (p smod M)) M) = sat128 (round_ratio (b * p) M)"
proof -
  define c where "c = sgn b * sgn p"
  define x y z where "x = \<bar>b\<bar> div M * \<bar>p\<bar>" and "y = \<bar>b\<bar> mod M * (\<bar>p\<bar> div M)"
    and "z = (2 * (\<bar>b\<bar> mod M * (\<bar>p\<bar> mod M)) + M) div (2 * M)"
  have xyz: "0 \<le> x" "0 \<le> y" "0 \<le> z"
    using assms by (simp_all add: x_def y_def z_def pos_imp_zdiv_nonneg_iff)
  have parts: "b sdiv M = sgn b * (\<bar>b\<bar> div M)" "b smod M = sgn b * (\<bar>b\<bar> mod M)"
    "p sdiv M = sgn p * (\<bar>p\<bar> div M)" "p smod M = sgn p * (\<bar>p\<bar> mod M)" "p = sgn p * \<bar>p\<bar>"
    using assms by (simp_all add: signed_divide_int_def smod_int_alt_def mult_sgn_abs)
  have "b sdiv M * p = c * x" "b smod M * (p sdiv M) = c * y"
    unfolding c_def x_def y_def using parts by (metis mult.assoc mult.left_commute)+
  moreover have "round_ratio ((b smod M) * (p smod M)) M = c * z"
  proof -
    have "(b smod M) * (p smod M) = c * (\<bar>b\<bar> mod M * (\<bar>p\<bar> mod M))"
      unfolding parts(2,4) c_def by (simp add: mult_ac)
    moreover have "round_ratio (\<bar>b\<bar> mod M * (\<bar>p\<bar> mod M)) M = z"
      using assms by (simp add: round_ratio_pos z_def)
    ultimately show ?thesis using assms by (auto simp: c_def sgn_if)
  qed
  ultimately have "sat_add (sat_add (sat_mul (b sdiv M) p) (sat_mul (b smod M) (p sdiv M)))
      (round_ratio ((b smod M) * (p smod M)) M) = sat128 (c * x + c * y + c * z)"
    using xyz by (simp add: sat_mul_def, intro sat_sum_same_sign) (auto simp: c_def sgn_if)
  also have "c * x + c * y + c * z = c * ((2 * (\<bar>b\<bar> * \<bar>p\<bar>) + M) div (2 * M))"
    using split_product_nonneg [of "\<bar>b\<bar>" "\<bar>p\<bar>" M] assms
    by (simp add: x_def y_def z_def flip: distrib_left)
  also have "\<dots> = round_ratio (b * p) M"
    using assms by (simp add: round_ratio_closed c_def abs_mult sgn_mult)
  finally show ?thesis .
qed

lemma micros_from_microbeats_exact:
  "micros_from_microbeats t b = sat128 (round_ratio (b * period_micros t) 1000000)"
  by (simp add: micros_from_microbeats_def Let_def split_product)

lemma nanos_from_microbeats_exact:
  "nanos_from_microbeats t b = sat128 (round_ratio (b * period_micros t) 1000)"
  by (simp add: nanos_from_microbeats_def Let_def split_product)

section \<open>Round trips\<close>

lemma round_ratio_1000_inverse:
  assumes "1000 \<le> \<bar>p\<bar>"
  shows "round_ratio (round_ratio (b * p) 1000 * 1000) p = b"
proof -
  define n where "n = round_ratio (b * p) 1000"
  have err: "2 * \<bar>n * 1000 - b * p\<bar> \<le> 1000"
    using round_ratio_err [of 1000 "b * p"] by (simp add: n_def)
  show ?thesis unfolding n_def [symmetric]
  proof (cases "2 * \<bar>n * 1000 - b * p\<bar> < \<bar>p\<bar>")
    case False
    with assms err have p: "\<bar>p\<bar> = 1000" by linarith
    then have "p = 1000 \<or> p = - 1000" by linarith
    then have "b * p = b * sgn p * 1000" by auto
    then have "n * 1000 = b * p" unfolding n_def by (simp only: round_ratio_mult)
    then show "round_ratio (n * 1000) p = b" using p by simp
  qed (rule round_ratio_near)
qed

section \<open>The period\<close>

lemma minute_consts [simp]:
  "f64_mul (Fin 60) (Fin 1000000) = Fin 60000000"
  "f64_mul (Fin 60) (Fin 1000000000) = Fin 60000000000"
  using round_f64_int [of 60000000 False] round_f64_int [of 60000000000 False]
  by (simp_all add: f64_mul_def is_zero_def is_finite_def)

lemma period_of_round:
  assumes "0 < r" and "round_pos (60000000 / r) = z" and "z < 2 ^ 100" and "z \<noteq> 0"
  shows "period_micros (Tempo (Fin r)) = round_away z"
proof -
  have z0: "0 < z"
    using assms(1,2,4) round_pos_nonneg [of "60000000 / r"] by simp
  have "round_f64 False (60000000 / r) = Fin z"
    using assms by (subst round_f64_Fin(1)) simp_all
  then have d: "f64_div (Fin 60000000) (Fin r) = Fin z"
    using assms(1) by (simp add: f64_div_def is_zero_def is_finite_def)
  have "0 \<le> round_away z" using round_away_mono [of 0 z] z0 round_away_of_int [of 0] by simp
  moreover have "round_away z \<le> 2 ^ 100"
    using round_away_mono [of z "of_int (2 ^ 100)"] assms(3) by (simp only: round_away_of_int) simp
  ultimately show ?thesis
    by (auto simp: period_micros_def bpm_def d mk_zero_def clamp_def)
qed

lemma period_of_clamped:
  assumes "20 \<le> r" and "r \<le> 999"
  shows "60060 \<le> period_micros (Tempo (Fin r))" and "period_micros (Tempo (Fin r)) \<le> 3000000"
proof -
  have le: "of_int 60060 \<le> 60000000 / r" "60000000 / r \<le> of_int 3000000"
    using assms by (simp_all add: field_simps)
  define z where "z = round_pos (60000000 / r)"
  from round_f64_between [OF le] have z: "60060 \<le> z" "z \<le> 3000000" by (simp_all add: z_def)
  then have "period_micros (Tempo (Fin r)) = round_away z"
    using assms by (intro period_of_round) (simp_all add: z_def)
  then show "60060 \<le> period_micros (Tempo (Fin r))" and "period_micros (Tempo (Fin r)) \<le> 3000000"
    using z round_away_mono [of 60060 z] round_away_mono [of z 3000000] by simp_all
qed

text \<open>
  A period that arrives on the wire survives the two double divisions of decoding
  (\<open>60e9 / nanos\<close>) and re-encoding (\<open>60e6 / bpm\<close>): each of them is off by at most one
  part in \<open>2 ^ 53\<close>.
\<close>

lemma double_division_err:
  fixes p x y z u :: rat
  assumes x: "x * p = c" "0 < x" "0 < p" and u: "0 \<le> u" "u \<le> 1 / 4"
    and y: "\<bar>y - x\<bar> \<le> x * u" and z: "\<bar>z - c / y\<bar> \<le> c / y * u"
  shows "\<bar>z - p\<bar> \<le> 4 * (p * u)"
proof -
  define w where "w = c / y"
  have "x * u \<le> x * (1 / 4)" using x u by (intro mult_left_mono) simp_all
  with y x have y0: "0 < y" by linarith
  have wy: "w * y = x * p" using y0 x by (simp add: w_def)
  have w0: "0 < w" using y0 x mult_pos_pos [of x p] by (simp add: w_def)
  have "w * \<bar>y - x\<bar> \<le> w * (x * u)" using y w0 by (intro mult_left_mono) simp_all
  moreover have "w * \<bar>y - x\<bar> = x * \<bar>p - w\<bar>"
  proof -
    have "w * (y - x) = x * (p - w)" using wy by (simp add: right_diff_distrib mult.commute)
    then have "\<bar>w * (y - x)\<bar> = \<bar>x * (p - w)\<bar>" by simp
    then show ?thesis using w0 x by (simp add: abs_mult)
  qed
  ultimately have "x * \<bar>p - w\<bar> \<le> x * (w * u)" by (simp add: mult.left_commute)
  then have pw: "\<bar>p - w\<bar> \<le> w * u" using x by simp
  have "w * u \<le> w * (1 / 4)" using w0 u by (intro mult_left_mono) simp_all
  with pw have "w \<le> p * (4 / 3)" by linarith
  then have "w * u \<le> p * (4 / 3) * u" using u by (intro mult_right_mono) simp_all
  also have "\<dots> = 4 / 3 * (p * u)" by simp
  finally have wu: "w * u \<le> 4 / 3 * (p * u)" .
  have "\<bar>z - p\<bar> \<le> \<bar>z - w\<bar> + \<bar>p - w\<bar>" by linarith
  also have "\<dots> \<le> 2 * (w * u)" using z pw by (simp add: w_def)
  finally show ?thesis using wu x u mult_nonneg_nonneg [of p u] by linarith
qed

lemma tempo_wire_period:
  assumes "chrono_ok E" and "1 \<le> p" and "p \<le> 1099511627776"
  shows "period_micros (tempo_from E (of_microseconds E p)) = p"
    and "\<exists>r>0. tempo_from E (of_microseconds E p) = Tempo (Fin r)"
proof -
  define P where "P = (of_int p :: rat)"
  have P: "1 \<le> P" "P \<le> 1099511627776" using assms(2,3) unfolding P_def
    by simp_all
  have nanos: "duration_nanos E (of_microseconds E p) = p * 1000"
    using assms by (simp add: chrono_laws in_i64_def valid_dur_iff)
  have den: "f64_of_int (p * 1000) = Fin (P * 1000)"
    using f64_of_int_exact [of "p * 1000"] assms(2,3) by (simp add: P_def)
  define x where "x = 60000000 / P"
  define y where "y = round_pos x"
  define z where "z = round_pos (60000000 / y)"
  define u where "u = (1 :: rat) / 2 ^ 53"
  have small: "2 powi (- 1022) \<le> (1 :: rat) / 1000000"
    by (simp add: power_int_minus)
  have x0: "1 / 1000000 \<le> x" "x \<le> 60000000" using P by (simp_all add: x_def field_simps)
  then have yx: "\<bar>y - x\<bar> \<le> x * u"
    using round_pos_rel_err [of x] small by (simp add: y_def u_def)
  have u: "0 \<le> u" "u \<le> 1 / 1000000" "P * u * 8 < 1" using P by (simp_all add: u_def)
  have "x * u \<le> 60000000 * (1 / 1000000)" using x0 u by (intro mult_mono) simp_all
  moreover have "x * u \<le> x * (1 / 1000000)" using x0 u by (intro mult_left_mono) simp_all
  ultimately have y0: "1 / 2000000 \<le> y" "y \<le> 70000000" using yx x0 by linarith+
  have "2 powi (- 1022) \<le> 60000000 / y"
    using small y0 by (intro order_trans [OF small]) (simp add: field_simps)
  from round_pos_rel_err [OF this]
  have zy: "\<bar>z - 60000000 / y\<bar> \<le> 60000000 / y * u" by (simp add: z_def u_def)
  have "\<bar>z - P\<bar> \<le> 4 * (P * u)"
    by (rule double_division_err [OF _ _ _ _ _ yx zy]) (use P u x0 in \<open>simp_all add: x_def\<close>)
  also have "\<dots> < 1 / 2" using u by simp
  finally have zP: "\<bar>z - P\<bar> < 1 / 2" .
  have "round_f64 False x = Fin y"
    using x0 y0 by (subst round_f64_Fin(1)) (simp_all add: y_def [symmetric])
  then have y: "tempo_from E (of_microseconds E p) = Tempo (Fin y)"
    using P x0 by (simp add: tempo_from_def nanos den f64_div_def is_zero_def is_finite_def x_def)
  have "0 < y" using y0(1) by linarith
  with y show "\<exists>r>0. tempo_from E (of_microseconds E p) = Tempo (Fin r)" by blast
  have "period_micros (Tempo (Fin y)) = round_away z"
  proof (rule period_of_round)
    have "z \<le> 1099511627777" "1 / 4 \<le> z" using zP P by linarith+
    then show "z < 2 ^ 100" "z \<noteq> 0" by auto
  qed (use y0 in \<open>simp_all add: z_def\<close>)
  then show "period_micros (tempo_from E (of_microseconds E p)) = p"
    using y zP round_away_near [of z p] by (simp add: P_def)
qed

section \<open>The tempo on the wire\<close>

text \<open>
  The tempos that arrive on the wire: those of a period between a microsecond and
  \<open>2 ^ 40\<close> microseconds (more than twelve days a beat).
\<close>

definition wire_tempo :: "ext \<Rightarrow> tempo \<Rightarrow> bool" where
  "wire_tempo E t \<longleftrightarrow> chrono_ok E \<and>
     (\<exists>p. 1 \<le> p \<and> p \<le> 1099511627776 \<and> t = tempo_from E (of_microseconds E p))"

definition tempo_image :: "tempo \<Rightarrow> bytes" where
  "tempo_image t = be_bytes 8 (unat (word_of_int (period_micros t) :: i64))"

text \<open>
  The tempos that can be sent: those whose period, rounded to whole microseconds, is in that
  range, among them all from 20 to 999 beats per minute. The wire carries the rounded period, so
  that the receiver has the tempo of that period; the sender's own tempo may lie between two.
\<close>

definition sendable_tempo :: "ext \<Rightarrow> tempo \<Rightarrow> bool" where
  "sendable_tempo E t \<longleftrightarrow> chrono_ok E \<and> 1 \<le> period_micros t \<and> period_micros t \<le> 1099511627776"

definition received_tempo :: "ext \<Rightarrow> tempo \<Rightarrow> tempo" where
  "received_tempo E t = tempo_from E (of_microseconds E (period_micros t))"

text \<open>The times that microseconds in an \<open>i64\<close> can express.\<close>

definition wire_time :: "ext \<Rightarrow> duration \<Rightarrow> bool" where
  "wire_time E d \<longleftrightarrow> chrono_ok E \<and> (\<exists>m. in_i64 m \<and> d = m * 1000)"

text \<open>A time is sent in whole microseconds, cut towards zero.\<close>

definition sendable_time :: "ext \<Rightarrow> duration \<Rightarrow> bool" where
  "sendable_time E d \<longleftrightarrow> chrono_ok E \<and> valid_dur E d \<and> in_i64 (d sdiv 1000)"

definition received_time :: "duration \<Rightarrow> duration" where
  "received_time d = d sdiv 1000 * 1000"

definition time_image :: "duration \<Rightarrow> bytes" where
  "time_image d = be_bytes 8 (unat (word_of_int (d sdiv 1000) :: i64))"

lemma length_time_image [simp]: "length (time_image d) = 8"
  by (simp add: time_image_def)

lemma wire_time_micros:
  assumes "wire_time E d"
  shows "micros E d = d sdiv 1000" and "in_i64 (d sdiv 1000)" and "of_microseconds E (d sdiv 1000) = d"
    and "valid_dur E d"
proof -
  obtain m where E: "chrono_ok E" and m: "in_i64 m" "d = m * 1000" using assms by (auto simp: wire_time_def)
  have q: "d sdiv 1000 = m" by (simp add: m(2) signed_divide_int_def sgn_mult abs_mult mult_sgn_abs)
  show v: "valid_dur E d" using m E by (auto simp: valid_dur_iff in_i64_def abs_le_iff)
  show "in_i64 (d sdiv 1000)" "of_microseconds E (d sdiv 1000) = d"
    unfolding q using m E by (simp_all add: chrono_laws)
  then show "micros E d = d sdiv 1000" using E v by (simp add: micros_sat64)
qed

lemma received_time_wire:
  assumes "sendable_time E d"
  shows "wire_time E (received_time d)" and "received_time d sdiv 1000 = d sdiv 1000"
    and "time_image (received_time d) = time_image d" and "micros E d = d sdiv 1000"
    and "num_microseconds E d = Some (d sdiv 1000)"
proof -
  show "wire_time E (received_time d)"
    using assms by (auto simp: sendable_time_def wire_time_def received_time_def)
  have "m * 1000 sdiv 1000 = m" for m :: int
    by (simp add: signed_divide_int_def sgn_mult abs_mult mult_sgn_abs)
  then show s: "received_time d sdiv 1000 = d sdiv 1000" by (simp only: received_time_def)
  show "time_image (received_time d) = time_image d" by (simp add: time_image_def s)
  show "micros E d = d sdiv 1000" using assms by (simp add: sendable_time_def micros_sat64)
  show "num_microseconds E d = Some (d sdiv 1000)"
    using assms by (simp add: sendable_time_def chrono_laws checked_i64_def)
qed

lemma wire_time_sendable:
  assumes "wire_time E d"
  shows "sendable_time E d" and "received_time d = d"
proof -
  note w = wire_time_micros [OF assms]
  have E: "chrono_ok E" using assms by (simp add: wire_time_def)
  then show "sendable_time E d" using w by (simp add: sendable_time_def)
  show "received_time d = d" using w(2,3) E by (simp add: received_time_def chrono_laws)
qed

lemma wire_tempo_period:
  assumes "wire_tempo E t"
  shows "1 \<le> period_micros t" and "period_micros t \<le> 1099511627776"
    and "t = tempo_from E (of_microseconds E (period_micros t))" and "\<exists>r>0. t = Tempo (Fin r)"
  using assms tempo_wire_period [of E] by (auto simp: wire_tempo_def)

lemma received_tempo_wire:
  assumes "sendable_tempo E t"
  shows "wire_tempo E (received_tempo E t)" and "period_micros (received_tempo E t) = period_micros t"
    and "tempo_image (received_tempo E t) = tempo_image t"
proof -
  show p: "period_micros (received_tempo E t) = period_micros t"
    using assms tempo_wire_period [of E] by (auto simp: sendable_tempo_def received_tempo_def)
  show "wire_tempo E (received_tempo E t)"
    using assms by (auto simp: sendable_tempo_def wire_tempo_def received_tempo_def)
  show "tempo_image (received_tempo E t) = tempo_image t" by (simp add: tempo_image_def p)
qed

lemma wire_tempo_sendable:
  assumes "wire_tempo E t"
  shows "sendable_tempo E t" and "received_tempo E t = t"
  using wire_tempo_period [OF assms] assms by (simp_all add: sendable_tempo_def received_tempo_def wire_tempo_def)

lemma sendable_tempo_clamped:
  assumes "chrono_ok E" and "20 \<le> r" and "r \<le> 999"
  shows "sendable_tempo E (Tempo (Fin r))"
  using period_of_clamped [OF assms(2,3)] assms(1) by (simp add: sendable_tempo_def)

lemma micros_of_tempo:
  assumes "chrono_ok E" and "in_i64 (period_micros t)"
    and "\<bar>period_micros t * 1000\<bar> \<le> max_nanos"
  shows "micros E (micros_per_beat E t) = period_micros t"
proof -
  have "in_i128 (period_micros t * 1000)" using assms(3) by (auto simp: in_i128_def)
  then have "micros_per_beat E t = period_micros t * 1000"
    using assms by (simp add: micros_per_beat_def valid_dur_iff)
  moreover have "period_micros t * 1000 sdiv 1000 = period_micros t"
    by (simp add: signed_divide_int_def sgn_mult abs_mult mult_sgn_abs)
  ultimately show ?thesis using assms by (simp add: micros_sat64 valid_dur_iff)
qed

lemma encode_tempo_image:
  assumes "chrono_ok E" and "in_i64 (period_micros t)"
    and "\<bar>period_micros t * 1000\<bar> \<le> max_nanos"
  shows "encode_tempo E t out = Inr (out @ tempo_image t)"
  using micros_of_tempo [OF assms] by (simp add: encode_tempo_def tempo_image_def i64c.enc_image)

lemma encode_sendable_tempo:
  assumes "sendable_tempo E t"
  shows "encode_tempo E t out = Inr (out @ tempo_image t)"
  using assms by (intro encode_tempo_image) (auto simp: sendable_tempo_def in_i64_def)

interpretation tempoc: wire_codec "encode_tempo E" "decode_tempo E" "\<lambda>_. 8" tempo_image
  "wire_tempo E" for E
proof
  fix t out rest
  assume t: "wire_tempo E t"
  have p: "in_i64 (period_micros t)" "\<bar>period_micros t * 1000\<bar> \<le> max_nanos" and E: "chrono_ok E"
    using wire_tempo_period [OF t] t by (auto simp: in_i64_def wire_tempo_def)
  then show "encode_tempo E t out = Inr (out @ tempo_image t)" by (rule encode_tempo_image [rotated])
  show "length (tempo_image t) = 8" by (simp add: tempo_image_def)
  show "decode_tempo E (tempo_image t @ rest) = Inr (t, 8)"
    using p wire_tempo_period(3) [OF t] by (simp add: decode_tempo_def tempo_image_def i64c.dec_image)
qed (auto simp: decode_tempo_def result_simps dest: i64c.dec_bound)

section \<open>Properties\<close>

text \<open>C33: Converting elapsed nanoseconds to microbeats gives the exact quotient
  \<open>1000 * nanos / period\<close>, rounded once half away from zero and saturated at \<open>i128\<close>, for every
  tempo with a nonzero period: the checked fast path and the bitwise long division of the
  wide path agree with the mathematical quotient.\<close>

theorem time_to_beats_single_rounding:
  assumes "period_micros t \<noteq> 0"
  shows "microbeats_from_nanos t nanos
           = sat128 (round_away (of_int (nanos * 1000) / of_int (period_micros t)))"
  using assms by (simp add: microbeats_from_nanos_exact round_ratio_round_away)

lemma period_120 [simp]: "period_micros (Tempo (Fin 120)) = 500000"
proof -
  have "round_pos (500000 :: rat) = 500000" using round_pos_int [of 500000] by simp
  then show ?thesis using period_of_round [of 120 500000] by simp
qed

theorem time_to_beats_single_rounding_witness:
  "microbeats_from_nanos (Tempo (Fin 120)) (2 ^ 120)
     = sat128 (round_away (of_int (2 ^ 120 * 1000) / of_int 500000))"
  using time_to_beats_single_rounding [of "Tempo (Fin 120)" "2 ^ 120"] by simp

text \<open>Converting microbeats to time multiplies the parts of the beats and of the period with
  saturation at every step, and still gives the exact product divided by the scale, rounded
  once half away from zero and saturated, for nanoseconds and for microseconds.\<close>

theorem beats_to_time_single_rounding:
  "nanos_from_microbeats t b = sat128 (round_away (of_int (b * period_micros t) / 1000))
   \<and> micros_from_microbeats t b = sat128 (round_away (of_int (b * period_micros t) / 1000000))"
  using round_ratio_round_away [of 1000 "b * period_micros t"]
    round_ratio_round_away [of 1000000 "b * period_micros t"]
  by (simp add: nanos_from_microbeats_exact micros_from_microbeats_exact)

text \<open>A tempo that arrived on the wire is sent on unchanged: encoding its period and decoding it
  again gives the same tempo from the first eight bytes, whatever follows, although decoding
  and encoding divide in double precision.\<close>

theorem tempo_wire_round_trip:
  assumes "wire_tempo E t"
  shows "\<exists>bs. encode_to_vec (encode_tempo E) t = Inr bs \<and> length bs = 8
           \<and> decode_from_slice (decode_tempo E) (bs @ rest) = Inr (t, 8)"
  using tempoc.roundtrip [OF assms] .

theorem tempo_wire_round_trip_witness:
  "\<exists>bs. encode_to_vec (encode_tempo std_ext) (tempo_from std_ext (of_microseconds std_ext 500000)) = Inr bs
      \<and> length bs = 8
      \<and> decode_from_slice (decode_tempo std_ext) (bs @ [])
          = Inr (tempo_from std_ext (of_microseconds std_ext 500000), 8)"
proof (rule tempo_wire_round_trip)
  show "wire_tempo std_ext (tempo_from std_ext (of_microseconds std_ext 500000))"
    unfolding wire_tempo_def using std_chrono_ok by (intro conjI exI [of _ 500000]) simp_all
qed

text \<open>Beats survive the conversion to nanoseconds and back for every tempo with a period of a
  millisecond or more, as long as the time fits \<open>i128\<close>.\<close>

theorem beats_nanos_round_trip:
  assumes "1000 \<le> \<bar>period_micros t\<bar>" and "in_i128 b"
    and "in_i128 (round_ratio (b * period_micros t) 1000)"
  shows "microbeats_from_nanos t (nanos_from_microbeats t b) = b"
proof -
  have "period_micros t \<noteq> 0" using assms(1) by auto
  with assms show ?thesis
    by (simp add: microbeats_from_nanos_exact nanos_from_microbeats_exact round_ratio_1000_inverse)
qed

theorem beats_nanos_round_trip_witness:
  "microbeats_from_nanos (Tempo (Fin 120)) (nanos_from_microbeats (Tempo (Fin 120)) 1234567) = 1234567"
  by (rule beats_nanos_round_trip)
    (simp_all add: in_i128_def round_ratio_closed)

end
