(* ===== verification/GhostXForm.thy ===== *)
theory GhostXForm
  imports LinkTime
begin

unbundle bit_operations_syntax

text \<open>
  The ghost transform of \<open>src/link/ghostxform.rs\<close>: the affine map between a host's clock and
  the session's ghost time. The slope is a double that the code splits into mantissa,
  exponent and sign, so that products and quotients are exact integers of up to 256 bits,
  kept in two \<open>u128\<close> halves, shifted and rounded once. \<open>u128\<close> values are integers; \<open>u128\<close>
  shifts that drop bits are written with \<open>take_bit 128\<close>.
\<close>

record ghost_xform =
  slope :: f64
  intercept :: duration

definition default_xform :: ghost_xform where
  "default_xform = \<lparr>slope = Fin 0, intercept = 0\<rparr>"

subsection \<open>Host to ghost\<close>

text \<open>
  The magnitude of the offset in microseconds: the product of the host time's magnitude and
  the slope, divided by a thousand before it is scaled by the exponent.
\<close>

definition micros_magnitude :: "int \<Rightarrow> int \<Rightarrow> int \<Rightarrow> int" where
  "micros_magnitude magnitude mantissa exponent =
     (let fraction = (magnitude mod 1000) * mantissa;
          whole = (magnitude div 1000) * mantissa + fraction div 1000
      in if exponent < 0
         then let shift = nat (- exponent)
              in if shift \<ge> 128 then 0
                 else drop_bit shift whole
                      + (if whole AND (push_bit shift 1 - 1) \<ge> push_bit (shift - 1) 1 then 1 else 0)
         else let shift = nat exponent; limit = i128_max
              in if shift \<ge> 127 \<or> whole > drop_bit shift limit then limit
                 else min (usat128 (push_bit shift whole
                        + usat128 (usat128 (fraction mod 1000 * push_bit shift 1) + 500) div 1000)) limit)"

definition host_to_ghost :: "ext \<Rightarrow> ghost_xform \<Rightarrow> duration \<Rightarrow> duration" where
  "host_to_ghost E x host_time =
     (let nanos = duration_nanos E host_time
      in if nanos = 0 then intercept x
         else
           let offset =
             (if is_finite (slope x)
              then let (mantissa, exponent, sign) = integer_decode E (slope x);
                       magnitude = micros_magnitude \<bar>nanos\<bar> mantissa exponent
                   in if (nanos < 0) \<noteq> (sign < 0) then - magnitude else magnitude
              else f64_to_int i128_min i128_max
                     (f64_round (f64_mul (slope x) (f64_div (f64_of_int nanos) (Fin 1000)))))
           in duration_from_nanos E
                (sat_add (sat_mul offset 1000) (duration_nanos E (intercept x))))"

text \<open>The exact product of two halves, as \<open>(upper, lower)\<close>.\<close>

definition wide_product :: "int \<Rightarrow> int \<Rightarrow> int \<times> int" where
  "wide_product magnitude mantissa =
     (let lower = (magnitude AND mask 64) * mantissa;
          upper = drop_bit 64 magnitude * mantissa;
          sum = lower + take_bit 128 (push_bit 64 upper);
          carry = (if sum \<ge> 2 ^ 128 then 1 else 0);
          lower = take_bit 128 sum
      in (drop_bit 64 upper + carry, lower))"

text \<open>The product shifted by the exponent, rounded half up and saturated at \<open>u128::MAX\<close>.\<close>

definition wide_scale :: "int \<Rightarrow> int \<Rightarrow> int \<Rightarrow> int" where
  "wide_scale upper lower exponent =
     (let limit = u128_max
      in if exponent < 0
         then let shift = nat (- exponent);
                  overflow = (shift < 128 \<and> drop_bit shift upper \<noteq> 0);
                  whole =
                    (if 1 \<le> shift \<and> shift \<le> 127
                       then drop_bit shift lower OR take_bit 128 (push_bit (128 - shift) upper)
                     else if shift = 128 then upper
                     else if 129 \<le> shift \<and> shift \<le> 255 then drop_bit (shift - 128) upper
                     else 0);
                  round_up =
                    (if 1 \<le> shift \<and> shift \<le> 128 then bit lower (shift - 1)
                     else if 129 \<le> shift \<and> shift \<le> 256 then bit upper (shift - 129)
                     else False)
              in if overflow then limit
                 else min (usat128 (whole + (if round_up then 1 else 0))) limit
         else let shift = nat exponent
              in if upper \<noteq> 0 \<or> shift \<ge> 128 \<or> lower > drop_bit shift limit then limit
                 else take_bit 128 (push_bit shift lower))"

text \<open>Adding a signed intercept to a magnitude with a sign, narrowed to \<open>i128\<close>.\<close>

definition add_intercept :: "int \<Rightarrow> bool \<Rightarrow> int \<Rightarrow> int" where
  "add_intercept magnitude negative icept =
     (let intercept_magnitude = \<bar>icept\<bar>;
          (magnitude, negative) =
            (if negative = (icept < 0)
               then (usat128 (magnitude + intercept_magnitude), negative)
             else if magnitude \<ge> intercept_magnitude
               then (magnitude - intercept_magnitude, negative)
             else (intercept_magnitude - magnitude, \<not> negative));
          magnitude = min magnitude (i128_max + (if negative then 1 else 0))
      in if negative
         then (if magnitude > i128_max then i128_min else - magnitude)
         else magnitude)"

definition host_to_ghost_wide_nanos :: "ext \<Rightarrow> ghost_xform \<Rightarrow> duration \<Rightarrow> int" where
  "host_to_ghost_wide_nanos E x host_time =
     (let nanos = duration_nanos E host_time
      in if nanos = 0 \<or> \<not> is_finite (slope x)
         then duration_nanos E (host_to_ghost E x host_time)
         else let (mantissa, exponent, sign) = integer_decode E (slope x);
                  (upper, lower) = wide_product \<bar>nanos\<bar> mantissa;
                  negative = ((nanos < 0) \<noteq> (sign < 0))
              in add_intercept (wide_scale upper lower exponent) negative
                   (duration_nanos E (intercept x)))"

definition host_to_ghost_nanos :: "ext \<Rightarrow> ghost_xform \<Rightarrow> duration \<Rightarrow> duration" where
  "host_to_ghost_nanos E x host_time = duration_from_nanos E (host_to_ghost_wide_nanos E x host_time)"

subsection \<open>Ghost to host\<close>

text \<open>
  The bitwise division for a negative exponent, one bit of quotient a step; \<open>None\<close> is the
  early return when the quotient cannot stay within the limit.
\<close>

fun quotient_loop :: "nat \<Rightarrow> int \<Rightarrow> int \<Rightarrow> int \<Rightarrow> int \<Rightarrow> (int \<times> int) option" where
  "quotient_loop 0 limit denominator quot remainder = Some (quot, remainder)"
| "quotient_loop (Suc n) limit denominator quot remainder =
     (if quot > limit div 2 then None
      else let quot = quot * 2; remainder = remainder * 2
           in if remainder \<ge> denominator
              then quotient_loop n limit denominator (quot + 1) (remainder - denominator)
              else quotient_loop n limit denominator quot remainder)"

text \<open>The magnitude of the quotient, rounded half up; \<open>None\<close> is the loop's early return.\<close>

definition ghost_units :: "int \<Rightarrow> int \<Rightarrow> int \<Rightarrow> int \<Rightarrow> int option" where
  "ghost_units exponent limit denominator magnitude =
     (if exponent \<ge> 0
      then let shift = nat exponent; quot = magnitude div denominator
           in Some (if shift \<ge> 128 then 0
                    else if shift = 0
                      then quot + (if magnitude mod denominator \<ge> div_ceil denominator 2 then 1 else 0)
                    else drop_bit shift quot + (drop_bit (shift - 1) quot AND 1))
      else case quotient_loop (nat (- exponent)) limit denominator
                  (magnitude div denominator) (magnitude mod denominator) of
             None \<Rightarrow> None
           | Some (quot, remainder) \<Rightarrow>
               Some (quot + (if remainder \<ge> div_ceil denominator 2 then 1 else 0)))"

text \<open>\<open>Inl\<close> is \<open>Err\<close>: the duration saturated at the limit.\<close>

definition ghost_nanos_to_host_units ::
  "ext \<Rightarrow> ghost_xform \<Rightarrow> int \<Rightarrow> int \<Rightarrow> duration + duration" where
  "ghost_nanos_to_host_units E x ghost_nanos unit =
     (let difference = sat_sub ghost_nanos (duration_nanos E (intercept x))
      in if f64_eq (slope x) (Fin 0) \<or> \<not> is_finite (slope x)
         then Inr (of_microseconds E (f64_to_int i64_min i64_max (f64_round
                (f64_div (f64_div (f64_of_int difference) (Fin 1000)) (slope x)))))
         else if difference = 0 then Inr 0
         else
           let (mantissa, exponent, sign) = integer_decode E (slope x);
               denominator = mantissa * unit;
               magnitude = \<bar>difference\<bar>;
               negative = ((difference < 0) \<noteq> (sign < 0));
               limit = (if negative then \<bar>duration_nanos E (dur_min E)\<bar> div unit
                        else duration_nanos E (dur_max E) div unit)
           in case ghost_units exponent limit denominator magnitude of
                None \<Rightarrow> Inl (if negative then dur_min E else dur_max E)
              | Some units \<Rightarrow>
                  let nanos = min units limit * unit;
                      duration = duration_from_nanos E (if negative then - nanos else nanos)
                  in if units > limit then Inl duration else Inr duration)"

definition unwrap_dur :: "duration + duration \<Rightarrow> duration" where
  "unwrap_dur r = (case r of Inl d \<Rightarrow> d | Inr d \<Rightarrow> d)"

definition ghost_nanos_to_host :: "ext \<Rightarrow> ghost_xform \<Rightarrow> int \<Rightarrow> duration" where
  "ghost_nanos_to_host E x ghost_nanos = unwrap_dur (ghost_nanos_to_host_units E x ghost_nanos 1)"

definition ghost_to_host_nanos :: "ext \<Rightarrow> ghost_xform \<Rightarrow> duration \<Rightarrow> duration" where
  "ghost_to_host_nanos E x ghost_time = ghost_nanos_to_host E x (duration_nanos E ghost_time)"

definition checked_ghost_nanos_to_host :: "ext \<Rightarrow> ghost_xform \<Rightarrow> int \<Rightarrow> duration option" where
  "checked_ghost_nanos_to_host E x ghost_nanos =
     (if f64_eq (slope x) (Fin 0) \<or> \<not> is_finite (slope x) then None
      else case ghost_nanos_to_host_units E x ghost_nanos 1 of
             Inr d \<Rightarrow> Some d
           | Inl _ \<Rightarrow> None)"

definition ghost_to_host :: "ext \<Rightarrow> ghost_xform \<Rightarrow> duration \<Rightarrow> duration" where
  "ghost_to_host E x ghost_time =
     unwrap_dur (ghost_nanos_to_host_units E x (duration_nanos E ghost_time) 1000)"

section \<open>Bits and rounding\<close>

lemma half_succ: "(x + 1) div 2 = x div 2 + (if odd x then 1 else 0)" for x :: int
  by presburger

text \<open>Adding the bit below the cut rounds a shifted number half up.\<close>

lemma drop_bit_round_up:
  fixes n :: int
  assumes "0 < s"
  shows "drop_bit s n + (if bit n (s - 1) then 1 else 0) = (n + 2 ^ (s - 1)) div 2 ^ s"
proof -
  obtain k where s: "s = Suc k" using assms by (cases s) auto
  have "(n + 2 ^ k) div 2 ^ Suc k = (n div 2 ^ k + 1) div 2"
    using zdiv_zmult2_eq [of 2 "n + 2 ^ k" "2 ^ k"] by (simp add: mult.commute)
  also have "\<dots> = n div 2 ^ k div 2 + (if odd (n div 2 ^ k) then 1 else 0)" by (rule half_succ)
  finally show ?thesis
    using zdiv_zmult2_eq [of 2 n "2 ^ k"] by (simp add: s drop_bit_eq_div bit_iff_odd mult.commute)
qed

lemma round_up_ratio:
  fixes n :: int
  assumes "0 \<le> n" and "0 < s"
  shows "(n + 2 ^ (s - 1)) div 2 ^ s = round_away (of_int n / 2 ^ s)"
proof -
  obtain k where s: "s = Suc k" using assms by (cases s) auto
  have "round_away (of_int n / of_int (2 ^ s)) = (2 * n + 2 ^ s) div (2 * 2 ^ s)"
    using round_ratio_pos [of "2 ^ s" n] round_ratio_round_away [of "2 ^ s" n] assms by simp
  also have "\<dots> = (2 * (n + 2 ^ k)) div (2 * 2 ^ s)" by (simp add: s)
  also have "\<dots> = (n + 2 ^ k) div 2 ^ s" by (rule div_mult_mult1) simp
  finally show ?thesis by (simp add: s)
qed

lemma mod_add_once:
  fixes a b n :: int
  assumes "0 \<le> a" "a < n" "0 \<le> b" "b < n"
  shows "(a + b) mod n = (if n \<le> a + b then a + b - n else a + b)"
  using assms mod_pos_pos_trivial [of "a + b - n" n] minus_mod_self2 [of "a + b" n]
  by (simp add: mod_pos_pos_trivial)

lemma drop_bit_zero_iff: "0 \<le> x \<Longrightarrow> drop_bit s x = 0 \<longleftrightarrow> x < 2 ^ s" for x :: int
  using pos_imp_zdiv_pos_iff [of "2 ^ s" x] pos_imp_zdiv_nonneg_iff [of "2 ^ s" x]
  by (auto simp: drop_bit_eq_div)

lemma wide_product_exact:
  assumes "0 \<le> a" and "a < 2 ^ 128" and "0 \<le> m" and "m < 2 ^ 64"
    and "wide_product a m = (upper, lower)"
  shows "upper * 2 ^ 128 + lower = a * m" and "0 \<le> lower" and "lower < 2 ^ 128" and "0 \<le> upper"
proof -
  define u where "u = drop_bit 64 a * m"
  define l where "l = take_bit 64 a * m"
  have "(q * 2 ^ 64 + r) * m = q * m * 2 ^ 64 + r * m" for q r by (simp add: algebra_simps)
  from this [of "a div 2 ^ 64" "a mod 2 ^ 64"] have am: "a * m = u * 2 ^ 64 + l"
    unfolding u_def l_def drop_bit_eq_div take_bit_eq_mod by (simp only: div_mult_mod_eq)
  have lo: "lower = take_bit 128 (l + take_bit 128 (push_bit 64 u))"
    and up: "upper = drop_bit 64 u + (if l + take_bit 128 (push_bit 64 u) \<ge> 2 ^ 128 then 1 else 0)"
    using assms(5) by (auto simp: wide_product_def Let_def u_def l_def take_bit_eq_mask)
  show "0 \<le> lower" "lower < 2 ^ 128" unfolding lo by (simp, rule take_bit_int_less_exp)
  show "0 \<le> upper" using assms by (simp add: up u_def drop_bit_eq_div pos_imp_zdiv_nonneg_iff)
  have l: "0 \<le> l" "l < 2 ^ 128"
  proof -
    show "0 \<le> l" using assms by (simp add: l_def)
    have "take_bit 64 a * m < 2 ^ 64 * 2 ^ 64"
      using assms take_bit_int_less_exp [of 64 a] by (intro mult_strict_mono') simp_all
    then show "l < 2 ^ 128" by (simp add: l_def)
  qed
  define t where "t = take_bit 128 (push_bit 64 u)"
  have t: "0 \<le> t" "t < 2 ^ 128" "u * 2 ^ 64 = drop_bit 64 u * 2 ^ 128 + t"
    using div_mult_mod_eq [of "u * 2 ^ 64" "2 ^ 128"]
    by (simp_all add: t_def push_bit_eq_mult take_bit_eq_mod drop_bit_eq_div zdiv_zmult2_eq flip: div_mult2_eq)
  have "lower = (if 2 ^ 128 \<le> l + t then l + t - 2 ^ 128 else l + t)"
    unfolding lo t_def [symmetric] take_bit_eq_mod [of 128 "l + t"] by (rule mod_add_once [OF l t(1,2)])
  then show "upper * 2 ^ 128 + lower = a * m"
    using am t by (simp add: up t_def [symmetric] distrib_right)
qed

lemma concat_halves:
  assumes "0 \<le> lower" and "lower < 2 ^ 128"
  shows "upper * 2 ^ 128 + lower = concat_bit 128 lower upper" and "take_bit 128 lower = lower"
  using assms by (simp_all add: concat_bit_eq push_bit_eq_mult take_bit_int_eq_self)

lemma drop_bit_halves:
  assumes "take_bit 128 lower = (lower :: int)"
  shows "s \<le> 128 \<Longrightarrow> drop_bit s (concat_bit 128 lower upper) = drop_bit s lower OR push_bit (128 - s) upper"
    and "128 \<le> s \<Longrightarrow> drop_bit s (concat_bit 128 lower upper) = drop_bit (s - 128) upper"
proof -
  have hi: "bit lower n \<Longrightarrow> n < 128" for n
    by (subst (asm) assms [symmetric]) (simp add: bit_take_bit_iff)
  show "drop_bit s (concat_bit 128 lower upper) = drop_bit s lower OR push_bit (128 - s) upper"
    if "s \<le> 128"
    using that by (intro bit_eqI)
      (auto dest: hi simp: bit_drop_bit_eq bit_concat_bit_iff bit_or_iff bit_push_bit_iff not_less diff_diff_right add.commute)
  show "drop_bit s (concat_bit 128 lower upper) = drop_bit (s - 128) upper" if "128 \<le> s"
    using that by (intro bit_eqI) (auto simp: bit_drop_bit_eq bit_concat_bit_iff)
qed

lemma wide_scale_down:
  assumes lo: "0 \<le> lower" "lower < 2 ^ 128" and up: "0 \<le> upper" "upper < 2 ^ 127" and s: "0 < s"
  shows "wide_scale upper lower (- int s) =
           min u128_max (drop_bit s (concat_bit 128 lower upper)
                         + (if bit (concat_bit 128 lower upper) (s - 1) then 1 else 0))"
proof -
  note t = concat_halves(2) [OF lo]
  let ?N = "concat_bit 128 lower upper"
  have nn: "0 \<le> drop_bit s ?N" using up by simp
  have sat: "min (usat128 (x + b)) u128_max = min u128_max (x + b)" if "0 \<le> x" "0 \<le> b" for x b
    using that by (simp add: usat128_def clamp_def)
  have hi: "drop_bit k upper = 0" "\<not> bit upper k" if "127 \<le> k" for k
  proof -
    have "upper < 2 ^ k" using up(2) power_increasing [OF that, of "2 :: int"] by linarith
    then show "drop_bit k upper = 0" using up by (simp add: drop_bit_zero_iff)
    then show "\<not> bit upper k" by (simp add: bit_iff_odd_drop_bit)
  qed
  consider "s \<le> 127" "drop_bit s upper \<noteq> 0" | "s \<le> 127" "drop_bit s upper = 0"
    | "s = 128" | "129 \<le> s" "s \<le> 255" | "s = 256" | "257 \<le> s"
    by linarith
  then show ?thesis
  proof cases
    case 1
    have "2 ^ s \<le> upper" using 1 up by (simp add: drop_bit_zero_iff)
    then have "2 ^ s * 2 ^ (128 - s) \<le> upper * 2 ^ (128 - s)" by (intro mult_right_mono) simp_all
    then have "2 ^ 128 \<le> push_bit (128 - s) upper"
      using 1 by (simp add: push_bit_eq_mult flip: power_add)
    also have "\<dots> \<le> drop_bit s ?N"
      using 1 lo up by (simp add: drop_bit_halves [OF t] or_greater_eq or.commute [of "drop_bit s lower"])
    finally show ?thesis using 1 s by (simp add: wide_scale_def Let_def)
  next
    case 2
    have "upper < 2 ^ s" using 2 up by (simp add: drop_bit_zero_iff)
    then have "upper * 2 ^ (128 - s) < 2 ^ s * 2 ^ (128 - s)" by (intro mult_strict_right_mono) simp_all
    then have "take_bit 128 (push_bit (128 - s) upper) = push_bit (128 - s) upper"
      using 2 up by (intro take_bit_int_eq_self) (simp_all add: push_bit_eq_mult flip: power_add)
    moreover have "bit ?N (s - 1) = bit lower (s - 1)" using 2 s by (auto simp: bit_concat_bit_iff)
    ultimately show ?thesis using 2 s nn
      by (simp add: wide_scale_def Let_def sat drop_bit_halves [OF t])
  next
    case 3
    then show ?thesis using nn up
      by (simp add: wide_scale_def Let_def sat drop_bit_halves(2) [OF t] bit_concat_bit_iff)
  next
    case 4
    then have "bit ?N (s - 1) = bit upper (s - 129)" by (auto simp: bit_concat_bit_iff)
    with 4 show ?thesis using nn up
      by (simp add: wide_scale_def Let_def sat drop_bit_halves(2) [OF t])
  next
    case 5
    then show ?thesis using up
      by (simp add: wide_scale_def Let_def drop_bit_halves(2) [OF t] bit_concat_bit_iff hi usat128_def)
  next
    case 6
    then have "\<not> bit ?N (s - 1)" using hi(2) [of "s - 129"] by (auto simp: bit_concat_bit_iff)
    with 6 show ?thesis using up
      by (simp add: wide_scale_def Let_def sat drop_bit_halves(2) [OF t] hi usat128_def)
  qed
qed

lemma wide_scale_up:
  assumes lo: "0 \<le> lower" "lower < 2 ^ 128" and up: "0 \<le> upper" and m: "0 < upper * 2 ^ 128 + lower"
  shows "wide_scale upper lower (int s) = min u128_max ((upper * 2 ^ 128 + lower) * 2 ^ s)"
proof -
  let ?N = "upper * 2 ^ 128 + lower"
  have ge: "?N \<le> ?N * 2 ^ s" using m mult_left_mono [of 1 "2 ^ s" ?N] by simp
  consider "upper \<noteq> 0" | "128 \<le> s" | "upper = 0" "s < 128" by linarith
  then show ?thesis
  proof cases
    case 1
    then have "1 * 2 ^ 128 \<le> upper * 2 ^ 128" using up by (intro mult_right_mono) simp_all
    then have "u128_max \<le> ?N" using lo by simp
    then have "u128_max \<le> ?N * 2 ^ s" using ge by (rule order_trans)
    with 1 show ?thesis by (simp add: wide_scale_def Let_def)
  next
    case 2
    have "1 * 2 ^ 128 \<le> ?N * 2 ^ s"
      using m power_increasing [OF 2, of "2 :: int"] by (intro mult_mono) simp_all
    with 2 show ?thesis by (simp add: wide_scale_def Let_def)
  next
    case 3
    have "(u128_max < lower * 2 ^ s) = (drop_bit s u128_max < lower)"
      by (simp only: drop_bit_eq_div int_div_less_iff zero_less_power zero_less_numeral)
    then show ?thesis using 3 lo
      by (auto simp: wide_scale_def Let_def push_bit_eq_mult take_bit_int_eq_self min_def)
  qed
qed

section \<open>Host to ghost is one rounding of the exact product\<close>

lemma add_intercept_exact:
  assumes "0 \<le> R" and "\<bar>icept\<bar> \<le> max_nanos"
  shows "add_intercept (min u128_max R) negative icept
           = sat128 ((if negative then - R else R) + icept)"
proof -
  have "add_intercept (min u128_max R) negative icept = sat128 ((if negative then - R else R) + icept)"
    if "R \<le> u128_max \<or> u128_max < R" "0 \<le> icept \<or> icept < 0"
    using that assms
    by (elim disjE; cases negative)
      (simp_all add: add_intercept_def Let_def usat128_def sat128_def clamp_def min_def)
  then show ?thesis by linarith
qed

lemma round_away_minus: "round_away (- x) = - round_away x"
  by (cases "x = 0") (simp, auto simp: round_away_def)

lemma product_scaled:
  assumes "0 \<le> a" and "a \<le> 2 ^ 127" and "0 \<le> m" and "m < 2 ^ 53"
    and "wide_product a m = (upper, lower)" and "0 \<le> e \<Longrightarrow> 0 < a * m"
  shows "wide_scale upper lower e = min u128_max (round_away (of_int (a * m) * 2 powi e))"
proof -
  have wp: "upper * 2 ^ 128 + lower = a * m" and lo: "0 \<le> lower" "lower < 2 ^ 128" and up: "0 \<le> upper"
    using wide_product_exact [OF assms(1) _ assms(3) _ assms(5)] assms(2,4) by simp_all
  have "a * m \<le> 2 ^ 127 * 2 ^ 53" using assms by (intro mult_mono) simp_all
  then have "upper * 2 ^ 128 \<le> 2 ^ 180" using wp lo by simp
  then have up': "upper < 2 ^ 127" by simp
  have nn: "0 \<le> a * m" using assms by simp
  show ?thesis
  proof (cases "e < 0")
    case True
    define s where "s = nat (- e)"
    have e: "e = - int s" "0 < s" using True by (simp_all add: s_def)
    have "round_away (of_int (a * m) * 2 powi e) = (a * m + 2 ^ (s - 1)) div 2 ^ s"
      using round_up_ratio [OF nn e(2)] by (simp add: e(1) power_int_minus divide_inverse)
    also have "\<dots> = drop_bit s (concat_bit 128 lower upper)
                     + (if bit (concat_bit 128 lower upper) (s - 1) then 1 else 0)"
      unfolding concat_halves(1) [OF lo, symmetric] wp by (rule drop_bit_round_up [OF e(2), symmetric])
    finally show ?thesis unfolding e(1) wide_scale_down [OF lo up up' e(2)] by simp
  next
    case False
    have "of_int (a * m) * 2 powi e = (of_int (a * m * 2 ^ nat e) :: rat)"
      using False by (simp add: powi_of_int)
    then have "round_away (of_int (a * m) * 2 powi e) = a * m * 2 ^ nat e"
      by (simp only: round_away_of_int)
    moreover have "wide_scale upper lower e = min u128_max (a * m * 2 ^ nat e)"
      using wide_scale_up [OF lo up, of "nat e", unfolded wp] assms(6) False by simp
    ultimately show ?thesis by simp
  qed
qed

lemma decode_laws:
  assumes "decode_ok E" and "is_finite x" and "f64_repr x" and "integer_decode E x = (m, e, s)"
  shows "val x = of_int (s * m) * 2 powi e" and "0 \<le> m" and "m < 2 ^ 53"
    and "s = (if is_neg x then - 1 else 1)" and "- 1075 \<le> e" and "e \<le> 971"
    and "0 \<le> e \<Longrightarrow> 2 ^ 52 \<le> m"
  using assms unfolding decode_ok_def by blast+

lemma signed_round:
  assumes "s = (1 :: int) \<or> s = - 1"
  shows "(if (n < 0) \<noteq> (s < 0) then - round_away (of_int (\<bar>n\<bar> * m) * c)
          else round_away (of_int (\<bar>n\<bar> * m) * c)) = round_away (of_int n * (of_int (s * m) * c))"
  using assms by (auto simp: abs_if mult.assoc simp flip: round_away_minus)

lemma host_to_ghost_wide_exact:
  assumes E: "ext_ok E" and fin: "is_finite (slope x)" and rep: "f64_repr (slope x)"
    and "valid_dur E h" and "valid_dur E (intercept x)"
  shows "host_to_ghost_wide_nanos E x h
           = sat128 (round_away (of_int h * val (slope x)) + intercept x)"
proof -
  have C: "chrono_ok E" and D: "decode_ok E" using E by (simp_all add: ext_ok_def)
  have i: "\<bar>intercept x\<bar> \<le> max_nanos" and h: "\<bar>h\<bar> \<le> max_nanos"
    using assms(4,5) C by (simp_all add: valid_dur_iff)
  show ?thesis
  proof (cases "h = 0")
    case True
    then show ?thesis using assms C i
      by (simp add: host_to_ghost_wide_nanos_def host_to_ghost_def in_i128_def abs_le_iff)
  next
    case False
    obtain m e s where dec: "integer_decode E (slope x) = (m, e, s)" by (metis prod_cases3)
    note L = decode_laws [OF D fin rep dec]
    obtain upper lower where wp: "wide_product \<bar>h\<bar> m = (upper, lower)" by fastforce
    let ?R = "round_away (of_int (\<bar>h\<bar> * m) * 2 powi e)"
    have scale: "wide_scale upper lower e = min u128_max ?R"
      by (rule product_scaled [OF _ _ L(2,3) wp]) (use h L(7) False in auto)
    have "0 \<le> ?R" using round_away_mono [of 0 "of_int (\<bar>h\<bar> * m) * 2 powi e"] L(2) by simp
    then have "host_to_ghost_wide_nanos E x h =
        sat128 ((if (h < 0) \<noteq> (s < 0) then - ?R else ?R) + intercept x)"
      using False fin dec wp assms(4,5) C i
      by (simp add: host_to_ghost_wide_nanos_def scale add_intercept_exact)
    also have "(if (h < 0) \<noteq> (s < 0) then - ?R else ?R) = round_away (of_int h * val (slope x))"
      using signed_round [of s h m "2 powi e"] L(1,4) by simp
    finally show ?thesis .
  qed
qed

text \<open>
  The microsecond version rounds the product in microseconds, and only the final duration is
  clamped to what a duration can hold.
\<close>

lemma mask_half:
  fixes whole :: int
  assumes "0 < s"
  shows "(whole AND (push_bit s 1 - 1) \<ge> push_bit (s - 1) 1) = bit whole (s - 1)"
proof -
  obtain k where s: "s = Suc k" using assms by (cases s) auto
  have "whole AND (push_bit s 1 - 1) = take_bit (Suc k) whole"
    by (simp add: s take_bit_eq_mask mask_eq_exp_minus_1 push_bit_eq_mult)
  also have "\<dots> = 2 ^ k * of_bool (bit whole k) + take_bit k whole"
    by (simp add: take_bit_Suc_from_most)
  finally show ?thesis using take_bit_int_less_exp [of k whole]
    by (simp add: s push_bit_eq_mult not_le)
qed

lemma split_thousand:
  fixes a m :: int
  shows "(a div 1000) * m + (a mod 1000) * m div 1000 = a * m div 1000"
    and "(a mod 1000) * m mod 1000 = a * m mod 1000"
proof -
  have "(r + q * 1000) * m = r * m + q * m * 1000" for q r by (simp add: algebra_simps)
  from this [of "a mod 1000" "a div 1000"]
  have "a * m = (a mod 1000) * m + (a div 1000) * m * 1000" by (simp only: mod_div_mult_eq)
  then show "(a div 1000) * m + (a mod 1000) * m div 1000 = a * m div 1000" by simp
  show "(a mod 1000) * m mod 1000 = a * m mod 1000" by (rule mod_mult_left_eq)
qed

lemma round_down_scaled:
  assumes "0 \<le> N" and "0 < s"
  shows "(N div 1000 + 2 ^ (s - 1)) div 2 ^ s = round_away (of_int N / 1000 / 2 ^ s)"
proof -
  obtain k where s: "s = Suc k" using assms by (cases s) auto
  have "round_away (of_int N / of_int (1000 * 2 ^ s)) = (2 * N + 1000 * 2 ^ s) div (2 * (1000 * 2 ^ s))"
    using round_ratio_pos [of "1000 * 2 ^ s" N] round_ratio_round_away [of "1000 * 2 ^ s" N] assms by simp
  also have "\<dots> = (2 * (N + 1000 * 2 ^ k)) div (2 * (1000 * 2 ^ s))" by (simp add: s)
  also have "\<dots> = (N + 1000 * 2 ^ k) div (1000 * 2 ^ s)" by (rule div_mult_mult1) simp
  also have "\<dots> = (N + 1000 * 2 ^ k) div 1000 div 2 ^ s" by (rule zdiv_zmult2_eq) simp
  also have "(N + 1000 * 2 ^ k) div 1000 = N div 1000 + 2 ^ k" by simp
  finally show ?thesis by (simp add: s)
qed

lemma round_up_scaled:
  assumes "0 \<le> N"
  shows "N div 1000 * 2 ^ s + (N mod 1000 * 2 ^ s + 500) div 1000 = round_away (of_int N / 1000 * 2 ^ s)"
proof -
  have "(q * 1000 + r) * 2 ^ s + 500 = (r * 2 ^ s + 500) + q * 2 ^ s * 1000" for q r :: int
    by (simp add: algebra_simps)
  from this [of "N div 1000" "N mod 1000"]
  have "N * 2 ^ s + 500 = (N mod 1000 * 2 ^ s + 500) + N div 1000 * 2 ^ s * 1000"
    by (simp only: div_mult_mod_eq)
  then have "(N * 2 ^ s + 500) div 1000 = (N mod 1000 * 2 ^ s + 500) div 1000 + N div 1000 * 2 ^ s"
    by simp
  moreover have "round_away (of_int (N * 2 ^ s) / of_int 1000) = (2 * (N * 2 ^ s + 500)) div (2 * 1000)"
    using round_ratio_pos [of 1000 "N * 2 ^ s"] round_ratio_round_away [of 1000 "N * 2 ^ s"] assms by simp
  then have "round_away (of_int N / 1000 * 2 ^ s) = (N * 2 ^ s + 500) div 1000"
    by simp
  ultimately show ?thesis by simp
qed

lemma clamp_offset:
  assumes "0 \<le> R" and "\<bar>i\<bar> \<le> max_nanos"
  shows "clamp (- max_nanos) max_nanos
           (sat_add (sat_mul (if neg then - min i128_max R else min i128_max R) 1000) i)
         = clamp (- max_nanos) max_nanos ((if neg then - R else R) * 1000 + i)"
proof -
  have i: "- max_nanos \<le> i" "i \<le> max_nanos" using assms(2) by auto
  show ?thesis using assms(1) i by (cases neg; cases "R \<le> i128_max") (simp_all add: sat_defs)
qed

lemma micros_magnitude_down:
  assumes "0 < a" and "a \<le> max_nanos" and "0 \<le> m" and "m < 2 ^ 53" and "e < 0"
  shows "micros_magnitude a m e = min i128_max (round_away (of_int (a * m) / 1000 * 2 powi e))"
proof -
  define N where "N = a * m"
  define s where "s = nat (- e)"
  have s: "e = - int s" "0 < s" using assms(5) by (simp_all add: s_def)
  have "N \<le> max_nanos * 2 ^ 53" unfolding N_def using assms by (intro mult_mono) simp_all
  moreover have N0: "0 \<le> N" using assms by (simp add: N_def)
  ultimately have W: "0 \<le> N div 1000" "N div 1000 < 2 ^ 127"
    by (simp_all add: pos_imp_zdiv_nonneg_iff int_div_less_iff)
  have R: "round_away (of_int (a * m) / 1000 * 2 powi e) = (N div 1000 + 2 ^ (s - 1)) div 2 ^ s"
  proof -
    have "(2 :: rat) powi e = inverse (2 ^ s)" by (simp add: s(1) power_int_minus)
    then show ?thesis
      by (simp only: round_down_scaled [OF N0 s(2)] divide_inverse flip: N_def)
  qed
  have small: "(N div 1000 + 2 ^ (s - 1)) div 2 ^ s \<le> i128_max"
  proof -
    have "(2 :: int) ^ (s - 1) \<le> 2 ^ s" by (rule power_increasing) simp_all
    then have "(N div 1000 + 2 ^ (s - 1)) div 2 ^ s \<le> (N div 1000 + 1 * 2 ^ s) div 2 ^ s"
      by (intro zdiv_mono1) simp_all
    also have "\<dots> = N div 1000 div 2 ^ s + 1" by simp
    also have "N div 1000 div 2 ^ s \<le> N div 1000 div 2"
      using W s(2) power_increasing [of 1 s "2 :: int"] by (intro zdiv_mono2) simp_all
    finally have "(N div 1000 + 2 ^ (s - 1)) div 2 ^ s \<le> N div 1000 div 2 + 1" by simp
    moreover have "N div 1000 div 2 < 2 ^ 126" using W(2) by (intro int_div_less) simp_all
    then have "N div 1000 div 2 + 1 \<le> i128_max" by simp
    ultimately show ?thesis by (rule order_trans)
  qed
  show ?thesis
  proof (cases "128 \<le> s")
    case True
    have "(2 :: int) ^ 127 \<le> 2 ^ (s - 1)" using True by (intro power_increasing) simp_all
    then have "N div 1000 + 2 ^ (s - 1) < 2 * 2 ^ (s - 1)" using W by linarith
    also have "2 * 2 ^ (s - 1) = (2 :: int) ^ s" using s(2) by (cases s) auto
    finally have "(N div 1000 + 2 ^ (s - 1)) div 2 ^ s = 0" using W by simp
    then show ?thesis using True assms(5) R by (simp add: micros_magnitude_def Let_def s_def)
  next
    case False
    then have "micros_magnitude a m e =
        drop_bit s (N div 1000) + (if bit (N div 1000) (s - 1) then 1 else 0)"
      using assms(5) mask_half [OF s(2)]
      by (simp add: micros_magnitude_def Let_def split_thousand N_def flip: s_def)
    then show ?thesis unfolding drop_bit_round_up [OF s(2)] R using small by simp
  qed
qed

lemma micros_magnitude_up:
  assumes "0 < a" and "2 ^ 52 \<le> m" and "0 \<le> e"
  shows "micros_magnitude a m e = min i128_max (round_away (of_int (a * m) / 1000 * 2 powi e))"
proof -
  define N where "N = a * m"
  define s where "s = nat e"
  have "1 * 2 ^ 52 \<le> N" unfolding N_def using assms by (intro mult_mono) simp_all
  then have W: "1000 \<le> N div 1000" and N0: "0 \<le> N" by simp_all
  have R: "round_away (of_int (a * m) / 1000 * 2 powi e)
             = N div 1000 * 2 ^ s + (N mod 1000 * 2 ^ s + 500) div 1000"
    using round_up_scaled [OF N0, of s] assms(3) by (simp add: s_def powi_of_int N_def)
  have rest: "0 \<le> (N mod 1000 * 2 ^ s + 500) div 1000" by (simp add: pos_imp_zdiv_nonneg_iff)
  have ge: "1000 * 2 ^ s \<le> N div 1000 * 2 ^ s" using W by (intro mult_right_mono) simp_all
  have unfold: "micros_magnitude a m e =
      (if 127 \<le> s \<or> drop_bit s i128_max < N div 1000 then i128_max
       else min (usat128 (N div 1000 * 2 ^ s
              + usat128 (usat128 (N mod 1000 * 2 ^ s) + 500) div 1000)) i128_max)"
    using assms(3) by (simp add: micros_magnitude_def Let_def split_thousand N_def push_bit_eq_mult flip: s_def)
  show ?thesis
  proof (cases "127 \<le> s \<or> drop_bit s i128_max < N div 1000")
    case True
    have "i128_max \<le> N div 1000 * 2 ^ s"
    proof (cases "127 \<le> s")
      case True
      then have "(2 :: int) ^ 127 \<le> 2 ^ s" by (intro power_increasing) simp_all
      then have "i128_max \<le> 2 ^ s" by simp
      with ge show ?thesis by linarith
    next
      case False
      with True have "i128_max div 2 ^ s < N div 1000" by (simp only: drop_bit_eq_div simp_thms)
      then show ?thesis by (simp only: int_div_less_iff zero_less_power zero_less_numeral less_imp_le)
    qed
    with True rest show ?thesis unfolding unfold R by (simp only: if_True)
  next
    case False
    then have "\<not> i128_max div 2 ^ s < N div 1000" by (simp only: drop_bit_eq_div de_Morgan_disj not_False_eq_True)
    then have le: "N div 1000 * 2 ^ s \<le> i128_max"
      by (simp only: int_div_less_iff zero_less_power zero_less_numeral not_less)
    have "N mod 1000 * 2 ^ s \<le> 1000 * 2 ^ s" by (intro mult_right_mono) (auto intro: less_imp_le)
    then have r: "0 \<le> N mod 1000 * 2 ^ s" "N mod 1000 * 2 ^ s \<le> i128_max"
      using ge le by (simp, linarith)
    then have r': "(N mod 1000 * 2 ^ s + 500) div 1000 \<le> i128_max" by simp
    have "N mod 1000 * 2 ^ s + 500 \<le> u128_max" using r by simp
    moreover have "0 \<le> N div 1000 * 2 ^ s" using W by simp
    ultimately show ?thesis using False r r' le rest unfolding unfold R
      by (simp add: usat128_def min.commute)
  qed
qed

lemma host_to_ghost_exact:
  assumes E: "ext_ok E" and fin: "is_finite (slope x)" and rep: "f64_repr (slope x)"
    and "valid_dur E h" and "valid_dur E (intercept x)"
  shows "host_to_ghost E x h
           = clamp (- max_nanos) max_nanos
               (round_away (of_int h * val (slope x) / 1000) * 1000 + intercept x)"
proof -
  have C: "chrono_ok E" and D: "decode_ok E" using E by (simp_all add: ext_ok_def)
  have i: "\<bar>intercept x\<bar> \<le> max_nanos" and h: "\<bar>h\<bar> \<le> max_nanos"
    using assms(4,5) C by (simp_all add: valid_dur_iff)
  show ?thesis
  proof (cases "h = 0")
    case True
    then show ?thesis using assms C i by (simp add: host_to_ghost_def abs_le_iff)
  next
    case False
    obtain m e s where dec: "integer_decode E (slope x) = (m, e, s)" by (metis prod_cases3)
    note L = decode_laws [OF D fin rep dec]
    let ?R = "round_away (of_int (\<bar>h\<bar> * m) * (2 powi e / 1000))"
    have M: "micros_magnitude \<bar>h\<bar> m e = min i128_max ?R"
      using micros_magnitude_down [of "\<bar>h\<bar>" m e] micros_magnitude_up [of "\<bar>h\<bar>" m e] False h L(2,3,7)
      by (cases "e < 0") simp_all
    have R0: "0 \<le> ?R" using round_away_mono [of 0 "of_int (\<bar>h\<bar> * m) * (2 powi e / 1000)"] L(2) by simp
    have "host_to_ghost E x h = duration_from_nanos E (sat_add (sat_mul
        (if (h < 0) \<noteq> (s < 0) then - micros_magnitude \<bar>h\<bar> m e else micros_magnitude \<bar>h\<bar> m e) 1000)
        (intercept x))"
      using False fin dec assms(4,5) C
      by (simp add: host_to_ghost_def Let_def)
    also have "\<dots> = clamp (- max_nanos) max_nanos
        ((if (h < 0) \<noteq> (s < 0) then - ?R else ?R) * 1000 + intercept x)"
      unfolding M duration_from_nanos_clamp [OF C] by (rule clamp_offset [OF R0 i])
    also have "(if (h < 0) \<noteq> (s < 0) then - ?R else ?R) = round_away (of_int h * val (slope x) / 1000)"
      using signed_round [of s h m "2 powi e / 1000"] L(1,4) by simp
    finally show ?thesis .
  qed
qed

section \<open>Ghost to host is one rounding of the exact quotient\<close>

text \<open>
  The loop computes the bits of \<open>magnitude * 2 ^ n div denominator\<close>, and stops early only when
  that quotient is above the limit.
\<close>

lemma quotient_loop_inv:
  assumes "0 < den" and "0 \<le> q" and "0 \<le> r" and "r < den" and "0 \<le> limit"
  shows "case quotient_loop n limit den q r of
           None \<Rightarrow> limit < (q * den + r) * 2 ^ n div den
         | Some (q', r') \<Rightarrow> q' = (q * den + r) * 2 ^ n div den \<and> r' = (q * den + r) * 2 ^ n mod den"
  using assms
proof (induction n arbitrary: q r)
  case (Suc n)
  define k where "k = (if r * 2 \<ge> den then 1 else 0 :: int)"
  let ?q = "q * 2 + k" and ?r = "r * 2 - k * den"
  have step: "?q * den + ?r = (q * den + r) * 2" by (simp add: algebra_simps)
  show ?case
  proof (cases "limit div 2 < q")
    case True
    then have "limit < q * 2" by linarith
    moreover have "q * 2 * 1 \<le> q * 2 * 2 ^ n" using Suc.prems by (intro mult_left_mono) simp_all
    moreover have "q * 2 * 2 ^ n \<le> (q * den + r) * 2 ^ Suc n div den"
    proof -
      have "q * 2 * 2 ^ n = q * 2 ^ Suc n * den div den" using Suc.prems by simp
      also have "\<dots> \<le> (q * den + r) * 2 ^ Suc n div den"
        using Suc.prems by (intro zdiv_mono1) (simp_all add: algebra_simps)
      finally show ?thesis .
    qed
    ultimately show ?thesis using True by simp
  next
    case False
    have "case quotient_loop n limit den ?q ?r of
           None \<Rightarrow> limit < (?q * den + ?r) * 2 ^ n div den
         | Some (q', r') \<Rightarrow> q' = (?q * den + ?r) * 2 ^ n div den \<and> r' = (?q * den + ?r) * 2 ^ n mod den"
      by (rule Suc.IH) (use Suc.prems in \<open>auto simp: k_def\<close>)
    moreover have "quotient_loop (Suc n) limit den q r = quotient_loop n limit den ?q ?r"
      using False by (auto simp: k_def Let_def)
    moreover have "(q * den + r) * 2 * 2 ^ n = (q * den + r) * 2 ^ Suc n" by simp
    ultimately show ?thesis unfolding step by (simp only:)
  qed
qed simp

lemma quotient_shift:
  fixes a d :: int
  assumes "0 \<le> a" and "0 < d" and "0 < s"
  shows "drop_bit s (a div d) + (drop_bit (s - 1) (a div d) AND 1)
           = round_away (of_int a / (of_int d * 2 ^ s))"
proof -
  obtain k where s: "s = Suc k" using assms by (cases s) auto
  have "drop_bit (s - 1) (a div d) AND 1 = (if bit (a div d) (s - 1) then 1 else 0)"
    by (simp add: and_one_eq bit_iff_odd_drop_bit mod_2_eq_odd)
  then have "drop_bit s (a div d) + (drop_bit (s - 1) (a div d) AND 1)
      = (a div d + 2 ^ k) div 2 ^ s"
    using drop_bit_round_up [OF assms(3), of "a div d"] by (simp add: s)
  also have "a div d + 2 ^ k = (a + 2 ^ k * d) div d" using assms(2) by simp
  also have "(a + 2 ^ k * d) div d div 2 ^ s = (a + 2 ^ k * d) div (d * 2 ^ s)"
    by (rule zdiv_zmult2_eq [symmetric]) simp
  also have "\<dots> = (2 * (a + 2 ^ k * d)) div (2 * (d * 2 ^ s))"
    by (rule div_mult_mult1 [symmetric]) simp
  also have "\<dots> = (2 * a + d * 2 ^ s) div (2 * (d * 2 ^ s))" by (simp add: s algebra_simps)
  also have "\<dots> = round_away (of_int a / of_int (d * 2 ^ s))"
    using round_ratio_pos [of "d * 2 ^ s" a] round_ratio_round_away [of "d * 2 ^ s" a] assms by simp
  finally show ?thesis by simp
qed

lemma ghost_units_exact:
  assumes a: "0 \<le> a" "a \<le> 2 ^ 127" and d: "0 < d" "0 \<le> e \<Longrightarrow> 1 < d" and l: "0 \<le> limit"
  defines "U \<equiv> round_away (of_int a / (of_int d * 2 powi e))"
  shows "ghost_units e limit d a = (if limit < U \<and> ghost_units e limit d a = None then None else Some U)"
    and "ghost_units e limit d a = None \<Longrightarrow> limit < U"
proof -
  have ratio: "round_away (of_int n / of_int d) = n div d + (if div_ceil d 2 \<le> n mod d then 1 else 0)"
    if "0 \<le> n" for n
    using round_ratio_pos [of d n] round_ratio_round_away [of d n] half_up_div [of d n] d(1) that by simp
  have up: "ghost_units e limit d a = Some U" if e: "0 \<le> e"
  proof -
    define s where "s = nat e"
    have U: "U = round_away (of_int a / (of_int d * 2 ^ s))" using e by (simp add: U_def powi_of_int s_def)
    consider "128 \<le> s" | "s = 0" | "0 < s" "s < 128" by linarith
    then show ?thesis
    proof cases
      case 1
      have "2 * a < d * 2 ^ s"
      proof -
        have "1 * 2 ^ s < d * 2 ^ s" using d(2) [OF e] by (intro mult_strict_right_mono) simp_all
        moreover have "(2 :: int) ^ 128 \<le> 2 ^ s" using 1 by (intro power_increasing) simp_all
        then have "2 * a \<le> 2 ^ s" using a by simp
        ultimately show ?thesis by linarith
      qed
      then have "round_ratio a (d * 2 ^ s) = 0" using a(1) d(1) by (intro round_ratio_near) simp
      then have "U = 0" using d(1) by (simp add: U round_ratio_round_away)
      with 1 e show ?thesis by (simp add: ghost_units_def s_def)
    next
      case 2
      with e show ?thesis using ratio [OF a(1)] by (simp add: ghost_units_def s_def [symmetric] U)
    next
      case 3
      with e show ?thesis using quotient_shift [OF a(1) d(1) 3(1)]
        by (simp add: ghost_units_def s_def [symmetric] U Let_def)
    qed
  qed
  have down: "case ghost_units e limit d a of None \<Rightarrow> limit < U | Some u \<Rightarrow> u = U" if e: "e < 0"
  proof -
    define n where "n = nat (- e)"
    have "e = - int n" using e by (simp add: n_def)
    then have "(2 :: rat) powi e = inverse (2 ^ n)" by (simp add: power_int_minus)
    then have "U = round_away (of_int (a * 2 ^ n) / of_int d)" by (simp add: U_def divide_inverse mult_ac)
    then have U: "U = a * 2 ^ n div d + (if div_ceil d 2 \<le> a * 2 ^ n mod d then 1 else 0)"
      using ratio [of "a * 2 ^ n"] a(1) by simp
    have "0 \<le> a div d" using a d by (simp add: pos_imp_zdiv_nonneg_iff)
    from quotient_loop_inv [OF d(1) this _ _ l, of "a mod d" n] d(1) show ?thesis
      using e by (auto simp: ghost_units_def U simp flip: n_def split: option.splits)
  qed
  show "ghost_units e limit d a = (if limit < U \<and> ghost_units e limit d a = None then None else Some U)"
    and "ghost_units e limit d a = None \<Longrightarrow> limit < U"
    using up down by (cases "e < 0"; auto split: option.splits)+
qed

lemma nonzero_decode:
  assumes "decode_ok E" and "is_finite x" and "f64_repr x" and "val x \<noteq> 0"
    and "integer_decode E x = (m, e, s)"
  shows "1 \<le> m"
proof -
  have "m \<noteq> 0" using decode_laws(1) [OF assms(1-3,5)] assms(4) by auto
  then show ?thesis using decode_laws(2) [OF assms(1-3,5)] by simp
qed

lemma f64_eq_zero: "is_finite x \<Longrightarrow> f64_eq x (Fin 0) \<longleftrightarrow> val x = 0"
  by (cases x) (auto simp: is_finite_def is_zero_def)

lemma signed_quotient:
  assumes "s = (1 :: int) \<or> s = - 1"
  shows "(if (n < 0) \<noteq> (s < 0) then - round_away (of_int \<bar>n\<bar> / (of_int m * c))
          else round_away (of_int \<bar>n\<bar> / (of_int m * c))) = round_away (of_int n / (of_int (s * m) * c))"
  using assms by (auto simp: abs_if simp flip: round_away_minus)

lemma ghost_to_host_exact:
  fixes g unit :: int
  assumes E: "ext_ok E" and fin: "is_finite (slope x)" and rep: "f64_repr (slope x)"
    and nz: "val (slope x) \<noteq> 0" and ic: "valid_dur E (intercept x)" and unit: "unit = 1 \<or> unit = 1000"
  defines "U \<equiv> round_away (of_int (sat_sub g (intercept x)) / (val (slope x) * of_int unit)) * unit"
  shows "ghost_nanos_to_host_units E x g unit
           = (if \<bar>U\<bar> \<le> max_nanos then Inr U else Inl (clamp (- max_nanos) max_nanos U))"
proof -
  have C: "chrono_ok E" and D: "decode_ok E" using E by (simp_all add: ext_ok_def)
  define d where "d = sat_sub g (intercept x)"
  obtain m e s where dec: "integer_decode E (slope x) = (m, e, s)" by (metis prod_cases3)
  note L = decode_laws [OF D fin rep dec]
  have m1: "1 \<le> m" by (rule nonzero_decode [OF D fin rep nz dec])
  define limit where "limit = max_nanos div unit"
  have lim: "limit * unit = max_nanos" "0 \<le> limit" "0 < unit" using unit by (auto simp: limit_def)
  define neg where "neg = ((d < 0) \<noteq> (s < 0))"
  define M where "M = round_away (of_int \<bar>d\<bar> / (of_int (m * unit) * 2 powi e))"
  have dle: "\<bar>d\<bar> \<le> 2 ^ 127" using sat_sub_in [of g "intercept x"] by (auto simp: d_def in_i128_def)
  have M0: "0 \<le> M"
    using round_away_mono [of 0 "of_int \<bar>d\<bar> / (of_int (m * unit) * 2 powi e)"] m1 lim(3) by (simp add: M_def)
  have U: "U = (if neg then - M else M) * unit"
    using signed_quotient [of s d "m * unit" "2 powi e"] L(4)
    by (simp add: U_def L(1) M_def neg_def mult_ac flip: d_def split: if_splits)
  note GU = ghost_units_exact [of "\<bar>d\<bar>" "m * unit" e limit, folded M_def]
  have pre: "0 < m * unit" "0 \<le> e \<Longrightarrow> 1 < m * unit"
    using m1 lim(3) L(7) mult_mono [of 2 m 1 unit] by auto
  have iff: "(limit < M) = (max_nanos < M * unit)"
    using lim by (simp add: mult_less_cancel_right flip: lim(1))
  show ?thesis
  proof (cases "d = 0")
    case True
    then have "M = 0" by (simp add: M_def)
    with True show ?thesis using fin nz ic C unfolding U
      by (simp add: ghost_nanos_to_host_units_def f64_eq_zero d_def)
  next
    case False
    have run: "ghost_nanos_to_host_units E x g unit =
        (case ghost_units e limit (m * unit) \<bar>d\<bar> of
           None \<Rightarrow> Inl (if neg then - max_nanos else max_nanos)
         | Some u \<Rightarrow> (if u > limit then Inl else Inr)
             (clamp (- max_nanos) max_nanos (if neg then - (min u limit * unit) else min u limit * unit)))"
      using False fin nz ic C dec
      by (cases neg; simp add: ghost_nanos_to_host_units_def f64_eq_zero Let_def
          duration_from_nanos_clamp limit_def neg_def flip: d_def split: option.splits)
    show ?thesis
    proof (cases "limit < M")
      case True
      then have "min M limit = limit" by simp
      then show ?thesis using True GU [OF _ dle pre lim(2)] iff M0 lim unfolding run U
        by (auto simp: clamp_def split: option.splits)
    next
      case False
      then have "ghost_units e limit (m * unit) \<bar>d\<bar> = Some M"
        using GU [OF _ dle pre lim(2)] by auto
      moreover have "min M limit = M" using False by simp
      moreover have "0 \<le> M * unit" using M0 lim(3) by simp
      ultimately show ?thesis using False iff unfolding run U by auto
    qed
  qed
qed

text \<open>
  A transform that does not slow the clock down is inverted exactly: the half nanosecond
  lost in rounding is less than half a nanosecond of host time.
\<close>

lemma round_quotient_inverse:
  fixes v :: rat
  assumes "1 \<le> \<bar>v\<bar>"
  shows "round_away (of_int (round_away (of_int h * v)) / v) = h"
proof -
  define g where "g = round_away (of_int h * v)"
  have err: "\<bar>of_int g - of_int h * v\<bar> \<le> 1 / 2" unfolding g_def by (rule round_away_err)
  have v0: "v \<noteq> 0" using assms by auto
  have diff: "of_int g / v - of_int h = (of_int g - of_int h * v) / v"
    using v0 by (simp add: diff_divide_distrib)
  show ?thesis unfolding g_def [symmetric]
  proof (cases "\<bar>v\<bar> = 1")
    case True
    then have "v = of_int 1 \<or> v = of_int (- 1)" by (auto simp: abs_if split: if_splits)
    then have "of_int h * v = of_int h \<or> of_int h * v = of_int (- h)" by auto
    then have "of_int g = of_int h * v" unfolding g_def by (metis round_away_of_int)
    then show "round_away (of_int g / v) = h" using v0 by simp
  next
    case False
    then have "\<bar>of_int g / v - of_int h\<bar> < 1 / 2"
      unfolding diff abs_divide using assms err by (simp add: divide_less_eq)
    then show "round_away (of_int g / v) = h" by (rule round_away_near)
  qed
qed

section \<open>Properties\<close>

text \<open>C1: Host time to ghost time in nanoseconds is the exact product of the host time and the
  slope's binary value, rounded once half away from zero, plus the intercept, saturated at
  \<open>i128\<close>: the 256-bit product in two halves, its shifts and carries lose nothing, for every
  finite slope and every representable host time and intercept.\<close>

theorem host_to_ghost_correct:
  assumes "ext_ok E" and "is_finite (slope x)" and "f64_repr (slope x)"
    and "valid_dur E h" and "valid_dur E (intercept x)"
  shows "host_to_ghost_wide_nanos E x h
           = sat128 (round_away (of_int h * val (slope x)) + intercept x)"
  using assms by (rule host_to_ghost_wide_exact)

theorem host_to_ghost_correct_witness:
  "host_to_ghost_wide_nanos std_ext \<lparr>slope = Fin 3, intercept = - 7\<rparr> 1000001
     = sat128 (round_away (of_int 1000001 * 3) + - 7)"
  using host_to_ghost_correct [of std_ext "\<lparr>slope = Fin 3, intercept = - 7\<rparr>" 1000001]
  by (simp add: is_finite_def f64_repr_numeral valid_dur_def std_ext_def std_ext_ok [unfolded std_ext_def]
      del: f64_repr.simps)

text \<open>The public microsecond version of the transform rounds the product once to whole
  microseconds and clamps only the final duration.\<close>

theorem host_to_ghost_micros_correct:
  assumes "ext_ok E" and "is_finite (slope x)" and "f64_repr (slope x)"
    and "valid_dur E h" and "valid_dur E (intercept x)"
  shows "host_to_ghost E x h
           = clamp (- max_nanos) max_nanos
               (round_away (of_int h * val (slope x) / 1000) * 1000 + intercept x)"
  using assms by (rule host_to_ghost_exact)

theorem host_to_ghost_micros_correct_witness:
  "host_to_ghost std_ext \<lparr>slope = Fin 3, intercept = - 7\<rparr> 1000001
     = clamp (- max_nanos) max_nanos (round_away (of_int 1000001 * 3 / 1000) * 1000 + - 7)"
  using host_to_ghost_micros_correct [of std_ext "\<lparr>slope = Fin 3, intercept = - 7\<rparr>" 1000001]
  by (simp add: is_finite_def f64_repr_numeral valid_dur_def std_ext_def std_ext_ok [unfolded std_ext_def]
      del: f64_repr.simps)

text \<open>C2: Ghost time to host time divides by the exact slope and rounds once, half away from zero,
  in the unit asked for; a result that no duration can hold is an error carrying the clamped
  duration, and every other result is returned.\<close>

theorem ghost_to_host_correct:
  assumes "ext_ok E" and "is_finite (slope x)" and "f64_repr (slope x)" and "val (slope x) \<noteq> 0"
    and "valid_dur E (intercept x)" and "unit = 1 \<or> unit = 1000"
    and "u = round_away (of_int (sat_sub g (intercept x)) / (val (slope x) * of_int unit)) * unit"
  shows "ghost_nanos_to_host_units E x g unit
           = (if \<bar>u\<bar> \<le> max_nanos then Inr u else Inl (clamp (- max_nanos) max_nanos u))"
  using ghost_to_host_exact [OF assms(1-6), of g] assms(7) by simp

theorem ghost_to_host_correct_witness:
  "ghost_nanos_to_host_units std_ext \<lparr>slope = Fin 2, intercept = 5\<rparr> 25 1 = Inr 10"
  using ghost_to_host_correct [of std_ext "\<lparr>slope = Fin 2, intercept = 5\<rparr>" 1 10 25]
    round_away_of_int [of 10]
  by (simp add: is_finite_def f64_repr_numeral valid_dur_def std_ext_def std_ext_ok [unfolded std_ext_def]
      in_i128_def del: f64_repr.simps)

text \<open>A transform whose slope is at least one in magnitude is inverted exactly: mapping a host
  time to ghost nanoseconds and back with the checked conversion gives the same host time.\<close>

theorem ghost_round_trip:
  assumes E: "ext_ok E" and fin: "is_finite (slope x)" and rep: "f64_repr (slope x)"
    and one: "1 \<le> \<bar>val (slope x)\<bar>" and h: "valid_dur E h" and ic: "valid_dur E (intercept x)"
    and room: "\<bar>of_int h * val (slope x)\<bar> \<le> 2 ^ 126"
  shows "checked_ghost_nanos_to_host E x (host_to_ghost_wide_nanos E x h) = Some h"
proof -
  have C: "chrono_ok E" using E by (simp add: ext_ok_def)
  define p where "p = round_away (of_int h * val (slope x))"
  have "- (2 ^ 126) \<le> p \<and> p \<le> 2 ^ 126"
    using round_away_mono [of "of_int (- (2 ^ 126))" "of_int h * val (slope x)"]
      round_away_mono [of "of_int h * val (slope x)" "of_int (2 ^ 126)"] room
    by (simp only: round_away_of_int p_def) (simp add: abs_le_iff)
  then have p: "in_i128 p" "in_i128 (p + intercept x)"
    using ic C by (auto simp: in_i128_def valid_dur_iff abs_le_iff)
  have "sat_sub (sat128 (p + intercept x)) (intercept x) = p" using p by simp
  moreover have "round_away (of_int p / val (slope x)) = h"
    unfolding p_def by (rule round_quotient_inverse [OF one])
  moreover have "val (slope x) \<noteq> 0" using one by auto
  moreover have "host_to_ghost_wide_nanos E x h = sat128 (p + intercept x)"
    unfolding p_def by (rule host_to_ghost_wide_exact [OF E fin rep h ic])
  ultimately show ?thesis
    using ghost_to_host_exact [OF E fin rep _ ic, of 1 "sat128 (p + intercept x)"] h C fin
    by (simp add: checked_ghost_nanos_to_host_def f64_eq_zero valid_dur_iff)
qed

theorem ghost_round_trip_witness:
  "checked_ghost_nanos_to_host std_ext \<lparr>slope = Fin 3, intercept = - 7\<rparr>
     (host_to_ghost_wide_nanos std_ext \<lparr>slope = Fin 3, intercept = - 7\<rparr> 1000001) = Some 1000001"
  by (rule ghost_round_trip)
    (simp_all add: is_finite_def f64_repr_numeral valid_dur_def std_ext_def std_ext_ok [unfolded std_ext_def]
      del: f64_repr.simps)

end
