(* ===== verification/Timeline.thy ===== *)
theory Timeline
  imports Tempo GhostXForm
begin

text \<open>
  Timelines, \<open>src/link/timeline.rs\<close>: a tempo with a beat origin at a time origin, the
  conversions between beats and time, the wire format, and the two updates that carry a
  timeline between the client's clock and the session's ghost time.
\<close>

record timeline =
  tempo :: tempo
  beat_origin :: beats
  time_origin :: duration

text \<open>\<open>derive(PartialEq)\<close>: the tempo is compared as a double.\<close>

definition tempo_eq :: "tempo \<Rightarrow> tempo \<Rightarrow> bool" where
  "tempo_eq a b \<longleftrightarrow> f64_eq (tempo_value a) (tempo_value b)"

definition timeline_eq :: "timeline \<Rightarrow> timeline \<Rightarrow> bool" where
  "timeline_eq a b \<longleftrightarrow> tempo_eq (tempo a) (tempo b) \<and> beat_origin a = beat_origin b
     \<and> time_origin a = time_origin b"

definition default_timeline :: timeline where
  "default_timeline = \<lparr>tempo = Tempo (Fin 0), beat_origin = Beats 0, time_origin = 0\<rparr>"

text \<open>\<open>CommitError\<close> of \<open>src/link/error.rs\<close>.\<close>

datatype commit_error = TimelineOriginExhausted | StartStopTimestampExhausted | StaleClientState

subsection \<open>Beats and time\<close>

definition microbeats_at_nanos :: "ext \<Rightarrow> timeline \<Rightarrow> int \<Rightarrow> int" where
  "microbeats_at_nanos E tline nanos =
     (let elapsed = sat_sub nanos (duration_nanos E (time_origin tline))
      in sat_add (microbeats_from_nanos (tempo tline) elapsed) (mb (beat_origin tline)))"

definition microbeats_at :: "ext \<Rightarrow> timeline \<Rightarrow> duration \<Rightarrow> int" where
  "microbeats_at E tline time = microbeats_at_nanos E tline (duration_nanos E time)"

definition to_beats :: "ext \<Rightarrow> timeline \<Rightarrow> duration \<Rightarrow> beats" where
  "to_beats E tline time = from_microbeats (word_of_int (sat64 (microbeats_at E tline time)))"

definition nanos_at_microbeats :: "ext \<Rightarrow> timeline \<Rightarrow> int \<Rightarrow> int" where
  "nanos_at_microbeats E tline b =
     (let difference = b - mb (beat_origin tline);
          elapsed = nanos_from_microbeats (tempo tline) difference
      in sat_add (duration_nanos E (time_origin tline)) elapsed)"

definition time_at_microbeats :: "ext \<Rightarrow> timeline \<Rightarrow> int \<Rightarrow> duration" where
  "time_at_microbeats E tline b = duration_from_nanos E (nanos_at_microbeats E tline b)"

definition from_beats :: "ext \<Rightarrow> timeline \<Rightarrow> beats \<Rightarrow> duration" where
  "from_beats E tline b = time_at_microbeats E tline (mb b)"

subsection \<open>Wire format\<close>

definition encode_timeline :: "ext \<Rightarrow> timeline encoder" where
  "encode_timeline E tline out =
     bind_res (encode_tempo E (tempo tline) out) (\<lambda>out.
     bind_res (encode_beats (beat_origin tline) out) (\<lambda>out.
       encode_i64 (word_of_int (micros E (time_origin tline))) out))"

definition decode_timeline :: "ext \<Rightarrow> timeline decoder" where
  "decode_timeline E bs =
     bind_res (decode_i64 bs) (\<lambda>(tempo_micros, n1).
     bind_res (decode_i64 (drop n1 bs)) (\<lambda>(beat_origin_micro_beats, n2).
     bind_res (decode_i64 (drop (n1 + n2) bs)) (\<lambda>(time_origin_micros, n3).
       Inr (\<lparr>tempo = tempo_from E (of_microseconds E (sint tempo_micros)),
             beat_origin = Beats beat_origin_micro_beats,
             time_origin = of_microseconds E (sint time_origin_micros)\<rparr>,
            n1 + n2 + n3))))"

subsection \<open>Tempo limits and the updates\<close>

definition clamp_tempo :: "timeline \<Rightarrow> timeline" where
  "clamp_tempo tline =
     \<lparr>tempo = Tempo (if is_nan (bpm (tempo tline)) then Fin 120
                     else f64_clamp (Fin 20) (Fin 999) (bpm (tempo tline))),
      beat_origin = beat_origin tline, time_origin = time_origin tline\<rparr>"

definition update_client_timeline_from_session ::
  "ext \<Rightarrow> timeline \<Rightarrow> timeline \<Rightarrow> duration \<Rightarrow> ghost_xform \<Rightarrow> commit_error + timeline" where
  "update_client_timeline_from_session E cur_client session at_time x_form =
     bind_res (ok_or TimelineOriginExhausted
                (checked_ghost_nanos_to_host E x_form (nanos_at_microbeats E session 0)))
       (\<lambda>host_beat_zero.
          let elapsed = duration_nanos E host_beat_zero - duration_nanos E at_time
          in bind_res (ok_or TimelineOriginExhausted
                (Option.bind (checked_i128 (microbeats_at E cur_client at_time
                                + microbeats_from_nanos (tempo session) elapsed)) checked_i64))
              (\<lambda>origin.
                 let timeline = \<lparr>tempo = tempo session,
                                 beat_origin = from_microbeats (word_of_int origin),
                                 time_origin = host_beat_zero\<rparr>
                 in if microbeats_at E timeline at_time \<noteq> microbeats_at E cur_client at_time
                    then Inl TimelineOriginExhausted
                    else Inr timeline))"

definition update_session_timeline_from_client ::
  "ext \<Rightarrow> timeline \<Rightarrow> timeline \<Rightarrow> duration \<Rightarrow> ghost_xform \<Rightarrow> commit_error + timeline" where
  "update_session_timeline_from_client E cur_session client at_time x_form =
     (let ghost_beat_0 = host_to_ghost_wide_nanos E x_form (time_origin client)
      in if nanos_at_microbeats E cur_session 0 = ghost_beat_0
            \<and> tempo_eq (tempo client) (tempo cur_session)
         then Inr cur_session
         else
           bind_res (ok_or TimelineOriginExhausted (checked_i64 (mb (beat_origin cur_session) + 1)))
             (\<lambda>next_origin.
                let new_beat_origin = Beats (word_of_int
                      (max (sat64 (microbeats_at_nanos E cur_session
                                     (host_to_ghost_wide_nanos E x_form at_time)))
                           next_origin))
                in bind_res (ok_or TimelineOriginExhausted (checked_i128
                      (ghost_beat_0 + nanos_from_microbeats (tempo client) (mb new_beat_origin))))
                    (\<lambda>nanos.
                       let origin = duration_from_nanos E nanos
                       in if duration_nanos E origin \<noteq> nanos then Inl TimelineOriginExhausted
                          else Inr \<lparr>tempo = tempo client, beat_origin = new_beat_origin,
                                    time_origin = origin\<rparr>)))"

section \<open>Conversions without saturation\<close>

lemma time_range:
  assumes "chrono_ok E" and "valid_dur E a" and "valid_dur E b"
  shows "in_i128 (a - b)" and "in_i128 ((a - b) * 1000)" and "in_i128 (a + b)"
proof -
  have "- max_nanos \<le> a" "a \<le> max_nanos" "- max_nanos \<le> b" "b \<le> max_nanos"
    using assms by (simp_all add: valid_dur_def)
  then show "in_i128 (a - b)" and "in_i128 ((a - b) * 1000)" and "in_i128 (a + b)"
    unfolding in_i128_def by simp_all
qed

lemma microbeats_range:
  assumes "chrono_ok E" and "valid_dur E a" and "valid_dur E b" and "p \<noteq> 0"
  shows "in_i128 (round_ratio ((a - b) * 1000) p)"
    and "in_i128 (round_ratio ((a - b) * 1000) p + mb c)"
proof -
  have "- max_nanos \<le> a" "a \<le> max_nanos" "- max_nanos \<le> b" "b \<le> max_nanos"
    using assms by (simp_all add: valid_dur_def)
  then have "\<bar>(a - b) * 1000\<bar> \<le> 2 ^ 100" by (simp add: abs_le_iff)
  then have "\<bar>round_ratio ((a - b) * 1000) p\<bar> \<le> 2 ^ 100"
    using abs_round_ratio_le [OF assms(4), of "(a - b) * 1000"] by linarith
  then have "- (2 ^ 100) \<le> round_ratio ((a - b) * 1000) p" "round_ratio ((a - b) * 1000) p \<le> 2 ^ 100"
    by linarith+
  then show "in_i128 (round_ratio ((a - b) * 1000) p)"
    and "in_i128 (round_ratio ((a - b) * 1000) p + mb c)"
    using sint_i64_bounds [of "beats_value c"] unfolding in_i128_def by simp_all
qed

lemma microbeats_at_exact:
  assumes "chrono_ok E" and "valid_dur E t" and "valid_dur E (time_origin tline)"
    and "period_micros (tempo tline) \<noteq> 0"
  shows "microbeats_at E tline t =
           round_ratio ((t - time_origin tline) * 1000) (period_micros (tempo tline)) + mb (beat_origin tline)"
  using assms time_range [OF assms(1-3)] microbeats_range [OF assms]
  by (simp add: microbeats_at_def microbeats_at_nanos_def microbeats_from_nanos_exact)

lemma nanos_at_microbeats_exact:
  assumes "chrono_ok E" and "valid_dur E (time_origin tline)"
    and "in_i128 (round_ratio ((b - mb (beat_origin tline)) * period_micros (tempo tline)) 1000)"
    and "in_i128 (time_origin tline + round_ratio ((b - mb (beat_origin tline)) * period_micros (tempo tline)) 1000)"
  shows "nanos_at_microbeats E tline b =
           time_origin tline + round_ratio ((b - mb (beat_origin tline)) * period_micros (tempo tline)) 1000"
  using assms by (simp add: nanos_at_microbeats_def nanos_from_microbeats_exact)

text \<open>Beats survive the way to a time and back, for a period of a millisecond or more.\<close>

lemma to_beats_from_beats:
  assumes E: "chrono_ok E" and o: "valid_dur E (time_origin tline)"
    and p: "1000 \<le> \<bar>period_micros (tempo tline)\<bar>"
    and t: "valid_dur E (time_origin tline
              + round_ratio ((mb b - mb (beat_origin tline)) * period_micros (tempo tline)) 1000)"
  shows "to_beats E tline (from_beats E tline b) = b"
proof -
  define d where "d = mb b - mb (beat_origin tline)"
  define e where "e = round_ratio (d * period_micros (tempo tline)) 1000"
  have "in_i128 e"
    using time_range(1) [OF E t o] by (simp add: e_def d_def)
  moreover have "in_i128 (time_origin tline + e)"
    using t E by (auto simp: in_i128_def valid_dur_iff e_def d_def abs_le_iff)
  ultimately have "from_beats E tline b = time_origin tline + e"
    using nanos_at_microbeats_exact [OF E o, of "mb b"] t E
    by (simp add: from_beats_def time_at_microbeats_def e_def d_def)
  moreover have "microbeats_at E tline (time_origin tline + e) = d + mb (beat_origin tline)"
    using microbeats_at_exact [OF E _ o, of "time_origin tline + e"] t p round_ratio_1000_inverse [OF p, of d]
    by (auto simp: e_def d_def)
  ultimately show ?thesis by (simp add: to_beats_def from_microbeats_def d_def)
qed

section \<open>The tempo limits\<close>

lemma clamp_tempo_range:
  "\<exists>r. tempo (clamp_tempo tline) = Tempo (Fin r) \<and> 20 \<le> r \<and> r \<le> 999"
  by (cases "bpm (tempo tline)") (auto simp: clamp_tempo_def f64_clamp_def)

lemma clamp_tempo_id:
  assumes "tempo tline = Tempo (Fin r)" and "20 \<le> r" and "r \<le> 999"
  shows "clamp_tempo tline = tline"
  using assms by (simp add: clamp_tempo_def f64_clamp_def bpm_def)

lemma clamped_period:
  "60060 \<le> period_micros (tempo (clamp_tempo tline))"
  "period_micros (tempo (clamp_tempo tline)) \<le> 3000000"
  using clamp_tempo_range [of tline] period_of_clamped by force+

section \<open>The updates\<close>

text \<open>
  The client's update succeeds exactly when the session's beat zero has a host time and the
  new beat origin fits: the final comparison never rejects, because rounding is odd.
\<close>

lemma update_client_cases:
  assumes E: "chrono_ok E" and t: "valid_dur E at_time" and p: "period_micros (tempo session) \<noteq> 0"
    and z: "checked_ghost_nanos_to_host E x_form (nanos_at_microbeats E session 0) = Some zero"
    and vz: "valid_dur E zero"
    and o: "origin = microbeats_at E client at_time
              + round_ratio ((zero - at_time) * 1000) (period_micros (tempo session))"
  shows "in_i64 origin \<Longrightarrow> update_client_timeline_from_session E client session at_time x_form
           = Inr \<lparr>tempo = tempo session, beat_origin = Beats (word_of_int origin), time_origin = zero\<rparr>"
    and "\<not> in_i64 origin \<Longrightarrow> update_client_timeline_from_session E client session at_time x_form
           = Inl TimelineOriginExhausted"
proof -
  have "microbeats_from_nanos (tempo session) (zero - at_time)
      = round_ratio ((zero - at_time) * 1000) (period_micros (tempo session))"
    using microbeats_range(1) [OF E vz t p] p by (simp add: microbeats_from_nanos_exact)
  then have sum: "microbeats_at E client at_time + microbeats_from_nanos (tempo session) (zero - at_time) = origin"
    using o by simp
  show "update_client_timeline_from_session E client session at_time x_form = Inl TimelineOriginExhausted"
    if "\<not> in_i64 origin"
    using that E t vz z
    by (simp add: update_client_timeline_from_session_def sum checked_i128_def checked_i64_def)
  assume fits: "in_i64 origin"
  let ?tl = "\<lparr>tempo = tempo session, beat_origin = Beats (word_of_int origin), time_origin = zero\<rparr>"
  have "(at_time - zero) * 1000 = - ((zero - at_time) * 1000)" by simp
  then have "round_ratio ((at_time - zero) * 1000) (period_micros (tempo session))
      = - round_ratio ((zero - at_time) * 1000) (period_micros (tempo session))"
    by (simp only: round_ratio_minus [OF p])
  then have "microbeats_at E ?tl at_time
      = - round_ratio ((zero - at_time) * 1000) (period_micros (tempo session)) + origin"
    using microbeats_at_exact [OF E t, of ?tl] vz p fits by simp
  then have same: "microbeats_at E ?tl at_time = microbeats_at E client at_time" using o by linarith
  show "update_client_timeline_from_session E client session at_time x_form = Inr ?tl"
    using fits E t vz z same in_i64_in_i128 [OF fits]
    by (simp add: update_client_timeline_from_session_def sum checked_i128_def checked_i64_def
        from_microbeats_def)
qed

lemma checked_ghost_valid:
  assumes "ext_ok E" and "is_finite (slope x)" and "f64_repr (slope x)" and "valid_dur E (intercept x)"
    and "checked_ghost_nanos_to_host E x g = Some d"
  shows "valid_dur E d"
proof -
  have C: "chrono_ok E" using assms(1) by (simp add: ext_ok_def)
  have "val (slope x) \<noteq> 0" using assms(2,5) by (auto simp: checked_ghost_nanos_to_host_def f64_eq_zero)
  then show ?thesis
    using ghost_to_host_exact [OF assms(1-3) _ assms(4), of 1 g] assms(5) C
    by (auto simp: checked_ghost_nanos_to_host_def valid_dur_iff split: if_splits sum.splits)
qed

text \<open>
  The session's update never lowers the beat origin, takes the client's tempo, and puts the
  session's beat zero where the client's time origin maps to.
\<close>

lemma update_session_cases:
  assumes E: "chrono_ok E"
    and upd: "update_session_timeline_from_client E cur client at_time x_form = Inr tline"
    and ne: "tline \<noteq> cur"
  shows "mb (beat_origin cur) < mb (beat_origin tline)" and "tempo tline = tempo client"
    and "valid_dur E (time_origin tline)"
    and "time_origin tline = host_to_ghost_wide_nanos E x_form (time_origin client)
           + nanos_from_microbeats (tempo client) (mb (beat_origin tline))"
proof -
  let ?new = "max (sat64 (microbeats_at_nanos E cur (host_to_ghost_wide_nanos E x_form at_time)))
                  (mb (beat_origin cur) + 1)"
  let ?n = "host_to_ghost_wide_nanos E x_form (time_origin client) + nanos_from_microbeats (tempo client) ?new"
  have i: "in_i64 (mb (beat_origin cur) + 1)"
    and tl: "tline = \<lparr>tempo = tempo client, beat_origin = Beats (word_of_int ?new),
                   time_origin = duration_from_nanos E ?n\<rparr>"
    and n: "duration_nanos E (duration_from_nanos E ?n) = ?n"
    using upd ne
    by (auto simp: update_session_timeline_from_client_def Let_def result_simps checked_i64_def
        checked_i128_def max_def split: if_splits)
  have new: "in_i64 ?new" using i sat64_in by (simp add: max_def)
  then have mbn: "mb (beat_origin tline) = ?new" by (simp add: tl)
  show "mb (beat_origin cur) < mb (beat_origin tline)" unfolding mbn by simp
  show "tempo tline = tempo client" "valid_dur E (time_origin tline)" using E by (simp_all add: tl)
  show "time_origin tline = host_to_ghost_wide_nanos E x_form (time_origin client)
           + nanos_from_microbeats (tempo client) (mb (beat_origin tline))"
    using n E unfolding mbn by (simp add: tl)
qed

lemma update_session_zero:
  assumes E: "chrono_ok E"
    and upd: "update_session_timeline_from_client E cur client at_time x_form = Inr tline"
    and ne: "tline \<noteq> cur" and p: "\<bar>period_micros (tempo client)\<bar> \<le> 2 ^ 40"
    and g: "in_i128 (host_to_ghost_wide_nanos E x_form (time_origin client))"
  shows "nanos_at_microbeats E tline 0 = host_to_ghost_wide_nanos E x_form (time_origin client)"
proof -
  note u = update_session_cases [OF E upd ne]
  define r where "r = round_ratio (mb (beat_origin tline) * period_micros (tempo client)) 1000"
  have "\<bar>mb (beat_origin tline)\<bar> \<le> 2 ^ 63"
    using sint_i64_bounds [of "beats_value (beat_origin tline)"] by (auto simp: abs_le_iff)
  then have "\<bar>mb (beat_origin tline)\<bar> * \<bar>period_micros (tempo client)\<bar> \<le> 2 ^ 63 * 2 ^ 40"
    using p by (intro mult_mono) simp_all
  then have "\<bar>r\<bar> \<le> 2 ^ 103"
    using abs_round_ratio_le [of 1000 "mb (beat_origin tline) * period_micros (tempo client)"]
    by (simp add: r_def abs_mult)
  then have r: "in_i128 r" "in_i128 (- r)" by (auto simp: in_i128_def abs_le_iff)
  have "(0 - mb (beat_origin tline)) * period_micros (tempo client)
      = - (mb (beat_origin tline) * period_micros (tempo client))" by simp
  then have m: "round_ratio ((0 - mb (beat_origin tline)) * period_micros (tempo tline)) 1000 = - r"
    unfolding u(2) r_def by simp
  have o: "time_origin tline = host_to_ghost_wide_nanos E x_form (time_origin client) + r"
    using u(4) r by (simp add: nanos_from_microbeats_exact r_def)
  have "in_i128 (time_origin tline + - r)" using g o by simp
  with nanos_at_microbeats_exact [OF E u(3), of 0] m r o show ?thesis by simp
qed

section \<open>The timeline on the wire\<close>

definition wire_timeline :: "ext \<Rightarrow> timeline \<Rightarrow> bool" where
  "wire_timeline E tline \<longleftrightarrow> wire_tempo E (tempo tline) \<and> wire_time E (time_origin tline)"

definition sendable_timeline :: "ext \<Rightarrow> timeline \<Rightarrow> bool" where
  "sendable_timeline E tline \<longleftrightarrow> sendable_tempo E (tempo tline) \<and> sendable_time E (time_origin tline)"

text \<open>The timeline a peer reads: the same beat origin, the tempo of the period in whole
  microseconds and the origin in whole microseconds.\<close>

definition received_timeline :: "ext \<Rightarrow> timeline \<Rightarrow> timeline" where
  "received_timeline E tline = tline\<lparr>tempo := received_tempo E (tempo tline),
     time_origin := received_time (time_origin tline)\<rparr>"

definition timeline_image :: "timeline \<Rightarrow> bytes" where
  "timeline_image tline = tempo_image (tempo tline) @ be_bytes 8 (unat (beats_value (beat_origin tline)))
     @ time_image (time_origin tline)"

lemma length_tempo_image [simp]: "length (tempo_image t) = 8"
  by (simp add: tempo_image_def)

lemma decode_i64_image [simp]:
  "decode_i64 (be_bytes 8 (unat (v :: i64)) @ rest) = Inr (v, 8)"
  using i64c.dec_image by simp

interpretation timelinec: wire_codec "encode_timeline E" "decode_timeline E" "\<lambda>_. 24" timeline_image
  "wire_timeline E" for E
proof
  fix tline out rest
  assume "wire_timeline E tline"
  then have t: "wire_tempo E (tempo tline)" and o: "wire_time E (time_origin tline)"
    by (simp_all add: wire_timeline_def)
  show "encode_timeline E tline out = Inr (out @ timeline_image tline)"
    using t by (simp add: encode_timeline_def tempoc.enc_image beatsc.enc_image i64c.enc_image
        timeline_image_def time_image_def wire_time_micros(1) [OF o])
  show "length (timeline_image tline) = 24" by (simp add: timeline_image_def)
  have p: "in_i64 (period_micros (tempo tline))"
    using wire_tempo_period [OF t] by (auto simp: in_i64_def)
  have "tempo_from E (of_microseconds E (period_micros (tempo tline))) = tempo tline"
    using wire_tempo_period(3) [OF t] by simp
  then show "decode_timeline E (timeline_image tline @ rest) = Inr (tline, 24)"
    using p wire_time_micros(2,3) [OF o]
    by (simp add: decode_timeline_def timeline_image_def tempo_image_def time_image_def)
next
  fix bs v n
  assume "decode_timeline E bs = Inr (v, n)"
  then show "n \<le> length bs"
    by (auto simp: decode_timeline_def decode_i64_def result_simps split: if_splits)
qed

lemma received_timeline_wire:
  assumes "sendable_timeline E tline"
  shows "wire_timeline E (received_timeline E tline)"
    and "timeline_image (received_timeline E tline) = timeline_image tline"
    and "encode_timeline E tline out = Inr (out @ timeline_image tline)"
proof -
  have t: "sendable_tempo E (tempo tline)" and o: "sendable_time E (time_origin tline)"
    using assms by (simp_all add: sendable_timeline_def)
  note r = received_tempo_wire [OF t] received_time_wire [OF o]
  show "wire_timeline E (received_timeline E tline)"
    using r by (simp add: wire_timeline_def received_timeline_def)
  show "timeline_image (received_timeline E tline) = timeline_image tline"
    using r by (simp add: timeline_image_def received_timeline_def)
  show "encode_timeline E tline out = Inr (out @ timeline_image tline)"
    using r by (simp add: encode_timeline_def encode_sendable_tempo [OF t] beatsc.enc_image i64c.enc_image
        timeline_image_def time_image_def)
qed

lemma wire_timeline_sendable:
  assumes "wire_timeline E tline"
  shows "sendable_timeline E tline" and "received_timeline E tline = tline"
  using assms wire_tempo_sendable [of E "tempo tline"] wire_time_sendable [of E "time_origin tline"]
  by (simp_all add: wire_timeline_def sendable_timeline_def received_timeline_def)

section \<open>Properties\<close>

lemma std_valid [simp]: "valid_dur std_ext d \<longleftrightarrow> \<bar>d\<bar> \<le> max_nanos"
  by (simp add: valid_dur_iff)

text \<open>A beat taken to a time by a timeline and back by the same timeline is unchanged, for every
  tempo with a period of a millisecond or more, when the time is representable.\<close>

theorem to_beats_inverts_from_beats:
  assumes "chrono_ok E" and "valid_dur E (time_origin tline)"
    and "1000 \<le> \<bar>period_micros (tempo tline)\<bar>"
    and "valid_dur E (time_origin tline
           + round_ratio ((mb b - mb (beat_origin tline)) * period_micros (tempo tline)) 1000)"
  shows "to_beats E tline (from_beats E tline b) = b"
  using assms by (rule to_beats_from_beats)

theorem to_beats_inverts_from_beats_witness:
  "to_beats std_ext \<lparr>tempo = Tempo (Fin 120), beat_origin = Beats 0, time_origin = 3\<rparr>
     (from_beats std_ext \<lparr>tempo = Tempo (Fin 120), beat_origin = Beats 0, time_origin = 3\<rparr> (Beats 7)) = Beats 7"
  by (rule to_beats_inverts_from_beats) (simp_all add: round_ratio_closed)

text \<open>Clamping brings every tempo, infinities and NaN included, between 20 and 999 bpm, leaves a
  tempo in that range alone, keeps the origins, and so bounds the period between 60060 and
  3000000 microseconds.\<close>

theorem clamp_tempo_bounds:
  "(\<exists>r. tempo (clamp_tempo tline) = Tempo (Fin r) \<and> 20 \<le> r \<and> r \<le> 999)
   \<and> clamp_tempo (clamp_tempo tline) = clamp_tempo tline
   \<and> beat_origin (clamp_tempo tline) = beat_origin tline
   \<and> time_origin (clamp_tempo tline) = time_origin tline
   \<and> 60060 \<le> period_micros (tempo (clamp_tempo tline))
   \<and> period_micros (tempo (clamp_tempo tline)) \<le> 3000000"
  using clamp_tempo_range [of tline] clamp_tempo_id [of "clamp_tempo tline"] clamped_period [of tline]
  by (auto simp: clamp_tempo_def)

text \<open>C21: Updating the client's timeline from the session succeeds exactly when the new beat origin
  fits an \<open>i64\<close>, given a host time for the session's beat zero; the result has the session's
  tempo, starts at that host time, and shows the same beat at the time of the update.\<close>

theorem update_client_keeps_beat:
  assumes "ext_ok E" and "is_finite (slope x_form)" and "f64_repr (slope x_form)"
    and "valid_dur E (intercept x_form)" and "valid_dur E at_time"
    and "period_micros (tempo session) \<noteq> 0"
    and "checked_ghost_nanos_to_host E x_form (nanos_at_microbeats E session 0) = Some zero"
  shows "case update_client_timeline_from_session E client session at_time x_form of
           Inr tline \<Rightarrow> microbeats_at E tline at_time = microbeats_at E client at_time
                        \<and> tempo tline = tempo session \<and> time_origin tline = zero
         | Inl e \<Rightarrow> e = TimelineOriginExhausted
             \<and> \<not> in_i64 (microbeats_at E client at_time
                         + round_ratio ((zero - at_time) * 1000) (period_micros (tempo session)))"
proof -
  have C: "chrono_ok E" using assms(1) by (simp add: ext_ok_def)
  have z: "valid_dur E zero" by (rule checked_ghost_valid [OF assms(1-4,7)])
  define origin where "origin = microbeats_at E client at_time
      + round_ratio ((zero - at_time) * 1000) (period_micros (tempo session))"
  note U = update_client_cases [OF C assms(5-7) z origin_def]
  show ?thesis
  proof (cases "in_i64 origin")
    case True
    have "microbeats_at E \<lparr>tempo = tempo session, beat_origin = Beats (word_of_int origin), time_origin = zero\<rparr>
        at_time = microbeats_at E client at_time"
      using U(1) [OF True] by (auto simp: update_client_timeline_from_session_def Let_def result_simps
          from_microbeats_def split: if_splits)
    then show ?thesis unfolding U(1) [OF True] by simp
  next
    case False
    then show ?thesis unfolding U(2) [OF False] by (simp add: origin_def)
  qed
qed

theorem update_client_keeps_beat_witness:
  "case update_client_timeline_from_session std_ext
          \<lparr>tempo = Tempo (Fin 120), beat_origin = Beats 5, time_origin = 0\<rparr>
          \<lparr>tempo = Tempo (Fin 120), beat_origin = Beats 0, time_origin = 0\<rparr> 1000000000
          \<lparr>slope = Fin 1, intercept = 0\<rparr> of
     Inr tline \<Rightarrow> microbeats_at std_ext tline 1000000000
                    = microbeats_at std_ext \<lparr>tempo = Tempo (Fin 120), beat_origin = Beats 5, time_origin = 0\<rparr> 1000000000
                  \<and> tempo tline = tempo \<lparr>tempo = Tempo (Fin 120), beat_origin = Beats 0, time_origin = 0\<rparr>
                  \<and> time_origin tline = 0
   | Inl e \<Rightarrow> e = TimelineOriginExhausted
       \<and> \<not> in_i64 (microbeats_at std_ext \<lparr>tempo = Tempo (Fin 120), beat_origin = Beats 5, time_origin = 0\<rparr> 1000000000
            + round_ratio ((0 - 1000000000) * 1000)
                (period_micros (tempo \<lparr>tempo = Tempo (Fin 120), beat_origin = Beats 0, time_origin = 0\<rparr>)))"
proof (rule update_client_keeps_beat)
  show "checked_ghost_nanos_to_host std_ext \<lparr>slope = Fin 1, intercept = 0\<rparr>
      (nanos_at_microbeats std_ext \<lparr>tempo = Tempo (Fin 120), beat_origin = Beats 0, time_origin = 0\<rparr> 0) = Some 0"
    by (simp add: checked_ghost_nanos_to_host_def nanos_at_microbeats_def nanos_from_microbeats_exact
        ghost_nanos_to_host_units_def is_finite_def in_i128_def is_zero_def)
qed (simp_all add: is_finite_def)

text \<open>C15: Updating the session's timeline from the client either keeps the session, or yields a
  timeline with the client's tempo and a strictly later beat origin whose beat zero lies
  exactly where the client's time origin maps to in ghost time.\<close>

theorem update_session_progress:
  assumes "ext_ok E" and "is_finite (slope x_form)" and "f64_repr (slope x_form)"
    and "valid_dur E (intercept x_form)" and "valid_dur E (time_origin client)"
    and "\<bar>period_micros (tempo client)\<bar> \<le> 2 ^ 40"
    and "update_session_timeline_from_client E cur client at_time x_form = Inr tline"
  shows "tline = cur \<or>
           (mb (beat_origin cur) < mb (beat_origin tline) \<and> tempo tline = tempo client
            \<and> valid_dur E (time_origin tline)
            \<and> nanos_at_microbeats E tline 0 = host_to_ghost_wide_nanos E x_form (time_origin client))"
proof -
  have C: "chrono_ok E" using assms(1) by (simp add: ext_ok_def)
  have g: "in_i128 (host_to_ghost_wide_nanos E x_form (time_origin client))"
    unfolding host_to_ghost_wide_exact [OF assms(1-3,5,4)] by simp
  show ?thesis
    using update_session_cases [OF C assms(7)] update_session_zero [OF C assms(7) _ assms(6) g] by blast
qed

theorem update_session_progress_witness:
  "\<exists>tline. update_session_timeline_from_client std_ext
        \<lparr>tempo = Tempo (Fin 120), beat_origin = Beats 0, time_origin = 0\<rparr>
        \<lparr>tempo = Tempo (Fin 120), beat_origin = Beats 0, time_origin = 0\<rparr> 0 \<lparr>slope = Fin 1, intercept = 1000\<rparr> = Inr tline
      \<and> (tline = \<lparr>tempo = Tempo (Fin 120), beat_origin = Beats 0, time_origin = 0\<rparr> \<or>
           (mb (Beats 0) < mb (beat_origin tline) \<and> tempo tline = Tempo (Fin 120)
            \<and> valid_dur std_ext (time_origin tline)
            \<and> nanos_at_microbeats std_ext tline 0
                = host_to_ghost_wide_nanos std_ext \<lparr>slope = Fin 1, intercept = 1000\<rparr> 0))"
proof -
  let ?tl = "\<lparr>tempo = Tempo (Fin 120), beat_origin = Beats 0, time_origin = 0\<rparr>"
  let ?x = "\<lparr>slope = Fin 1, intercept = 1000\<rparr>"
  have h: "host_to_ghost_wide_nanos std_ext ?x 0 = 1000"
    by (subst host_to_ghost_wide_exact) (simp_all add: is_finite_def in_i128_def)
  have "\<exists>tline. update_session_timeline_from_client std_ext ?tl ?tl 0 ?x = Inr tline"
    by (simp add: update_session_timeline_from_client_def h nanos_at_microbeats_def microbeats_at_nanos_def
        microbeats_from_nanos_exact nanos_from_microbeats_exact round_ratio_closed checked_i64_def
        checked_i128_def in_i64_def in_i128_def)
  then obtain tline where u: "update_session_timeline_from_client std_ext ?tl ?tl 0 ?x = Inr tline" by blast
  from update_session_progress [OF std_ext_ok _ _ _ _ _ u] u show ?thesis
    by (auto simp: is_finite_def)
qed

text \<open>A timeline with a wire tempo and a time origin in whole microseconds is read back from its
  24 bytes, whatever follows them.\<close>

theorem timeline_wire_round_trip:
  assumes "wire_timeline E tline"
  shows "\<exists>bs. encode_to_vec (encode_timeline E) tline = Inr bs \<and> length bs = 24
           \<and> decode_from_slice (decode_timeline E) (bs @ rest) = Inr (tline, 24)"
  using timelinec.roundtrip [OF assms] .

theorem timeline_wire_round_trip_witness:
  "\<exists>bs. encode_to_vec (encode_timeline std_ext)
          \<lparr>tempo = tempo_from std_ext (of_microseconds std_ext 500000), beat_origin = Beats 9, time_origin = 4000\<rparr>
        = Inr bs \<and> length bs = 24
      \<and> decode_from_slice (decode_timeline std_ext) (bs @ [1])
        = Inr (\<lparr>tempo = tempo_from std_ext (of_microseconds std_ext 500000), beat_origin = Beats 9, time_origin = 4000\<rparr>, 24)"
proof (rule timeline_wire_round_trip)
  show "wire_timeline std_ext
      \<lparr>tempo = tempo_from std_ext (of_microseconds std_ext 500000), beat_origin = Beats 9, time_origin = 4000\<rparr>"
    unfolding wire_timeline_def wire_tempo_def wire_time_def
    by (auto simp: in_i64_def intro: exI [of _ 500000] exI [of _ 4])
qed

end
