(* ===== verification/Payload.thy ===== *)
theory Payload
  imports Timeline
begin

text \<open>
  Node state and the payload format: \<open>src/link/state.rs\<close>, \<open>src/link/node.rs\<close>,
  \<open>src/link/encoding.rs\<close>, \<open>src/link/audio_endpoint.rs\<close>, the endpoint of
  \<open>src/link/measurement.rs\<close>, the membership of \<open>src/link/sessions.rs\<close> and
  \<open>src/link/payload.rs\<close>. A payload is a run of entries, each a key, a size and that many bytes;
  it is built from a node's state, sent, and read back by \<open>payload_decode\<close>, which checks every
  length that arrives from the network.

  A \<open>NodeId\<close> is a list of eight bytes, an IPv4 address its \<open>u32\<close>, a socket address the pair with
  its port.
\<close>

section \<open>Data\<close>

datatype link_error = Encoding encode_error | Decoding decode_error | Protocol string

type_synonym node_id = bytes
type_synonym session_id = bytes
type_synonym socket_v4 = "u32 \<times> u16"

record start_stop_state =
  is_playing :: bool
  beats :: beats
  timestamp :: duration

record client_start_stop_state =
  c_is_playing :: bool
  c_time :: duration
  c_timestamp :: duration

definition default_start_stop :: start_stop_state where
  "default_start_stop = \<lparr>is_playing = False, beats = Beats 0, timestamp = 0\<rparr>"

definition default_client_start_stop :: client_start_stop_state where
  "default_client_start_stop = \<lparr>c_is_playing = False, c_time = 0, c_timestamp = 0\<rparr>"

record node_state =
  node_id :: node_id
  session_id :: session_id
  timeline :: timeline
  start_stop_state :: start_stop_state

record peer_state =
  node_state :: node_state
  measurement_endpoint :: "socket_v4 option"
  audio_endpoint :: "socket_v4 option"

record payload_entry_header =
  key :: u32
  entry_size :: u32

datatype payload_entry =
    HostTime duration
  | GhostTime duration
  | PrevGhostTime duration
  | TimelineEntry timeline
  | SessionMembership session_id
  | StartStopEntry start_stop_state
  | MeasurementEndpointV4 "socket_v4 option"
  | AudioEndpointV4 "socket_v4 option"

section \<open>Codecs of the parts\<close>

definition encode_node_id :: "node_id encoder" where
  "encode_node_id v out = encode_array v out"

definition decode_node_id :: "node_id decoder" where
  "decode_node_id bs = decode_array 8 bs"

definition encode_session_id :: "session_id encoder" where
  "encode_session_id v out = encode_node_id v out"

definition decode_session_id :: "session_id decoder" where
  "decode_session_id bs = decode_node_id bs"

definition decode_membership :: "session_id decoder" where
  "decode_membership bs = decode_session_id bs"

definition encode_start_stop :: "ext \<Rightarrow> start_stop_state encoder" where
  "encode_start_stop E s out =
     bind_res (encode_bool (is_playing s) out) (\<lambda>out.
     bind_res (encode_beats (beats s) out) (\<lambda>out.
       encode_i64 (word_of_int (micros E (timestamp s))) out))"

definition decode_start_stop :: "ext \<Rightarrow> start_stop_state decoder" where
  "decode_start_stop E bs =
     bind_res (decode_bool bs) (\<lambda>(playing, n1).
     bind_res (decode_beats (drop n1 bs)) (\<lambda>(b, n2).
     bind_res (decode_i64 (drop (n1 + n2) bs)) (\<lambda>(t, n3).
       Inr (\<lparr>is_playing = playing, beats = b, timestamp = of_microseconds E (sint t)\<rparr>, n1 + n2 + n3))))"

definition encode_audio_endpoint :: "socket_v4 option encoder" where
  "encode_audio_endpoint ep out =
     (let endpoint = (case ep of Some a \<Rightarrow> a | None \<Rightarrow> (0, 0))
      in bind_res (encode_u32 (fst endpoint) out) (\<lambda>out. encode_u16 (snd endpoint) out))"

definition decode_audio_endpoint :: "socket_v4 option decoder" where
  "decode_audio_endpoint bs =
     bind_res (decode_u32 bs) (\<lambda>(ip, n1).
     bind_res (decode_u16 (drop n1 bs)) (\<lambda>(port, n2).
       Inr (if ip = 0 \<or> port = 0 then None else Some (ip, port), n1 + n2)))"

definition encode_measurement_endpoint :: "socket_v4 option encoder" where
  "encode_measurement_endpoint ep out =
     (let endpoint = (case ep of Some a \<Rightarrow> a | None \<Rightarrow> (0, 0))
      in bind_res (encode_u32 (fst endpoint) out) (\<lambda>out. encode_u16 (snd endpoint) out))"

definition decode_measurement_endpoint :: "socket_v4 option decoder" where
  "decode_measurement_endpoint bs =
     bind_res (decode_u32 bs) (\<lambda>(ip, n1).
     bind_res (decode_u16 (drop n1 bs)) (\<lambda>(port, n2).
       Inr (if ip \<noteq> 0 \<or> port \<noteq> 0 then Some (ip, port) else None, n1 + n2)))"

definition encode_header :: "payload_entry_header encoder" where
  "encode_header h out =
     bind_res (encode_u32 (key h) out) (\<lambda>out. encode_u32 (entry_size h) out)"

definition decode_header :: "payload_entry_header decoder" where
  "decode_header bs =
     bind_res (decode_u32 bs) (\<lambda>(k, n1).
     bind_res (decode_u32 (drop n1 bs)) (\<lambda>(s, n2).
       Inr (\<lparr>key = k, entry_size = s\<rparr>, n1 + n2)))"

text \<open>The three time entries decode an \<open>i64\<close> of microseconds.\<close>

definition decode_time :: "ext \<Rightarrow> duration decoder" where
  "decode_time E bs = bind_res (decode_i64 bs) (\<lambda>(t, n). Inr (of_microseconds E (sint t), n))"

section \<open>Entry headers\<close>

text \<open>\<open>u32::from_be_bytes(*b"....")\<close>\<close>

definition key_of :: "string \<Rightarrow> u32" where
  "key_of s = word_of_nat (from_be (map (of_char :: char \<Rightarrow> u8) s))"

definition HOST_TIME_HEADER :: payload_entry_header where
  "HOST_TIME_HEADER = \<lparr>key = key_of ''__ht'', entry_size = 8\<rparr>"

definition GHOST_TIME_HEADER :: payload_entry_header where
  "GHOST_TIME_HEADER = \<lparr>key = key_of ''__gt'', entry_size = 8\<rparr>"

definition PREV_GHOST_TIME_HEADER :: payload_entry_header where
  "PREV_GHOST_TIME_HEADER = \<lparr>key = key_of ''_pgt'', entry_size = 8\<rparr>"

definition TIMELINE_HEADER :: payload_entry_header where
  "TIMELINE_HEADER = \<lparr>key = key_of ''tmln'', entry_size = 24\<rparr>"

definition SESSION_MEMBERSHIP_HEADER :: payload_entry_header where
  "SESSION_MEMBERSHIP_HEADER = \<lparr>key = key_of ''sess'', entry_size = 8\<rparr>"

definition START_STOP_STATE_HEADER :: payload_entry_header where
  "START_STOP_STATE_HEADER = \<lparr>key = key_of ''stst'', entry_size = 17\<rparr>"

definition MEASUREMENT_ENDPOINT_V4_HEADER :: payload_entry_header where
  "MEASUREMENT_ENDPOINT_V4_HEADER = \<lparr>key = key_of ''mep4'', entry_size = 6\<rparr>"

definition AUDIO_ENDPOINT_V4_HEADER :: payload_entry_header where
  "AUDIO_ENDPOINT_V4_HEADER = \<lparr>key = key_of ''aep4'', entry_size = 6\<rparr>"

definition AUDIO_ENDPOINT_V6_HEADER_KEY :: u32 where
  "AUDIO_ENDPOINT_V6_HEADER_KEY = key_of ''aep6''"

section \<open>Entries\<close>

definition with_header :: "payload_entry_header \<Rightarrow> encode_error + bytes \<Rightarrow> link_error + bytes" where
  "with_header h body =
     map_err Encoding (bind_res (encode_to_vec encode_header h) (\<lambda>e. bind_res body (\<lambda>b. Inr (e @ b))))"

definition wire_micros :: "ext \<Rightarrow> duration \<Rightarrow> link_error + int" where
  "wire_micros E t = ok_or (Protocol ''time out of range'') (num_microseconds E t)"

definition encode_time_entry :: "ext \<Rightarrow> payload_entry_header \<Rightarrow> duration \<Rightarrow> link_error + bytes" where
  "encode_time_entry E h t =
     bind_res (map_err Encoding (encode_to_vec encode_header h)) (\<lambda>e.
     bind_res (wire_micros E t) (\<lambda>m.
     bind_res (map_err Encoding (encode_to_vec encode_i64 (word_of_int m))) (\<lambda>b. Inr (e @ b))))"

fun entry_len :: "payload_entry \<Rightarrow> u32" where
  "entry_len (HostTime _) = entry_size HOST_TIME_HEADER"
| "entry_len (GhostTime _) = entry_size GHOST_TIME_HEADER"
| "entry_len (PrevGhostTime _) = entry_size PREV_GHOST_TIME_HEADER"
| "entry_len (TimelineEntry _) = entry_size TIMELINE_HEADER"
| "entry_len (SessionMembership _) = entry_size SESSION_MEMBERSHIP_HEADER"
| "entry_len (StartStopEntry _) = entry_size START_STOP_STATE_HEADER"
| "entry_len (MeasurementEndpointV4 _) = entry_size MEASUREMENT_ENDPOINT_V4_HEADER"
| "entry_len (AudioEndpointV4 _) = entry_size AUDIO_ENDPOINT_V4_HEADER"

fun encode_entry :: "ext \<Rightarrow> payload_entry \<Rightarrow> link_error + bytes" where
  "encode_entry E (HostTime t) = encode_time_entry E HOST_TIME_HEADER t"
| "encode_entry E (GhostTime t) = encode_time_entry E GHOST_TIME_HEADER t"
| "encode_entry E (PrevGhostTime t) = encode_time_entry E PREV_GHOST_TIME_HEADER t"
| "encode_entry E (TimelineEntry t) = with_header TIMELINE_HEADER (encode_to_vec (encode_timeline E) t)"
| "encode_entry E (SessionMembership s) =
     with_header SESSION_MEMBERSHIP_HEADER (encode_to_vec encode_session_id s)"
| "encode_entry E (StartStopEntry s) =
     with_header START_STOP_STATE_HEADER (encode_to_vec (encode_start_stop E) s)"
| "encode_entry E (MeasurementEndpointV4 ep) =
     with_header MEASUREMENT_ENDPOINT_V4_HEADER (encode_to_vec encode_measurement_endpoint ep)"
| "encode_entry E (AudioEndpointV4 ep) =
     with_header AUDIO_ENDPOINT_V4_HEADER (encode_to_vec encode_audio_endpoint ep)"

section \<open>Payloads\<close>

type_synonym payload = "payload_entry list"

definition payload_size :: "payload \<Rightarrow> u32" where
  "payload_size es = foldl (\<lambda>size e. size + (8 + entry_len e)) 0 es"

fun encode_payload :: "ext \<Rightarrow> payload \<Rightarrow> link_error + bytes" where
  "encode_payload E [] = Inr []"
| "encode_payload E (e # es) =
     bind_res (encode_entry E e) (\<lambda>b. bind_res (encode_payload E es) (\<lambda>bs. Inr (b @ bs)))"

definition payload_of_node :: "node_state \<Rightarrow> payload" where
  "payload_of_node n =
     [TimelineEntry (timeline n), SessionMembership (session_id n), StartStopEntry (start_stop_state n)]"

definition payload_of_peer :: "peer_state \<Rightarrow> payload" where
  "payload_of_peer p =
     (let payload = payload_of_node (node_state p);
          payload = (if measurement_endpoint p \<noteq> None
                     then payload @ [MeasurementEndpointV4 (measurement_endpoint p)] else payload)
      in if audio_endpoint p \<noteq> None then payload @ [AudioEndpointV4 (audio_endpoint p)] else payload)"

fun from_payload_entry :: "payload_entry \<Rightarrow> node_state \<Rightarrow> node_state" where
  "from_payload_entry (TimelineEntry t) n = n\<lparr>timeline := t\<rparr>"
| "from_payload_entry (SessionMembership s) n = n\<lparr>session_id := s\<rparr>"
| "from_payload_entry (StartStopEntry s) n = n\<lparr>start_stop_state := s\<rparr>"
| "from_payload_entry _ n = n"

definition from_payload :: "node_id \<Rightarrow> payload \<Rightarrow> node_state" where
  "from_payload ident payload =
     fold from_payload_entry payload
       \<lparr>node_id = ident, session_id = replicate 8 0, timeline = default_timeline,
        start_stop_state = default_start_stop\<rparr>"

text \<open>The body of one entry: an entry, or nothing for a key that is skipped.\<close>

definition sized :: "payload_entry_header \<Rightarrow> payload_entry_header
    \<Rightarrow> decode_error + 'a \<times> nat \<Rightarrow> ('a \<Rightarrow> payload_entry) \<Rightarrow> link_error + payload_entry option" where
  "sized header expected body entry =
     (if entry_size header = entry_size expected
      then bind_res (map_err Decoding body) (\<lambda>(v, n). Inr (Some (entry v)))
      else Inl (Protocol ''payload entry size mismatch''))"

definition decode_entry :: "ext \<Rightarrow> payload_entry_header \<Rightarrow> bytes \<Rightarrow> link_error + payload_entry option" where
  "decode_entry E header body =
     (if key header = key HOST_TIME_HEADER
        then sized header HOST_TIME_HEADER (decode_from_slice (decode_time E) body) HostTime
      else if key header = key TIMELINE_HEADER
        then sized header TIMELINE_HEADER (decode_from_slice (decode_timeline E) body) TimelineEntry
      else if key header = key SESSION_MEMBERSHIP_HEADER
        then sized header SESSION_MEMBERSHIP_HEADER (decode_from_slice decode_membership body) SessionMembership
      else if key header = key START_STOP_STATE_HEADER
        then sized header START_STOP_STATE_HEADER (decode_from_slice (decode_start_stop E) body) StartStopEntry
      else if key header = key MEASUREMENT_ENDPOINT_V4_HEADER
        then sized header MEASUREMENT_ENDPOINT_V4_HEADER
               (decode_from_slice decode_measurement_endpoint body) MeasurementEndpointV4
      else if key header = key AUDIO_ENDPOINT_V4_HEADER
        then sized header AUDIO_ENDPOINT_V4_HEADER (decode_from_slice decode_audio_endpoint body) AudioEndpointV4
      else if key header = AUDIO_ENDPOINT_V6_HEADER_KEY then Inr None
      else if key header = key GHOST_TIME_HEADER
        then sized header GHOST_TIME_HEADER (decode_from_slice (decode_time E) body) GhostTime
      else if key header = key PREV_GHOST_TIME_HEADER
        then sized header PREV_GHOST_TIME_HEADER (decode_from_slice (decode_time E) body) PrevGhostTime
      else Inr None)"

text \<open>The decoding loop; the entries decoded so far are dropped with the payload on an error.\<close>

function payload_decode :: "ext \<Rightarrow> payload \<Rightarrow> bytes \<Rightarrow> link_error + payload" where
  "payload_decode E entries data =
     (if length data < 8 then Inr entries
      else bind_res (map_err Decoding (decode_from_slice decode_header (take 8 data))) (\<lambda>(header, _).
             let endp = 8 + unat (entry_size header)
             in if endp \<le> length data
                then bind_res (decode_entry E header (take (endp - 8) (drop 8 data))) (\<lambda>entry.
                       payload_decode E (entries @ (case entry of Some e \<Rightarrow> [e] | None \<Rightarrow> []))
                         (drop endp data))
                else Inl (Protocol ''truncated payload entry'')))"
  by pat_completeness auto

termination payload_decode
  by (relation "measure (\<lambda>(E, entries, data). length data)") auto

declare payload_decode.simps [simp del]

section \<open>The codecs of the parts\<close>

interpretation nodec: wire_codec encode_node_id decode_node_id "\<lambda>_. 8" "\<lambda>v. v" "\<lambda>v. length v = 8"
  by unfold_locales
    (auto simp: encode_node_id_def decode_node_id_def arrayc.enc_image arrayc.dec_image dest: arrayc.dec_bound)

interpretation sessionc: wire_codec encode_session_id decode_session_id "\<lambda>_. 8" "\<lambda>v. v" "\<lambda>v. length v = 8"
  by unfold_locales
    (auto simp: encode_session_id_def decode_session_id_def nodec.enc_image nodec.dec_image dest: nodec.dec_bound)

text \<open>An entry header is a pair of \<open>u32\<close>, an endpoint a \<open>u32\<close> and a \<open>u16\<close>.\<close>

interpretation u32_u32: wire_codec_pair encode_u32 decode_u32 "\<lambda>_. 4" "\<lambda>v. be_bytes 4 (unat v)" "\<lambda>_. True"
  encode_u32 decode_u32 "\<lambda>_. 4" "\<lambda>v. be_bytes 4 (unat v)" "\<lambda>_. True" ..

interpretation u32_u16: wire_codec_pair encode_u32 decode_u32 "\<lambda>_. 4" "\<lambda>v. be_bytes 4 (unat v)" "\<lambda>_. True"
  encode_u16 decode_u16 "\<lambda>_. 2" "\<lambda>v. be_bytes 2 (unat v)" "\<lambda>_. True" ..

definition endpoint_image :: "socket_v4 option \<Rightarrow> bytes" where
  "endpoint_image ep =
     (let a = (case ep of Some a \<Rightarrow> a | None \<Rightarrow> (0, 0))
      in be_bytes 4 (unat (fst a)) @ be_bytes 2 (unat (snd a)))"

definition header_image :: "payload_entry_header \<Rightarrow> bytes" where
  "header_image h = be_bytes 4 (unat (key h)) @ be_bytes 4 (unat (entry_size h))"

lemma length_images [simp]: "length (endpoint_image ep) = 6" "length (header_image h) = 8"
  by (simp_all add: endpoint_image_def header_image_def Let_def)

interpretation headerc: wire_codec encode_header decode_header "\<lambda>_. 8" header_image "\<lambda>_. True"
proof -
  have enc: "encode_header h out = encode_pair encode_u32 encode_u32 (key h, entry_size h) out" for h out
    by (simp add: encode_header_def encode_pair_def)
  have dec: "decode_header bs = bind_res (decode_pair decode_u32 decode_u32 bs)
      (\<lambda>((k, s), n). Inr (\<lparr>key = k, entry_size = s\<rparr>, n))" for bs
    by (simp add: decode_header_def decode_pair_def bind_res_assoc case_prod_unfold)
  show "wire_codec encode_header decode_header (\<lambda>_. 8) header_image (\<lambda>_. True)"
    by unfold_locales
      (use u32_u32.pair.enc_image u32_u32.pair.dec_image u32_u32.pair.dec_bound in
        \<open>auto simp: enc dec header_image_def result_simps\<close>)
qed

lemma decode_endpoint_pair:
  "decode_audio_endpoint bs = bind_res (decode_pair decode_u32 decode_u16 bs)
     (\<lambda>((ip, port), n). Inr (if ip = 0 \<or> port = 0 then None else Some (ip, port), n))"
  "decode_measurement_endpoint bs = bind_res (decode_pair decode_u32 decode_u16 bs)
     (\<lambda>((ip, port), n). Inr (if ip \<noteq> 0 \<or> port \<noteq> 0 then Some (ip, port) else None, n))"
  by (simp_all add: decode_audio_endpoint_def decode_measurement_endpoint_def decode_pair_def
      bind_res_assoc case_prod_unfold cong: if_cong)

interpretation audioc: wire_codec encode_audio_endpoint decode_audio_endpoint "\<lambda>_. 6" endpoint_image
  "\<lambda>ep. \<forall>a. ep = Some a \<longrightarrow> fst a \<noteq> 0 \<and> snd a \<noteq> 0"
  by unfold_locales
    (use u32_u16.pair.enc_image u32_u16.pair.dec_image u32_u16.pair.dec_bound in
      \<open>auto simp: encode_audio_endpoint_def encode_pair_def decode_endpoint_pair endpoint_image_def Let_def
        result_simps split: option.splits\<close>)

interpretation measurementc: wire_codec encode_measurement_endpoint decode_measurement_endpoint "\<lambda>_. 6" endpoint_image
  "\<lambda>ep. \<forall>a. ep = Some a \<longrightarrow> fst a \<noteq> 0 \<or> snd a \<noteq> 0"
  by unfold_locales
    (use u32_u16.pair.enc_image u32_u16.pair.dec_image u32_u16.pair.dec_bound in
      \<open>auto simp: encode_measurement_endpoint_def encode_pair_def decode_endpoint_pair endpoint_image_def Let_def
        result_simps split: option.splits\<close>)

definition start_stop_image :: "start_stop_state \<Rightarrow> bytes" where
  "start_stop_image s =
     [if is_playing s then 1 else 0] @ be_bytes 8 (unat (beats_value (beats s))) @ time_image (timestamp s)"

interpretation start_stopc: wire_codec "encode_start_stop E" "decode_start_stop E" "\<lambda>_. 17" start_stop_image
  "\<lambda>s. wire_time E (timestamp s)" for E
proof
  fix s :: start_stop_state and out rest
  assume t: "wire_time E (timestamp s)"
  show "encode_start_stop E s out = Inr (out @ start_stop_image s)"
    by (simp add: encode_start_stop_def boolc.enc_image beatsc.enc_image i64c.enc_image start_stop_image_def
        time_image_def wire_time_micros(1) [OF t])
  show "length (start_stop_image s) = 17" by (simp add: start_stop_image_def)
  have "decode_bool (start_stop_image s @ rest) = Inr (is_playing s, 1)"
    by (simp add: start_stop_image_def decode_bool_def)
  moreover have "decode_beats (be_bytes 8 (unat (beats_value (beats s))) @ r) = Inr (beats s, 8)" for r
    using beatsc.dec_image by simp
  ultimately show "decode_start_stop E (start_stop_image s @ rest) = Inr (s, 17)"
    using wire_time_micros(2,3) [OF t]
    by (simp add: decode_start_stop_def start_stop_image_def time_image_def)
next
  fix bs v n
  assume "decode_start_stop E bs = Inr (v, n)"
  then show "n \<le> length bs"
    by (auto simp: decode_start_stop_def decode_bool_def decode_beats_def decode_i64_def result_simps
        split: if_splits)
qed

lemma decode_time_image:
  assumes "wire_time E t"
  shows "decode_time E (time_image t @ rest) = Inr (t, 8)"
  using wire_time_micros(2,3) [OF assms] by (simp add: decode_time_def time_image_def)

section \<open>Payload round trip\<close>

lemma keys [simp]:
  "key HOST_TIME_HEADER = 1600088180" "key GHOST_TIME_HEADER = 1600087924"
  "key PREV_GHOST_TIME_HEADER = 1601202036" "key TIMELINE_HEADER = 1953328238"
  "key SESSION_MEMBERSHIP_HEADER = 1936028531" "key START_STOP_STATE_HEADER = 1937011572"
  "key MEASUREMENT_ENDPOINT_V4_HEADER = 1835364404" "key AUDIO_ENDPOINT_V4_HEADER = 1634037812"
  "AUDIO_ENDPOINT_V6_HEADER_KEY = 1634037814"
  by (simp_all add: HOST_TIME_HEADER_def GHOST_TIME_HEADER_def PREV_GHOST_TIME_HEADER_def TIMELINE_HEADER_def
      SESSION_MEMBERSHIP_HEADER_def START_STOP_STATE_HEADER_def MEASUREMENT_ENDPOINT_V4_HEADER_def
      AUDIO_ENDPOINT_V4_HEADER_def AUDIO_ENDPOINT_V6_HEADER_KEY_def key_of_def from_be_def)

lemma entry_sizes [simp]:
  "entry_size HOST_TIME_HEADER = 8" "entry_size GHOST_TIME_HEADER = 8" "entry_size PREV_GHOST_TIME_HEADER = 8"
  "entry_size TIMELINE_HEADER = 24" "entry_size SESSION_MEMBERSHIP_HEADER = 8"
  "entry_size START_STOP_STATE_HEADER = 17" "entry_size MEASUREMENT_ENDPOINT_V4_HEADER = 6"
  "entry_size AUDIO_ENDPOINT_V4_HEADER = 6"
  by (simp_all add: HOST_TIME_HEADER_def GHOST_TIME_HEADER_def PREV_GHOST_TIME_HEADER_def TIMELINE_HEADER_def
      SESSION_MEMBERSHIP_HEADER_def START_STOP_STATE_HEADER_def MEASUREMENT_ENDPOINT_V4_HEADER_def
      AUDIO_ENDPOINT_V4_HEADER_def)

text \<open>The entries the wire can carry, their headers and their bodies.\<close>

fun wire_entry :: "ext \<Rightarrow> payload_entry \<Rightarrow> bool" where
  "wire_entry E (HostTime t) = wire_time E t"
| "wire_entry E (GhostTime t) = wire_time E t"
| "wire_entry E (PrevGhostTime t) = wire_time E t"
| "wire_entry E (TimelineEntry t) = wire_timeline E t"
| "wire_entry E (SessionMembership s) = (length s = 8)"
| "wire_entry E (StartStopEntry s) = wire_time E (timestamp s)"
| "wire_entry E (MeasurementEndpointV4 ep) = (\<forall>a. ep = Some a \<longrightarrow> fst a \<noteq> 0 \<or> snd a \<noteq> 0)"
| "wire_entry E (AudioEndpointV4 ep) = (\<forall>a. ep = Some a \<longrightarrow> fst a \<noteq> 0 \<and> snd a \<noteq> 0)"

fun entry_header :: "payload_entry \<Rightarrow> payload_entry_header" where
  "entry_header (HostTime _) = HOST_TIME_HEADER"
| "entry_header (GhostTime _) = GHOST_TIME_HEADER"
| "entry_header (PrevGhostTime _) = PREV_GHOST_TIME_HEADER"
| "entry_header (TimelineEntry _) = TIMELINE_HEADER"
| "entry_header (SessionMembership _) = SESSION_MEMBERSHIP_HEADER"
| "entry_header (StartStopEntry _) = START_STOP_STATE_HEADER"
| "entry_header (MeasurementEndpointV4 _) = MEASUREMENT_ENDPOINT_V4_HEADER"
| "entry_header (AudioEndpointV4 _) = AUDIO_ENDPOINT_V4_HEADER"

fun body_image :: "payload_entry \<Rightarrow> bytes" where
  "body_image (HostTime t) = time_image t"
| "body_image (GhostTime t) = time_image t"
| "body_image (PrevGhostTime t) = time_image t"
| "body_image (TimelineEntry t) = timeline_image t"
| "body_image (SessionMembership s) = s"
| "body_image (StartStopEntry s) = start_stop_image s"
| "body_image (MeasurementEndpointV4 ep) = endpoint_image ep"
| "body_image (AudioEndpointV4 ep) = endpoint_image ep"

definition entry_image :: "payload_entry \<Rightarrow> bytes" where
  "entry_image e = header_image (entry_header e) @ body_image e"

lemma with_header_image: "with_header h (Inr b) = Inr (header_image h @ b)"
  by (simp add: with_header_def encode_to_vec_def headerc.enc_image)

lemma encode_time_image:
  assumes "wire_time E t"
  shows "encode_time_entry E h t = Inr (header_image h @ time_image t)"
proof -
  have "num_microseconds E t = Some (t sdiv 1000)"
    using assms wire_time_micros [OF assms]
    by (simp add: wire_time_def chrono_laws checked_i64_def)
  then show ?thesis
    by (simp add: encode_time_entry_def encode_to_vec_def headerc.enc_image wire_micros_def i64c.enc_image
        time_image_def)
qed

lemma encode_entry_image: "wire_entry E e \<Longrightarrow> encode_entry E e = Inr (entry_image e)"
  by (cases e)
    (simp_all add: entry_image_def encode_time_image encode_to_vec_def with_header_image timelinec.enc_image
      sessionc.enc_image start_stopc.enc_image measurementc.enc_image audioc.enc_image)

lemma length_body_image: "wire_entry E e \<Longrightarrow> length (body_image e) = unat (entry_size (entry_header e))"
  using timelinec.size_image start_stopc.size_image by (cases e) auto

lemma decode_entry_image:
  assumes "wire_entry E e"
  shows "decode_entry E (entry_header e) (body_image e) = Inr (Some e)"
  using assms decode_time_image [of E _ "[]"] timelinec.dec_image [of E _ "[]"]
    sessionc.dec_image [of _ "[]"] start_stopc.dec_image [of E _ "[]"]
    measurementc.dec_image [of _ "[]"] audioc.dec_image [of _ "[]"]
  by (cases e) (simp_all add: decode_entry_def sized_def decode_from_slice_def decode_membership_def)

lemma entry_len_image: "wire_entry E e \<Longrightarrow> length (entry_image e) = 8 + unat (entry_len e)"
  using length_body_image [of E e] by (cases e) (simp_all add: entry_image_def)

lemma encode_payload_image:
  "\<forall>e\<in>set es. wire_entry E e \<Longrightarrow> encode_payload E es = Inr (concat (map entry_image es))"
  by (induction es) (simp_all add: encode_entry_image)

text \<open>The entries that can be sent, and what the receiver reads of them: times, and the tempo of
  a timeline, rounded to whole microseconds.\<close>

fun sendable_entry :: "ext \<Rightarrow> payload_entry \<Rightarrow> bool" where
  "sendable_entry E (HostTime t) = sendable_time E t"
| "sendable_entry E (GhostTime t) = sendable_time E t"
| "sendable_entry E (PrevGhostTime t) = sendable_time E t"
| "sendable_entry E (TimelineEntry t) = sendable_timeline E t"
| "sendable_entry E (StartStopEntry s) = sendable_time E (timestamp s)"
| "sendable_entry E e = wire_entry E e"

definition received_start_stop :: "start_stop_state \<Rightarrow> start_stop_state" where
  "received_start_stop s = s\<lparr>timestamp := received_time (timestamp s)\<rparr>"

fun received_entry :: "ext \<Rightarrow> payload_entry \<Rightarrow> payload_entry" where
  "received_entry E (HostTime t) = HostTime (received_time t)"
| "received_entry E (GhostTime t) = GhostTime (received_time t)"
| "received_entry E (PrevGhostTime t) = PrevGhostTime (received_time t)"
| "received_entry E (TimelineEntry t) = TimelineEntry (received_timeline E t)"
| "received_entry E (StartStopEntry s) = StartStopEntry (received_start_stop s)"
| "received_entry E e = e"

lemma received_entry_wire:
  assumes "sendable_entry E e"
  shows "wire_entry E (received_entry E e)" and "entry_image (received_entry E e) = entry_image e"
    and "encode_entry E e = Inr (entry_image e)"
proof -
  show "wire_entry E (received_entry E e)"
    using assms received_time_wire(1) received_timeline_wire(1)
    by (cases e) (simp_all add: received_start_stop_def)
  have "start_stop_image (received_start_stop s) = start_stop_image s" if "sendable_time E (timestamp s)" for s
    using received_time_wire(3) [OF that] by (simp add: start_stop_image_def received_start_stop_def)
  then show "entry_image (received_entry E e) = entry_image e"
    using assms received_time_wire(3) received_timeline_wire(2) by (cases e) (auto simp: entry_image_def)
  have t: "encode_time_entry E h t = Inr (header_image h @ time_image t)" if "sendable_time E t" for h t
    using received_time_wire(5) [OF that]
    by (simp add: encode_time_entry_def encode_to_vec_def headerc.enc_image wire_micros_def i64c.enc_image time_image_def)
  have s: "encode_start_stop E s [] = Inr (start_stop_image s)" if "sendable_time E (timestamp s)" for s
    using received_time_wire(4) [OF that]
    by (simp add: encode_start_stop_def boolc.enc_image beatsc.enc_image i64c.enc_image start_stop_image_def time_image_def)
  show "encode_entry E e = Inr (entry_image e)"
    using assms t s received_timeline_wire(3) [of E]
    by (cases e) (simp_all add: entry_image_def encode_to_vec_def with_header_image sessionc.enc_image
        measurementc.enc_image audioc.enc_image)
qed

lemma encode_sendable_payload:
  "\<forall>e\<in>set es. sendable_entry E e \<Longrightarrow> encode_payload E es = encode_payload E (map (received_entry E) es)"
  by (induction es) (simp_all add: received_entry_wire encode_entry_image)

text \<open>One turn of the decoding loop.\<close>

lemma payload_decode_step:
  assumes "wire_entry E e"
  shows "payload_decode E acc (entry_image e @ rest) = payload_decode E (acc @ [e]) rest"
proof -
  let ?h = "entry_header e" and ?b = "body_image e"
  have n: "length ?b = unat (entry_size ?h)" by (rule length_body_image [OF assms])
  have "decode_header (header_image ?h @ []) = Inr (?h, 8)" by (rule headerc.dec_image) simp
  then show ?thesis
    by (subst payload_decode.simps)
      (simp add: entry_image_def decode_from_slice_def n [symmetric] decode_entry_image [OF assms])
qed

lemma payload_decode_images:
  assumes "\<forall>e\<in>set es. wire_entry E e" and "length rest < 8"
  shows "payload_decode E acc (concat (map entry_image es) @ rest) = Inr (acc @ es)"
  using assms(1)
proof (induction es arbitrary: acc)
  case Nil
  then show ?case using assms(2) by (simp add: payload_decode.simps [of E acc rest])
qed (simp add: payload_decode_step)

end
