(* ===== verification/Messages.thy ===== *)
theory Messages
  imports Payload
begin

text \<open>
  The two datagram protocols: discovery messages (\<open>src/discovery/messages.rs\<close>) and the
  ping/pong messages of measurement with the responder that answers a ping
  (\<open>src/link/pingresponder.rs\<close>). A message is a protocol tag, a header and a payload, at most
  512 bytes in all; a received one is refused unless its tag, length and type are known.
\<close>

section \<open>Discovery messages\<close>

record message_header =
  message_type :: u8
  ttl :: u8
  group_id :: u16
  ident :: node_id

abbreviation MAX_MESSAGE_SIZE :: nat where "MAX_MESSAGE_SIZE \<equiv> 512"

definition ALIVE :: u8 where "ALIVE = 1"
definition RESPONSE :: u8 where "RESPONSE = 2"
definition BYEBYE :: u8 where "BYEBYE = 3"

text \<open>\<open>_asdp_v\<close> and the version byte.\<close>

definition PROTOCOL_HEADER :: bytes where
  "PROTOCOL_HEADER = map of_char ''_asdp_v'' @ [1]"

definition encode_message_header :: "message_header encoder" where
  "encode_message_header h out =
     bind_res (encode_u8 (message_type h) out) (\<lambda>out.
     bind_res (encode_u8 (ttl h) out) (\<lambda>out.
     bind_res (encode_u16 (group_id h) out) (\<lambda>out.
       encode_node_id (ident h) out)))"

definition decode_message_header :: "message_header decoder" where
  "decode_message_header bs =
     bind_res (decode_u8 bs) (\<lambda>(t, n1).
     bind_res (decode_u8 (drop n1 bs)) (\<lambda>(l, n2).
     bind_res (decode_u16 (drop (n1 + n2) bs)) (\<lambda>(g, n3).
     bind_res (decode_node_id (drop (n1 + n2 + n3) bs)) (\<lambda>(i, n4).
       Inr (\<lparr>message_type = t, ttl = l, group_id = g, ident = i\<rparr>, n1 + n2 + n3 + n4)))))"

definition encode_message ::
  "ext \<Rightarrow> node_id \<Rightarrow> u8 \<Rightarrow> u8 \<Rightarrow> payload \<Rightarrow> u16 \<Rightarrow> link_error + bytes" where
  "encode_message E sender t kind payload grp =
     (let header = \<lparr>message_type = kind, ttl = t, group_id = grp, ident = sender\<rparr>;
          message_size = 8 + 12 + unat (payload_size payload)
      in if message_size > MAX_MESSAGE_SIZE
         then Inl (Encoding (MessageTooLarge message_size MAX_MESSAGE_SIZE))
         else
           bind_res (map_err Encoding (encode_to_vec encode_array PROTOCOL_HEADER)) (\<lambda>encoded.
           bind_res (map_err Encoding (encode_to_vec encode_message_header header)) (\<lambda>h.
           bind_res (encode_payload E payload) (\<lambda>p. Inr (encoded @ h @ p)))))"

definition alive_message :: "ext \<Rightarrow> node_id \<Rightarrow> u8 \<Rightarrow> payload \<Rightarrow> u16 \<Rightarrow> link_error + bytes" where
  "alive_message E sender t payload grp = encode_message E sender t ALIVE payload grp"

definition response_message :: "ext \<Rightarrow> node_id \<Rightarrow> u8 \<Rightarrow> payload \<Rightarrow> u16 \<Rightarrow> link_error + bytes" where
  "response_message E sender t payload grp = encode_message E sender t RESPONSE payload grp"

definition byebye_message :: "ext \<Rightarrow> node_id \<Rightarrow> link_error + bytes" where
  "byebye_message E sender = encode_message E sender 0 BYEBYE [] 0"

definition starts_with :: "bytes \<Rightarrow> bytes \<Rightarrow> bool" where
  "starts_with data tag \<longleftrightarrow> take (length tag) data = tag"

definition parse_message_header :: "bytes \<Rightarrow> link_error + message_header \<times> nat" where
  "parse_message_header data =
     (let min_message_size = 8 + 12
      in if length data < min_message_size then Inl (Protocol ''invalid message size'')
         else if \<not> starts_with data PROTOCOL_HEADER then Inl (Protocol ''invalid protocol header'')
         else
           bind_res (map_err Decoding (decode_from_slice decode_message_header
                       (drop 8 (take min_message_size data)))) (\<lambda>(header, consumed).
             if unat (message_type header) \<ge> 4 then Inl (Protocol ''unknown message type'')
             else Inr (header, 8 + consumed)))"

definition parse_payload :: "ext \<Rightarrow> bytes \<Rightarrow> link_error + payload" where
  "parse_payload E data = payload_decode E [] data"

section \<open>Ping and pong\<close>

definition PING :: u8 where "PING = 1"
definition PONG :: u8 where "PONG = 2"

definition LINK_HEADER :: bytes where
  "LINK_HEADER = map of_char ''_link_v'' @ [1]"

definition encode_ping_message :: "ext \<Rightarrow> u8 \<Rightarrow> payload \<Rightarrow> link_error + bytes" where
  "encode_ping_message E kind payload =
     (let message_size = 8 + 1 + unat (payload_size payload)
      in if message_size > MAX_MESSAGE_SIZE
         then Inl (Encoding (MessageTooLarge message_size MAX_MESSAGE_SIZE))
         else
           bind_res (map_err Encoding (encode_to_vec encode_array LINK_HEADER)) (\<lambda>encoded.
           bind_res (map_err Encoding (encode_to_vec encode_u8 kind)) (\<lambda>h.
           bind_res (encode_payload E payload) (\<lambda>p. Inr (encoded @ h @ p)))))"

definition parse_ping_header :: "bytes \<Rightarrow> link_error + u8 \<times> nat" where
  "parse_ping_header data =
     (let min_message_size = 8 + 1
      in if length data < min_message_size then Inl (Protocol ''invalid message size'')
         else if \<not> starts_with data LINK_HEADER then Inl (Protocol ''invalid protocol header'')
         else
           bind_res (map_err Decoding (decode_from_slice decode_u8
                       (drop 8 (take min_message_size data)))) (\<lambda>(header, consumed).
             Inr (header, 8 + consumed)))"

fun is_ping_entry :: "payload_entry \<Rightarrow> bool" where
  "is_ping_entry (HostTime _) = True"
| "is_ping_entry (PrevGhostTime _) = True"
| "is_ping_entry _ = False"

text \<open>
  The responder's state: its membership and transform, or \<open>None\<close> when another task holds a
  lock (the ping is then skipped), and the flag of the first ping.
\<close>

record ping_responder =
  responder_state :: "(session_id \<times> ghost_xform) option"
  ping_received :: bool

definition pong_message ::
  "ext \<Rightarrow> ping_responder \<Rightarrow> duration \<Rightarrow> bytes \<Rightarrow> ping_responder \<times> bytes option" where
  "pong_message E r now data =
     (if length data < 8 + 1 \<or> \<not> starts_with data LINK_HEADER \<or> data ! 8 \<noteq> PING then (r, None)
      else case parse_ping_header data of
        Inl _ \<Rightarrow> (r, None)
      | Inr (_, header_len) \<Rightarrow>
          if length (drop header_len data) > 40 then (r, None)
          else
            let r = r\<lparr>ping_received := True\<rparr>
            in case parse_payload E (drop header_len data) of
                 Inl _ \<Rightarrow> (r, None)
               | Inr entries \<Rightarrow>
                   (case responder_state r of
                      None \<Rightarrow> (r, None)
                    | Some (sid, form) \<Rightarrow>
                        let time = host_to_ghost E form now;
                            pong = filter is_ping_entry entries
                                   @ [SessionMembership sid, GhostTime (of_microseconds E (micros E time))]
                        in (r, case encode_ping_message E PONG pong of
                                 Inl _ \<Rightarrow> None
                               | Inr message \<Rightarrow> Some message)))"

definition responder_update :: "ping_responder \<Rightarrow> session_id \<Rightarrow> ghost_xform \<Rightarrow> ping_responder" where
  "responder_update r sid form = r\<lparr>responder_state := Some (sid, form)\<rparr>"

section \<open>Sizes\<close>

lemma entry_len_le: "unat (entry_len e) \<le> 24"
  by (cases e) simp_all

lemma payload_size_snoc: "payload_size (es @ [e]) = payload_size es + (8 + entry_len e)"
  by (simp add: payload_size_def)

lemma unat_payload_size:
  "32 * length es < 2 ^ 32 \<Longrightarrow> unat (payload_size es) = sum_list (map (\<lambda>e. 8 + unat (entry_len e)) es)"
proof (induction es rule: rev_induct)
  case (snoc e es)
  let ?s = "sum_list (map (\<lambda>e. 8 + unat (entry_len e)) es)"
  have IH: "unat (payload_size es) = ?s" using snoc by simp
  have "8 + unat (entry_len e) \<le> 32" for e using entry_len_le [of e] by simp
  then have le: "?s \<le> 32 * length es" by (induction es) (auto intro: add_mono)
  have 8: "unat (8 + entry_len e) = 8 + unat (entry_len e)"
    using entry_len_le [of e] by (simp add: unat_word_ariths)
  have "unat (payload_size es + (8 + entry_len e)) = ?s + (8 + unat (entry_len e))"
    using IH 8 le entry_len_le [of e] snoc.prems by (simp add: unat_word_ariths)
  then show ?case by (simp add: payload_size_snoc)
qed (simp add: payload_size_def)

lemma payload_size_image:
  assumes "\<forall>e\<in>set es. wire_entry E e" and "32 * length es < 2 ^ 32"
  shows "unat (payload_size es) = length (concat (map entry_image es))"
proof -
  have "map (\<lambda>e. 8 + unat (entry_len e)) es = map length (map entry_image es)"
    using assms(1) by (auto simp: entry_len_image)
  then show ?thesis unfolding unat_payload_size [OF assms(2)] length_concat by (rule arg_cong)
qed

text \<open>Encoding writes as many bytes as the entry announces, for well-formed identifiers.\<close>

fun ids_ok :: "payload_entry \<Rightarrow> bool" where
  "ids_ok (SessionMembership s) = (length s = 8)"
| "ids_ok _ = True"

lemma length_encode_entry:
  assumes "encode_entry E e = Inr b" and "ids_ok e"
  shows "length b = 8 + unat (entry_len e)"
  using assms
  by (cases e)
    (auto simp: encode_time_entry_def with_header_def encode_to_vec_def headerc.enc_image i64c.enc_image
      encode_timeline_def encode_tempo_def encode_beats_def encode_session_id_def encode_node_id_def
      encode_array_def encode_start_stop_def boolc.enc_image encode_measurement_endpoint_def
      encode_audio_endpoint_def u32c.enc_image u16c.enc_image result_simps Let_def)

lemma length_encode_payload:
  assumes "encode_payload E es = Inr b" and "\<forall>e\<in>set es. ids_ok e"
  shows "length b = sum_list (map (\<lambda>e. 8 + unat (entry_len e)) es)"
  using assms
  by (induction es arbitrary: b) (auto simp: result_simps length_encode_entry)

lemma payload_size_le:
  assumes "encode_payload E es = Inr b" and "\<forall>e\<in>set es. ids_ok e" and "32 * length es < 2 ^ 32"
  shows "length b = unat (payload_size es)"
  using length_encode_payload [OF assms(1,2)] unat_payload_size [OF assms(3)] by simp

lemma encode_payload_errors:
  "encode_payload E es = Inl e \<Longrightarrow> e = Protocol ''time out of range''"
proof (induction es)
  case (Cons x xs)
  moreover have "encode_entry E x = Inl e \<Longrightarrow> e = Protocol ''time out of range''"
    by (cases x)
      (auto simp: encode_time_entry_def with_header_def encode_to_vec_def headerc.enc_image i64c.enc_image
        encode_timeline_def encode_tempo_def encode_beats_def encode_session_id_def encode_node_id_def
        encode_array_def encode_start_stop_def boolc.enc_image encode_measurement_endpoint_def
        encode_audio_endpoint_def u32c.enc_image u16c.enc_image result_simps Let_def wire_micros_def)
  ultimately show ?case by (auto simp: result_simps)
qed simp

text \<open>The size each known key must declare.\<close>

definition known_size :: "u32 \<Rightarrow> u32" where
  "known_size k =
     (if k = 1953328238 then 24 else if k = 1937011572 then 17
      else if k = 1835364404 \<or> k = 1634037812 then 6 else 8)"

section \<open>Message round trips\<close>

definition message_image :: "message_header \<Rightarrow> bytes" where
  "message_image h = [message_type h, ttl h] @ be_bytes 2 (unat (group_id h)) @ ident h"

interpretation message_headerc: wire_codec encode_message_header decode_message_header "\<lambda>_. 12" message_image
  "\<lambda>h. length (ident h) = 8"
proof
  fix h :: message_header and out rest
  assume h: "length (ident h) = 8"
  show "encode_message_header h out = Inr (out @ message_image h)"
    using h by (simp add: encode_message_header_def u8c.enc_image u16c.enc_image nodec.enc_image message_image_def)
  show "length (message_image h) = 12" using h by (simp add: message_image_def)
  have "decode_u16 (be_bytes 2 (unat (group_id h)) @ r) = Inr (group_id h, 2)" for r
    using u16c.dec_image by simp
  moreover have "decode_node_id (ident h @ rest) = Inr (ident h, 8)" using nodec.dec_image h by simp
  ultimately show "decode_message_header (message_image h @ rest) = Inr (h, 12)"
    by (simp add: decode_message_header_def decode_u8_def message_image_def)
next
  fix bs v n
  assume "decode_message_header bs = Inr (v, n)"
  then show "n \<le> length bs"
    by (auto simp: decode_message_header_def decode_u8_def decode_u16_def decode_node_id_def decode_array_def
        result_simps Suc_le_eq split: if_splits)
qed

lemma length_tags [simp]: "length PROTOCOL_HEADER = 8" "length LINK_HEADER = 8"
  by (simp_all add: PROTOCOL_HEADER_def LINK_HEADER_def)

lemma starts_with_append [simp]: "starts_with (tag @ rest) tag"
  by (simp add: starts_with_def)

lemma encode_message_image:
  assumes es: "\<forall>e\<in>set es. wire_entry E e" and id: "length sender = 8"
    and fit: "20 + length (concat (map entry_image es)) \<le> MAX_MESSAGE_SIZE" and n: "32 * length es < 2 ^ 32"
  shows "encode_message E sender t kind es grp
           = Inr (PROTOCOL_HEADER
                  @ message_image \<lparr>message_type = kind, ttl = t, group_id = grp, ident = sender\<rparr>
                  @ concat (map entry_image es))"
  using fit id payload_size_image [OF es n]
  by (simp add: encode_message_def encode_to_vec_def encode_array_def message_headerc.enc_image
      encode_payload_image [OF es])

lemma entry_len_received [simp]: "entry_len (received_entry E e) = entry_len e"
  by (cases e) simp_all

lemma payload_size_received [simp]: "payload_size (map (received_entry E) es) = payload_size es"
  by (induction es rule: rev_induct) (simp_all add: payload_size_snoc)

lemma encode_message_received:
  assumes "\<forall>e\<in>set es. sendable_entry E e"
  shows "encode_message E sender t kind es grp = encode_message E sender t kind (map (received_entry E) es) grp"
  using encode_sendable_payload [OF assms] by (simp add: encode_message_def Let_def)

lemma parse_message_image:
  assumes "length (ident h) = 8" and "unat (message_type h) < 4"
  shows "parse_message_header (PROTOCOL_HEADER @ message_image h @ rest) = Inr (h, 20)"
proof -
  have "length (message_image h) = 12" by (rule message_headerc.size_image [OF assms(1)])
  moreover have "decode_message_header (message_image h) = Inr (h, 12)"
    using message_headerc.dec_image [OF assms(1), of "[]"] by simp
  ultimately show ?thesis using assms(2)
    by (simp add: parse_message_header_def decode_from_slice_def Let_def)
qed

lemma message_len_le: "32 * n \<le> (512 :: nat) \<Longrightarrow> 32 * n < 2 ^ 32"
  by simp

lemma entries_few:
  assumes "\<forall>e\<in>set es. wire_entry E e"
  shows "14 * length es \<le> length (concat (map entry_image es))"
  using assms
proof (induction es)
  case (Cons e es)
  have "14 \<le> length (entry_image e)" using Cons.prems entry_len_image [of E e] by (cases e) simp_all
  with Cons show ?case by simp
qed simp

section \<open>Properties\<close>

text \<open>C19: A discovery message that is encoded is understood: for every payload of wire entries that
  fits 512 bytes, encoding succeeds, the header is parsed back as sent, and the payload
  is parsed back entry by entry.\<close>

theorem discovery_message_round_trip:
  assumes "\<forall>e\<in>set es. wire_entry E e" and "length sender = 8" and "unat kind < 4"
    and "20 + length (concat (map entry_image es)) \<le> MAX_MESSAGE_SIZE"
  shows "\<exists>msg. encode_message E sender t kind es grp = Inr msg \<and> length msg \<le> MAX_MESSAGE_SIZE
           \<and> parse_message_header msg
               = Inr (\<lparr>message_type = kind, ttl = t, group_id = grp, ident = sender\<rparr>, 20)
           \<and> parse_payload E (drop 20 msg) = Inr es"
proof -
  let ?h = "\<lparr>message_type = kind, ttl = t, group_id = grp, ident = sender\<rparr>"
  have n: "32 * length es < 2 ^ 32" using entries_few [OF assms(1)] assms(4) by simp
  have l: "length (message_image ?h) = 12" using message_headerc.size_image assms(2) by simp
  have "payload_decode E [] (concat (map entry_image es)) = Inr es"
    using payload_decode_images [OF assms(1), of "[]" "[]"] by simp
  then show ?thesis
    using encode_message_image [OF assms(1,2,4) n] parse_message_image [of ?h "concat (map entry_image es)"]
      assms(2,3,4) l
    by (simp add: parse_payload_def)
qed

lemma std_wire_time [simp]: "wire_time std_ext 0" "wire_time std_ext 4000"
  by (auto simp: wire_time_def in_i64_def intro: exI [of _ 0] exI [of _ 4])

theorem discovery_message_round_trip_witness:
  "\<exists>msg. encode_message std_ext (replicate 8 65) 5 ALIVE
            [SessionMembership (replicate 8 66), StartStopEntry default_start_stop, HostTime 4000] 0 = Inr msg
      \<and> length msg \<le> MAX_MESSAGE_SIZE
      \<and> parse_message_header msg
          = Inr (\<lparr>message_type = ALIVE, ttl = 5, group_id = 0, ident = replicate 8 65\<rparr>, 20)
      \<and> parse_payload std_ext (drop 20 msg)
          = Inr [SessionMembership (replicate 8 66), StartStopEntry default_start_stop, HostTime 4000]"
  by (rule discovery_message_round_trip)
    (simp_all add: ALIVE_def default_start_stop_def entry_image_def start_stop_image_def)

text \<open>Every message that leaves the encoders has exactly the size its header and entries announce,
  and is at most 512 bytes long; the only errors are \<open>MessageTooLarge\<close>, for a larger one, and
  a time that \<open>i64\<close> microseconds cannot express. This holds for every payload and both
  protocols.\<close>

theorem encoded_messages_bounded:
  assumes "\<forall>e\<in>set es. ids_ok e" and "32 * length es < 2 ^ 32" and "length sender = 8"
  shows "(case encode_message E sender t kind es grp of
            Inr msg \<Rightarrow> length msg = 20 + unat (payload_size es) \<and> length msg \<le> MAX_MESSAGE_SIZE
          | Inl e \<Rightarrow> e = Encoding (MessageTooLarge (20 + unat (payload_size es)) MAX_MESSAGE_SIZE)
                       \<and> MAX_MESSAGE_SIZE < 20 + unat (payload_size es)
                     \<or> e = Protocol ''time out of range'')
       \<and> (case encode_ping_message E kind es of
            Inr msg \<Rightarrow> length msg = 9 + unat (payload_size es) \<and> length msg \<le> MAX_MESSAGE_SIZE
          | Inl e \<Rightarrow> e = Encoding (MessageTooLarge (9 + unat (payload_size es)) MAX_MESSAGE_SIZE)
                       \<and> MAX_MESSAGE_SIZE < 9 + unat (payload_size es)
                     \<or> e = Protocol ''time out of range'')"
proof -
  have h: "encode_to_vec encode_message_header \<lparr>message_type = kind, ttl = t, group_id = grp, ident = sender\<rparr>
      = Inr (message_image \<lparr>message_type = kind, ttl = t, group_id = grp, ident = sender\<rparr>)"
    and "length (message_image \<lparr>message_type = kind, ttl = t, group_id = grp, ident = sender\<rparr>) = 12"
    using assms(3) message_headerc.size_image by (simp_all add: encode_to_vec_def message_headerc.enc_image)
  then show ?thesis
    using payload_size_le [OF _ assms(1,2)] encode_payload_errors [of E es]
    by (cases "encode_payload E es")
      (auto simp: encode_message_def encode_ping_message_def Let_def h encode_to_vec_def encode_array_def
        u8c.enc_image)
qed

theorem encoded_messages_bounded_witness:
  "(case encode_message std_ext (replicate 8 65) 5 ALIVE [HostTime 4000] 0 of
      Inr msg \<Rightarrow> length msg = 20 + unat (payload_size [HostTime 4000]) \<and> length msg \<le> MAX_MESSAGE_SIZE
    | Inl e \<Rightarrow> e = Encoding (MessageTooLarge (20 + unat (payload_size [HostTime 4000])) MAX_MESSAGE_SIZE)
                 \<and> MAX_MESSAGE_SIZE < 20 + unat (payload_size [HostTime 4000])
               \<or> e = Protocol ''time out of range'')
   \<and> (case encode_ping_message std_ext ALIVE [HostTime 4000] of
      Inr msg \<Rightarrow> length msg = 9 + unat (payload_size [HostTime 4000]) \<and> length msg \<le> MAX_MESSAGE_SIZE
    | Inl e \<Rightarrow> e = Encoding (MessageTooLarge (9 + unat (payload_size [HostTime 4000])) MAX_MESSAGE_SIZE)
                 \<and> MAX_MESSAGE_SIZE < 9 + unat (payload_size [HostTime 4000])
               \<or> e = Protocol ''time out of range'')"
  by (rule encoded_messages_bounded) simp_all

text \<open>Decoding a payload never trusts a length: it ends on every input, an entry that claims more
  bytes than there are and a known entry with a wrong size are errors, and an unknown key is
  skipped by its declared size.\<close>

theorem payload_decode_checks_lengths:
  assumes "8 \<le> length data" and "decode_header (take 8 data) = Inr (header, 8)"
  shows "payload_decode E acc data =
           (if length data < 8 + unat (entry_size header) then Inl (Protocol ''truncated payload entry'')
            else if key header \<notin> {1600088180, 1600087924, 1601202036, 1953328238, 1936028531,
                                     1937011572, 1835364404, 1634037812}
              then payload_decode E acc (drop (8 + unat (entry_size header)) data)
            else if entry_size header \<noteq> known_size (key header)
              then Inl (Protocol ''payload entry size mismatch'')
            else bind_res (decode_entry E header (take (unat (entry_size header)) (drop 8 data)))
                   (\<lambda>entry. payload_decode E (acc @ (case entry of Some e \<Rightarrow> [e] | None \<Rightarrow> []))
                      (drop (8 + unat (entry_size header)) data)))"
  using assms
  by (subst payload_decode.simps)
    (auto simp: decode_from_slice_def decode_entry_def sized_def known_size_def not_less)

theorem payload_decode_checks_lengths_witness:
  "payload_decode std_ext [] (be_bytes 4 1 @ be_bytes 4 2 @ [7, 7]) = payload_decode std_ext [] []"
  using payload_decode_checks_lengths [of "be_bytes 4 1 @ be_bytes 4 2 @ [7, 7]" "\<lparr>key = 1, entry_size = 2\<rparr>"
      std_ext "[]"] headerc.dec_image [of "\<lparr>key = 1, entry_size = 2\<rparr>" "[]"]
  by (simp add: header_image_def)

end
