(* ===== verification/Measurement.thy ===== *)
theory Measurement
  imports Messages "HOL-Library.Multiset"
begin

text \<open>
  The measurement of a peer's ghost clock: \<open>src/link/measurement.rs\<close>,
  \<open>src/link/median.rs\<close>, \<open>src/link/linear_regression.rs\<close> and \<open>src/link/host_time_filter.rs\<close>.
  A measurement sends pings to the peer's endpoint, turns every pong into samples
  (host time, offset of the ghost clock), and either publishes more than
  \<open>NUMBER_DATA_POINTS\<close> samples or, after \<open>NUMBER_MEASUREMENTS\<close> rounds of the retry timer,
  an empty result; the samples are then fitted to a ghost transform.

  The tasks of a measurement (the pong listener, the finisher, the retry timer) and the forwarder
  that waits for its result are the steps of a transition relation: each step is one
  pass of the task's loop between two awaits.
\<close>

section \<open>Numbers\<close>

type_synonym sample = "f64 \<times> f64"

text \<open>
  A stable sort by a strict comparison. Rust fixes the order only for a total preorder; on
  numbers that contain a NaN \<open>partial_cmp\<close> is none, and the definition then gives
  one of the allowed orders.
\<close>

fun insert_by :: "('a \<Rightarrow> 'a \<Rightarrow> bool) \<Rightarrow> 'a \<Rightarrow> 'a list \<Rightarrow> 'a list" where
  "insert_by lt x [] = [x]"
| "insert_by lt x (y # ys) = (if lt x y then x # y # ys else y # insert_by lt x ys)"

definition sort_by :: "('a \<Rightarrow> 'a \<Rightarrow> bool) \<Rightarrow> 'a list \<Rightarrow> 'a list" where
  "sort_by lt xs = fold (insert_by lt) xs []"

text \<open>\<open>f64::total_cmp\<close>, with the sign of a NaN taken as positive.\<close>

fun f64_total_lt :: "f64 \<Rightarrow> f64 \<Rightarrow> bool" where
  "f64_total_lt NaN _ = False"
| "f64_total_lt _ NaN = True"
| "f64_total_lt NegZero (Fin r) = (0 \<le> r)"
| "f64_total_lt x y = f64_lt x y"

definition median_of :: "f64 list \<Rightarrow> f64" where
  "median_of numbers =
     (let numbers = sort_by f64_total_lt numbers; len = length numbers
      in if len = 0 then Fin 0
         else if len mod 2 = 0
           then let mid = len div 2 in f64_div (f64_add (numbers ! (mid - 1)) (numbers ! mid)) (Fin 2)
         else numbers ! (len div 2))"

definition median :: "f64 list \<Rightarrow> f64 option" where
  "median data =
     (if length data < 3 then None
      else let n = length data; data = sort_by f64_lt data
           in if n mod 2 = 0
              then Some (f64_div (f64_add (data ! (n div 2 - 1)) (data ! (n div 2))) (Fin 2))
              else Some (data ! (n div 2)))"

definition regression_step :: "sample \<Rightarrow> f64 \<times> f64 \<times> f64 \<times> f64 \<Rightarrow> f64 \<times> f64 \<times> f64 \<times> f64" where
  "regression_step p s =
     (case p of (x, y) \<Rightarrow> case s of (sum_x, sum_xx, sum_xy, sum_y) \<Rightarrow>
        (f64_add sum_x x, f64_add sum_xx (f64_mul x x), f64_add sum_xy (f64_mul x y), f64_add sum_y y))"

definition linear_regression :: "sample list \<Rightarrow> f64 \<times> f64" where
  "linear_regression points =
     (let num_points = f64_of_int (int (length points))
      in if f64_eq num_points (Fin 0) then (Fin 0, Fin 0)
         else
           case fold regression_step points (Fin 0, Fin 0, Fin 0, Fin 0) of
             (sum_x, sum_xx, sum_xy, sum_y) \<Rightarrow>
               let denominator = f64_sub (f64_mul num_points sum_xx) (f64_mul sum_x sum_x);
                   reg_slope = (if f64_eq denominator (Fin 0) then Fin 0
                            else f64_div (f64_sub (f64_mul num_points sum_xy) (f64_mul sum_x sum_y)) denominator);
                   reg_intercept = f64_div (f64_sub sum_y (f64_mul reg_slope sum_x)) num_points
               in (reg_slope, reg_intercept))"

subsection \<open>Sorting\<close>

text \<open>What a comparison must promise for the sort to sort.\<close>

locale weak_order =
  fixes lt :: "'a \<Rightarrow> 'a \<Rightarrow> bool"
  assumes asym: "lt x y \<Longrightarrow> \<not> lt y x"
    and neg_trans: "lt x z \<Longrightarrow> lt x y \<or> lt y z"
begin

lemma insert_by_sorted:
  "sorted_wrt (\<lambda>x y. \<not> lt y x) ys \<Longrightarrow> sorted_wrt (\<lambda>x y. \<not> lt y x) (insert_by lt x ys)"
proof (induction ys)
  case (Cons y ys)
  have set: "set (insert_by lt x ys) = insert x (set ys)" by (induction ys) auto
  show ?case
  proof (cases "lt x y")
    case True
    have "\<not> lt z x" if "z \<in> set ys" for z
      using that Cons.prems True neg_trans [of z x y] asym [of x z] asym [OF True] neg_trans [of x y z] by auto
    with Cons.prems True show ?thesis by (auto dest: asym)
  next
    case False
    with Cons show ?thesis by (auto simp: set)
  qed
qed simp

lemma sort_by_sorted: "sorted_wrt (\<lambda>x y. \<not> lt y x) (sort_by lt xs)"
proof -
  have "sorted_wrt (\<lambda>x y. \<not> lt y x) acc \<Longrightarrow> sorted_wrt (\<lambda>x y. \<not> lt y x) (fold (insert_by lt) xs acc)" for acc
    by (induction xs arbitrary: acc) (simp_all add: insert_by_sorted)
  then show ?thesis by (simp add: sort_by_def)
qed

lemma sort_by_first: "y \<in> set (sort_by lt xs) \<Longrightarrow> \<not> lt y (sort_by lt xs ! 0)"
  using sort_by_sorted [of xs] asym by (cases "sort_by lt xs") auto

end

lemma mset_insert_by [simp]: "mset (insert_by lt x ys) = add_mset x (mset ys)"
  by (induction ys) auto

lemma mset_sort_by [simp]: "mset (sort_by lt xs) = mset xs"
proof -
  have "mset (fold (insert_by lt) xs acc) = mset xs + mset acc" for acc
    by (induction xs arbitrary: acc) simp_all
  then show ?thesis by (simp add: sort_by_def)
qed

lemma set_sort_by [simp]: "set (sort_by lt xs) = set xs"
  using mset_eq_setD [OF mset_sort_by] .

lemma length_sort_by [simp]: "length (sort_by lt xs) = length xs"
  using mset_eq_length [OF mset_sort_by] .

interpretation total_cmp: weak_order f64_total_lt
proof
  fix x y z
  show "f64_total_lt x y \<Longrightarrow> \<not> f64_total_lt y x"
    by (cases x; cases y) auto
  show "f64_total_lt x z \<Longrightarrow> f64_total_lt x y \<or> f64_total_lt y z"
    by (cases x; cases y; cases z) auto
qed

abbreviation f64_to_i64 :: "f64 \<Rightarrow> int" where
  "f64_to_i64 \<equiv> f64_to_int i64_min i64_max"

section \<open>Host time filter\<close>

text \<open>
  The points of a filter of capacity \<open>num\<close>; \<open>now\<close> and \<open>now'\<close> are the two readings of the clock.
\<close>

definition sample_time_to_host_time ::
  "ext \<Rightarrow> nat \<Rightarrow> duration \<Rightarrow> duration \<Rightarrow> f64 \<Rightarrow> sample list \<Rightarrow> sample list \<times> duration" where
  "sample_time_to_host_time E num now now' sample_time points =
     (let host_micros = f64_of_int (micros E now);
          points = (if length points \<ge> num then drop 1 points else points) @ [(sample_time, host_micros)]
      in if length points \<ge> 2
         then case linear_regression points of (reg_slope, reg_intercept) \<Rightarrow>
                (points, of_microseconds E
                   (f64_to_i64 (f64_round (f64_add (f64_mul reg_slope sample_time) reg_intercept))))
         else (points, now'))"

definition filter_is_ready :: "sample list \<Rightarrow> bool" where
  "filter_is_ready points \<longleftrightarrow> length points \<ge> 10"

section \<open>Samples of a pong\<close>

definition pong_samples ::
  "ext \<Rightarrow> duration \<Rightarrow> duration \<Rightarrow> duration \<Rightarrow> duration \<Rightarrow> sample list option" where
  "pong_samples E host previous_host ghost previous_ghost =
     (if ghost = 0 \<or> previous_host = 0 then Some []
      else
        case num_microseconds E host of None \<Rightarrow> None | Some host \<Rightarrow>
        (case num_microseconds E previous_host of None \<Rightarrow> None | Some previous_host \<Rightarrow>
        (case num_microseconds E ghost of None \<Rightarrow> None | Some ghost \<Rightarrow>
        (case num_microseconds E previous_ghost of None \<Rightarrow> None | Some previous_ghost \<Rightarrow>
          let sum_host = host + previous_host;
              second = (if previous_ghost \<noteq> 0
                        then [(f64_of_int previous_host,
                               f64_mul (f64_of_int (ghost + previous_ghost - 2 * previous_host)) (Fin (1 / 2)))]
                        else [])
          in Some ((f64_mul (f64_of_int sum_host) (Fin (1 / 2)),
                    f64_mul (f64_of_int (2 * ghost - sum_host)) (Fin (1 / 2))) # second)))))"

text \<open>The transform fitted to the samples of a measurement.\<close>

definition measured_x_form :: "ext \<Rightarrow> sample list \<Rightarrow> ghost_xform" where
  "measured_x_form E data =
     (if data = [] then default_xform
      else
        case (if length data \<ge> 3
              then case linear_regression data of (reg_slope, reg_intercept) \<Rightarrow>
                     if is_finite reg_intercept then (f64_add (Fin 1) reg_slope, reg_intercept)
                     else (Fin 1, median_of (map snd data))
              else let offsets = sort_by f64_lt (map snd data)
                   in (Fin 1, offsets ! (length offsets div 2))) of
          (fit_slope, fit_intercept) \<Rightarrow>
            \<lparr>slope = fit_slope, intercept = of_microseconds E (f64_to_i64 (f64_round fit_intercept))\<rparr>)"

section \<open>The tasks of a measurement\<close>

abbreviation NUMBER_DATA_POINTS :: nat where "NUMBER_DATA_POINTS \<equiv> 20"
abbreviation NUMBER_MEASUREMENTS :: nat where "NUMBER_MEASUREMENTS \<equiv> 5"

text \<open>The channel of capacity one from the tasks to the waiting constructor.\<close>

datatype terminal = Empty | Queued "sample list" | Taken "sample list"

datatype timer_phase = Sleeping | Pinged | Stopped

record measurement =
  m_session :: session_id
  m_data :: "sample list"
  m_started :: nat
  m_success :: bool
  m_timer :: bool
  m_finishing :: "sample list option"
  m_terminal :: terminal
  m_notified :: bool
  m_listening :: bool
  m_phase :: timer_phase
  m_cancelled :: bool

definition publish_samples :: "sample list \<Rightarrow> measurement \<Rightarrow> measurement" where
  "publish_samples samples m =
     (case m_terminal m of Empty \<Rightarrow> m\<lparr>m_terminal := Queued samples\<rparr> | _ \<Rightarrow> m)"

text \<open>The fields of a pong that the listener reads.\<close>

record pong_fields =
  f_session :: session_id
  f_ghost :: duration
  f_prev_ghost :: duration
  f_prev_host :: duration

fun pong_field :: "payload_entry \<Rightarrow> pong_fields \<Rightarrow> pong_fields" where
  "pong_field (SessionMembership s) f = f\<lparr>f_session := s\<rparr>"
| "pong_field (GhostTime t) f = f\<lparr>f_ghost := t\<rparr>"
| "pong_field (PrevGhostTime t) f = f\<lparr>f_prev_ghost := t\<rparr>"
| "pong_field (HostTime t) f = f\<lparr>f_prev_host := t\<rparr>"
| "pong_field _ f = f"

definition send_ping :: "ext \<Rightarrow> payload \<Rightarrow> bytes option" where
  "send_ping E payload = (case encode_ping_message E PING payload of Inl _ \<Rightarrow> None | Inr msg \<Rightarrow> Some msg)"

text \<open>
  One pong in the listener: the ping it sends in answer, if any. \<open>current\<close> says that the route the
  measurement was started on is still the registered one.
\<close>

definition handle_pong ::
  "ext \<Rightarrow> duration \<Rightarrow> bool \<Rightarrow> bytes \<Rightarrow> measurement \<Rightarrow> measurement \<times> bytes option" where
  "handle_pong E now current buf m =
     (case parse_ping_header buf of
        Inl _ \<Rightarrow> (m, None)
      | Inr (kind, header_len) \<Rightarrow>
          if kind \<noteq> PONG then (m, None)
          else case parse_payload E (drop header_len buf) of
            Inl _ \<Rightarrow> (m, None)
          | Inr entries \<Rightarrow>
              let f = fold pong_field entries
                        \<lparr>f_session = replicate 8 0, f_ghost = 0, f_prev_ghost = 0, f_prev_host = 0\<rparr>
              in if m_session m \<noteq> f_session f then (m, None)
                 else
                   let ping = send_ping E [HostTime now, PrevGhostTime (f_prev_ghost f)]
                   in case pong_samples E now (f_prev_host f) (f_ghost f) (f_prev_ghost f) of
                        None \<Rightarrow> (m, ping)
                      | Some samples \<Rightarrow>
                          if \<not> current then (m\<lparr>m_listening := False\<rparr>, ping)
                          else
                            let m = m\<lparr>m_data := m_data m @ samples\<rparr>
                            in if length (m_data m) > NUMBER_DATA_POINTS
                               then (m\<lparr>m_timer := True, m_listening := False\<rparr>, ping)
                               else (m, ping))"

text \<open>The finisher takes the samples, publishes them and wakes the timer.\<close>

definition finish_take :: "measurement \<Rightarrow> measurement" where
  "finish_take m = m\<lparr>m_timer := False, m_success := True, m_finishing := Some (m_data m), m_data := []\<rparr>"

definition finish_publish :: "sample list \<Rightarrow> measurement \<Rightarrow> measurement" where
  "finish_publish samples m = (publish_samples samples m)\<lparr>m_finishing := None, m_notified := True\<rparr>"

text \<open>
  The retry timer after its 50 ms sleep: a ping, or the end with no result. \<open>sent\<close> is what
  the socket answered.
\<close>

definition timer_wake :: "ext \<Rightarrow> duration \<Rightarrow> bool \<Rightarrow> measurement \<Rightarrow> measurement \<times> bytes option" where
  "timer_wake E now sent m =
     (if m_started m < NUMBER_MEASUREMENTS
      then case send_ping E [HostTime now] of
             None \<Rightarrow> ((publish_samples [] m)\<lparr>m_phase := Stopped\<rparr>, None)
           | Some ping \<Rightarrow>
               if sent then (m\<lparr>m_phase := Pinged\<rparr>, Some ping)
               else ((publish_samples [] m)\<lparr>m_phase := Stopped\<rparr>, Some ping)
      else ((publish_samples [] (m\<lparr>m_data := []\<rparr>))\<lparr>m_phase := Stopped\<rparr>, None))"

text \<open>After one more second the round is counted.\<close>

definition timer_count :: "measurement \<Rightarrow> measurement" where
  "timer_count m = m\<lparr>m_started := min (m_started m + 1) (2 ^ 64 - 1), m_phase := Sleeping\<rparr>"

definition timer_notified :: "measurement \<Rightarrow> measurement" where
  "timer_notified m = m\<lparr>m_notified := False, m_phase := Stopped\<rparr>"

text \<open>A new measurement, after its initial ping was sent or failed.\<close>

definition new_measurement :: "session_id \<Rightarrow> bool \<Rightarrow> measurement" where
  "new_measurement sid sent =
     (let m = \<lparr>m_session = sid, m_data = [], m_started = 0, m_success = False, m_timer = False,
               m_finishing = None, m_terminal = Empty, m_notified = False, m_listening = True,
               m_phase = Sleeping, m_cancelled = False\<rparr>
      in if sent then m else (publish_samples [] m)\<lparr>m_notified := True\<rparr>)"

definition take_result :: "sample list \<Rightarrow> measurement \<Rightarrow> measurement" where
  "take_result samples m = m\<lparr>m_terminal := Taken samples\<rparr>"

definition cancel :: "measurement \<Rightarrow> measurement" where
  "cancel m = m\<lparr>m_cancelled := True, m_listening := False, m_timer := False, m_finishing := None,
                m_phase := Stopped\<rparr>"

inductive m_step :: "ext \<Rightarrow> measurement \<Rightarrow> measurement \<Rightarrow> bool" for E where
  pong: "m_listening m \<Longrightarrow> m_step E m (fst (handle_pong E now current buf m))"
| unroute: "m_listening m \<Longrightarrow> m_step E m (m\<lparr>m_listening := False\<rparr>)"
| fin_take: "m_timer m \<Longrightarrow> m_finishing m = None \<Longrightarrow> m_step E m (finish_take m)"
| fin_publish: "m_finishing m = Some samples \<Longrightarrow> m_step E m (finish_publish samples m)"
| wake: "m_phase m = Sleeping \<Longrightarrow> m_step E m (fst (timer_wake E now sent m))"
| count: "m_phase m = Pinged \<Longrightarrow> m_step E m (timer_count m)"
| notified: "m_notified m \<Longrightarrow> m_phase m \<noteq> Stopped \<Longrightarrow> m_step E m (timer_notified m)"
| deliver: "m_phase m = Stopped \<Longrightarrow> \<not> m_cancelled m \<Longrightarrow> m_terminal m = Queued samples
    \<Longrightarrow> m_step E m (take_result samples m)"
| cancelled: "\<not> m_cancelled m \<Longrightarrow> m_step E m (cancel m)"

inductive m_reachable :: "ext \<Rightarrow> measurement \<Rightarrow> bool" for E where
  start: "m_reachable E (new_measurement sid sent)"
| step: "m_reachable E m \<Longrightarrow> m_step E m m' \<Longrightarrow> m_reachable E m'"

section \<open>Invariant of the tasks\<close>

definition enough :: "sample list \<Rightarrow> bool" where
  "enough xs \<longleftrightarrow> xs = [] \<or> NUMBER_DATA_POINTS < length xs"

definition m_inv :: "measurement \<Rightarrow> bool" where
  "m_inv m \<longleftrightarrow>
     (m_timer m \<longrightarrow> enough (m_data m) \<and> \<not> m_listening m)
   \<and> (\<forall>xs. m_finishing m = Some xs \<longrightarrow> enough xs \<and> \<not> m_listening m)
   \<and> (\<forall>xs. m_terminal m = Queued xs \<or> m_terminal m = Taken xs \<longrightarrow> enough xs)
   \<and> (m_notified m \<longrightarrow> m_terminal m \<noteq> Empty)
   \<and> (m_phase m = Stopped \<and> \<not> m_cancelled m \<longrightarrow> m_terminal m \<noteq> Empty)
   \<and> m_started m \<le> NUMBER_MEASUREMENTS
   \<and> (m_phase m = Pinged \<longrightarrow> m_started m < NUMBER_MEASUREMENTS)"

text \<open>How many more times the timer can wake or count.\<close>

definition timer_left :: "measurement \<Rightarrow> nat" where
  "timer_left m =
     (case m_phase m of
        Sleeping \<Rightarrow> 2 * (NUMBER_MEASUREMENTS - m_started m) + 2
      | Pinged \<Rightarrow> 2 * (NUMBER_MEASUREMENTS - m_started m) + 1
      | Stopped \<Rightarrow> 0)"

lemma enough_Nil [simp]: "enough []"
  by (simp add: enough_def)

lemma publish_samples_fields [simp]:
  "m_data (publish_samples xs m) = m_data m" "m_timer (publish_samples xs m) = m_timer m"
  "m_finishing (publish_samples xs m) = m_finishing m" "m_notified (publish_samples xs m) = m_notified m"
  "m_listening (publish_samples xs m) = m_listening m" "m_phase (publish_samples xs m) = m_phase m"
  "m_started (publish_samples xs m) = m_started m" "m_cancelled (publish_samples xs m) = m_cancelled m"
  "m_terminal (publish_samples xs m) \<noteq> Empty"
  by (simp_all add: publish_samples_def split: terminal.split)

lemma publish_samples_terminal:
  "m_terminal (publish_samples xs m) = Queued ys \<longleftrightarrow>
     m_terminal m = Queued ys \<or> m_terminal m = Empty \<and> ys = xs"
  "m_terminal (publish_samples xs m) = Taken ys \<longleftrightarrow> m_terminal m = Taken ys"
  by (auto simp: publish_samples_def split: terminal.split)

text \<open>The listener only appends samples, and stops when there are enough.\<close>

lemma handle_pong_cases:
  obtains "fst (handle_pong E now current buf m) = m"
  | "fst (handle_pong E now current buf m) = m\<lparr>m_listening := False\<rparr>"
  | samples where "fst (handle_pong E now current buf m) = m\<lparr>m_data := m_data m @ samples\<rparr>"
  | samples where "NUMBER_DATA_POINTS < length (m_data m @ samples)"
      "fst (handle_pong E now current buf m)
         = m\<lparr>m_data := m_data m @ samples, m_timer := True, m_listening := False\<rparr>"
  unfolding handle_pong_def Let_def
  by (cases "parse_ping_header buf")
    (force split: sum.split_asm if_split_asm option.split_asm sum.split if_split option.split)+

lemma m_step_inv:
  assumes "m_step E m m'" and "m_inv m"
  shows "m_inv m'"
  using assms
proof cases
  case (pong now current buf)
  then show ?thesis using assms(2)
    by (cases rule: handle_pong_cases [of E now current buf m]) (simp_all add: m_inv_def enough_def)
next
  case (wake now sent)
  then show ?thesis using assms(2)
    by (auto simp: m_inv_def timer_wake_def publish_samples_terminal split: option.split)
qed (auto simp: m_inv_def finish_take_def finish_publish_def timer_count_def timer_notified_def
    take_result_def cancel_def publish_samples_terminal)

lemma m_reachable_inv: "m_reachable E m \<Longrightarrow> m_inv m"
proof (induction rule: m_reachable.induct)
  case (start sid sent)
  then show ?case
    by (auto simp: new_measurement_def m_inv_def Let_def publish_samples_terminal)
qed (rule m_step_inv)

lemma timer_left_step:
  assumes "m_step E m m'" and "m_inv m"
  shows "timer_left m' \<le> timer_left m" and "m_phase m' \<noteq> m_phase m \<Longrightarrow> timer_left m' < timer_left m"
proof -
  have "m_phase m' = m_phase m \<and> m_started m' = m_started m \<or> timer_left m' < timer_left m"
    using assms(1)
  proof cases
    case (pong now current buf)
    then show ?thesis by (cases rule: handle_pong_cases [of E now current buf m]) simp_all
  next
    case (wake now sent)
    then show ?thesis by (auto simp: timer_wake_def timer_left_def split: option.split)
  next
    case count
    then show ?thesis using assms(2) by (auto simp: timer_count_def timer_left_def m_inv_def)
  next
    case notified
    then show ?thesis by (auto simp: timer_notified_def timer_left_def split: timer_phase.split)
  next
    case cancelled
    then show ?thesis by (cases "m_phase m") (auto simp: cancel_def timer_left_def)
  qed (simp_all add: finish_take_def finish_publish_def take_result_def)
  then show "timer_left m' \<le> timer_left m" "m_phase m' \<noteq> m_phase m \<Longrightarrow> timer_left m' < timer_left m"
    by (auto simp: timer_left_def split: timer_phase.split)
qed

section \<open>The exchange with a responder\<close>

lemma encode_ping_image:
  assumes es: "\<forall>e\<in>set es. wire_entry E e"
    and fit: "9 + length (concat (map entry_image es)) \<le> MAX_MESSAGE_SIZE" and n: "32 * length es < 2 ^ 32"
  shows "encode_ping_message E kind es = Inr (LINK_HEADER @ kind # concat (map entry_image es))"
  using fit payload_size_image [OF es n]
  by (simp add: encode_ping_message_def encode_to_vec_def encode_array_def u8c.enc_image
      encode_payload_image [OF es])

lemma parse_ping_image: "parse_ping_header (LINK_HEADER @ kind # rest) = Inr (kind, 9)"
  by (simp add: parse_ping_header_def decode_from_slice_def decode_u8_def Let_def)

lemma parse_ping_payload:
  assumes "\<forall>e\<in>set es. wire_entry E e"
  shows "parse_payload E (concat (map entry_image es)) = Inr es"
  using payload_decode_images [OF assms, of "[]" "[]"] by (simp add: parse_payload_def)

text \<open>A responder answers a ping of at most 40 bytes of payload with its ghost time.\<close>

lemma pong_message_image:
  assumes es: "\<forall>e\<in>set es. wire_entry E e" and len: "length (concat (map entry_image es)) \<le> 40"
    and r: "responder_state r = Some (sid, form)" "length sid = 8"
    and g: "wire_time E ghost" "ghost = of_microseconds E (micros E (host_to_ghost E form t))"
  defines "reply \<equiv> filter is_ping_entry es @ [SessionMembership sid, GhostTime ghost]"
  shows "pong_message E r t (LINK_HEADER @ PING # concat (map entry_image es))
           = (r\<lparr>ping_received := True\<rparr>, Some (LINK_HEADER @ PONG # concat (map entry_image reply)))"
    and "\<forall>e\<in>set reply. wire_entry E e"
proof -
  show w: "\<forall>e\<in>set reply. wire_entry E e" using es r g by (auto simp: reply_def)
  have "length (concat (map entry_image (filter is_ping_entry es))) \<le> length (concat (map entry_image es))"
    by (induction es) auto
  moreover have "length (entry_image (SessionMembership sid)) = 16" "length (entry_image (GhostTime ghost)) = 16"
    using r g entry_len_image [of E "SessionMembership sid"] entry_len_image [of E "GhostTime ghost"] by simp_all
  ultimately have 72: "length (concat (map entry_image reply)) \<le> 72" using len by (simp add: reply_def)
  moreover have "14 * length reply \<le> length (concat (map entry_image reply))" by (rule entries_few [OF w])
  ultimately have enc: "encode_ping_message E PONG reply = Inr (LINK_HEADER @ PONG # concat (map entry_image reply))"
    by (intro encode_ping_image w) simp_all
  have "(LINK_HEADER @ PING # concat (map entry_image es)) ! 8 = PING"
    by (simp add: nth_append)
  then show "pong_message E r t (LINK_HEADER @ PING # concat (map entry_image es))
           = (r\<lparr>ping_received := True\<rparr>, Some (LINK_HEADER @ PONG # concat (map entry_image reply)))"
    using len r enc
    by (simp add: pong_message_def parse_ping_image parse_ping_payload [OF es] reply_def g)
qed

text \<open>The listener on a pong of its session.\<close>

lemma handle_pong_image:
  assumes "\<forall>e\<in>set es. wire_entry E e"
    and "fold pong_field es \<lparr>f_session = replicate 8 0, f_ghost = 0, f_prev_ghost = 0, f_prev_host = 0\<rparr>
           = \<lparr>f_session = m_session m, f_ghost = gt, f_prev_ghost = pgt, f_prev_host = ht\<rparr>"
    and "pong_samples E now ht gt pgt = Some xs"
  shows "m_data (fst (handle_pong E now True (LINK_HEADER @ PONG # concat (map entry_image es)) m)) = m_data m @ xs"
    and "snd (handle_pong E now True (LINK_HEADER @ PONG # concat (map entry_image es)) m)
           = send_ping E [HostTime now, PrevGhostTime pgt]"
  using assms(2,3)
  by (simp_all add: handle_pong_def parse_ping_image parse_ping_payload [OF assms(1)] Let_def)

lemma f64_half_exact:
  assumes "\<bar>n\<bar> < 2 ^ 53"
  shows "f64_mul (f64_of_int n) (Fin (1 / 2)) = Fin (of_int n / 2)"
proof (cases "n = 0")
  case False
  have p: "round_pos (of_int \<bar>n\<bar> / 2) = of_int \<bar>n\<bar> / 2"
    using round_pos_exact [of "\<bar>n\<bar>" "- 1"] False assms by (simp add: power_int_minus)
  have "of_int \<bar>n\<bar> < (of_int (2 ^ 53) :: rat)" using assms by (simp only: of_int_less_iff)
  then have "of_int \<bar>n\<bar> / 2 < (2 ^ 1024 :: rat)" by simp
  then have lt: "\<not> 2 ^ 1024 \<le> of_int \<bar>n\<bar> / (2 :: rat)" by linarith
  have "\<bar>of_int n * (1 / 2) :: rat\<bar> = of_int \<bar>n\<bar> / 2" by (simp add: abs_mult)
  then have "round_f64 neg (of_int n * (1 / 2)) = Fin (of_int n / 2)" for neg
    unfolding round_f64_def Let_def using False p lt by (simp add: abs_if split: if_splits)
  then show ?thesis using assms False by (simp add: f64_of_int_exact f64_mul_def)
qed (simp add: f64_of_int_exact f64_mul_def round_f64_def mk_zero_def)

lemma wire_time_num: "wire_time E t \<Longrightarrow> num_microseconds E t = Some (t sdiv 1000)"
  using wire_time_micros [of E t] by (simp add: wire_time_def chrono_laws checked_i64_def)

lemma wire_time_of_micros:
  assumes "chrono_ok E" and "in_i64 m"
  shows "wire_time E (of_microseconds E m)" and "of_microseconds E m sdiv 1000 = m"
    and "of_microseconds E m = 0 \<longleftrightarrow> m = 0"
  using assms by (auto simp: wire_time_def chrono_laws signed_divide_int_def sgn_mult abs_mult mult_sgn_abs)

text \<open>A pong without a previous ghost time gives one sample, exact for times below \<open>2 ^ 50\<close> microseconds.\<close>

lemma pong_samples_single:
  assumes E: "chrono_ok E" and a: "\<bar>a\<bar> < 2 ^ 50" and b: "\<bar>b\<bar> < 2 ^ 50" and g: "\<bar>g\<bar> < 2 ^ 50"
  shows "pong_samples E (of_microseconds E a) (of_microseconds E b) (of_microseconds E g) 0
           = Some (if g = 0 \<or> b = 0 then []
                   else [(Fin (of_int (a + b) / 2), Fin (of_int g - of_int (a + b) / 2))])"
proof -
  have i: "in_i64 a" "in_i64 b" "in_i64 g" using a b g by (auto simp: in_i64_def)
  have z: "num_microseconds E 0 = Some 0" using E by (simp add: chrono_laws checked_i64_def in_i64_def)
  have "f64_mul (f64_of_int (a + b)) (Fin (1 / 2)) = Fin (of_int (a + b) / 2)"
    using a b by (intro f64_half_exact) (simp add: abs_less_iff)
  moreover have "f64_mul (f64_of_int (2 * g - (a + b))) (Fin (1 / 2)) = Fin (of_int g - of_int (a + b) / 2)"
    using a b g f64_half_exact [of "2 * g - (a + b)"] by (simp add: diff_divide_distrib)
  ultimately show ?thesis
    using wire_time_num [OF wire_time_of_micros(1) [OF E i(1)]] wire_time_num [OF wire_time_of_micros(1) [OF E i(2)]]
      wire_time_num [OF wire_time_of_micros(1) [OF E i(3)]] wire_time_of_micros [OF E i(1)]
      wire_time_of_micros [OF E i(2)] wire_time_of_micros [OF E i(3)] z
    by (simp add: pong_samples_def Let_def)
qed

section \<open>Properties\<close>

text \<open>C18: A measurement never publishes a partial result and never leaves its caller waiting. In every
  reachable state of the listener, the finisher and the retry timer, a result that was published
  is empty or has more than \<open>NUMBER_DATA_POINTS\<close> samples, at most
  \<open>NUMBER_MEASUREMENTS\<close> rounds were counted, and once the timer of a measurement that was not
  cancelled has stopped there is a result to take.\<close>

theorem measurement_publishes_whole_results:
  assumes "m_reachable E m"
  shows "(case m_terminal m of
            Empty \<Rightarrow> m_phase m = Stopped \<longrightarrow> m_cancelled m
          | Queued xs \<Rightarrow> xs = [] \<or> NUMBER_DATA_POINTS < length xs
          | Taken xs \<Rightarrow> xs = [] \<or> NUMBER_DATA_POINTS < length xs)
       \<and> m_started m \<le> NUMBER_MEASUREMENTS"
  using m_reachable_inv [OF assms] by (auto simp: m_inv_def enough_def split: terminal.split)

theorem measurement_publishes_whole_results_witness:
  "m_started (fst (timer_wake std_ext 0 False (new_measurement (replicate 8 1) True))) \<le> NUMBER_MEASUREMENTS"
proof -
  let ?m = "new_measurement (replicate 8 1) True"
  have "m_phase ?m = Sleeping" by (simp add: new_measurement_def)
  then have "m_reachable std_ext (fst (timer_wake std_ext 0 False ?m))"
    by (intro m_reachable.step [OF m_reachable.start m_step.wake])
  then show ?thesis by (rule measurement_publishes_whole_results [THEN conjunct2])
qed

text \<open>The retry timer ends. While it runs, waking or counting is possible and brings it
  strictly closer to its end (at most twelve steps from the start), whatever the other tasks do: no step of
  any task gives it more rounds.\<close>

theorem retry_timer_ends:
  assumes "m_reachable E m"
  shows "(m_phase m \<noteq> Stopped \<longrightarrow> (\<exists>m'. m_step E m m' \<and> timer_left m' < timer_left m))
       \<and> (\<forall>m'. m_step E m m' \<longrightarrow> timer_left m' \<le> timer_left m)
       \<and> timer_left m \<le> 12"
proof -
  note inv = m_reachable_inv [OF assms]
  have "\<exists>m'. m_step E m m' \<and> timer_left m' < timer_left m" if "m_phase m \<noteq> Stopped"
  proof (cases "m_phase m")
    case Sleeping
    then have "m_phase (fst (timer_wake E 0 False m)) \<noteq> m_phase m"
      by (auto simp: timer_wake_def split: option.split)
    then show ?thesis using m_step.wake [OF Sleeping] timer_left_step(2) [OF _ inv] by blast
  next
    case Pinged
    then have "m_phase (timer_count m) \<noteq> m_phase m" by (simp add: timer_count_def)
    then show ?thesis using m_step.count [OF Pinged] timer_left_step(2) [OF _ inv] by blast
  qed (use that in simp)
  moreover have "timer_left m \<le> 12" by (cases "m_phase m") (simp_all add: timer_left_def)
  ultimately show ?thesis using timer_left_step(1) [OF _ inv] by blast
qed

theorem retry_timer_ends_witness:
  "\<exists>m'. m_step std_ext (new_measurement (replicate 8 1) True) m'
     \<and> timer_left m' < timer_left (new_measurement (replicate 8 1) True)"
proof -
  let ?m = "new_measurement (replicate 8 1) True"
  have "m_phase ?m \<noteq> Stopped" by (simp add: new_measurement_def)
  with retry_timer_ends [of std_ext ?m, OF m_reachable.start] show ?thesis by blast
qed

text \<open>C36: One exchange with a responder of this crate, through the wire format of both sides: a ping with
  the host time \<open>b\<close> is answered at once, the listener at host time \<open>a\<close> records exactly one
  sample, the middle of the two host times and the offset of the ghost time from it, and its
  next ping again carries a previous ghost time of zero, not the ghost time just received. So a
  peer of this crate is measured with one sample per pong, and the second sample of
  \<open>pong_samples\<close> never arises.\<close>

theorem ping_pong_exchange:
  assumes E: "ext_ok E" and form: "is_finite (slope form)" "f64_repr (slope form)" "valid_dur E (intercept form)"
    and t: "valid_dur E t" and r: "responder_state r = Some (sid, form)" "length sid = 8" "m_session m = sid"
    and prev: "prev = [] \<or> prev = [PrevGhostTime 0]"
    and g: "g = micros E (host_to_ghost E form t)"
    and bounds: "\<bar>a\<bar> < 2 ^ 50" "\<bar>b\<bar> < 2 ^ 50" "\<bar>g\<bar> < 2 ^ 50"
  shows "\<exists>ping pong. encode_ping_message E PING (HostTime (of_microseconds E b) # prev) = Inr ping
           \<and> pong_message E r t ping = (r\<lparr>ping_received := True\<rparr>, Some pong)
           \<and> m_data (fst (handle_pong E (of_microseconds E a) True pong m))
               = m_data m @ (if g = 0 \<or> b = 0 then []
                             else [(Fin (of_int (a + b) / 2), Fin (of_int g - of_int (a + b) / 2))])
           \<and> snd (handle_pong E (of_microseconds E a) True pong m)
               = send_ping E [HostTime (of_microseconds E a), PrevGhostTime 0]"
proof -
  let ?es = "HostTime (of_microseconds E b) # prev"
  have C: "chrono_ok E" using E by (simp add: ext_ok_def)
  have i: "in_i64 b" "in_i64 g" using bounds by (auto simp: in_i64_def)
  have z: "wire_time E 0" using wire_time_of_micros(1) [OF C, of 0] C by (simp add: in_i64_def chrono_laws)
  have w: "\<forall>e\<in>set ?es. wire_entry E e" using prev z wire_time_of_micros(1) [OF C i(1)] by auto
  have len: "length (concat (map entry_image ?es)) \<le> 40"
    using prev w entry_len_image [of E "HostTime (of_microseconds E b)"] entry_len_image [of E "PrevGhostTime 0"]
    by auto
  have few: "32 * length ?es < 2 ^ 32" using prev by auto
  have ping: "encode_ping_message E PING ?es = Inr (LINK_HEADER @ PING # concat (map entry_image ?es))"
    using len by (intro encode_ping_image [OF w] few) simp
  note pong = pong_message_image [OF w len r(1,2) wire_time_of_micros(1) [OF C i(2)], of t, unfolded g, OF refl]
  let ?reply = "?es @ [SessionMembership sid, GhostTime (of_microseconds E g)]"
  have f: "filter is_ping_entry ?es = ?es" using prev by auto
  have "pong_message E r t (LINK_HEADER @ PING # concat (map entry_image ?es))
          = (r\<lparr>ping_received := True\<rparr>, Some (LINK_HEADER @ PONG # concat (map entry_image ?reply)))"
    and wr: "\<forall>e\<in>set ?reply. wire_entry E e"
    using pong unfolding f g [symmetric] by blast+
  moreover have "fold pong_field ?reply \<lparr>f_session = replicate 8 0, f_ghost = 0, f_prev_ghost = 0, f_prev_host = 0\<rparr>
      = \<lparr>f_session = m_session m, f_ghost = of_microseconds E g, f_prev_ghost = 0,
         f_prev_host = of_microseconds E b\<rparr>"
    using prev r(3) by auto
  note handle_pong_image [OF wr this pong_samples_single [OF C bounds]]
  ultimately show ?thesis using ping by blast
qed

theorem ping_pong_exchange_witness:
  "\<exists>ping pong. encode_ping_message std_ext PING [HostTime (of_microseconds std_ext 1000)] = Inr ping
     \<and> pong_message std_ext \<lparr>responder_state = Some (replicate 8 1, \<lparr>slope = Fin 1, intercept = 5000000\<rparr>),
                              ping_received = False\<rparr> 2000000 ping
         = (\<lparr>responder_state = Some (replicate 8 1, \<lparr>slope = Fin 1, intercept = 5000000\<rparr>),
              ping_received = True\<rparr>, Some pong)
     \<and> m_data (fst (handle_pong std_ext (of_microseconds std_ext 3000) True pong
                       (new_measurement (replicate 8 1) True)))
         = [(Fin 2000, Fin 5000)]
     \<and> snd (handle_pong std_ext (of_microseconds std_ext 3000) True pong (new_measurement (replicate 8 1) True))
         = send_ping std_ext [HostTime (of_microseconds std_ext 3000), PrevGhostTime 0]"
proof -
  let ?form = "\<lparr>slope = Fin 1, intercept = 5000000\<rparr>"
  have v: "valid_dur std_ext 2000000" "valid_dur std_ext 5000000" "valid_dur std_ext 7000000"
    by (simp_all add: valid_dur_def std_ext_def)
  have "host_to_ghost std_ext ?form 2000000 = 7000000"
    using host_to_ghost_exact [of std_ext ?form 2000000] v round_away_of_int [of 2000]
    by (simp add: is_finite_def clamp_def)
  then have g: "micros std_ext (host_to_ghost std_ext ?form 2000000) = 7000"
    using micros_sat64 [of std_ext 7000000] v by (simp add: sat64_def clamp_def)
  show ?thesis
    using ping_pong_exchange [of std_ext ?form 2000000
        "\<lparr>responder_state = Some (replicate 8 1, ?form), ping_received = False\<rparr>" "replicate 8 1"
        "new_measurement (replicate 8 1) True" "[]" 7000 3000 1000] g v
    by (simp add: is_finite_def new_measurement_def)
qed

end
