(* ===== verification/Sessions.thy ===== *)
theory Sessions
  imports Measurement
begin

text \<open>
  The sessions a node knows: \<open>src/link/sessions.rs\<close>. A node is in one current session and keeps
  the other sessions it has seen as candidates; a sighting adds or updates a session,
  a finished measurement may make a candidate the current one, a failed one removes it.

  An incarnation (\<open>Arc<()>\<close>, compared by address) is a number drawn from a counter, as is an
  edit revision. What the code does under its locks is one state transformer; a function
  that waits between two locked regions is two of them, so that other operations can come between.
\<close>

section \<open>Data\<close>

record session_measurement =
  x_form :: ghost_xform
  measured_at :: duration

definition default_measurement :: session_measurement where
  "default_measurement = \<lparr>x_form = default_xform, measured_at = 0\<rparr>"

record session_key =
  key_session :: session_id
  key_incarnation :: nat

record session =
  incarnation :: nat
  edit_revision :: "nat option"
  se_id :: session_id
  se_timeline :: timeline
  se_measurement :: session_measurement

record session_edit_origin =
  origin_session :: session_id
  revision :: nat
  origin_timeline :: timeline
  mapping :: ghost_xform

record controller_peer =
  peer :: peer_state

text \<open>What a measurement is asked for and answers.\<close>

datatype measure_peer_event =
    PeerStateEvent session_key peer_state
  | XFormEvent session_key ghost_xform
  | Cancelled session_key node_id

record sessions =
  other_sessions :: "session list"
  current :: session
  peers :: "controller_peer list"
  has_joined :: bool
  next_incarnation :: nat
  next_revision :: nat

text \<open>\<open>PartialEq\<close> of a transform, and of the order of identifiers.\<close>

definition xform_eq :: "ghost_xform \<Rightarrow> ghost_xform \<Rightarrow> bool" where
  "xform_eq x y \<longleftrightarrow> f64_eq (slope x) (slope y) \<and> intercept x = intercept y"

fun node_lt :: "bytes \<Rightarrow> bytes \<Rightarrow> bool" where
  "node_lt _ [] = False"
| "node_lt [] _ = True"
| "node_lt (x # xs) (y # ys) = (x < y \<or> x = y \<and> node_lt xs ys)"

section \<open>Identity and revisions\<close>

definition key_matches :: "session_key \<Rightarrow> session \<Rightarrow> bool" where
  "key_matches k s \<longleftrightarrow> key_session k = se_id s \<and> key_incarnation k = incarnation s"

definition session_matches :: "session \<Rightarrow> session \<Rightarrow> bool" where
  "session_matches s t \<longleftrightarrow> se_id s = se_id t \<and> incarnation s = incarnation t"

definition session_key_of :: "session \<Rightarrow> session_key" where
  "session_key_of s = \<lparr>key_session = se_id s, key_incarnation = incarnation s\<rparr>"

text \<open>The counter of revisions stops at \<open>u64::MAX\<close>; a revision is not zero.\<close>

definition allocate_edit_revision :: "nat \<Rightarrow> nat option \<times> nat" where
  "allocate_edit_revision c =
     (if c = 2 ^ 64 - 1 then (None, c) else (if c = 0 then None else Some c, c + 1))"

definition invalidate_edit_origin :: "nat \<Rightarrow> session \<Rightarrow> session \<times> nat" where
  "invalidate_edit_origin c s =
     (case allocate_edit_revision c of (r, c) \<Rightarrow> (s\<lparr>edit_revision := r\<rparr>, c))"

definition set_timeline :: "nat \<Rightarrow> timeline \<Rightarrow> session \<Rightarrow> session \<times> nat" where
  "set_timeline c tline s =
     (if \<not> timeline_eq (se_timeline s) tline
      then case invalidate_edit_origin c s of (s, c) \<Rightarrow> (s\<lparr>se_timeline := tline\<rparr>, c)
      else (s, c))"

definition edit_origin :: "session \<Rightarrow> session_edit_origin option" where
  "edit_origin s =
     map_option (\<lambda>r. \<lparr>origin_session = se_id s, revision = r, origin_timeline = se_timeline s,
                       mapping = x_form (se_measurement s)\<rparr>) (edit_revision s)"

definition origin_matches :: "session_edit_origin \<Rightarrow> session \<Rightarrow> bool" where
  "origin_matches e s \<longleftrightarrow>
     origin_session e = se_id s \<and> Some (revision e) = edit_revision s
   \<and> timeline_eq (origin_timeline e) (se_timeline s) \<and> xform_eq (mapping e) (x_form (se_measurement s))"

text \<open>A new session with fresh identities.\<close>

definition new_session ::
  "session_id \<Rightarrow> timeline \<Rightarrow> session_measurement \<Rightarrow> sessions \<Rightarrow> session \<times> sessions" where
  "new_session sid tline m S =
     (case allocate_edit_revision (next_revision S) of (r, c) \<Rightarrow>
        (\<lparr>incarnation = next_incarnation S, edit_revision = r, se_id = sid, se_timeline = tline,
          se_measurement = m\<rparr>,
         S\<lparr>next_incarnation := next_incarnation S + 1, next_revision := c\<rparr>))"

section \<open>Operations\<close>

definition with_session :: "session \<Rightarrow> nat \<Rightarrow> nat \<Rightarrow> sessions" where
  "with_session init i r =
     \<lparr>other_sessions = [init], current = init, peers = [], has_joined = False,
      next_incarnation = i, next_revision = r\<rparr>"

definition reset_session :: "session \<Rightarrow> sessions \<Rightarrow> sessions" where
  "reset_session s S =
     (let s = s\<lparr>incarnation := next_incarnation S\<rparr>
      in case set_timeline (next_revision S) (clamp_tempo (se_timeline s)) s of (s, c) \<Rightarrow>
         case invalidate_edit_origin c s of (s, c) \<Rightarrow>
           S\<lparr>current := s, other_sessions := [], next_incarnation := next_incarnation S + 1,
              next_revision := c\<rparr>)"

text \<open>\<open>set_timeline\<close> on every matching session of a list.\<close>

fun set_timelines :: "session_key \<Rightarrow> timeline \<Rightarrow> nat \<Rightarrow> session list \<Rightarrow> session list \<times> nat" where
  "set_timelines k tline c [] = ([], c)"
| "set_timelines k tline c (s # ss) =
     (case (if key_matches k s then set_timeline c tline s else (s, c)) of (s, c) \<Rightarrow>
      case set_timelines k tline c ss of (ss, c) \<Rightarrow> (s # ss, c))"

definition reset_timeline :: "session_key \<Rightarrow> ghost_xform \<Rightarrow> timeline \<Rightarrow> sessions \<Rightarrow> sessions \<times> bool" where
  "reset_timeline origin form tline S =
     (let tline = clamp_tempo tline
      in if \<not> key_matches origin (current S) \<or> \<not> xform_eq (x_form (se_measurement (current S))) form
         then (S, False)
         else case set_timeline (next_revision S) tline (current S) of (cur, c) \<Rightarrow>
              case set_timelines origin tline c (other_sessions S) of (ss, c) \<Rightarrow>
                (S\<lparr>current := cur, other_sessions := ss, next_revision := c\<rparr>, True))"

definition update_timeline :: "nat \<Rightarrow> session \<Rightarrow> timeline \<Rightarrow> session \<times> nat" where
  "update_timeline c s tline =
     (let tline = clamp_tempo tline
      in if mb (beat_origin tline) > mb (beat_origin (se_timeline s)) then set_timeline c tline s else (s, c))"

text \<open>The peer to measure: with an endpoint if any has one, the founder first, and after a given peer the next.\<close>

definition peer_before :: "session_id \<Rightarrow> controller_peer \<Rightarrow> controller_peer \<Rightarrow> bool" where
  "peer_before sid p q \<longleftrightarrow>
     (let i = node_id (node_state (peer p)); j = node_id (node_state (peer q))
      in i = sid \<and> j \<noteq> sid \<or> (i = sid \<longleftrightarrow> j = sid) \<and> node_lt i j)"

fun position :: "('a \<Rightarrow> bool) \<Rightarrow> 'a list \<Rightarrow> nat option" where
  "position P [] = None"
| "position P (x # xs) = (if P x then Some 0 else map_option Suc (position P xs))"

definition eligible_peers :: "controller_peer list \<Rightarrow> session_id \<Rightarrow> controller_peer list" where
  "eligible_peers ps sid =
     (let eligible = filter (\<lambda>p. session_id (node_state (peer p)) = sid) ps;
          eligible = (if \<exists>p\<in>set eligible. measurement_endpoint (peer p) \<noteq> None
                      then filter (\<lambda>p. measurement_endpoint (peer p) \<noteq> None) eligible else eligible)
      in sort_by (peer_before sid) eligible)"

definition measurement_peer ::
  "controller_peer list \<Rightarrow> session_id \<Rightarrow> node_id option \<Rightarrow> controller_peer option" where
  "measurement_peer ps sid after =
     (let eligible = eligible_peers ps sid;
          index = (case after of
                     None \<Rightarrow> 0
                   | Some previous \<Rightarrow>
                       (case position (\<lambda>p. node_id (node_state (peer p)) = previous) eligible of
                          None \<Rightarrow> 0
                        | Some i \<Rightarrow> (i + 1) mod length eligible))
      in if index < length eligible then Some (eligible ! index) else None)"

datatype sighting = NeedsCapacity | Complete timeline

text \<open>
  One try of a sighting; \<open>slot\<close> says whether a slot for a measurement request is reserved. The request sent
  is the last result.
\<close>

definition try_sighting ::
  "session_id \<Rightarrow> timeline \<Rightarrow> bool \<Rightarrow> sessions \<Rightarrow> sessions \<times> sighting \<times> measure_peer_event option" where
  "try_sighting sid tline slot S =
     (let tline = clamp_tempo tline
      in if se_id (current S) = sid
         then case update_timeline (next_revision S) (current S) tline of (cur, c) \<Rightarrow>
                (S\<lparr>current := cur, has_joined := True, next_revision := c\<rparr>, Complete (se_timeline cur), None)
         else case position (\<lambda>s. se_id s = sid) (other_sessions S) of
           Some i \<Rightarrow>
             (case update_timeline (next_revision S) (other_sessions S ! i) tline of (s, c) \<Rightarrow>
                (S\<lparr>other_sessions := (other_sessions S)[i := s], next_revision := c\<rparr>,
                 Complete (se_timeline (current S)), None))
         | None \<Rightarrow>
             if \<not> slot then (S, NeedsCapacity, None)
             else case measurement_peer (peers S) sid None of
               None \<Rightarrow> (S, Complete (se_timeline (current S)), None)
             | Some p \<Rightarrow>
                 (case new_session sid tline default_measurement S of (s, S) \<Rightarrow>
                    (S\<lparr>other_sessions := other_sessions S @ [s]\<rparr>, Complete (se_timeline (current S)),
                     Some (PeerStateEvent (session_key_of s) (peer p)))))"

datatype admission = Sent measure_peer_event | Absent | Retired

text \<open>A retried measurement request, once a slot is reserved for it.\<close>

definition admit_owned_request :: "session_key \<Rightarrow> node_id option \<Rightarrow> sessions \<Rightarrow> sessions \<times> admission" where
  "admit_owned_request k after S =
     (let is_current = key_matches k (current S)
      in if \<not> is_current \<and> (\<forall>s\<in>set (other_sessions S). \<not> key_matches k s) then (S, Retired)
         else case measurement_peer (peers S) (key_session k) after of
           Some p \<Rightarrow> (S, Sent (PeerStateEvent k (peer p)))
         | None \<Rightarrow>
             if is_current then (S, Absent)
             else (S\<lparr>other_sessions := filter (\<lambda>s. \<not> key_matches k s) (other_sessions S)\<rparr>, Retired))"

text \<open>The join rule: half a second more ghost time, or nearly the same and the smaller identifier.\<close>

definition measurement_wins ::
  "ext \<Rightarrow> session \<Rightarrow> session_id \<Rightarrow> session_measurement \<Rightarrow> duration \<Rightarrow> bool" where
  "measurement_wins E cur candidate m host_time =
     (let SESSION_EPS_NANOS = 500000000;
          diff = duration_nanos E (host_to_ghost E (x_form m) host_time)
                 - duration_nanos E (host_to_ghost E (x_form (se_measurement cur)) host_time)
      in diff > SESSION_EPS_NANOS \<or> \<bar>diff\<bar> < SESSION_EPS_NANOS \<and> node_lt candidate (se_id cur))"

text \<open>
  The end of a successful measurement: first the decision whether a join notification is needed (\<open>None\<close>: it
  is over; \<open>Some was_current\<close>: a slot is reserved), then the commit.
\<close>

definition measurement_decide ::
  "ext \<Rightarrow> session_key \<Rightarrow> session_measurement \<Rightarrow> duration \<Rightarrow> sessions \<Rightarrow> sessions \<times> bool option" where
  "measurement_decide E k m now S =
     (if key_matches k (current S) then (S, Some True)
      else case position (key_matches k) (other_sessions S) of
        None \<Rightarrow> (S, None)
      | Some i \<Rightarrow>
          let candidate = other_sessions S ! i
          in if measured_at (se_measurement candidate) > measured_at m then (S, None)
             else if \<not> measurement_wins E (current S) (key_session k) m now
               then (S\<lparr>other_sessions := (other_sessions S)[i := candidate\<lparr>se_measurement := m\<rparr>]\<rparr>, None)
             else (S, Some False))"

definition measurement_commit ::
  "ext \<Rightarrow> session_key \<Rightarrow> session_measurement \<Rightarrow> duration \<Rightarrow> bool \<Rightarrow> sessions \<Rightarrow> sessions \<times> session option" where
  "measurement_commit E k m now was_current S =
     (if was_current \<and> \<not> key_matches k (current S) then (S, None)
      else if key_matches k (current S)
        then if measured_at (se_measurement (current S)) > measured_at m then (S, None)
             else
               case (if \<not> xform_eq (x_form (se_measurement (current S))) (x_form m)
                     then invalidate_edit_origin (next_revision S) (current S)
                     else (current S, next_revision S)) of (cur, c) \<Rightarrow>
                 let cur = cur\<lparr>se_measurement := m\<rparr>
                 in (S\<lparr>current := cur, next_revision := c\<rparr>, Some cur)
      else case position (key_matches k) (other_sessions S) of
        None \<Rightarrow> (S, None)
      | Some i \<Rightarrow>
          let candidate = other_sessions S ! i
          in if measured_at (se_measurement candidate) > measured_at m then (S, None)
             else
               let candidate = candidate\<lparr>se_measurement := m\<rparr>
               in if measurement_wins E (current S) (key_session k) m now
                  then case invalidate_edit_origin (next_revision S) candidate of (winner, c) \<Rightarrow>
                         (S\<lparr>other_sessions := (other_sessions S)[i := current S], current := winner,
                            next_revision := c\<rparr>, Some winner)
                  else (S\<lparr>other_sessions := (other_sessions S)[i := candidate]\<rparr>, None))"

definition handle_failed_measurement :: "session_key \<Rightarrow> sessions \<Rightarrow> sessions \<times> session option" where
  "handle_failed_measurement k S =
     (if key_matches k (current S) then (S, Some (current S))
      else if \<exists>s\<in>set (other_sessions S). key_matches k s
        then
          let others = filter (\<lambda>s. \<not> key_matches k s) (other_sessions S);
              S' = S\<lparr>other_sessions := others\<rparr>
          in (if se_id (current S) \<noteq> key_session k \<and> (\<forall>s\<in>set others. se_id s \<noteq> key_session k)
              then S'\<lparr>peers := filter (\<lambda>p. session_id (node_state (peer p)) \<noteq> key_session k) (peers S)\<rparr>
              else S', None)
      else (S, None))"

definition session_peers :: "controller_peer list \<Rightarrow> session_id \<Rightarrow> controller_peer list" where
  "session_peers ps sid =
     sort_by (\<lambda>p q. node_lt (node_id (node_state (peer p))) (node_id (node_state (peer q))))
       (filter (\<lambda>p. session_id (node_state (peer p)) = sid) ps)"

section \<open>Orders and selections\<close>

interpretation node_order: weak_order node_lt
proof
  fix x y z :: bytes
  show "node_lt x y \<Longrightarrow> \<not> node_lt y x"
    by (induction x y rule: node_lt.induct) auto
  show "node_lt x z \<Longrightarrow> node_lt x y \<or> node_lt y z"
  proof (induction x z arbitrary: y rule: node_lt.induct)
    case (3 a as b bs)
    then show ?case by (cases y) auto
  qed (auto elim: node_lt.elims)
qed

lemma node_lt_total: "length x = length y \<Longrightarrow> x \<noteq> y \<Longrightarrow> node_lt x y \<or> node_lt y x"
  by (induction x y rule: list_induct2) auto

interpretation peer_order: weak_order "peer_before sid" for sid
proof
  fix x y z
  show "peer_before sid x y \<Longrightarrow> \<not> peer_before sid y x"
    by (auto simp: peer_before_def Let_def dest: node_order.asym)
  show "peer_before sid x z \<Longrightarrow> peer_before sid x y \<or> peer_before sid y z"
    using node_order.neg_trans [of "node_id (node_state (peer x))" "node_id (node_state (peer z))"
        "node_id (node_state (peer y))"]
    by (auto simp: peer_before_def Let_def)
qed

lemma position_None: "position P xs = None \<longleftrightarrow> (\<forall>x\<in>set xs. \<not> P x)"
  by (induction xs) auto

lemma position_Some:
  "position P xs = Some i \<longleftrightarrow> i < length xs \<and> P (xs ! i) \<and> (\<forall>j<i. \<not> P (xs ! j))"
proof (induction xs arbitrary: i)
  case (Cons x xs)
  then show ?case by (cases i) (auto simp: less_Suc_eq_0_disj)
qed simp

lemma position_SomeD: "position P xs = Some i \<Longrightarrow> i < length xs" "position P xs = Some i \<Longrightarrow> P (xs ! i)"
  by (simp_all add: position_Some)

lemma set_eligible_peers:
  "set (eligible_peers ps sid) =
     (let ours = {p \<in> set ps. session_id (node_state (peer p)) = sid};
          reach = {p \<in> ours. measurement_endpoint (peer p) \<noteq> None}
      in if reach = {} then ours else reach)"
  by (auto simp: eligible_peers_def Let_def)

section \<open>Invariants of the operations\<close>

definition tempo_ok :: "timeline \<Rightarrow> bool" where
  "tempo_ok tline \<longleftrightarrow> (\<exists>r. tempo tline = Tempo (Fin r) \<and> 20 \<le> r \<and> r \<le> 999)"

text \<open>
  Every known session has a tempo within the limits, an incarnation already handed out, and an edit revision
  already handed out.
\<close>

definition session_ok :: "nat \<Rightarrow> nat \<Rightarrow> session \<Rightarrow> bool" where
  "session_ok i c s \<longleftrightarrow>
     tempo_ok (se_timeline s) \<and> incarnation s < i \<and> (\<forall>r. edit_revision s = Some r \<longrightarrow> r < c)"

definition sess_inv :: "sessions \<Rightarrow> bool" where
  "sess_inv S \<longleftrightarrow>
     (\<forall>s\<in>set (current S # other_sessions S). session_ok (next_incarnation S) (next_revision S) s)"

text \<open>
  What an operation may do to the current session: keep its identity, revision, timeline and
  mapping, or give it a revision that was never used.
\<close>

definition edit_step :: "sessions \<Rightarrow> sessions \<Rightarrow> bool" where
  "edit_step S S' \<longleftrightarrow>
     next_incarnation S \<le> next_incarnation S' \<and> next_revision S \<le> next_revision S'
   \<and> (se_id (current S') = se_id (current S) \<and> edit_revision (current S') = edit_revision (current S)
        \<and> se_timeline (current S') = se_timeline (current S)
        \<and> (x_form (se_measurement (current S')) = x_form (se_measurement (current S))
           \<or> xform_eq (x_form (se_measurement (current S))) (x_form (se_measurement (current S'))))
      \<or> (\<forall>r. edit_revision (current S') = Some r \<longrightarrow> next_revision S \<le> r))"

lemma tempo_ok_clamp [simp]: "tempo_ok (clamp_tempo tline)"
  using clamp_tempo_range [of tline] by (simp add: tempo_ok_def)

lemma timeline_eq_clamped:
  assumes "timeline_eq a b" and "tempo_ok b"
  shows "a = b"
proof -
  from assms(2) obtain r where r: "tempo b = Tempo (Fin r)" "20 \<le> r" unfolding tempo_ok_def by blast
  have "tempo_value (tempo a) = Fin r"
    using assms(1) r by (cases "tempo_value (tempo a)") (auto simp: timeline_eq_def tempo_eq_def is_zero_def)
  then have "tempo a = tempo b" using r(1) by (cases "tempo a") simp
  with assms(1) show ?thesis by (simp add: timeline_eq_def)
qed

lemma allocate_edit_revision_fresh:
  "allocate_edit_revision c = (r, c') \<Longrightarrow> c \<le> c' \<and> (\<forall>x. r = Some x \<longrightarrow> x = c \<and> x < c')"
  by (auto simp: allocate_edit_revision_def split: if_splits)

lemma invalidate_edit_origin_props:
  assumes "invalidate_edit_origin c s = (s', c')"
  shows "c \<le> c'" and "\<And>r. edit_revision s' = Some r \<Longrightarrow> c \<le> r \<and> r < c'"
    and "se_timeline s' = se_timeline s" and "incarnation s' = incarnation s" and "se_id s' = se_id s"
    and "se_measurement s' = se_measurement s"
  using assms allocate_edit_revision_fresh [of c] by (auto simp: invalidate_edit_origin_def split: prod.splits)

lemma set_timeline_props:
  assumes "set_timeline c tline s = (s', c')" and "tempo_ok tline"
  shows "c \<le> c'" and "se_timeline s' = tline" and "incarnation s' = incarnation s" and "se_id s' = se_id s"
    and "se_measurement s' = se_measurement s"
    and "s' = s \<and> c' = c \<or> (\<forall>r. edit_revision s' = Some r \<longrightarrow> c \<le> r \<and> r < c')"
proof -
  obtain t d where i: "invalidate_edit_origin c s = (t, d)" by fastforce
  note p = invalidate_edit_origin_props [OF i]
  show "c \<le> c'" "incarnation s' = incarnation s" "se_id s' = se_id s" "se_measurement s' = se_measurement s"
    "se_timeline s' = tline" "s' = s \<and> c' = c \<or> (\<forall>r. edit_revision s' = Some r \<longrightarrow> c \<le> r \<and> r < c')"
    using assms p timeline_eq_clamped [of "se_timeline s" tline]
    by (auto simp: set_timeline_def i split: if_splits)
qed

lemma update_timeline_props:
  assumes "update_timeline c s tline = (s', c')"
  shows "c \<le> c'" and "incarnation s' = incarnation s" and "se_id s' = se_id s"
    and "se_measurement s' = se_measurement s"
    and "s' = s \<and> c' = c \<or> (\<forall>r. edit_revision s' = Some r \<longrightarrow> c \<le> r \<and> r < c')"
    and "se_timeline s' = (if mb (beat_origin (se_timeline s)) < mb (beat_origin tline)
                           then clamp_tempo tline else se_timeline s)"
proof -
  have b: "beat_origin (clamp_tempo tline) = beat_origin tline" by (simp add: clamp_tempo_def)
  show "c \<le> c'" "incarnation s' = incarnation s" "se_id s' = se_id s" "se_measurement s' = se_measurement s"
    "s' = s \<and> c' = c \<or> (\<forall>r. edit_revision s' = Some r \<longrightarrow> c \<le> r \<and> r < c')"
    "se_timeline s' = (if mb (beat_origin (se_timeline s)) < mb (beat_origin tline)
                       then clamp_tempo tline else se_timeline s)"
    using assms set_timeline_props [of c "clamp_tempo tline" s s' c']
    by (auto simp: update_timeline_def Let_def b split: if_splits)
qed

lemma session_ok_mono: "session_ok i c s \<Longrightarrow> i \<le> i' \<Longrightarrow> c \<le> c' \<Longrightarrow> session_ok i' c' s"
  by (auto simp: session_ok_def)

lemma session_ok_update:
  assumes "session_ok i c s" and "update_timeline c s tline = (s', c')"
  shows "session_ok i c' s'"
  using assms(1) update_timeline_props [OF assms(2)] by (auto simp: session_ok_def)

lemma session_ok_set:
  assumes "session_ok i c s" and "set_timeline c tline s = (s', c')" and "tempo_ok tline"
  shows "session_ok i c' s'"
  using assms(1,3) set_timeline_props [OF assms(2,3)] by (auto simp: session_ok_def)

lemma f64_eq_right: "f64_eq a b \<Longrightarrow> f64_eq x b \<Longrightarrow> f64_eq x a"
  by (cases a; cases b; cases x) (auto simp: is_zero_def is_finite_def)

lemma xform_eq_right: "xform_eq a b \<Longrightarrow> xform_eq x b \<Longrightarrow> xform_eq x a"
  unfolding xform_eq_def by (auto intro: f64_eq_right)

text \<open>An edit origin that no longer matches does not match after such a step.\<close>

lemma edit_step_origin:
  assumes step: "edit_step S S'" and dead: "\<not> origin_matches e (current S)" and old: "revision e < next_revision S"
  shows "\<not> origin_matches e (current S')" and "revision e < next_revision S'"
proof -
  note st = step [unfolded edit_step_def]
  show "\<not> origin_matches e (current S')"
  proof
    assume m: "origin_matches e (current S')"
    then have "\<not> next_revision S \<le> revision e" "edit_revision (current S') = Some (revision e)"
      using old by (simp_all add: origin_matches_def)
    with st have "se_id (current S') = se_id (current S)" "edit_revision (current S') = edit_revision (current S)"
      "se_timeline (current S') = se_timeline (current S)"
      "x_form (se_measurement (current S')) = x_form (se_measurement (current S))
        \<or> xform_eq (x_form (se_measurement (current S))) (x_form (se_measurement (current S')))"
      by auto
    then have "origin_matches e (current S)"
      using m xform_eq_right by (auto simp: origin_matches_def)
    with dead show False ..
  qed
  show "revision e < next_revision S'" using st old by auto
qed

text \<open>The contract all operations on the sessions share.\<close>

locale session_op =
  fixes f :: "sessions \<Rightarrow> sessions"
  assumes keeps_inv: "sess_inv S \<Longrightarrow> sess_inv (f S)"
    and edits: "edit_step S (f S)"
begin

lemma origin_stays_dead:
  assumes "\<not> origin_matches e (current S)" and "revision e < next_revision S"
  shows "\<not> origin_matches e (current (f S)) \<and> revision e < next_revision (f S)"
  using edit_step_origin [OF edits assms] by simp

end

lemma sess_invI:
  assumes "session_ok (next_incarnation S) (next_revision S) (current S)"
    and "\<And>s. s \<in> set (other_sessions S) \<Longrightarrow> session_ok (next_incarnation S) (next_revision S) s"
  shows "sess_inv S"
  using assms by (auto simp: sess_inv_def)

lemma sess_invD:
  assumes "sess_inv S"
  shows "session_ok (next_incarnation S) (next_revision S) (current S)"
    and "s \<in> set (other_sessions S) \<Longrightarrow> session_ok (next_incarnation S) (next_revision S) s"
    and "i < length (other_sessions S) \<Longrightarrow> session_ok (next_incarnation S) (next_revision S) (other_sessions S ! i)"
  using assms by (auto simp: sess_inv_def)

lemma sess_inv_grow:
  assumes "sess_inv S" and "next_incarnation S \<le> i" and "next_revision S \<le> c"
  shows "session_ok i c (current S)" and "s \<in> set (other_sessions S) \<Longrightarrow> session_ok i c s"
    and "j < length (other_sessions S) \<Longrightarrow> session_ok i c (other_sessions S ! j)"
  using assms by (auto intro: session_ok_mono dest: sess_invD)

lemma set_list_update_cases: "s \<in> set (xs[i := y]) \<Longrightarrow> s = y \<or> s \<in> set xs"
  using set_update_subset_insert [of xs i y] by blast

lemma edit_step_others [simp]:
  "edit_step S (S\<lparr>other_sessions := ss\<rparr>)" "edit_step S (S\<lparr>other_sessions := ss, peers := ps\<rparr>)" "edit_step S S"
  by (simp_all add: edit_step_def)

lemma sess_inv_others:
  assumes "sess_inv S" and "\<And>s. s \<in> set ss \<Longrightarrow> session_ok (next_incarnation S) (next_revision S) s"
  shows "sess_inv (S\<lparr>other_sessions := ss\<rparr>)" "sess_inv (S\<lparr>other_sessions := ss, peers := ps\<rparr>)"
  using assms by (auto simp: sess_inv_def)

interpretation admit_op: session_op "\<lambda>S. fst (admit_owned_request k after S)" for k after
  by unfold_locales
    (auto simp: admit_owned_request_def Let_def split: option.splits
      intro!: sess_inv_others dest: sess_invD)

interpretation failed_op: session_op "\<lambda>S. fst (handle_failed_measurement k S)" for k
  by unfold_locales
    (auto simp: handle_failed_measurement_def Let_def intro!: sess_inv_others dest: sess_invD)

interpretation decide_op: session_op "\<lambda>S. fst (measurement_decide E k m now S)" for E k m now
proof
  fix S
  show "edit_step S (fst (measurement_decide E k m now S))"
    by (simp add: measurement_decide_def Let_def split: option.split)
  have ok: "session_ok i c (s\<lparr>se_measurement := m\<rparr>) = session_ok i c s" for i c s
    by (simp add: session_ok_def)
  assume "sess_inv S"
  then show "sess_inv (fst (measurement_decide E k m now S))"
    by (auto simp: measurement_decide_def Let_def split: option.split
        intro!: sess_inv_others dest!: set_list_update_cases simp: ok position_Some dest: sess_invD)
qed

interpretation sight_op: session_op "\<lambda>S. fst (try_sighting sid tline slot S)" for sid tline slot
proof
  fix S :: sessions
  obtain cur c where u: "update_timeline (next_revision S) (current S) (clamp_tempo tline) = (cur, c)" by fastforce
  note p = update_timeline_props [OF u]
  have fresh: "next_revision S \<le> snd (update_timeline (next_revision S) s (clamp_tempo tline))" for s
    using update_timeline_props(1) by (metis prod.collapse)
  show "edit_step S (fst (try_sighting sid tline slot S))"
    using p fresh
    by (auto simp: try_sighting_def Let_def u edit_step_def new_session_def split: option.split prod.split
        dest: allocate_edit_revision_fresh update_timeline_props(1))
  assume inv: "sess_inv S"
  have upd: "sess_inv (S\<lparr>other_sessions := (other_sessions S)[i := s], next_revision := d\<rparr>)"
    if "i < length (other_sessions S)" "update_timeline (next_revision S) (other_sessions S ! i) (clamp_tempo tline) = (s, d)"
    for i s d
    using session_ok_update [OF sess_invD(3) [OF inv that(1)] that(2)] update_timeline_props(1) [OF that(2)]
    by (intro sess_invI) (auto dest!: set_list_update_cases intro: session_ok_mono sess_invD [OF inv])
  have new: "sess_inv (T\<lparr>other_sessions := other_sessions T @ [s]\<rparr>)"
    if "new_session sid (clamp_tempo tline) default_measurement S = (s, T)" for s T
  proof -
    obtain r d where a: "allocate_edit_revision (next_revision S) = (r, d)" by fastforce
    then have "next_revision S \<le> d" "\<forall>x. r = Some x \<longrightarrow> x < d" by (auto dest: allocate_edit_revision_fresh)
    moreover from this that a have "session_ok (next_incarnation T) (next_revision T) s"
      by (auto simp: new_session_def session_ok_def)
    ultimately show ?thesis using that a
      by (intro sess_invI) (auto simp: new_session_def sess_inv_grow [OF inv])
  qed
  have cur: "sess_inv (S\<lparr>current := cur, has_joined := True, next_revision := c\<rparr>)"
    using session_ok_update [OF sess_invD(1) [OF inv] u] p(1)
    by (intro sess_invI) (simp_all add: sess_inv_grow [OF inv])
  show "sess_inv (fst (try_sighting sid tline slot S))"
    using upd new inv cur
    by (auto simp: try_sighting_def Let_def u split: option.split prod.split dest: position_SomeD)
qed

interpretation commit_op: session_op "\<lambda>S. fst (measurement_commit E k m now w S)" for E k m now w
proof
  fix S :: sessions
  obtain t c where t: "invalidate_edit_origin (next_revision S) (current S) = (t, c)" by fastforce
  note p = invalidate_edit_origin_props [OF t]
  have cand: "c' \<ge> next_revision S \<and> (\<forall>r. edit_revision w' = Some r \<longrightarrow> next_revision S \<le> r \<and> r < c')
      \<and> se_timeline w' = se_timeline s \<and> incarnation w' = incarnation s"
    if "invalidate_edit_origin (next_revision S) (s\<lparr>se_measurement := m\<rparr>) = (w', c')" for s w' c'
    using invalidate_edit_origin_props [OF that] by auto
  show "edit_step S (fst (measurement_commit E k m now w S))"
    using p cand
    by (auto simp: measurement_commit_def Let_def t edit_step_def split: option.split prod.split)
  have ok: "session_ok i c (s\<lparr>se_measurement := m\<rparr>) = session_ok i c s" for i c s
    by (simp add: session_ok_def)
  assume inv: "sess_inv S"
  have cur: "sess_inv (S\<lparr>current := t\<lparr>se_measurement := m\<rparr>, next_revision := c\<rparr>)"
    "sess_inv (S\<lparr>current := (current S)\<lparr>se_measurement := m\<rparr>\<rparr>)"
    using p sess_invD(1) [OF inv]
    by (auto intro!: sess_invI intro: session_ok_mono [OF sess_invD(2) [OF inv]] simp: ok)
      (auto simp: session_ok_def)
  have swap: "sess_inv (S\<lparr>other_sessions := (other_sessions S)[i := current S], current := w', next_revision := c'\<rparr>)"
    if "i < length (other_sessions S)"
      "invalidate_edit_origin (next_revision S) ((other_sessions S ! i)\<lparr>se_measurement := m\<rparr>) = (w', c')"
    for i w' c'
  proof (rule sess_invI)
    have c': "next_revision S \<le> c'" using cand [OF that(2)] by simp
    have "session_ok (next_incarnation S) c' w'"
      using cand [OF that(2)] sess_invD(3) [OF inv that(1)] by (auto simp: session_ok_def)
    then show "session_ok (next_incarnation (S\<lparr>other_sessions := (other_sessions S)[i := current S], current := w', next_revision := c'\<rparr>))
        (next_revision (S\<lparr>other_sessions := (other_sessions S)[i := current S], current := w', next_revision := c'\<rparr>))
        (current (S\<lparr>other_sessions := (other_sessions S)[i := current S], current := w', next_revision := c'\<rparr>))"
      by simp
  qed (use cand [OF that(2)] in \<open>auto dest!: set_list_update_cases intro: sess_inv_grow [OF inv]\<close>)
  show "sess_inv (fst (measurement_commit E k m now w S))"
    using cur swap inv
    by (auto simp: measurement_commit_def Let_def t position_Some ok split: option.split prod.split
        intro!: sess_inv_others dest!: set_list_update_cases dest: sess_invD)
qed

interpretation reset_op: session_op "reset_session s" for s
proof
  fix S :: sessions
  let ?s = "s\<lparr>incarnation := next_incarnation S\<rparr>"
  obtain t c where t: "set_timeline (next_revision S) (clamp_tempo (se_timeline s)) ?s = (t, c)" by fastforce
  obtain u d where u: "invalidate_edit_origin c t = (u, d)" by fastforce
  note p = set_timeline_props [OF t tempo_ok_clamp] and q = invalidate_edit_origin_props [OF u]
  have "\<forall>r. edit_revision u = Some r \<longrightarrow> next_revision S \<le> r" using p(1) q(2) by (meson order_trans)
  then show "edit_step S (reset_session s S)"
    using p(1) q(1) by (simp add: reset_session_def Let_def t u edit_step_def)
  show "sess_inv (reset_session s S)"
    using p q by (auto simp: reset_session_def Let_def t u sess_inv_def session_ok_def)
qed

lemma set_timelines_props:
  assumes "set_timelines k tline c ss = (ss', c')" and "tempo_ok tline"
  shows "c \<le> c'" and "\<forall>s\<in>set ss. session_ok i c s \<Longrightarrow> s \<in> set ss' \<Longrightarrow> session_ok i c' s"
    and "map session_key_of ss' = map session_key_of ss"
proof -
  have "c \<le> c' \<and> ((\<forall>s\<in>set ss. session_ok i c s) \<longrightarrow> (\<forall>s\<in>set ss'. session_ok i c' s))
      \<and> map session_key_of ss' = map session_key_of ss" for i
    using assms(1)
  proof (induction ss arbitrary: c ss')
    case (Cons s ss)
    let ?p = "if key_matches k s then set_timeline c tline s else (s, c)"
    obtain t d where t: "?p = (t, d)" by fastforce
    obtain ts e where ts: "set_timelines k tline d ss = (ts, e)" by fastforce
    have eq: "ss' = t # ts" "c' = e" using Cons.prems t ts by simp_all
    have st: "c \<le> d" "session_ok i c s \<Longrightarrow> session_ok i d t" "session_key_of t = session_key_of s"
      using t assms(2) set_timeline_props [of c tline s t d] session_ok_set [of i c s tline t d]
      by (auto split: if_splits simp: session_key_of_def)
    have "d \<le> e \<and> ((\<forall>s\<in>set ss. session_ok i d s) \<longrightarrow> (\<forall>s\<in>set ts. session_ok i e s))
        \<and> map session_key_of ts = map session_key_of ss"
      using Cons.IH [of d ts] ts eq(2) by simp
    with st eq show ?case by (auto intro: session_ok_mono)
  qed simp
  then show "c \<le> c'" "\<forall>s\<in>set ss. session_ok i c s \<Longrightarrow> s \<in> set ss' \<Longrightarrow> session_ok i c' s"
    "map session_key_of ss' = map session_key_of ss"
    by blast+
qed

interpretation retime_op: session_op "\<lambda>S. fst (reset_timeline k form tline S)" for k form tline
proof
  fix S :: sessions
  obtain t c where t: "set_timeline (next_revision S) (clamp_tempo tline) (current S) = (t, c)" by fastforce
  obtain ss d where ss: "set_timelines k (clamp_tempo tline) c (other_sessions S) = (ss, d)" by fastforce
  note p = set_timeline_props [OF t tempo_ok_clamp] and q = set_timelines_props [OF ss tempo_ok_clamp]
  show "edit_step S (fst (reset_timeline k form tline S))"
    using p q(1) by (auto simp: reset_timeline_def Let_def t ss edit_step_def)
  assume inv: "sess_inv S"
  then have "\<forall>s\<in>set (other_sessions S). session_ok (next_incarnation S) c s"
    using p(1) by (auto intro: session_ok_mono dest: sess_invD)
  then have "s \<in> set ss \<Longrightarrow> session_ok (next_incarnation S) d s" for s
    using q(2) by blast
  moreover have "session_ok (next_incarnation S) d t"
    using session_ok_set [OF sess_invD(1) [OF inv] t] q(1) by (auto intro: session_ok_mono)
  ultimately show "sess_inv (fst (reset_timeline k form tline S))"
    using inv by (auto simp: reset_timeline_def Let_def t ss intro!: sess_invI)
qed

lemma image_mset_swap:
  assumes "i < length xs"
  shows "add_mset (f (xs ! i)) (image_mset f (mset (xs[i := y]))) = add_mset (f y) (image_mset f (mset xs))"
proof -
  have "mset xs = add_mset (xs ! i) (mset xs - {#xs ! i#})" using assms by simp
  then have "image_mset f (mset xs) = add_mset (f (xs ! i)) (image_mset f (mset xs - {#xs ! i#}))"
    by (metis image_mset_add_mset)
  with assms show ?thesis by (simp add: mset_update add_mset_commute)
qed

lemma image_mset_same: "f y = f (xs ! i) \<Longrightarrow> image_mset f (mset (xs[i := y])) = image_mset f (mset xs)"
  using image_mset_swap [of i xs f y] by (cases "i < length xs") (simp_all add: list_update_beyond)

lemma distinct_map_sort_by: "distinct (map f (sort_by lt xs)) \<longleftrightarrow> distinct (map f xs)"
  by (rule mset_eq_imp_distinct_iff) simp

lemma measurement_peer_eligible: "measurement_peer ps sid after = Some p \<Longrightarrow> p \<in> set (eligible_peers ps sid)"
  by (auto simp: measurement_peer_def Let_def split: if_splits)

lemma measurement_peer_ours:
  "measurement_peer ps sid after = Some p \<Longrightarrow> p \<in> set ps \<and> session_id (node_state (peer p)) = sid"
  using measurement_peer_eligible [of ps sid after p] set_eligible_peers [of ps sid]
  by (simp add: Let_def split: if_splits)

lemma measurement_peer_None: "measurement_peer ps sid after = None \<longleftrightarrow> eligible_peers ps sid = []"
proof -
  have "(case after of None \<Rightarrow> 0 | Some previous \<Rightarrow>
      (case position (\<lambda>p. node_id (node_state (peer p)) = previous) es of
         None \<Rightarrow> 0 | Some i \<Rightarrow> (i + 1) mod length es)) < length es" if "es \<noteq> []" for es
    using that by (auto split: option.split)
  then show ?thesis by (auto simp: measurement_peer_def Let_def)
qed

lemma measurement_peer_next:
  assumes "distinct (map (\<lambda>p. node_id (node_state (peer p))) ps)" and "i < length (eligible_peers ps sid)"
  shows "measurement_peer ps sid (Some (node_id (node_state (peer (eligible_peers ps sid ! i)))))
           = Some (eligible_peers ps sid ! ((i + 1) mod length (eligible_peers ps sid)))"
proof -
  let ?es = "eligible_peers ps sid" and ?id = "\<lambda>p. node_id (node_state (peer p))"
  have "distinct (map ?id ?es)"
    using assms(1) by (simp add: eligible_peers_def Let_def distinct_map_sort_by distinct_map_filter)
  then have "?id (?es ! j) \<noteq> ?id (?es ! i)" if "j < i" for j
    using that assms(2) nth_eq_iff_index_eq [of "map ?id ?es" j i] by simp
  then have "position (\<lambda>p. ?id p = ?id (?es ! i)) ?es = Some i"
    using assms(2) by (simp add: position_Some)
  moreover have "(i + 1) mod length ?es < length ?es" using assms(2) by (intro mod_less_divisor) auto
  ultimately show ?thesis by (simp add: measurement_peer_def Let_def)
qed

section \<open>Properties\<close>

text \<open>By how many nanoseconds the ghost clock of a measured session is ahead of that of the current one, as a node sees it.\<close>

definition measured_lead :: "ext \<Rightarrow> session_measurement \<Rightarrow> duration \<Rightarrow> sessions \<Rightarrow> int" where
  "measured_lead E m host_time S =
     duration_nanos E (host_to_ghost E (x_form m) host_time)
     - duration_nanos E (host_to_ghost E (x_form (se_measurement (current S))) host_time)"

definition measurable :: "session_key \<Rightarrow> session_measurement \<Rightarrow> sessions \<Rightarrow> bool" where
  "measurable k m S \<longleftrightarrow> key_session k \<noteq> se_id (current S) \<and> (\<exists>s\<in>set (other_sessions S). key_matches k s)
     \<and> (\<forall>s\<in>set (other_sessions S). key_matches k s \<longrightarrow> measured_at (se_measurement s) \<le> measured_at m)"

lemma commit_current:
  assumes "measurable k m S"
  shows "se_id (current (fst (measurement_commit E k m now False S)))
           = (if measured_lead E m now S > 500000000 \<or> \<bar>measured_lead E m now S\<bar> < 500000000 \<and> node_lt (key_session k) (se_id (current S))
              then key_session k else se_id (current S))"
proof -
  have cur: "\<not> key_matches k (current S)" using assms by (auto simp: measurable_def key_matches_def)
  obtain i where i: "position (key_matches k) (other_sessions S) = Some i" "i < length (other_sessions S)"
      "key_matches k (other_sessions S ! i)"
    using assms position_Some [of "key_matches k" "other_sessions S"] position_None [of "key_matches k" "other_sessions S"]
    by (cases "position (key_matches k) (other_sessions S)") (auto simp: measurable_def)
  then have "measured_at (se_measurement (other_sessions S ! i)) \<le> measured_at m" "se_id (other_sessions S ! i) = key_session k"
    using assms by (auto simp: measurable_def key_matches_def)
  moreover have "se_id (fst (invalidate_edit_origin c x)) = se_id x" for c x
    by (simp add: invalidate_edit_origin_def split: prod.split)
  ultimately show ?thesis
    using cur i(1) by (simp add: measurement_commit_def Let_def measurement_wins_def measured_lead_def case_prod_beta)
qed

text \<open>C35: Two nodes in different sessions agree on one of them. Each measures the other's session with its own clock, at its own time, and
  commits the measurement. Let \<open>lead\<close> be by how much the ghost clock of the second session is ahead of that of the first. If both
  measurements are within \<open>err\<close> of it and it is not within \<open>err\<close> of half a second, then afterwards both nodes are in the same session: the one that
  is ahead by more than half a second, or, if neither is, the one with the smaller identifier.\<close>

theorem sessions_converge:
  assumes "length (se_id (current S1)) = 8" and "length (se_id (current S2)) = 8"
    and "key_session k1 = se_id (current S2)" and "key_session k2 = se_id (current S1)"
    and "measurable k1 m1 S1" and "measurable k2 m2 S2"
    and "\<bar>measured_lead E m1 t1 S1 - lead\<bar> \<le> err" and "\<bar>measured_lead E m2 t2 S2 + lead\<bar> \<le> err"
    and "err < \<bar>\<bar>lead\<bar> - 500000000\<bar>"
  shows "let winner = (if lead > 500000000 then se_id (current S2)
                       else if lead < - 500000000 then se_id (current S1)
                       else if node_lt (se_id (current S1)) (se_id (current S2)) then se_id (current S1) else se_id (current S2))
         in se_id (current (fst (measurement_commit E k1 m1 t1 False S1))) = winner
          \<and> se_id (current (fst (measurement_commit E k2 m2 t2 False S2))) = winner"
proof -
  let ?a = "se_id (current S1)" and ?b = "se_id (current S2)"
  have "?a \<noteq> ?b" using assms(3,5) by (auto simp: measurable_def)
  then have order: "node_lt ?a ?b \<longleftrightarrow> \<not> node_lt ?b ?a"
    using node_lt_total [of ?a ?b] node_order.asym [of ?a ?b] assms(1,2) by auto
  note commits = commit_current [OF assms(5), of E t1] commit_current [OF assms(6), of E t2]
  consider "lead > 500000000" | "lead < - 500000000" | "\<bar>lead\<bar> < 500000000" using assms(7,9) by linarith
  then show ?thesis
  proof cases
    case 1
    then have "measured_lead E m1 t1 S1 > 500000000" "measured_lead E m2 t2 S2 < - 500000000" using assms(7-9) by linarith+
    then show ?thesis using 1 commits assms(3,4) by simp
  next
    case 2
    then have "measured_lead E m1 t1 S1 < - 500000000" "measured_lead E m2 t2 S2 > 500000000" using assms(7-9) by linarith+
    then show ?thesis using 2 commits assms(3,4) by simp
  next
    case 3
    then have "\<bar>measured_lead E m1 t1 S1\<bar> < 500000000" "\<bar>measured_lead E m2 t2 S2\<bar> < 500000000" using assms(7-9) by linarith+
    moreover from this have "\<not> measured_lead E m1 t1 S1 > 500000000" "\<not> measured_lead E m2 t2 S2 > 500000000" by linarith+
    moreover have "\<not> lead > 500000000" "\<not> lead < - 500000000" using 3 by linarith+
    ultimately show ?thesis using commits assms(3,4) order by simp
  qed
qed

definition sample_known :: "session_id \<Rightarrow> session_id \<Rightarrow> sessions" where
  "sample_known own other = \<lparr>other_sessions = [\<lparr>incarnation = 1, edit_revision = None, se_id = other,
         se_timeline = default_timeline, se_measurement = default_measurement\<rparr>],
     current = \<lparr>incarnation = 0, edit_revision = None, se_id = own,
         se_timeline = default_timeline, se_measurement = default_measurement\<rparr>,
     peers = [], has_joined = False, next_incarnation = 2, next_revision = 1\<rparr>"

theorem sessions_converge_witness:
  "se_id (current (fst (measurement_commit std_ext \<lparr>key_session = replicate 8 2, key_incarnation = 1\<rparr> default_measurement 0 False
      (sample_known (replicate 8 1) (replicate 8 2))))) = replicate 8 1
   \<and> se_id (current (fst (measurement_commit std_ext \<lparr>key_session = replicate 8 1, key_incarnation = 1\<rparr> default_measurement 7 False
      (sample_known (replicate 8 2) (replicate 8 1))))) = replicate 8 1"
proof -
  let ?k = "\<lambda>s. \<lparr>key_session = s, key_incarnation = 1\<rparr>"
  have "measurable (?k (replicate 8 2)) default_measurement (sample_known (replicate 8 1) (replicate 8 2))"
    "measurable (?k (replicate 8 1)) default_measurement (sample_known (replicate 8 2) (replicate 8 1))"
    by (simp_all add: measurable_def key_matches_def sample_known_def numeral_eq_Suc)
  moreover have "measured_lead std_ext default_measurement t (sample_known x y) = 0" for t x y
    by (simp add: measured_lead_def sample_known_def)
  moreover have "node_lt (replicate 8 1) (replicate 8 2)" by (simp add: numeral_eq_Suc)
  ultimately show ?thesis
    using sessions_converge [of "sample_known (replicate 8 1) (replicate 8 2)" "sample_known (replicate 8 2) (replicate 8 1)"
        "?k (replicate 8 2)" "?k (replicate 8 1)" default_measurement default_measurement std_ext 0 0 0 7]
    by (simp add: sample_known_def Let_def)
qed

text \<open>C22: The commit of a finished measurement loses no session and duplicates none: the current session and
  the candidates are the same incarnations before and after. When it reports a session, that is
  the new current one, it carries the measurement, and it was current or wins against the old current
  session, which stays a candidate; when it reports none, the current session is untouched.\<close>

theorem measurement_commit_conserves:
  "case measurement_commit E k m now was_current S of (S', joined) \<Rightarrow>
     mset (map session_key_of (current S' # other_sessions S'))
       = mset (map session_key_of (current S # other_sessions S))
   \<and> peers S' = peers S
   \<and> (case joined of
        None \<Rightarrow> current S' = current S
      | Some s \<Rightarrow> current S' = s \<and> key_matches k s \<and> se_measurement s = m
          \<and> (key_matches k (current S)
             \<or> measurement_wins E (current S) (key_session k) m now \<and> current S \<in> set (other_sessions S')))"
proof -
  have keys: "session_key_of (fst (invalidate_edit_origin c s)) = session_key_of s"
    "key_matches k (fst (invalidate_edit_origin c s)) = key_matches k s"
    "se_measurement (fst (invalidate_edit_origin c s)) = se_measurement s" for c s
    by (auto simp: invalidate_edit_origin_def session_key_of_def key_matches_def split: prod.split)
  have upd [simp]: "session_key_of (s\<lparr>se_measurement := m\<rparr>) = session_key_of s"
    "key_matches k (s\<lparr>se_measurement := m\<rparr>) = key_matches k s" for s
    by (simp_all add: session_key_of_def key_matches_def)
  show ?thesis
    using keys [of "next_revision S"]
    by (auto simp: measurement_commit_def Let_def position_Some case_prod_beta image_mset_swap image_mset_same
        set_update_memI split: option.split)
qed

text \<open>A failed measurement never touches the current session. It removes exactly the candidates of the
  measured incarnation, and a peer is forgotten only if it belongs to a session that no known
  session carries any more.\<close>

theorem failed_measurement_effects:
  "case handle_failed_measurement k S of (S', retry) \<Rightarrow>
     current S' = current S \<and> (retry = None \<longleftrightarrow> \<not> key_matches k (current S))
   \<and> (\<forall>s. s \<in> set (other_sessions S') \<longleftrightarrow>
        s \<in> set (other_sessions S) \<and> (key_matches k s \<longrightarrow> key_matches k (current S)))
   \<and> set (peers S') \<subseteq> set (peers S)
   \<and> (\<forall>p\<in>set (peers S) - set (peers S').
        session_id (node_state (peer p)) = key_session k
      \<and> key_session k \<notin> se_id ` set (current S' # other_sessions S'))"
  by (auto simp: handle_failed_measurement_def Let_def)

theorem failed_measurement_effects_witness:
  "current (fst (handle_failed_measurement \<lparr>key_session = replicate 8 2, key_incarnation = 1\<rparr>
      (with_session \<lparr>incarnation = 0, edit_revision = None, se_id = replicate 8 1,
         se_timeline = default_timeline, se_measurement = default_measurement\<rparr> 1 1)))
   = \<lparr>incarnation = 0, edit_revision = None, se_id = replicate 8 1,
      se_timeline = default_timeline, se_measurement = default_measurement\<rparr>"
proof -
  let ?S = "with_session \<lparr>incarnation = 0, edit_revision = None, se_id = replicate 8 1,
         se_timeline = default_timeline, se_measurement = default_measurement\<rparr> 1 1"
  obtain S' retry where e: "handle_failed_measurement \<lparr>key_session = replicate 8 2, key_incarnation = 1\<rparr> ?S
      = (S', retry)" by fastforce
  have "current S' = current ?S"
    using failed_measurement_effects [where k = "\<lparr>key_session = replicate 8 2, key_incarnation = 1\<rparr>" and S = ?S] unfolding e by simp
  then show ?thesis unfolding e by (simp add: with_session_def)
qed

text \<open>What a sighting of a session does. A measurement is requested exactly when a candidate is added, for
  that very incarnation, with a key no other session has, and a peer of that session; otherwise the known
  incarnations stay as they are. No beat origin of the current session ever moves back, and
  the result is the current timeline or, when there is no slot yet, nothing was changed.\<close>

theorem sighting_effects:
  assumes "sess_inv S"
  shows "case try_sighting sid tline slot S of (S', result, request) \<Rightarrow>
     (case request of
        Some event \<Rightarrow> slot \<and> (\<exists>s p. other_sessions S' = other_sessions S @ [s] \<and> current S' = current S
          \<and> event = PeerStateEvent (session_key_of s) (peer p) \<and> se_id s = sid
          \<and> p \<in> set (peers S) \<and> session_id (node_state (peer p)) = sid
          \<and> session_key_of s \<notin> session_key_of ` set (current S # other_sessions S))
      | None \<Rightarrow> map session_key_of (current S' # other_sessions S')
                  = map session_key_of (current S # other_sessions S))
   \<and> mb (beat_origin (se_timeline (current S))) \<le> mb (beat_origin (se_timeline (current S')))
   \<and> (case result of NeedsCapacity \<Rightarrow> S' = S | Complete t \<Rightarrow> t = se_timeline (current S'))"
proof -
  obtain cur c where u: "update_timeline (next_revision S) (current S) (clamp_tempo tline) = (cur, c)" by fastforce
  note p = update_timeline_props [OF u]
  have b: "beat_origin (clamp_tempo t) = beat_origin t" for t by (simp add: clamp_tempo_def)
  have key: "session_key_of (fst (update_timeline (next_revision S) s (clamp_tempo tline))) = session_key_of s" for s
    using update_timeline_props [of "next_revision S" s "clamp_tempo tline"]
    by (metis prod.collapse session_key_of_def)
  have upd: "map session_key_of ((other_sessions S)[i := s]) = map session_key_of (other_sessions S)"
    if "update_timeline (next_revision S) (other_sessions S ! i) (clamp_tempo tline) = (s, d)" for i s d
    using key [of "other_sessions S ! i"] that by (simp add: map_update list_update_same_conv)
      (metis list_update_id map_update)
  have peer: "p \<in> set (peers S) \<and> session_id (node_state (peer p)) = sid"
    if "measurement_peer (peers S) sid None = Some p" for p
    by (rule measurement_peer_ours [OF that])
  have new: "session_key_of s \<notin> session_key_of ` set (current S # other_sessions S) \<and> se_id s = sid
      \<and> other_sessions T = other_sessions S \<and> current T = current S"
    if "new_session sid (clamp_tempo tline) default_measurement S = (s, T)" for s T
    using that assms
    by (fastforce simp: new_session_def sess_inv_def session_ok_def session_key_of_def split: prod.splits)
  show ?thesis
  proof (cases "se_id (current S) = sid")
    case True
    then show ?thesis using key [of "current S"] p(6) by (simp add: try_sighting_def Let_def u b)
  next
    case False
    note other = False
    show ?thesis
    proof (cases "position (\<lambda>s. se_id s = sid) (other_sessions S)")
      case (Some i)
      then show ?thesis using other upd by (simp add: try_sighting_def Let_def split: prod.split)
    next
      case None
      show ?thesis
      proof (cases "slot \<and> measurement_peer (peers S) sid None \<noteq> None")
        case True
        then obtain p where mp: "measurement_peer (peers S) sid None = Some p" by auto
        obtain s T where ns: "new_session sid (clamp_tempo tline) default_measurement S = (s, T)" by fastforce
        show ?thesis using other None True new [OF ns] peer [OF mp]
          by (simp add: try_sighting_def Let_def mp ns) blast
      next
        case False
        then show ?thesis using other None by (auto simp: try_sighting_def Let_def)
      qed
    qed
  qed
qed

theorem sighting_effects_witness:
  "mb (beat_origin (se_timeline (current (with_session \<lparr>incarnation = 0, edit_revision = None,
         se_id = replicate 8 1, se_timeline = clamp_tempo default_timeline,
         se_measurement = default_measurement\<rparr> 1 1))))
   \<le> mb (beat_origin (se_timeline (current (fst (try_sighting (replicate 8 1) default_timeline False
        (with_session \<lparr>incarnation = 0, edit_revision = None,
         se_id = replicate 8 1, se_timeline = clamp_tempo default_timeline,
         se_measurement = default_measurement\<rparr> 1 1))))))"
proof -
  let ?S = "with_session \<lparr>incarnation = 0, edit_revision = None, se_id = replicate 8 1,
         se_timeline = clamp_tempo default_timeline, se_measurement = default_measurement\<rparr> 1 1"
  have "sess_inv ?S" by (simp add: with_session_def sess_inv_def session_ok_def)
  from sighting_effects [OF this, where sid = "replicate 8 1" and tline = default_timeline and slot = False] show ?thesis
    by (simp add: case_prod_beta)
qed

text \<open>The choice of the peer to measure. There is one exactly when the session has a peer; one without an
  endpoint is chosen only when no peer of the session has an endpoint. The first choice is the founder of the session
  if it is eligible, else the smallest identifier, and a retry after the eligible peer number \<open>i\<close>
  goes to the next one, round robin, so that every eligible peer gets its turn.\<close>

theorem measurement_peer_choice:
  assumes "distinct (map (\<lambda>p. node_id (node_state (peer p))) ps)"
  shows "(measurement_peer ps sid after = None \<longleftrightarrow> (\<forall>p\<in>set ps. session_id (node_state (peer p)) \<noteq> sid))
    \<and> (\<forall>p. measurement_peer ps sid after = Some p \<longrightarrow>
         p \<in> set ps \<and> session_id (node_state (peer p)) = sid
       \<and> (measurement_endpoint (peer p) = None \<longrightarrow>
            (\<forall>q\<in>set ps. session_id (node_state (peer q)) = sid \<longrightarrow> measurement_endpoint (peer q) = None)))
    \<and> (\<forall>p. measurement_peer ps sid None = Some p \<longrightarrow>
         (\<forall>q\<in>set (eligible_peers ps sid). \<not> peer_before sid q p))
    \<and> (\<forall>i<length (eligible_peers ps sid).
         measurement_peer ps sid (Some (node_id (node_state (peer (eligible_peers ps sid ! i)))))
           = Some (eligible_peers ps sid ! ((i + 1) mod length (eligible_peers ps sid))))"
proof (intro conjI allI impI)
  let ?es = "eligible_peers ps sid"
  show "measurement_peer ps sid after = None \<longleftrightarrow> (\<forall>p\<in>set ps. session_id (node_state (peer p)) \<noteq> sid)"
    unfolding measurement_peer_None set_empty [symmetric] set_eligible_peers by (auto simp: Let_def)
  fix p assume p: "measurement_peer ps sid after = Some p"
  show "p \<in> set ps" "session_id (node_state (peer p)) = sid" using measurement_peer_ours [OF p] by simp_all
  show "\<forall>q\<in>set ps. session_id (node_state (peer q)) = sid \<longrightarrow> measurement_endpoint (peer q) = None"
    if "measurement_endpoint (peer p) = None"
    using that measurement_peer_eligible [OF p] unfolding set_eligible_peers Let_def
    by (auto split: if_splits) (metis not_Some_eq surj_pair)
next
  fix p assume "measurement_peer ps sid None = Some p"
  then have "p = eligible_peers ps sid ! 0" by (simp add: measurement_peer_def Let_def split: if_splits)
  then show "\<forall>q\<in>set (eligible_peers ps sid). \<not> peer_before sid q p"
    unfolding eligible_peers_def Let_def by (simp only:) (rule ballI, rule peer_order.sort_by_first)
next
  fix i assume "i < length (eligible_peers ps sid)"
  then show "measurement_peer ps sid (Some (node_id (node_state (peer (eligible_peers ps sid ! i)))))
      = Some (eligible_peers ps sid ! ((i + 1) mod length (eligible_peers ps sid)))"
    using measurement_peer_next [OF assms] by simp
qed

theorem measurement_peer_choice_witness:
  "measurement_peer [\<lparr>peer = \<lparr>node_state = \<lparr>node_id = replicate 8 1, session_id = replicate 8 9,
       timeline = default_timeline, start_stop_state = default_start_stop\<rparr>,
       measurement_endpoint = None, audio_endpoint = None\<rparr>\<rparr>] (replicate 8 9) (Some (replicate 8 1))
   \<noteq> None"
proof -
  let ?p = "\<lparr>peer = \<lparr>node_state = \<lparr>node_id = replicate 8 1, session_id = replicate 8 9,
       timeline = default_timeline, start_stop_state = default_start_stop\<rparr>,
       measurement_endpoint = None, audio_endpoint = None\<rparr>\<rparr>"
  have "eligible_peers [?p] (replicate 8 9) = [?p]" by (simp add: eligible_peers_def sort_by_def)
  then show ?thesis
    using measurement_peer_choice [of "[?p]" "replicate 8 9" "Some (replicate 8 1)"] by simp
qed

end
