(* ===== verification/MeasureJobs.thy ===== *)
theory MeasureJobs
  imports Sessions
begin

text \<open>
  The measurement service of \<open>src/link/measurement.rs\<close>: measurements of several peers at once that share sockets. A measurement (a job,
  numbered in the order of their starts) registers for the pongs of its peer's endpoint, is entered under its peer while its result is
  forwarded, and takes both entries back through \<open>MeasurementRegistration::drop\<close>; either entry may have been replaced by a later job meanwhile, for
  the same peer or for another one that announces the same endpoint. A job measures over a route, the interface registration by which its peer was
  discovered, or, standalone, over the service's shared socket; each has a socket and a map of pongs of its own, and the registration is with that map. What
  one measurement does with its pongs is in the theory of the measurement.
\<close>

section \<open>State\<close>

text \<open>
  \<open>Measuring\<close>: the job waits for its samples. \<open>Forwarding\<close>: it is entered and its task waits for the result.
  \<open>Replying\<close>: the registration is gone, the answer waits for a slot. A route is named by its socket; \<open>None\<close> is the shared one.
\<close>

datatype job_phase = Measuring | Forwarding | Replying "sample list" | Ended

record job =
  job_key :: session_key
  job_node :: node_id
  job_route :: "nat option"
  job_endpoint :: socket_v4
  job_phase :: job_phase
  pongs :: "bytes list"
  receiving :: bool

text \<open>The map of pongs of each route is part of \<open>pong_dispatch\<close>, under the route and the endpoint of the peer.\<close>

type_synonym pong_slot = "nat option \<times> socket_v4"

record service =
  jobs :: "job list"
  pong_dispatch :: "pong_slot \<Rightarrow> nat option"
  measurements :: "node_id \<Rightarrow> nat option"
  answers :: "(nat option \<times> measure_peer_event) list"

definition new_service :: service where
  "new_service = \<lparr>jobs = [], pong_dispatch = (\<lambda>_. None), measurements = (\<lambda>_. None), answers = []\<rparr>"

definition set_job :: "nat \<Rightarrow> (job \<Rightarrow> job) \<Rightarrow> service \<Rightarrow> service" where
  "set_job n f S = S\<lparr>jobs := (jobs S)[n := f (jobs S ! n)]\<rparr>"

definition job_slot :: "job \<Rightarrow> pong_slot" where
  "job_slot j = (job_route j, job_endpoint j)"

definition registered :: "job \<Rightarrow> bool" where
  "registered j \<longleftrightarrow> job_phase j = Measuring \<or> job_phase j = Forwarding"

section \<open>Operations\<close>

text \<open>A peer without a measurement endpoint is reported as failed at once.\<close>

definition measure_peer :: "nat option \<Rightarrow> session_key \<Rightarrow> peer_state \<Rightarrow> service \<Rightarrow> service" where
  "measure_peer route k st S =
     (case measurement_endpoint st of
        None \<Rightarrow> S\<lparr>answers := answers S @ [(None, XFormEvent k default_xform)]\<rparr>
      | Some ep \<Rightarrow>
          S\<lparr>jobs := jobs S @ [\<lparr>job_key = k, job_node = node_id (node_state st), job_route = route, job_endpoint = ep,
                               job_phase = Measuring, pongs = [], receiving = True\<rparr>],
            pong_dispatch := (pong_dispatch S)((route, ep) := Some (length (jobs S)))\<rparr>)"

text \<open>
  The loop of the service takes a peer to measure. With discovery (\<open>managed\<close>) the peer is measured over its route, and one that has none
  (\<open>resolved = None\<close>) is answered with a retry.
\<close>

definition measure_event :: "bool \<Rightarrow> nat option \<Rightarrow> session_key \<Rightarrow> peer_state \<Rightarrow> service \<Rightarrow> service" where
  "measure_event managed resolved k st S =
     (if managed \<and> measurement_endpoint st \<noteq> None
      then case resolved of
             None \<Rightarrow> S\<lparr>answers := answers S @ [(None, Cancelled k (node_id (node_state st)))]\<rparr>
           | Some r \<Rightarrow> measure_peer (Some r) k st S
      else measure_peer None k st S)"

text \<open>\<open>MeasurementRegistration::drop\<close>: only the entries of this job go. The measurement that leaves the map takes its tasks with it.\<close>

definition drop_registration :: "nat \<Rightarrow> service \<Rightarrow> service" where
  "drop_registration n S =
     (let j = jobs S ! n;
          ms = (if measurements S (job_node j) = Some n then (measurements S)(job_node j := None) else measurements S);
          pd = (if pong_dispatch S (job_slot j) = Some n then (pong_dispatch S)(job_slot j := None) else pong_dispatch S)
      in S\<lparr>measurements := ms, pong_dispatch := pd\<rparr>)"

definition end_job :: "job_phase \<Rightarrow> nat \<Rightarrow> service \<Rightarrow> service" where
  "end_job p n S = set_job n (\<lambda>j. j\<lparr>job_phase := p, receiving := False\<rparr>) (drop_registration n S)"

text \<open>
  The measurement returns. When it was cancelled the job ends, and is answered with a retry if it has a route and that is gone (\<open>retired\<close>);
  otherwise it is entered under its peer, and an older measurement of that peer is dropped.
\<close>

definition measured :: "bool \<Rightarrow> bool \<Rightarrow> nat \<Rightarrow> service \<Rightarrow> service" where
  "measured cancelled retired n S =
     (let j = jobs S ! n
      in if cancelled
         then let S = end_job Ended n S
              in if retired \<and> job_route j \<noteq> None then S\<lparr>answers := answers S @ [(Some n, Cancelled (job_key j) (job_node j))]\<rparr> else S
         else let S = (case measurements S (job_node j) of None \<Rightarrow> S | Some m \<Rightarrow> set_job m (\<lambda>j. j\<lparr>receiving := False\<rparr>) S)
              in set_job n (\<lambda>j. j\<lparr>job_phase := Forwarding\<rparr>) (S\<lparr>measurements := (measurements S)(job_node j := Some n)\<rparr>))"

text \<open>The task that forwards the result; \<open>live\<close> tells whether the route it was measured on, if any, is still registered.\<close>

definition forward_receive :: "sample list \<Rightarrow> nat \<Rightarrow> service \<Rightarrow> service" where
  "forward_receive data n S = end_job (Replying data) n S"

definition forward_reply :: "ext \<Rightarrow> bool \<Rightarrow> nat \<Rightarrow> service \<Rightarrow> service" where
  "forward_reply E live n S =
     (let j = jobs S ! n
      in case job_phase j of
           Replying data \<Rightarrow>
             set_job n (\<lambda>j. j\<lparr>job_phase := Ended\<rparr>)
               (S\<lparr>answers := answers S @
                   [(Some n, if live \<or> job_route j = None then XFormEvent (job_key j) (measured_x_form E data) else Cancelled (job_key j) (job_node j))]\<rparr>)
         | _ \<Rightarrow> S)"

text \<open>A pong received by a route goes to the job registered there for its sender; one that no longer receives is unregistered, one that has
  twenty pongs waiting loses the pong.\<close>

definition dispatch_pong :: "bytes \<Rightarrow> nat option \<Rightarrow> socket_v4 \<Rightarrow> service \<Rightarrow> service" where
  "dispatch_pong data route src S =
     (case pong_dispatch S (route, src) of
        None \<Rightarrow> S
      | Some n \<Rightarrow>
          if \<not> receiving (jobs S ! n) then S\<lparr>pong_dispatch := (pong_dispatch S)((route, src) := None)\<rparr>
          else if length (pongs (jobs S ! n)) \<ge> NUMBER_DATA_POINTS then S
          else set_job n (\<lambda>j. j\<lparr>pongs := pongs j @ [data]\<rparr>) S)"

section \<open>Steps\<close>

text \<open>A job may be abandoned at any time, when its lifecycle ends or its result channel closes; its listener may end on its own.\<close>

inductive job_step :: "ext \<Rightarrow> service \<Rightarrow> service \<Rightarrow> bool" for E where
  js_start: "job_step E S (measure_event managed resolved k st S)"
| js_measured: "n < length (jobs S) \<Longrightarrow> job_phase (jobs S ! n) = Measuring \<Longrightarrow> job_step E S (measured cancelled retired n S)"
| js_receive: "n < length (jobs S) \<Longrightarrow> job_phase (jobs S ! n) = Forwarding \<Longrightarrow> job_step E S (forward_receive data n S)"
| js_reply: "n < length (jobs S) \<Longrightarrow> job_step E S (forward_reply E live n S)"
| js_abandon: "n < length (jobs S) \<Longrightarrow> job_step E S (end_job Ended n S)"
| js_pong: "job_step E S (dispatch_pong data route src S)"
| js_take: "n < length (jobs S) \<Longrightarrow> job_step E S (set_job n (\<lambda>j. j\<lparr>pongs := tl (pongs j)\<rparr>) S)"
| js_hangup: "n < length (jobs S) \<Longrightarrow> job_step E S (set_job n (\<lambda>j. j\<lparr>receiving := False\<rparr>) S)"

inductive job_reachable :: "ext \<Rightarrow> service \<Rightarrow> bool" for E where
  jr_new: "job_reachable E new_service"
| jr_step: "job_reachable E S \<Longrightarrow> job_step E S S' \<Longrightarrow> job_reachable E S'"

section \<open>Who is registered\<close>

definition newest :: "job list \<Rightarrow> nat \<Rightarrow> bool" where
  "newest js n \<longleftrightarrow> (\<forall>m. n < m \<and> m < length js \<longrightarrow> job_slot (js ! m) \<noteq> job_slot (js ! n))"

definition dispatch_ok :: "job list \<Rightarrow> (pong_slot \<Rightarrow> nat option) \<Rightarrow> bool" where
  "dispatch_ok js pd \<longleftrightarrow>
     (\<forall>e n. pd e = Some n \<longrightarrow> n < length js \<and> job_slot (js ! n) = e \<and> registered (js ! n) \<and> newest js n)
   \<and> (\<forall>n < length js. registered (js ! n) \<and> receiving (js ! n) \<and> newest js n \<longrightarrow> pd (job_slot (js ! n)) = Some n)"

definition entries_ok :: "job list \<Rightarrow> (node_id \<Rightarrow> nat option) \<Rightarrow> bool" where
  "entries_ok js ms \<longleftrightarrow> (\<forall>p n. ms p = Some n \<longrightarrow> n < length js \<and> job_node (js ! n) = p \<and> job_phase (js ! n) = Forwarding)"

definition answer_ok :: "job \<Rightarrow> measure_peer_event \<Rightarrow> bool" where
  "answer_ok j ev \<longleftrightarrow> job_phase j = Ended \<and> (ev = Cancelled (job_key j) (job_node j) \<or> (\<exists>x. ev = XFormEvent (job_key j) x))"

definition answers_ok :: "job list \<Rightarrow> (nat option \<times> measure_peer_event) list \<Rightarrow> bool" where
  "answers_ok js as \<longleftrightarrow>
     distinct (filter (\<lambda>t. t \<noteq> None) (map fst as)) \<and> (\<forall>n ev. (Some n, ev) \<in> set as \<longrightarrow> n < length js \<and> answer_ok (js ! n) ev)"

definition service_ok :: "service \<Rightarrow> bool" where
  "service_ok S \<longleftrightarrow> dispatch_ok (jobs S) (pong_dispatch S) \<and> entries_ok (jobs S) (measurements S) \<and> answers_ok (jobs S) (answers S)"

lemma jobs_set_job [simp]:
  "jobs (set_job n f S) = (jobs S)[n := f (jobs S ! n)]" "pong_dispatch (set_job n f S) = pong_dispatch S"
  "measurements (set_job n f S) = measurements S" "answers (set_job n f S) = answers S"
  by (simp_all add: set_job_def)

lemma job_slot_simps [simp]:
  "job_slot (j\<lparr>job_phase := p\<rparr>) = job_slot j" "job_slot (j\<lparr>pongs := ps\<rparr>) = job_slot j" "job_slot (j\<lparr>receiving := r\<rparr>) = job_slot j"
  by (simp_all add: job_slot_def)

lemma newest_update [simp]:
  assumes "job_slot j = job_slot (js ! n)"
  shows "newest (js[n := j]) m = newest js m"
proof -
  have "job_slot (js[n := j] ! i) = job_slot (js ! i)" for i using assms by (cases "i = n"; cases "n < length js") (simp_all add: list_update_beyond)
  then show ?thesis by (simp add: newest_def)
qed

lemma dispatch_okD:
  assumes "dispatch_ok js pd"
  shows "pd e = Some n \<Longrightarrow> n < length js \<and> job_slot (js ! n) = e \<and> registered (js ! n) \<and> newest js n"
    "n < length js \<Longrightarrow> registered (js ! n) \<Longrightarrow> receiving (js ! n) \<Longrightarrow> newest js n \<Longrightarrow> pd (job_slot (js ! n)) = Some n"
  using assms unfolding dispatch_ok_def by blast+

lemma entries_okD:
  "entries_ok js ms \<Longrightarrow> ms p = Some n \<Longrightarrow> n < length js \<and> job_node (js ! n) = p \<and> job_phase (js ! n) = Forwarding"
  unfolding entries_ok_def by blast

lemma dispatch_okI:
  assumes "\<And>e n. pd e = Some n \<Longrightarrow> n < length js \<and> job_slot (js ! n) = e \<and> registered (js ! n) \<and> newest js n"
    and "\<And>n. n < length js \<Longrightarrow> registered (js ! n) \<Longrightarrow> receiving (js ! n) \<Longrightarrow> newest js n \<Longrightarrow> pd (job_slot (js ! n)) = Some n"
  shows "dispatch_ok js pd"
  using assms unfolding dispatch_ok_def by blast

text \<open>Changes of a job that keep its name, its endpoint and its phase.\<close>

lemma same_phase_ok:
  assumes "service_ok S" and "n < length (jobs S)"
    and "job_slot (f (jobs S ! n)) = job_slot (jobs S ! n)" "job_node (f (jobs S ! n)) = job_node (jobs S ! n)"
    "job_key (f (jobs S ! n)) = job_key (jobs S ! n)" "job_phase (f (jobs S ! n)) = job_phase (jobs S ! n)"
    and "receiving (f (jobs S ! n)) \<Longrightarrow> receiving (jobs S ! n)"
  shows "service_ok (set_job n f S)"
proof -
  have d: "dispatch_ok (jobs S) (pong_dispatch S)" using assms(1) by (simp add: service_ok_def)
  have "dispatch_ok ((jobs S)[n := f (jobs S ! n)]) (pong_dispatch S)"
  proof (rule dispatch_okI)
    fix e m assume "pong_dispatch S e = Some m"
    then show "m < length ((jobs S)[n := f (jobs S ! n)]) \<and> job_slot ((jobs S)[n := f (jobs S ! n)] ! m) = e
        \<and> registered ((jobs S)[n := f (jobs S ! n)] ! m) \<and> newest ((jobs S)[n := f (jobs S ! n)]) m"
      using dispatch_okD(1) [OF d, of e m] assms(2-6) by (auto simp: nth_list_update registered_def)
  next
    fix m assume "m < length ((jobs S)[n := f (jobs S ! n)])" "registered ((jobs S)[n := f (jobs S ! n)] ! m)"
      "receiving ((jobs S)[n := f (jobs S ! n)] ! m)" "newest ((jobs S)[n := f (jobs S ! n)]) m"
    then show "pong_dispatch S (job_slot ((jobs S)[n := f (jobs S ! n)] ! m)) = Some m"
      using dispatch_okD(2) [OF d, of m] assms(2-7) by (cases "m = n") (auto simp: registered_def)
  qed
  moreover have "entries_ok ((jobs S)[n := f (jobs S ! n)]) (measurements S)"
    using assms by (auto simp: service_ok_def entries_ok_def nth_list_update)
  moreover have "answers_ok ((jobs S)[n := f (jobs S ! n)]) (answers S)"
    using assms by (auto simp: service_ok_def answers_ok_def answer_ok_def nth_list_update)
  ultimately show ?thesis by (simp add: service_ok_def)
qed

lemma end_job_ok:
  assumes "service_ok S" and "n < length (jobs S)" and p: "p \<noteq> Measuring" "p \<noteq> Forwarding"
    and "p = Ended \<or> job_phase (jobs S ! n) \<noteq> Ended"
  shows "service_ok (end_job p n S)"
proof -
  let ?j = "(jobs S ! n)\<lparr>job_phase := p, receiving := False\<rparr>" and ?D = "drop_registration n S"
  have e: "entries_ok (jobs S) (measurements S)" using assms(1) by (simp add: service_ok_def)
  have d: "dispatch_ok (jobs S) (pong_dispatch S)" using assms(1) by (simp add: service_ok_def)
  have "dispatch_ok ((jobs S)[n := ?j]) (pong_dispatch ?D)"
  proof (rule dispatch_okI)
    fix e m assume "pong_dispatch ?D e = Some m"
    then have "pong_dispatch S e = Some m" "m \<noteq> n"
      using dispatch_okD(1) [OF d, of e m] by (auto simp: drop_registration_def Let_def split: if_splits)
    then show "m < length ((jobs S)[n := ?j]) \<and> job_slot ((jobs S)[n := ?j] ! m) = e \<and> registered ((jobs S)[n := ?j] ! m) \<and> newest ((jobs S)[n := ?j]) m"
      using dispatch_okD(1) [OF d, of e m] by simp
  next
    fix m assume m: "m < length ((jobs S)[n := ?j])" "registered ((jobs S)[n := ?j] ! m)" "receiving ((jobs S)[n := ?j] ! m)" "newest ((jobs S)[n := ?j]) m"
    then have "m \<noteq> n" using assms(2) by auto
    then show "pong_dispatch ?D (job_slot ((jobs S)[n := ?j] ! m)) = Some m"
      using m dispatch_okD(2) [OF d, of m] by (auto simp: drop_registration_def Let_def)
  qed
  moreover have "entries_ok ((jobs S)[n := ?j]) (measurements ?D)"
    unfolding entries_ok_def
  proof (intro allI impI)
    fix q m assume "measurements ?D q = Some m"
    then have "measurements S q = Some m" "m \<noteq> n"
      using entries_okD [OF e, of q m] by (auto simp: drop_registration_def Let_def split: if_splits)
    then show "m < length ((jobs S)[n := ?j]) \<and> job_node ((jobs S)[n := ?j] ! m) = q \<and> job_phase ((jobs S)[n := ?j] ! m) = Forwarding"
      using entries_okD [OF e, of q m] by simp
  qed
  moreover have "answers_ok ((jobs S)[n := ?j]) (answers S)"
    using assms(1,2,5) by (auto simp: service_ok_def answers_ok_def answer_ok_def nth_list_update)
  moreover have "jobs ?D = jobs S" "answers ?D = answers S" by (simp_all add: drop_registration_def Let_def)
  ultimately show ?thesis by (simp add: service_ok_def end_job_def)
qed

lemma answer_appended:
  assumes "answers_ok js as" and "n < length js" and "job_phase (js ! n) \<noteq> Ended" and "answer_ok j ev"
  shows "answers_ok (js[n := j]) (as @ [(Some n, ev)])"
proof -
  have "Some n \<notin> fst ` set as" using assms(1,3) by (auto simp: answers_ok_def answer_ok_def)
  then show ?thesis using assms by (auto simp: answers_ok_def nth_list_update image_iff)
qed

lemma measure_peer_ok:
  assumes "service_ok S"
  shows "service_ok (measure_peer route k st S)"
proof (cases "measurement_endpoint st")
  case None
  then show ?thesis using assms by (auto simp: measure_peer_def service_ok_def answers_ok_def)
next
  case (Some ep)
  let ?j = "\<lparr>job_key = k, job_node = node_id (node_state st), job_route = route, job_endpoint = ep, job_phase = Measuring, pongs = [], receiving = True\<rparr>" and ?e = "(route, ep)"
  have slot: "job_slot ?j = ?e" by (simp add: job_slot_def)
  have new: "newest (jobs S @ [?j]) n \<longleftrightarrow> newest (jobs S) n \<and> job_slot (jobs S ! n) \<noteq> ?e" if "n < length (jobs S)" for n
    using that by (fastforce simp: newest_def nth_append less_Suc_eq slot)
  have d: "dispatch_ok (jobs S) (pong_dispatch S)" using assms by (simp add: service_ok_def)
  have last: "newest (jobs S @ [?j]) (length (jobs S))" by (auto simp: newest_def)
  have "dispatch_ok (jobs S @ [?j]) ((pong_dispatch S)(?e := Some (length (jobs S))))"
  proof (rule dispatch_okI)
    fix e n assume "((pong_dispatch S)(?e := Some (length (jobs S)))) e = Some n"
    then consider "e = ?e" "n = length (jobs S)" | "e \<noteq> ?e" "pong_dispatch S e = Some n" by (auto split: if_splits)
    then show "n < length (jobs S @ [?j]) \<and> job_slot ((jobs S @ [?j]) ! n) = e \<and> registered ((jobs S @ [?j]) ! n) \<and> newest (jobs S @ [?j]) n"
      by cases (use dispatch_okD(1) [OF d, of e n] new [of n] last slot in \<open>auto simp: nth_append registered_def\<close>)
  next
    fix n assume "n < length (jobs S @ [?j])" "registered ((jobs S @ [?j]) ! n)" "receiving ((jobs S @ [?j]) ! n)" "newest (jobs S @ [?j]) n"
    then show "((pong_dispatch S)(?e := Some (length (jobs S)))) (job_slot ((jobs S @ [?j]) ! n)) = Some n"
      using dispatch_okD(2) [OF d, of n] new [of n] by (cases "n = length (jobs S)") (auto simp: nth_append slot)
  qed
  moreover have "entries_ok (jobs S @ [?j]) (measurements S)" "answers_ok (jobs S @ [?j]) (answers S)"
    using assms by (auto simp: service_ok_def entries_ok_def answers_ok_def nth_append intro: less_SucI)
  ultimately show ?thesis using Some by (simp add: measure_peer_def service_ok_def)
qed

lemma measure_event_ok: "service_ok S \<Longrightarrow> service_ok (measure_event managed resolved k st S)"
  using measure_peer_ok [of S] by (auto simp: measure_event_def service_ok_def answers_ok_def split: option.split)

lemma enter_ok:
  assumes "service_ok S" and "n < length (jobs S)" and "job_phase (jobs S ! n) = Measuring"
  shows "service_ok (set_job n (\<lambda>j. j\<lparr>job_phase := Forwarding\<rparr>) (S\<lparr>measurements := (measurements S)(job_node (jobs S ! n) := Some n)\<rparr>))"
proof -
  let ?js = "(jobs S)[n := (jobs S ! n)\<lparr>job_phase := Forwarding\<rparr>]"
  have ok: "dispatch_ok (jobs S) (pong_dispatch S)" "entries_ok (jobs S) (measurements S)" "answers_ok (jobs S) (answers S)"
    using assms(1) by (simp_all add: service_ok_def)
  have js: "job_slot (?js ! m) = job_slot (jobs S ! m)" "registered (?js ! m) = registered (jobs S ! m)"
    "receiving (?js ! m) = receiving (jobs S ! m)" "newest ?js m = newest (jobs S) m" if "m < length (jobs S)" for m
    using assms(2,3) that by (auto simp: nth_list_update registered_def)
  have "dispatch_ok ?js (pong_dispatch S)"
    by (rule dispatch_okI) (use dispatch_okD [OF ok(1)] js in simp_all)
  moreover have "entries_ok ?js ((measurements S)(job_node (jobs S ! n) := Some n))"
    using assms(2) ok(2) by (auto simp: entries_ok_def nth_list_update)
  moreover have "answers_ok ?js (answers S)"
    using assms(2,3) ok(3) by (auto simp: answers_ok_def answer_ok_def nth_list_update)
  ultimately show ?thesis by (simp add: service_ok_def)
qed

lemma end_job_simps [simp]:
  "jobs (end_job p n S) = (jobs S)[n := (jobs S ! n)\<lparr>job_phase := p, receiving := False\<rparr>]" "answers (end_job p n S) = answers S"
  by (simp_all add: end_job_def drop_registration_def Let_def)

lemma measured_ok:
  assumes "service_ok S" and "n < length (jobs S)" and "job_phase (jobs S ! n) = Measuring"
  shows "service_ok (measured cancelled retired n S)"
proof (cases cancelled)
  case True
  let ?j = "jobs S ! n"
  have e: "service_ok (end_job Ended n S)" by (rule end_job_ok [OF assms(1,2)]) simp_all
  have "answers_ok ((jobs S)[n := ?j\<lparr>job_phase := Ended, receiving := False\<rparr>]) (answers S @ [(Some n, Cancelled (job_key ?j) (job_node ?j))])"
    by (rule answer_appended) (use assms in \<open>auto simp: service_ok_def answer_ok_def\<close>)
  then show ?thesis using True e by (auto simp: measured_def Let_def service_ok_def)
next
  case False
  show ?thesis
  proof (cases "measurements S (job_node (jobs S ! n))")
    case None
    then show ?thesis using False enter_ok [OF assms] by (simp add: measured_def Let_def)
  next
    case (Some m)
    let ?S = "set_job m (\<lambda>j. j\<lparr>receiving := False\<rparr>) S"
    have m: "m < length (jobs S)" "job_phase (jobs S ! m) = Forwarding"
      using entries_okD [of "jobs S" "measurements S", OF _ Some] assms(1) by (auto simp: service_ok_def)
    then have "m \<noteq> n" using assms(3) by auto
    moreover have "service_ok ?S" by (rule same_phase_ok [OF assms(1) m(1)]) simp_all
    ultimately show ?thesis using False Some enter_ok [of ?S n] assms(2,3) by (simp add: measured_def Let_def)
  qed
qed

lemma forward_reply_ok:
  assumes "service_ok S" and "n < length (jobs S)"
  shows "service_ok (forward_reply E live n S)"
proof (cases "job_phase (jobs S ! n)")
  case (Replying data)
  let ?j = "jobs S ! n" and ?ev = "if live \<or> job_route (jobs S ! n) = None then XFormEvent (job_key (jobs S ! n)) (measured_x_form E data) else Cancelled (job_key (jobs S ! n)) (job_node (jobs S ! n))"
  let ?js = "(jobs S)[n := ?j\<lparr>job_phase := Ended\<rparr>]"
  have ok: "dispatch_ok (jobs S) (pong_dispatch S)" "entries_ok (jobs S) (measurements S)" "answers_ok (jobs S) (answers S)"
    using assms(1) by (simp_all add: service_ok_def)
  have js: "job_slot (?js ! m) = job_slot (jobs S ! m)" "registered (?js ! m) = registered (jobs S ! m)"
    "receiving (?js ! m) = receiving (jobs S ! m)" "newest ?js m = newest (jobs S) m" if "m < length (jobs S)" for m
    using assms(2) Replying that by (auto simp: nth_list_update registered_def)
  have "dispatch_ok ?js (pong_dispatch S)" by (rule dispatch_okI) (use dispatch_okD [OF ok(1)] js in simp_all)
  moreover have "entries_ok ?js (measurements S)" using ok(2) assms(2) Replying by (auto simp: entries_ok_def nth_list_update)
  moreover have "answers_ok ?js (answers S @ [(Some n, ?ev)])"
    by (rule answer_appended) (use ok(3) assms(2) Replying in \<open>auto simp: answer_ok_def\<close>)
  ultimately show ?thesis using Replying by (simp add: forward_reply_def Let_def service_ok_def)
qed (use assms in \<open>simp_all add: forward_reply_def\<close>)

lemma dispatch_pong_ok:
  assumes "service_ok S"
  shows "service_ok (dispatch_pong data route src S)"
proof (cases "pong_dispatch S (route, src)")
  case None
  then show ?thesis using assms by (simp add: dispatch_pong_def)
next
  case (Some n)
  have d: "dispatch_ok (jobs S) (pong_dispatch S)" using assms by (simp add: service_ok_def)
  note n = dispatch_okD(1) [OF d Some]
  show ?thesis
  proof (cases "receiving (jobs S ! n)")
    case True
    have "service_ok (set_job n (\<lambda>j. j\<lparr>pongs := pongs j @ [data]\<rparr>) S)" by (rule same_phase_ok [OF assms]) (use n in simp_all)
    then show ?thesis using Some True assms by (simp add: dispatch_pong_def)
  next
    case False
    have "dispatch_ok (jobs S) ((pong_dispatch S)((route, src) := None))"
    proof (rule dispatch_okI)
      fix m assume m: "m < length (jobs S)" "registered (jobs S ! m)" "receiving (jobs S ! m)" "newest (jobs S) m"
      then have "pong_dispatch S (job_slot (jobs S ! m)) = Some m" by (rule dispatch_okD(2) [OF d])
      then show "((pong_dispatch S)((route, src) := None)) (job_slot (jobs S ! m)) = Some m" using Some False m(3) by auto
    qed (use dispatch_okD(1) [OF d] in \<open>simp split: if_splits\<close>)
    then show ?thesis using Some False assms by (simp add: dispatch_pong_def service_ok_def)
  qed
qed

lemma job_step_ok: "job_step E S S' \<Longrightarrow> service_ok S \<Longrightarrow> service_ok S'"
  by (induction rule: job_step.induct)
    (auto simp: forward_receive_def intro: measure_event_ok measured_ok end_job_ok forward_reply_ok dispatch_pong_ok same_phase_ok)

lemma job_reachable_ok: "job_reachable E S \<Longrightarrow> service_ok S"
  by (induction rule: job_reachable.induct)
    (simp_all add: job_step_ok, simp add: service_ok_def new_service_def dispatch_ok_def entries_ok_def answers_ok_def)

section \<open>A sample run\<close>

definition sample_service :: service where
  "sample_service = measure_event True (Some 5) \<lparr>key_session = replicate 8 1, key_incarnation = 0\<rparr>
     \<lparr>node_state = \<lparr>node_id = replicate 8 1, session_id = replicate 8 1,
        timeline = \<lparr>tempo = Tempo (Fin 120), beat_origin = Beats 0, time_origin = 0\<rparr>,
        start_stop_state = \<lparr>is_playing = False, beats = Beats 0, timestamp = 0\<rparr>\<rparr>,
      measurement_endpoint = Some (1, 2), audio_endpoint = None\<rparr> new_service"

definition sample_answered :: service where
  "sample_answered = forward_reply std_ext True 0 (forward_receive [] 0 (measured False False 0 sample_service))"

lemma sample_service_eq [simp]:
  "jobs sample_service = [\<lparr>job_key = \<lparr>key_session = replicate 8 1, key_incarnation = 0\<rparr>, job_node = replicate 8 1,
     job_route = Some 5, job_endpoint = (1, 2), job_phase = Measuring, pongs = [], receiving = True\<rparr>]"
  "measurements sample_service = (\<lambda>_. None)" "answers sample_service = []"
  by (simp_all add: sample_service_def measure_event_def measure_peer_def new_service_def)

lemma sample_service_reachable: "job_reachable std_ext sample_service"
  unfolding sample_service_def by (rule jr_step [OF jr_new js_start])

lemma sample_answered_reachable: "job_reachable std_ext sample_answered"
proof -
  have "job_reachable std_ext (measured False False 0 sample_service)"
    by (rule jr_step [OF sample_service_reachable js_measured]) simp_all
  then have "job_reachable std_ext (forward_receive [] 0 (measured False False 0 sample_service))"
    by (rule jr_step [OF _ js_receive]) (simp_all add: measured_def)
  then show ?thesis unfolding sample_answered_def
    by (rule jr_step [OF _ js_reply]) (simp add: forward_receive_def measured_def)
qed

lemma sample_answered_answers:
  "answers sample_answered = [(Some 0, XFormEvent \<lparr>key_session = replicate 8 1, key_incarnation = 0\<rparr> default_xform)]"
  by (simp add: sample_answered_def forward_reply_def forward_receive_def measured_def measured_x_form_def Let_def)

section \<open>Properties\<close>

text \<open>C31: A pong reaches the measurement that waits for it. However measurements of peers with the same or with different endpoints, over the same or
  different routes, start, end and are abandoned: a pong that a route receives from an endpoint is queued for the measurement started last for
  that endpoint over that route, as long as it still runs, has not hung up and has fewer than twenty pongs waiting, and reaches no other; what ends
  never removes the registration of a measurement that replaced it, and measurements over other routes do not count.\<close>

theorem pongs_reach_newest_measurement:
  assumes "job_reachable E S" and "n < length (jobs S)" and "registered (jobs S ! n)" and "receiving (jobs S ! n)"
    and "\<forall>m. n < m \<and> m < length (jobs S) \<longrightarrow> job_route (jobs S ! m) \<noteq> job_route (jobs S ! n) \<or> job_endpoint (jobs S ! m) \<noteq> job_endpoint (jobs S ! n)"
    and "length (pongs (jobs S ! n)) < 20"
  shows "jobs (dispatch_pong data (job_route (jobs S ! n)) (job_endpoint (jobs S ! n)) S)
           = (jobs S)[n := (jobs S ! n)\<lparr>pongs := pongs (jobs S ! n) @ [data]\<rparr>]"
proof -
  have "dispatch_ok (jobs S) (pong_dispatch S)" using job_reachable_ok [OF assms(1)] by (simp add: service_ok_def)
  moreover have "newest (jobs S) n" using assms(5) by (auto simp: newest_def job_slot_def)
  ultimately have "pong_dispatch S (job_slot (jobs S ! n)) = Some n" by (rule dispatch_okD(2) [OF _ assms(2-4)])
  then show ?thesis using assms(4,6) by (simp add: dispatch_pong_def job_slot_def)
qed

theorem pongs_reach_newest_measurement_witness:
  "pongs (jobs (dispatch_pong [7] (Some 5) (1, 2) sample_service) ! 0) = [[7]]"
  using pongs_reach_newest_measurement [OF sample_service_reachable, of 0 "[7]"] by (simp add: registered_def del: neq0_conv)

text \<open>C32: A measurement answers at most once, for the session it was started for. In every reachable state the answers of the measurements are from
  different ones; each has the key of its measurement, and for a cancelled one the peer that was measured; and a measurement that has
  answered has ended.\<close>

theorem measurements_answer_once:
  assumes "job_reachable E S"
  shows "distinct (filter (\<lambda>t. t \<noteq> None) (map fst (answers S)))
       \<and> (\<forall>n ev. (Some n, ev) \<in> set (answers S) \<longrightarrow> n < length (jobs S) \<and> job_phase (jobs S ! n) = Ended
            \<and> (ev = Cancelled (job_key (jobs S ! n)) (job_node (jobs S ! n)) \<or> (\<exists>x. ev = XFormEvent (job_key (jobs S ! n)) x)))"
  using job_reachable_ok [OF assms] unfolding service_ok_def answers_ok_def answer_ok_def by blast

theorem measurements_answer_once_witness: "job_phase (jobs sample_answered ! 0) = Ended"
  using measurements_answer_once [OF sample_answered_reachable] by (auto simp: sample_answered_answers)

end
