(* ===== verification/AudioWire.thy ===== *)
theory AudioWire
  imports Timeline Payload
begin

text \<open>
  The wire format of LinkAudio: \<open>src/link_audio/encoding.rs\<close>, \<open>messages.rs\<close> and \<open>payload.rs\<close>.

  A \<open>ByteStreamReader\<close> is the bytes that remain; reading returns the value and the rest. Writing appends. A
  \<open>String\<close> is its UTF-8 bytes. The trait \<open>Entry\<close> is the locale \<open>audio_entry\<close>, interpreted on
  every entry: a valid value is encoded to as many bytes as its header announces and decoded to itself.
\<close>

section \<open>Byte streams\<close>

datatype audio_error = RangeError string | InvalidMessage string | TooLarge nat nat

type_synonym 'a reader = "bytes \<Rightarrow> audio_error + 'a \<times> bytes"

definition take_bytes :: "nat \<Rightarrow> bytes reader" where
  "take_bytes n bs =
     (if length bs < n then Inl (RangeError ''parsing type from byte stream failed'')
      else Inr (take n bs, drop n bs))"

definition read_u8 :: "u8 reader" where
  "read_u8 bs = bind_res (take_bytes 1 bs) (\<lambda>(b, rest). Inr (b ! 0, rest))"

definition read_u16 :: "u16 reader" where
  "read_u16 bs = bind_res (take_bytes 2 bs) (\<lambda>(b, rest). Inr (word_of_nat (from_be [b ! 0, b ! 1]), rest))"

definition read_u32 :: "u32 reader" where
  "read_u32 bs =
     bind_res (take_bytes 4 bs) (\<lambda>(b, rest). Inr (word_of_nat (from_be [b ! 0, b ! 1, b ! 2, b ! 3]), rest))"

definition read_u64 :: "u64 reader" where
  "read_u64 bs = bind_res (take_bytes 8 bs) (\<lambda>(b, rest).
     Inr (word_of_nat (from_be [b ! 0, b ! 1, b ! 2, b ! 3, b ! 4, b ! 5, b ! 6, b ! 7]), rest))"

text \<open>The signed integers are the same words, read by \<open>sint\<close>.\<close>

abbreviation read_i16 :: "i16 reader" where "read_i16 \<equiv> read_u16"

abbreviation read_i64 :: "i64 reader" where "read_i64 \<equiv> read_u64"

abbreviation read_id :: "node_id reader" where "read_id \<equiv> take_bytes 8"

text \<open>
  UTF-8. One step reads a character, or the bytes that are replaced when there is none: the number of bytes and
  whether they are a character. A missing byte reads as zero.
\<close>

definition is_cont :: "u8 \<Rightarrow> bool" where
  "is_cont b \<longleftrightarrow> 128 \<le> b \<and> b \<le> 191"

definition byte_at :: "bytes \<Rightarrow> nat \<Rightarrow> u8" where
  "byte_at bs i = (if i < length bs then bs ! i else 0)"

definition utf8_step :: "bytes \<Rightarrow> nat \<times> bool" where
  "utf8_step bs =
     (let a = byte_at bs 0; b = byte_at bs 1; c = byte_at bs 2; d = byte_at bs 3
      in if a \<le> 127 then (1, True)
         else if 194 \<le> a \<and> a \<le> 223 then if is_cont b then (2, True) else (1, False)
         else if 224 \<le> a \<and> a \<le> 239
           then if \<not> (a = 224 \<and> 160 \<le> b \<and> b \<le> 191 \<or> 225 \<le> a \<and> a \<le> 236 \<and> is_cont b
                    \<or> a = 237 \<and> 128 \<le> b \<and> b \<le> 159 \<or> 238 \<le> a \<and> is_cont b) then (1, False)
                else if \<not> is_cont c then (2, False) else (3, True)
         else if 240 \<le> a \<and> a \<le> 244
           then if \<not> (a = 240 \<and> 144 \<le> b \<and> b \<le> 191 \<or> 241 \<le> a \<and> a \<le> 243 \<and> is_cont b
                    \<or> a = 244 \<and> 128 \<le> b \<and> b \<le> 143) then (1, False)
                else if \<not> is_cont c then (2, False)
                else if \<not> is_cont d then (3, False) else (4, True)
         else (1, False))"

lemma utf8_step_pos: "0 < fst (utf8_step bs)"
  by (simp add: utf8_step_def Let_def)

function valid_utf8 :: "bytes \<Rightarrow> bool" where
  "valid_utf8 bs =
     (if bs = [] then True
      else case utf8_step bs of (n, ok) \<Rightarrow> ok \<and> valid_utf8 (drop n bs))"
  by pat_completeness auto
termination by (relation "measure length") (use utf8_step_pos in \<open>auto simp: prod_eq_iff\<close>)

text \<open>\<open>String::from_utf8_lossy\<close>: what is no character becomes U+FFFD.\<close>

function utf8_lossy :: "bytes \<Rightarrow> bytes" where
  "utf8_lossy bs =
     (if bs = [] then []
      else case utf8_step bs of (n, ok) \<Rightarrow> (if ok then take n bs else [239, 191, 189]) @ utf8_lossy (drop n bs))"
  by pat_completeness auto
termination by (relation "measure length") (use utf8_step_pos in \<open>auto simp: prod_eq_iff\<close>)

declare valid_utf8.simps [simp del] utf8_lossy.simps [simp del]

definition read_string :: "bytes reader" where
  "read_string bs =
     bind_res (read_u32 bs) (\<lambda>(len, rest).
     bind_res (take_bytes (unat len) rest) (\<lambda>(b, rest). Inr (utf8_lossy b, rest)))"

fun read_items :: "'a reader \<Rightarrow> nat \<Rightarrow> 'a list reader" where
  "read_items f 0 bs = Inr ([], bs)"
| "read_items f (Suc n) bs =
     (if bs = [] then Inr ([], bs)
      else bind_res (f bs) (\<lambda>(x, rest). bind_res (read_items f n rest) (\<lambda>(xs, rest). Inr (x # xs, rest))))"

definition read_vec :: "'a reader \<Rightarrow> 'a list reader" where
  "read_vec f bs = bind_res (read_u32 bs) (\<lambda>(n, rest). read_items f (unat n) rest)"

definition write_u16 :: "u16 \<Rightarrow> bytes" where
  "write_u16 v = be_bytes 2 (unat v)"

definition write_u32 :: "u32 \<Rightarrow> bytes" where
  "write_u32 v = be_bytes 4 (unat v)"

definition write_u64 :: "u64 \<Rightarrow> bytes" where
  "write_u64 v = be_bytes 8 (unat v)"

definition write_string :: "bytes \<Rightarrow> bytes" where
  "write_string s = write_u32 (word_of_nat (length s)) @ s"

definition size_of_string :: "bytes \<Rightarrow> u32" where
  "size_of_string s = 4 + word_of_nat (length s)"

section \<open>Messages\<close>

abbreviation AUDIO_MAX_MESSAGE_SIZE :: nat where "AUDIO_MAX_MESSAGE_SIZE \<equiv> 1200"
abbreviation AUDIO_HEADER_SIZE :: nat where "AUDIO_HEADER_SIZE \<equiv> 24"
abbreviation MAX_PAYLOAD_SIZE :: nat where "MAX_PAYLOAD_SIZE \<equiv> AUDIO_MAX_MESSAGE_SIZE - AUDIO_HEADER_SIZE"
abbreviation MAX_NAME_SIZE :: nat where "MAX_NAME_SIZE \<equiv> 256"

definition AUDIO_PROTOCOL_HEADER :: bytes where
  "AUDIO_PROTOCOL_HEADER = [99, 104, 110, 110, 108, 115, 118, 1]"

record audio_header =
  a_type :: u8
  a_ttl :: u8
  a_group :: u16
  a_ident :: node_id

definition encode_audio_header :: "audio_header \<Rightarrow> bytes" where
  "encode_audio_header h = [a_type h, a_ttl h] @ write_u16 (a_group h) @ a_ident h"

definition decode_audio_header :: "audio_header reader" where
  "decode_audio_header bs =
     bind_res (read_u8 bs) (\<lambda>(t, bs).
     bind_res (read_u8 bs) (\<lambda>(l, bs).
     bind_res (read_u16 bs) (\<lambda>(g, bs).
     bind_res (read_id bs) (\<lambda>(i, bs).
       Inr (\<lparr>a_type = t, a_ttl = l, a_group = g, a_ident = i\<rparr>, bs)))))"

definition encode_audio_message :: "node_id \<Rightarrow> u8 \<Rightarrow> u8 \<Rightarrow> bytes \<Rightarrow> audio_error + bytes" where
  "encode_audio_message sender t kind payload =
     (let header = \<lparr>a_type = kind, a_ttl = t, a_group = 0, a_ident = sender\<rparr>;
          message_size = 8 + 12 + length payload
      in if message_size > AUDIO_MAX_MESSAGE_SIZE then Inl (TooLarge message_size AUDIO_MAX_MESSAGE_SIZE)
         else Inr (AUDIO_PROTOCOL_HEADER @ encode_audio_header header @ payload))"

definition audio_buffer_message :: "node_id \<Rightarrow> bytes \<Rightarrow> audio_error + bytes" where
  "audio_buffer_message sender payload = encode_audio_message sender 0 6 payload"

definition parse_audio_header :: "bytes \<Rightarrow> audio_error + audio_header \<times> nat" where
  "parse_audio_header data =
     (if length data < 20 then Inl (RangeError ''message shorter than header'')
      else if take 8 data \<noteq> AUDIO_PROTOCOL_HEADER then Inl (InvalidMessage ''unexpected protocol header'')
      else bind_res (decode_audio_header (take 12 (drop 8 data))) (\<lambda>(header, _). Inr (header, 20)))"

section \<open>Entries\<close>

definition encode_audio_entry :: "u32 \<Rightarrow> ('a \<Rightarrow> u32) \<Rightarrow> ('a \<Rightarrow> bytes) \<Rightarrow> 'a \<Rightarrow> bytes" where
  "encode_audio_entry k body_size encode_body v = write_u32 k @ write_u32 (body_size v) @ encode_body v"

function parse_entries ::
  "(u32 \<Rightarrow> bytes \<Rightarrow> 's \<Rightarrow> audio_error + 's) \<Rightarrow> bytes \<Rightarrow> 's \<Rightarrow> audio_error + 's" where
  "parse_entries visit data s =
     (if length data < 8 then Inr s
      else case read_u32 data of
        Inl e \<Rightarrow> Inl e
      | Inr (k, data1) \<Rightarrow>
          (case read_u32 data1 of
             Inl e \<Rightarrow> Inl e
           | Inr (n, data2) \<Rightarrow>
               (case take_bytes (unat n) data2 of
                  Inl e \<Rightarrow> Inl e
                | Inr (body, rest) \<Rightarrow>
                    (case visit k body s of Inl e \<Rightarrow> Inl e | Inr s \<Rightarrow> parse_entries visit rest s))))"
  by pat_completeness auto
termination
  by (relation "measure (\<lambda>(_, data, _). length data)")
    (auto simp: read_u32_def take_bytes_def result_simps split: if_splits prod.splits)

declare parse_entries.simps [simp del]

text \<open>Names are cut at the last character boundary within 256 bytes.\<close>

definition is_char_boundary :: "bytes \<Rightarrow> nat \<Rightarrow> bool" where
  "is_char_boundary s i \<longleftrightarrow> i = 0 \<or> i = length s \<or> i < length s \<and> \<not> is_cont (s ! i)"

fun char_boundary_before :: "bytes \<Rightarrow> nat \<Rightarrow> nat" where
  "char_boundary_before s 0 = 0"
| "char_boundary_before s (Suc e) = (if is_char_boundary s (Suc e) then Suc e else char_boundary_before s e)"

definition truncate_name :: "bytes \<Rightarrow> bytes" where
  "truncate_name s =
     (if length s \<le> MAX_NAME_SIZE then s else take (char_boundary_before s MAX_NAME_SIZE) s)"

record channel_announcement =
  ca_name :: bytes
  ca_id :: node_id

definition announcement_size :: "channel_announcement \<Rightarrow> u32" where
  "announcement_size c = size_of_string (ca_name c) + 8"

definition encode_announcement :: "channel_announcement \<Rightarrow> bytes" where
  "encode_announcement c = write_string (ca_name c) @ ca_id c"

definition decode_announcement :: "channel_announcement reader" where
  "decode_announcement bs =
     bind_res (read_string bs) (\<lambda>(n, bs). bind_res (read_id bs) (\<lambda>(i, bs). Inr (\<lparr>ca_name = n, ca_id = i\<rparr>, bs)))"

definition announcements_size :: "channel_announcement list \<Rightarrow> u32" where
  "announcements_size cs = 4 + sum_list (map announcement_size cs)"

definition encode_announcements :: "channel_announcement list \<Rightarrow> bytes" where
  "encode_announcements cs = write_u32 (word_of_nat (length cs)) @ concat (map encode_announcement cs)"

definition decode_announcements :: "channel_announcement list reader" where
  "decode_announcements = read_vec decode_announcement"

text \<open>A list of channels that have gone away is the list of their identifiers.\<close>

definition byes_size :: "node_id list \<Rightarrow> u32" where
  "byes_size ids = 4 + sum_list (map (\<lambda>_. 8) ids)"

definition encode_byes :: "node_id list \<Rightarrow> bytes" where
  "encode_byes ids = write_u32 (word_of_nat (length ids)) @ concat ids"

definition decode_byes :: "node_id list reader" where
  "decode_byes = read_vec read_id"

definition encode_host_time :: "ext \<Rightarrow> duration \<Rightarrow> bytes" where
  "encode_host_time E t =
     write_u64 (word_of_int (case num_microseconds E t of None \<Rightarrow> 0 | Some m \<Rightarrow> m))"

definition decode_host_time :: "ext \<Rightarrow> duration reader" where
  "decode_host_time E bs = bind_res (read_i64 bs) (\<lambda>(m, bs). Inr (of_microseconds E (sint m), bs))"

definition decode_peer_info :: "bytes reader" where
  "decode_peer_info = read_string"

section \<open>Audio buffers\<close>

datatype codec = InvalidCodec | PcmI16

definition codec_to_u8 :: "codec \<Rightarrow> u8" where
  "codec_to_u8 c = (case c of InvalidCodec \<Rightarrow> 0 | PcmI16 \<Rightarrow> 1)"

definition codec_from_u8 :: "u8 \<Rightarrow> codec" where
  "codec_from_u8 v = (if v = 1 then PcmI16 else InvalidCodec)"

record chunk =
  ch_count :: u64
  ch_frames :: u16
  ch_begin :: beats
  ch_tempo :: tempo

abbreviation CHUNK_SIZE :: nat where "CHUNK_SIZE \<equiv> 26"

definition encode_chunk :: "ext \<Rightarrow> chunk \<Rightarrow> bytes" where
  "encode_chunk E c =
     write_u64 (ch_count c) @ write_u16 (ch_frames c) @ write_u64 (beats_value (ch_begin c))
     @ write_u64 (word_of_int (micros E (micros_per_beat E (ch_tempo c))))"

definition decode_chunk :: "ext \<Rightarrow> chunk reader" where
  "decode_chunk E bs =
     bind_res (read_u64 bs) (\<lambda>(n, bs).
     bind_res (read_u16 bs) (\<lambda>(f, bs).
     bind_res (read_i64 bs) (\<lambda>(b, bs).
     bind_res (read_i64 bs) (\<lambda>(m, bs).
       let t = (if m = 0 then Tempo (Fin 0) else tempo_from E (of_microseconds E (sint m)))
       in Inr (\<lparr>ch_count = n, ch_frames = f, ch_begin = from_microbeats b, ch_tempo = t\<rparr>, bs)))))"

record audio_buffer =
  ab_channel :: node_id
  ab_session :: node_id
  ab_chunks :: "chunk list"
  ab_codec :: codec
  ab_rate :: u32
  ab_channels :: u8
  ab_bytes :: bytes

abbreviation NON_AUDIO_BYTES :: nat where "NON_AUDIO_BYTES \<equiv> 50"
abbreviation BUFFER_MAX_AUDIO_BYTES :: nat where "BUFFER_MAX_AUDIO_BYTES \<equiv> MAX_PAYLOAD_SIZE - NON_AUDIO_BYTES"

text \<open>The sum of the frame counts, a \<open>u32\<close>.\<close>

definition num_frames :: "chunk list \<Rightarrow> u32" where
  "num_frames cs = sum_list (map (\<lambda>c. ucast (ch_frames c)) cs)"

definition audio_buffer_size :: "audio_buffer \<Rightarrow> u32" where
  "audio_buffer_size b =
     8 + 8 + 4 + word_of_nat (length (ab_chunks b)) * 26 + 1 + 4 + 1 + 2 + word_of_nat (length (ab_bytes b))"

definition encode_audio_buffer :: "ext \<Rightarrow> audio_buffer \<Rightarrow> bytes" where
  "encode_audio_buffer E b =
     ab_channel b @ ab_session b @ write_u32 (word_of_nat (length (ab_chunks b)))
     @ concat (map (encode_chunk E) (ab_chunks b)) @ [codec_to_u8 (ab_codec b)] @ write_u32 (ab_rate b)
     @ [ab_channels b] @ write_u16 (word_of_nat (length (ab_bytes b))) @ ab_bytes b"

definition decode_audio_buffer :: "ext \<Rightarrow> audio_buffer reader" where
  "decode_audio_buffer E bs =
     bind_res (read_id bs) (\<lambda>(channel, bs).
     bind_res (read_id bs) (\<lambda>(session, bs).
     bind_res (read_vec (decode_chunk E) bs) (\<lambda>(chunks, bs).
       if chunks = [] then Inl (InvalidMessage ''audio buffer has no chunks'')
       else if \<exists>c\<in>set chunks. \<not> is_finite (bpm (ch_tempo c)) \<or> f64_le (bpm (ch_tempo c)) (Fin 0)
         then Inl (InvalidMessage ''invalid tempo'')
       else
         bind_res (read_u8 bs) (\<lambda>(c, bs).
           if codec_from_u8 c \<noteq> PcmI16 then Inl (InvalidMessage ''unknown codec'')
           else
             bind_res (read_u32 bs) (\<lambda>(rate, bs).
               if rate = 0 then Inl (InvalidMessage ''invalid sample rate'')
               else
                 bind_res (read_u8 bs) (\<lambda>(channels, bs).
                   if channels \<noteq> 1 \<and> channels \<noteq> 2 then Inl (InvalidMessage ''invalid channel count'')
                   else
                     bind_res (read_u16 bs) (\<lambda>(num_bytes, bs).
                       if unat num_bytes > BUFFER_MAX_AUDIO_BYTES
                         then Inl (RangeError ''byte count exceeds maximum'')
                       else if unat (num_frames chunks) * unat channels * 2 \<noteq> unat num_bytes
                         then Inl (InvalidMessage ''byte count / frame count mismatch'')
                       else
                         bind_res (take_bytes (unat num_bytes) bs) (\<lambda>(b, bs).
                           Inr (\<lparr>ab_channel = channel, ab_session = session, ab_chunks = chunks, ab_codec = PcmI16,
                                 ab_rate = rate, ab_channels = channels, ab_bytes = b\<rparr>, bs))))))))) "

definition decode_raw :: "ext \<Rightarrow> bytes \<Rightarrow> audio_error + audio_buffer" where
  "decode_raw E bs = bind_res (decode_audio_buffer E bs) (\<lambda>(b, _). Inr b)"

section \<open>Announcements and requests\<close>

record peer_announcement =
  pa_node :: node_id
  pa_session :: session_id
  pa_name :: bytes
  pa_channels :: "channel_announcement list"

definition announcement_payload :: "peer_announcement \<Rightarrow> bytes" where
  "announcement_payload a =
     encode_audio_entry (key_of ''sess'') (\<lambda>_. 8) (\<lambda>s. s) (pa_session a)
     @ encode_audio_entry (key_of ''__pi'') size_of_string write_string (pa_name a)
     @ encode_audio_entry (key_of ''auca'') announcements_size encode_announcements (pa_channels a)"

definition announcement_visit :: "u32 \<Rightarrow> bytes \<Rightarrow> peer_announcement \<Rightarrow> audio_error + peer_announcement" where
  "announcement_visit k body a =
     (if k = key_of ''sess'' then bind_res (read_id body) (\<lambda>(s, _). Inr (a\<lparr>pa_session := s\<rparr>))
      else if k = key_of ''__pi'' then bind_res (decode_peer_info body) (\<lambda>(n, _). Inr (a\<lparr>pa_name := n\<rparr>))
      else if k = key_of ''auca'' then bind_res (decode_announcements body) (\<lambda>(cs, _). Inr (a\<lparr>pa_channels := cs\<rparr>))
      else Inr a)"

definition announcement_from_payload :: "node_id \<Rightarrow> bytes \<Rightarrow> audio_error + peer_announcement" where
  "announcement_from_payload node data =
     parse_entries announcement_visit data
       \<lparr>pa_node = node, pa_session = replicate 8 0, pa_name = [], pa_channels = []\<rparr>"

record channel_request =
  cr_peer :: node_id
  cr_channel :: node_id

definition request_payload :: "channel_request \<Rightarrow> bytes" where
  "request_payload r = encode_audio_entry (key_of ''chid'') (\<lambda>_. 8) (\<lambda>s. s) (cr_channel r)"

definition request_visit :: "u32 \<Rightarrow> bytes \<Rightarrow> channel_request \<Rightarrow> audio_error + channel_request" where
  "request_visit k body r =
     (if k = key_of ''chid'' then bind_res (read_id body) (\<lambda>(i, _). Inr (r\<lparr>cr_channel := i\<rparr>)) else Inr r)"

definition request_from_payload :: "node_id \<Rightarrow> bytes \<Rightarrow> audio_error + channel_request" where
  "request_from_payload p data = parse_entries request_visit data \<lparr>cr_peer = p, cr_channel = replicate 8 0\<rparr>"

section \<open>Reading what was written\<close>

lemma take_bytes_append [simp]: "length xs = n \<Longrightarrow> take_bytes n (xs @ rest) = Inr (xs, rest)"
  by (simp add: take_bytes_def)

lemma read_u8_Cons [simp]: "read_u8 (b # rest) = Inr (b, rest)"
  by (simp add: read_u8_def take_bytes_def)

lemma list8_take: "length (xs :: bytes) = 8 \<Longrightarrow>
    [xs ! 0, xs ! 1, xs ! 2, xs ! 3, xs ! 4, xs ! 5, xs ! 6, xs ! 7] = xs"
  by (rule nth_equalityI) (auto simp: nth_Cons' less_Suc_eq numeral_eq_Suc)

lemma read_write [simp]:
  "read_u16 (write_u16 v @ rest) = Inr (v, rest)"
  "read_u32 (write_u32 w @ rest) = Inr (w, rest)"
  "read_u64 (write_u64 x @ rest) = Inr (x, rest)"
proof -
  show "read_u16 (write_u16 v @ rest) = Inr (v, rest)"
    using u8_list_take(1) [of "be_bytes 2 (unat v)"]
    by (simp add: read_u16_def write_u16_def del: One_nat_def be_bytes.simps)
  show "read_u32 (write_u32 w @ rest) = Inr (w, rest)"
    using u8_list_take(2) [of "be_bytes 4 (unat w)"]
    by (simp add: read_u32_def write_u32_def del: One_nat_def be_bytes.simps)
  show "read_u64 (write_u64 x @ rest) = Inr (x, rest)"
    using list8_take [of "be_bytes 8 (unat x)"]
    by (simp add: read_u64_def write_u64_def del: One_nat_def be_bytes.simps)
qed

lemma length_write [simp]:
  "length (write_u16 v) = 2" "length (write_u32 w) = 4" "length (write_u64 x) = 8"
  by (simp_all add: write_u16_def write_u32_def write_u64_def)

section \<open>Strings\<close>

lemma utf8_step_ok:
  assumes "utf8_step bs = (n, True)" and "bs \<noteq> []"
  shows "n \<le> length bs" and "n \<le> 4" and "\<And>i. 0 < i \<Longrightarrow> i < n \<Longrightarrow> is_cont (bs ! i)" and "\<not> is_cont (bs ! 0)"
proof -
  have at: "is_cont (byte_at bs i) \<Longrightarrow> i < length bs \<and> is_cont (bs ! i)" for i
    by (auto simp: byte_at_def is_cont_def split: if_splits)
  have low: "(x :: u8) \<le> 159 \<Longrightarrow> x \<le> 191" "x \<le> 143 \<Longrightarrow> x \<le> 191" for x by (auto elim: order_trans)
  have cont: "160 \<le> x \<Longrightarrow> x \<le> 191 \<Longrightarrow> is_cont x" "128 \<le> x \<Longrightarrow> x \<le> 159 \<Longrightarrow> is_cont x"
    "144 \<le> x \<Longrightarrow> x \<le> 191 \<Longrightarrow> is_cont x" "128 \<le> x \<Longrightarrow> x \<le> 143 \<Longrightarrow> is_cont x" for x
    by (auto simp: is_cont_def intro: low elim: order_trans [rotated])
  have "(n = 1 \<or> n = 2 \<and> is_cont (byte_at bs 1) \<or> n = 3 \<and> is_cont (byte_at bs 1) \<and> is_cont (byte_at bs 2)
      \<or> n = 4 \<and> is_cont (byte_at bs 1) \<and> is_cont (byte_at bs 2) \<and> is_cont (byte_at bs 3))"
    using assms(1) cont by (auto simp: utf8_step_def Let_def split: if_splits)
  then show "n \<le> length bs" "n \<le> 4" "\<And>i. 0 < i \<Longrightarrow> i < n \<Longrightarrow> is_cont (bs ! i)"
    using at assms(2) by (auto simp: less_Suc_eq numeral_eq_Suc Suc_le_eq)
  have "byte_at bs 0 = bs ! 0" using assms(2) by (simp add: byte_at_def)
  then show "\<not> is_cont (bs ! 0)"
    using assms(1) by (auto simp: utf8_step_def Let_def is_cont_def word_le_nat_alt split: if_splits)
qed

text \<open>A character is recognised by its own bytes.\<close>

lemma utf8_step_local:
  assumes "utf8_step s = (n, True)" and eq: "\<And>j. j < n \<Longrightarrow> byte_at t j = byte_at s j"
  shows "utf8_step t = (n, True)"
proof -
  let ?a = "byte_at s 0"
  have a: "byte_at t 0 = ?a" using utf8_step_pos [of s] assms by simp
  consider "?a \<le> 127" | "\<not> ?a \<le> 127" "194 \<le> ?a \<and> ?a \<le> 223"
    | "\<not> ?a \<le> 127" "\<not> (194 \<le> ?a \<and> ?a \<le> 223)" "224 \<le> ?a \<and> ?a \<le> 239"
    | "\<not> ?a \<le> 127" "\<not> (194 \<le> ?a \<and> ?a \<le> 223)" "\<not> (224 \<le> ?a \<and> ?a \<le> 239)" "240 \<le> ?a \<and> ?a \<le> 244"
    | "\<not> ?a \<le> 127" "\<not> (194 \<le> ?a \<and> ?a \<le> 223)" "\<not> (224 \<le> ?a \<and> ?a \<le> 239)" "\<not> (240 \<le> ?a \<and> ?a \<le> 244)"
    by blast
  then show ?thesis
  proof cases
    case 1
    with assms(1) a show ?thesis by (simp add: utf8_step_def)
  next
    case 2
    then have "n = 2" using assms(1) by (simp add: utf8_step_def Let_def split: if_splits)
    then have e: "byte_at t 1 = byte_at s 1" using eq [of 1] by simp_all
    have "utf8_step t = utf8_step s" unfolding utf8_step_def Let_def a e using 2 by (simp only: if_True if_False simp_thms)
    with assms(1) show ?thesis by simp
  next
    case 3
    then have "n = 3" using assms(1) by (simp add: utf8_step_def Let_def split: if_splits)
    then have e: "byte_at t 1 = byte_at s 1" "byte_at t 2 = byte_at s 2" using eq [of 1] eq [of 2] by simp_all
    have "utf8_step t = utf8_step s" unfolding utf8_step_def Let_def a e using 3 by (simp only: if_True if_False simp_thms)
    with assms(1) show ?thesis by simp
  next
    case 4
    then have "n = 4" using assms(1) by (simp add: utf8_step_def Let_def split: if_splits)
    then have e: "byte_at t 1 = byte_at s 1" "byte_at t 2 = byte_at s 2" "byte_at t 3 = byte_at s 3" using eq [of 1] eq [of 2] eq [of 3] by simp_all
    have "utf8_step t = utf8_step s" unfolding utf8_step_def Let_def a e using 4 by (simp only: if_True if_False simp_thms)
    with assms(1) show ?thesis by simp
  next
    case 5
    with assms(1) show ?thesis by (simp add: utf8_step_def Let_def)
  qed
qed

lemma valid_utf8_lossy: "valid_utf8 bs \<Longrightarrow> utf8_lossy bs = bs"
proof (induction bs rule: valid_utf8.induct)
  case (1 bs)
  show ?case
  proof (cases "bs = []")
    case True
    then show ?thesis by (simp add: utf8_lossy.simps [of "[]"])
  next
    case False
    obtain n where n: "utf8_step bs = (n, True)" "valid_utf8 (drop n bs)"
      using "1.prems" False by (simp add: valid_utf8.simps [of bs] split: prod.splits)
    then have "utf8_lossy (drop n bs) = drop n bs" using "1.IH" False by metis
    then show ?thesis using n False by (simp add: utf8_lossy.simps [of bs])
  qed
qed

text \<open>Cutting a valid string at a character boundary leaves a valid string, and boundaries are at most four apart.\<close>

lemma valid_utf8_take:
  assumes "valid_utf8 s" and "i \<le> length s" and "is_char_boundary s i"
  shows "valid_utf8 (take i s)"
  using assms
proof (induction s arbitrary: i rule: valid_utf8.induct)
  case (1 s)
  show ?case
  proof (cases "s = [] \<or> i = 0")
    case True
    then show ?thesis by (auto simp: valid_utf8.simps [of "[]"])
  next
    case False
    obtain n where n: "utf8_step s = (n, True)" "valid_utf8 (drop n s)"
      using "1.prems"(1) False by (simp add: valid_utf8.simps [of s] split: prod.splits)
    note u = utf8_step_ok [OF n(1)]
    have ni: "n \<le> i"
    proof (rule ccontr)
      assume "\<not> n \<le> i"
      then have "is_cont (s ! i)" "i < length s" using u(1,3) False by auto
      then show False using "1.prems"(3) False by (auto simp: is_char_boundary_def)
    qed
    have "is_char_boundary (drop n s) (i - n)" using "1.prems"(2,3) ni u(1) False
      by (auto simp: is_char_boundary_def)
    then have v: "valid_utf8 (take (i - n) (drop n s))"
      using "1.IH" [OF _ n(1) [symmetric]] False n(2) "1.prems"(2) by auto
    have "utf8_step (take i s) = (n, True)"
      by (rule utf8_step_local [OF n(1)]) (use ni u(1) False in \<open>simp add: byte_at_def\<close>)
    then show ?thesis
      using v False by (simp add: valid_utf8.simps [of "take i s"] drop_take)
  qed
qed

lemma boundary_near:
  assumes "valid_utf8 s" and "e \<le> length s"
  shows "\<exists>b. b \<le> e \<and> e \<le> b + 3 \<and> is_char_boundary s b"
  using assms
proof (induction s arbitrary: e rule: valid_utf8.induct)
  case (1 s)
  show ?case
  proof (cases "s = []")
    case True
    then show ?thesis using "1.prems" by (auto simp: is_char_boundary_def)
  next
    case False
    obtain n where n: "utf8_step s = (n, True)" "valid_utf8 (drop n s)"
      using "1.prems"(1) False by (simp add: valid_utf8.simps [of s] split: prod.splits)
    note u = utf8_step_ok [OF n(1) False]
    show ?thesis
    proof (cases "e < n")
      case True
      then show ?thesis using u(2) by (intro exI [of _ 0]) (simp add: is_char_boundary_def)
    next
      case False
      have "e - n \<le> length (drop n s)" using "1.prems"(2) by simp
      then obtain b where b: "b \<le> e - n" "e - n \<le> b + 3" "is_char_boundary (drop n s) b"
        using "1.IH" [OF \<open>s \<noteq> []\<close> n(1) [symmetric] n(2), of "e - n"] by blast
      have "is_char_boundary s (n + b)"
      proof (cases "b = 0 \<and> n < length s")
        case True
        then have d: "drop n s \<noteq> []" by simp
        obtain m where m: "utf8_step (drop n s) = (m, True)"
          using n(2) d by (simp add: valid_utf8.simps [of "drop n s"] split: prod.splits)
        then have "\<not> is_cont (s ! n)" using utf8_step_ok(4) [OF m d] True by simp
        then show ?thesis using True by (simp add: is_char_boundary_def)
      qed (use b(3) u(1) in \<open>auto simp: is_char_boundary_def\<close>)
      then show ?thesis using b False by (intro exI [of _ "n + b"]) auto
    qed
  qed
qed

lemma char_boundary_before_greatest:
  "is_char_boundary s (char_boundary_before s e)" "char_boundary_before s e \<le> e"
  "b \<le> e \<Longrightarrow> is_char_boundary s b \<Longrightarrow> b \<le> char_boundary_before s e"
proof -
  show "is_char_boundary s (char_boundary_before s e)" by (induction e) (auto simp: is_char_boundary_def)
  show "char_boundary_before s e \<le> e" by (induction e) auto
  show "b \<le> e \<Longrightarrow> is_char_boundary s b \<Longrightarrow> b \<le> char_boundary_before s e"
    by (induction e) (auto simp: le_Suc_eq)
qed

section \<open>The contract of an entry\<close>

locale audio_entry =
  fixes k :: u32 and body_size :: "'a \<Rightarrow> u32" and encode_body :: "'a \<Rightarrow> bytes"
    and decode_body :: "'a reader" and good :: "'a \<Rightarrow> bool"
  assumes size: "good v \<Longrightarrow> unat (body_size v) = length (encode_body v)"
    and round_trip: "good v \<Longrightarrow> decode_body (encode_body v @ rest) = Inr (v, rest)"
begin

lemma decode_encoded: "good v \<Longrightarrow> decode_body (encode_body v) = Inr (v, [])"
  using round_trip [of v "[]"] by simp

text \<open>A payload that starts with an entry shows its body to the visitor and goes on behind it.\<close>

lemma parse_entry:
  assumes "good v"
  shows "parse_entries visit (encode_audio_entry k body_size encode_body v @ rest) s
           = (case visit k (encode_body v) s of Inl e \<Rightarrow> Inl e | Inr s \<Rightarrow> parse_entries visit rest s)"
  by (subst parse_entries.simps) (simp add: encode_audio_entry_def size [OF assms])

lemma entry_size: "good v \<Longrightarrow> length (encode_audio_entry k body_size encode_body v) = 8 + unat (body_size v)"
  by (simp add: encode_audio_entry_def size)

end

text \<open>An identifier is eight bytes.\<close>

abbreviation is_id :: "bytes \<Rightarrow> bool" where "is_id i \<equiv> length i = 8"

definition wire_string :: "bytes \<Rightarrow> bool" where
  "wire_string s \<longleftrightarrow> valid_utf8 s \<and> length s + 4 < 2 ^ 32"

lemma unat_small: "n < 2 ^ 32 \<Longrightarrow> unat (word_of_nat n :: u32) = n" "n < 2 ^ 16 \<Longrightarrow> unat (word_of_nat n :: u16) = n"
  by (simp_all add: unat_of_nat)

lemma size_of_string_eq: "size_of_string s = word_of_nat (length (write_string s))"
  by (simp add: size_of_string_def write_string_def)

interpretation id_entry: audio_entry k "\<lambda>_. 8" "\<lambda>i. i" read_id is_id for k
  by unfold_locales simp_all

interpretation name_entry: audio_entry k size_of_string write_string read_string wire_string for k
proof
  fix v rest
  assume v: "wire_string v"
  then show "unat (size_of_string v) = length (write_string v)"
    unfolding size_of_string_eq by (subst unat_small) (simp_all add: wire_string_def write_string_def)
  show "read_string (write_string v @ rest) = Inr (v, rest)"
    using v by (simp add: read_string_def write_string_def unat_small wire_string_def valid_utf8_lossy)
qed

text \<open>A vector is read back when each of its items is, and none of them is empty.\<close>

lemma read_items_map:
  assumes "\<And>v rest. v \<in> set vs \<Longrightarrow> f (g v @ rest) = Inr (v, rest)" and "\<And>v. v \<in> set vs \<Longrightarrow> g v \<noteq> []"
  shows "read_items f (length vs) (concat (map g vs) @ rest) = Inr (vs, rest)"
  using assms by (induction vs) simp_all

lemma read_vec_map:
  assumes "\<And>v rest. v \<in> set vs \<Longrightarrow> f (g v @ rest) = Inr (v, rest)" and "\<And>v. v \<in> set vs \<Longrightarrow> g v \<noteq> []"
    and "length vs < 2 ^ 32"
  shows "read_vec f (write_u32 (word_of_nat (length vs)) @ concat (map g vs) @ rest) = Inr (vs, rest)"
  using read_items_map [OF assms(1,2)] assms(3) by (simp add: read_vec_def unat_small)

lemma length_le_concat: "(\<And>v. v \<in> set vs \<Longrightarrow> g v \<noteq> []) \<Longrightarrow> length vs \<le> length (concat (map g vs))"
proof (induction vs)
  case (Cons v vs)
  then show ?case by (cases "g v") auto
qed simp

definition wire_announcements :: "channel_announcement list \<Rightarrow> bool" where
  "wire_announcements cs \<longleftrightarrow>
     (\<forall>c\<in>set cs. valid_utf8 (ca_name c) \<and> is_id (ca_id c)) \<and> length (encode_announcements cs) < 2 ^ 32"

lemma announcements_size_eq:
  assumes "\<forall>c\<in>set cs. is_id (ca_id c)"
  shows "announcements_size cs = word_of_nat (length (encode_announcements cs))"
proof -
  have "sum_list (map announcement_size cs) = word_of_nat (length (concat (map encode_announcement cs)))"
    using assms
    by (induction cs) (simp_all add: announcement_size_def encode_announcement_def size_of_string_eq)
  then show ?thesis by (simp add: announcements_size_def encode_announcements_def)
qed

lemma encode_announcement_nonempty [simp]: "encode_announcement c \<noteq> []"
  by (metis append_is_Nil_conv encode_announcement_def length_write(2) list.size(3) write_string_def zero_neq_numeral)

interpretation channels_entry: audio_entry k announcements_size encode_announcements decode_announcements
  wire_announcements for k
proof
  fix v rest
  assume v: "wire_announcements v"
  show "unat (announcements_size v) = length (encode_announcements v)"
    using v by (simp add: announcements_size_eq wire_announcements_def unat_small)
  have item: "wire_string (ca_name c) \<and> is_id (ca_id c)" if "c \<in> set v" for c
  proof -
    have "length (encode_announcement c) \<le> length (concat (map encode_announcement v))"
      using that by (auto simp: length_concat intro!: member_le_sum_list)
    then show ?thesis
      using v that by (auto simp: wire_announcements_def wire_string_def encode_announcements_def
          encode_announcement_def write_string_def)
  qed
  have "length v \<le> length (concat (map encode_announcement v))" by (rule length_le_concat) simp
  then have n: "length v < 2 ^ 32" using v by (simp add: wire_announcements_def encode_announcements_def)
  have "decode_announcement (encode_announcement c @ rest) = Inr (c, rest)" if "c \<in> set v" for c rest
    using item [OF that]
    by (simp add: decode_announcement_def encode_announcement_def name_entry.round_trip)
  then show "decode_announcements (encode_announcements v @ rest) = Inr (v, rest)"
    unfolding decode_announcements_def encode_announcements_def
    using read_vec_map [of v decode_announcement encode_announcement rest] n by simp
qed

definition wire_byes :: "node_id list \<Rightarrow> bool" where
  "wire_byes ids \<longleftrightarrow> (\<forall>i\<in>set ids. is_id i) \<and> 4 + 8 * length ids < 2 ^ 32"

lemma length_concat_ids: "\<forall>i\<in>set ids. is_id i \<Longrightarrow> length (concat ids) = 8 * length ids"
  by (induction ids) simp_all

interpretation byes_entry: audio_entry k byes_size encode_byes decode_byes wire_byes for k
proof
  fix v rest
  assume v: "wire_byes v"
  have "byes_size v = word_of_nat (4 + 8 * length v)" by (simp add: byes_size_def sum_list_triv)
  then show "unat (byes_size v) = length (encode_byes v)"
    using v by (simp add: wire_byes_def encode_byes_def length_concat_ids unat_small del: of_nat_add)
  show "decode_byes (encode_byes v @ rest) = Inr (v, rest)"
    unfolding decode_byes_def encode_byes_def
    using read_vec_map [of v read_id "\<lambda>i. i" rest] v by (fastforce simp: wire_byes_def)
qed

interpretation time_entry: audio_entry k "\<lambda>_. 8" "encode_host_time E" "decode_host_time E" "wire_time E" for k E
proof
  fix v rest
  assume v: "wire_time E v"
  note w = wire_time_micros [OF v]
  show "unat (8 :: u32) = length (encode_host_time E v)" by (simp add: encode_host_time_def)
  have E: "chrono_ok E" using v by (simp add: wire_time_def)
  have "num_microseconds E v = Some (v sdiv 1000)" using w E by (simp add: chrono_laws checked_i64_def)
  then show "decode_host_time E (encode_host_time E v @ rest) = Inr (v, rest)"
    using w by (simp add: decode_host_time_def encode_host_time_def)
qed

definition wire_chunk :: "ext \<Rightarrow> chunk \<Rightarrow> bool" where
  "wire_chunk E c \<longleftrightarrow> wire_tempo E (ch_tempo c)"

text \<open>What a receiver accepts, and so what a sender has to send.\<close>

definition wire_buffer :: "ext \<Rightarrow> audio_buffer \<Rightarrow> bool" where
  "wire_buffer E b \<longleftrightarrow>
     is_id (ab_channel b) \<and> is_id (ab_session b) \<and> ab_chunks b \<noteq> [] \<and> (\<forall>c\<in>set (ab_chunks b). wire_chunk E c)
   \<and> length (ab_chunks b) < 2 ^ 24 \<and> ab_codec b = PcmI16 \<and> ab_rate b \<noteq> 0 \<and> ab_channels b \<in> {1, 2}
   \<and> length (ab_bytes b) \<le> BUFFER_MAX_AUDIO_BYTES
   \<and> length (ab_bytes b) = unat (num_frames (ab_chunks b)) * unat (ab_channels b) * 2"

text \<open>What is sent: the same with the sender's tempos, and what the receiver reads of it: every
  chunk with the tempo of its period in whole microseconds.\<close>

definition sendable_buffer :: "ext \<Rightarrow> audio_buffer \<Rightarrow> bool" where
  "sendable_buffer E b \<longleftrightarrow>
     is_id (ab_channel b) \<and> is_id (ab_session b) \<and> ab_chunks b \<noteq> [] \<and> (\<forall>c\<in>set (ab_chunks b). sendable_tempo E (ch_tempo c))
   \<and> length (ab_chunks b) < 2 ^ 24 \<and> ab_codec b = PcmI16 \<and> ab_rate b \<noteq> 0 \<and> ab_channels b \<in> {1, 2}
   \<and> length (ab_bytes b) \<le> BUFFER_MAX_AUDIO_BYTES
   \<and> length (ab_bytes b) = unat (num_frames (ab_chunks b)) * unat (ab_channels b) * 2"

definition received_chunk :: "ext \<Rightarrow> chunk \<Rightarrow> chunk" where
  "received_chunk E c = c\<lparr>ch_tempo := received_tempo E (ch_tempo c)\<rparr>"

definition received_buffer :: "ext \<Rightarrow> audio_buffer \<Rightarrow> audio_buffer" where
  "received_buffer E b = b\<lparr>ab_chunks := map (received_chunk E) (ab_chunks b)\<rparr>"

lemma received_buffer_simps [simp]:
  "ab_channel (received_buffer E b) = ab_channel b" "ab_session (received_buffer E b) = ab_session b"
  "ab_codec (received_buffer E b) = ab_codec b" "ab_rate (received_buffer E b) = ab_rate b"
  "ab_channels (received_buffer E b) = ab_channels b" "ab_bytes (received_buffer E b) = ab_bytes b"
  "ab_chunks (received_buffer E b) = map (received_chunk E) (ab_chunks b)"
  "ch_frames (received_chunk E c) = ch_frames c" "ch_count (received_chunk E c) = ch_count c"
  "ch_begin (received_chunk E c) = ch_begin c" "ch_tempo (received_chunk E c) = received_tempo E (ch_tempo c)"
  by (simp_all add: received_buffer_def received_chunk_def)

lemma num_frames_received [simp]: "num_frames (map (received_chunk E) cs) = num_frames cs"
  by (simp add: num_frames_def comp_def)

lemma length_encode_chunk [simp]: "length (encode_chunk E c) = CHUNK_SIZE"
  by (simp add: encode_chunk_def)

lemma chunk_tempo_ok:
  assumes "wire_tempo E t"
  shows "is_finite (bpm t)" and "\<not> f64_le (bpm t) (Fin 0)"
  using wire_tempo_period(4) [OF assms] by (auto simp: bpm_def is_finite_def f64_le_def is_zero_def)

lemma decode_encode_chunk:
  assumes "wire_chunk E c"
  shows "decode_chunk E (encode_chunk E c @ rest) = Inr (c, rest)"
proof -
  let ?p = "period_micros (ch_tempo c)"
  have t: "wire_tempo E (ch_tempo c)" using assms by (simp add: wire_chunk_def)
  note p = wire_tempo_period [OF t]
  have E: "chrono_ok E" and i: "in_i64 ?p" using t p(1,2) by (simp_all add: wire_tempo_def in_i64_def)
  have m: "micros E (micros_per_beat E (ch_tempo c)) = ?p" by (rule micros_of_tempo [OF E i]) (use p(1,2) in simp)
  have "sint (word_of_int ?p :: i64) = ?p" using i by simp
  moreover from this have "(word_of_int ?p :: i64) \<noteq> 0" using p(1) by (metis not_one_le_zero sint_0)
  ultimately show ?thesis
    using p(3) by (simp add: decode_chunk_def encode_chunk_def m Let_def from_microbeats_def)
qed

interpretation buffer_entry: audio_entry k audio_buffer_size "encode_audio_buffer E" "decode_audio_buffer E" "wire_buffer E"
  for k E
proof
  fix b rest
  assume b: "wire_buffer E b"
  note w = b [unfolded wire_buffer_def]
  have n: "length (concat (map (encode_chunk E) cs)) = 26 * length cs" for cs by (induction cs) simp_all
  have size: "audio_buffer_size b = word_of_nat (28 + 26 * length (ab_chunks b) + length (ab_bytes b))"
    by (simp add: audio_buffer_size_def mult.commute)
  show "unat (audio_buffer_size b) = length (encode_audio_buffer E b)"
    unfolding size by (subst unat_small(1)) (use w n in \<open>auto simp: encode_audio_buffer_def\<close>)
  have chunks: "read_vec (decode_chunk E) (write_u32 (word_of_nat (length (ab_chunks b)))
      @ concat (map (encode_chunk E) (ab_chunks b)) @ r) = Inr (ab_chunks b, r)" for r
  proof (rule read_vec_map)
    show "encode_chunk E c \<noteq> []" for c using length_encode_chunk [of E c] by (metis list.size(3) zero_neq_numeral)
  qed (use w decode_encode_chunk in auto)
  have tempo: "\<forall>c\<in>set (ab_chunks b). is_finite (bpm (ch_tempo c)) \<and> \<not> f64_le (bpm (ch_tempo c)) (Fin 0)"
    using w chunk_tempo_ok unfolding wire_chunk_def by blast
  have "length (ab_bytes b) \<le> BUFFER_MAX_AUDIO_BYTES" using w by blast
  then have len: "unat (word_of_nat (length (ab_bytes b)) :: u16) = length (ab_bytes b)"
    by (intro unat_small(2)) (erule le_less_trans, simp)
  show "decode_audio_buffer E (encode_audio_buffer E b @ rest) = Inr (b, rest)"
    using w tempo chunks len
    by (auto simp: decode_audio_buffer_def encode_audio_buffer_def codec_to_u8_def codec_from_u8_def)
qed

lemma encode_received_chunk:
  assumes "sendable_tempo E (ch_tempo c)"
  shows "encode_chunk E (received_chunk E c) = encode_chunk E c"
proof -
  have m: "micros E (micros_per_beat E t) = period_micros t" if "sendable_tempo E t" for t
    using that by (intro micros_of_tempo) (auto simp: sendable_tempo_def in_i64_def)
  note r = received_tempo_wire [OF assms]
  show ?thesis
    using m [OF assms] m [OF wire_tempo_sendable(1) [OF r(1)]] r(2) by (simp add: encode_chunk_def)
qed

lemma received_buffer_wire:
  assumes "sendable_buffer E b"
  shows "wire_buffer E (received_buffer E b)" and "encode_audio_buffer E (received_buffer E b) = encode_audio_buffer E b"
    and "decode_raw E (encode_audio_buffer E b) = Inr (received_buffer E b)"
proof -
  note ok = assms [unfolded sendable_buffer_def]
  show w: "wire_buffer E (received_buffer E b)"
    using ok received_tempo_wire(1) by (auto simp: wire_buffer_def wire_chunk_def)
  have "map (encode_chunk E) (map (received_chunk E) (ab_chunks b)) = map (encode_chunk E) (ab_chunks b)"
    using ok encode_received_chunk by (simp add: comp_def)
  then show e: "encode_audio_buffer E (received_buffer E b) = encode_audio_buffer E b"
    by (simp only: encode_audio_buffer_def received_buffer_simps length_map)
  show "decode_raw E (encode_audio_buffer E b) = Inr (received_buffer E b)"
    using buffer_entry.decode_encoded [OF w] by (simp add: decode_raw_def e)
qed

text \<open>An announcement in front of other entries.\<close>

lemma announcement_parse:
  assumes "is_id (pa_session a)" and "wire_string (pa_name a)" and "wire_announcements (pa_channels a)"
  shows "parse_entries announcement_visit (announcement_payload a @ rest) s
           = parse_entries announcement_visit rest
               (s\<lparr>pa_session := pa_session a, pa_name := pa_name a, pa_channels := pa_channels a\<rparr>)"
proof -
  have keys: "key_of ''sess'' \<noteq> key_of ''__pi''" "key_of ''sess'' \<noteq> key_of ''auca''" "key_of ''__pi'' \<noteq> key_of ''auca''"
    by (simp_all add: key_of_def from_be_def of_char_def)
  show ?thesis
    unfolding announcement_payload_def
    using id_entry.decode_encoded [OF assms(1)] name_entry.decode_encoded [OF assms(2)]
      channels_entry.decode_encoded [OF assms(3)] keys
    by (simp add: announcement_visit_def decode_peer_info_def id_entry.parse_entry [OF assms(1)]
        name_entry.parse_entry [OF assms(2)] channels_entry.parse_entry [OF assms(3)])
qed

section \<open>Properties\<close>

text \<open>A channel's audio survives the wire. Every well-formed audio buffer is encoded to the announced number
  of bytes, and decoding them gives the same buffer: identifiers, chunks with their frame counts, beats
  and tempos, and the samples.\<close>

theorem audio_buffer_round_trip:
  assumes "wire_buffer E b"
  shows "decode_raw E (encode_audio_buffer E b) = Inr b
       \<and> length (encode_audio_buffer E b) = unat (audio_buffer_size b)"
  using buffer_entry.decode_encoded [OF assms] buffer_entry.size [OF assms] by (simp add: decode_raw_def)

text \<open>A tempo of 120 bpm is one of those on the wire.\<close>

lemma wire_tempo_sample: "wire_tempo std_ext (tempo_from std_ext (of_microseconds std_ext 500000))"
  unfolding wire_tempo_def by (intro conjI exI [of _ 500000]) simp_all

definition sample_buffer :: audio_buffer where
  "sample_buffer = \<lparr>ab_channel = replicate 8 1, ab_session = replicate 8 2,
     ab_chunks = [\<lparr>ch_count = 7, ch_frames = 2, ch_begin = Beats 5,
                   ch_tempo = tempo_from std_ext (of_microseconds std_ext 500000)\<rparr>],
     ab_codec = PcmI16, ab_rate = 48000, ab_channels = 1, ab_bytes = [1, 2, 3, 4]\<rparr>"

lemma wire_sample_buffer: "wire_buffer std_ext sample_buffer"
  using wire_tempo_sample by (simp add: wire_buffer_def sample_buffer_def wire_chunk_def num_frames_def)

theorem audio_buffer_round_trip_witness:
  "decode_raw std_ext (encode_audio_buffer std_ext sample_buffer) = Inr sample_buffer"
  using audio_buffer_round_trip [OF wire_sample_buffer] by simp

text \<open>C37: A receiver never acts on a malformed buffer. Whatever bytes arrive, a buffer that is decoded has a
  chunk, PCM samples, a nonzero sample rate and one or two channels; every chunk has a positive finite
  tempo; and the samples are exactly as many as the frame counts say and no more than fit a message.\<close>

theorem decoded_buffers_well_formed:
  assumes "decode_raw E bs = Inr b"
  shows "ab_chunks b \<noteq> [] \<and> ab_codec b = PcmI16 \<and> ab_rate b \<noteq> 0 \<and> ab_channels b \<in> {1, 2}
       \<and> (\<forall>c\<in>set (ab_chunks b). is_finite (bpm (ch_tempo c)) \<and> \<not> f64_le (bpm (ch_tempo c)) (Fin 0))
       \<and> length (ab_bytes b) = unat (num_frames (ab_chunks b)) * unat (ab_channels b) * 2
       \<and> length (ab_bytes b) \<le> BUFFER_MAX_AUDIO_BYTES"
  using assms
  by (auto simp: decode_raw_def decode_audio_buffer_def take_bytes_def result_simps split: if_splits)

theorem decoded_buffers_well_formed_witness:
  "\<exists>b. decode_raw std_ext (encode_audio_buffer std_ext sample_buffer) = Inr b
     \<and> length (ab_bytes b) = unat (num_frames (ab_chunks b)) * unat (ab_channels b) * 2"
proof -
  have "decode_raw std_ext (encode_audio_buffer std_ext sample_buffer) = Inr sample_buffer"
    using buffer_entry.decode_encoded [OF wire_sample_buffer] by (simp add: decode_raw_def)
  with decoded_buffers_well_formed [OF this] show ?thesis by blast
qed

text \<open>Announcements survive the wire and stay compatible. An announcement of a peer with its channels is read
  back, also when entries with unknown keys stand between its own.\<close>

theorem announcement_round_trip:
  assumes "is_id (pa_session a)" and "wire_string (pa_name a)" and "wire_announcements (pa_channels a)"
    and "is_id i" and "k \<notin> {key_of ''sess'', key_of ''__pi'', key_of ''auca''}"
  shows "announcement_from_payload (pa_node a)
           (encode_audio_entry k (\<lambda>_. 8) (\<lambda>i. i) i @ announcement_payload a) = Inr a"
proof -
  have skip: "announcement_visit k body s = Inr s" for body s using assms(5) by (simp add: announcement_visit_def)
  have "parse_entries announcement_visit [] s = Inr s" for s by (simp add: parse_entries.simps)
  then show ?thesis
    unfolding announcement_from_payload_def
    using announcement_parse [OF assms(1-3), of "[]"] by (simp add: id_entry.parse_entry [OF assms(4)] skip)
qed

lemma valid_utf8_ascii: "\<forall>b\<in>set s. b \<le> 127 \<Longrightarrow> valid_utf8 s"
proof (induction s)
  case (Cons b s)
  then have "utf8_step (b # s) = (1, True)" by (simp add: utf8_step_def byte_at_def)
  with Cons show ?case by (simp add: valid_utf8.simps [of "b # s"])
qed (simp add: valid_utf8.simps)

theorem announcement_round_trip_witness:
  "announcement_from_payload (replicate 8 9) (encode_audio_entry (key_of ''zzzz'') (\<lambda>_. 8) (\<lambda>i. i) (replicate 8 0)
     @ announcement_payload \<lparr>pa_node = replicate 8 9, pa_session = replicate 8 4, pa_name = [72, 105],
         pa_channels = [\<lparr>ca_name = [65], ca_id = replicate 8 6\<rparr>]\<rparr>)
   = Inr \<lparr>pa_node = replicate 8 9, pa_session = replicate 8 4, pa_name = [72, 105],
         pa_channels = [\<lparr>ca_name = [65], ca_id = replicate 8 6\<rparr>]\<rparr>"
proof -
  let ?a = "\<lparr>pa_node = replicate 8 9, pa_session = replicate 8 4, pa_name = [72, 105],
      pa_channels = [\<lparr>ca_name = [65], ca_id = replicate 8 6\<rparr>]\<rparr>"
  have "wire_string (pa_name ?a)" "wire_announcements (pa_channels ?a)"
    using valid_utf8_ascii [of "[72, 105]"] valid_utf8_ascii [of "[65]"]
    by (simp_all add: wire_string_def wire_announcements_def encode_announcements_def encode_announcement_def
        write_string_def)
  then show ?thesis
    using announcement_round_trip [of ?a "replicate 8 0" "key_of ''zzzz''"]
    by (simp add: key_of_def from_be_def of_char_def)
qed

text \<open>Cutting a name to 256 bytes keeps it a string: the result is a prefix that ends between two characters,
  at most 256 bytes long and at most three bytes shorter than that.\<close>

theorem truncate_name_sound:
  assumes "valid_utf8 s"
  shows "valid_utf8 (truncate_name s) \<and> length (truncate_name s) \<le> MAX_NAME_SIZE
       \<and> (\<exists>t. s = truncate_name s @ t) \<and> min (length s) (MAX_NAME_SIZE - 3) \<le> length (truncate_name s)"
proof (cases "length s \<le> MAX_NAME_SIZE")
  case False
  let ?b = "char_boundary_before s MAX_NAME_SIZE"
  obtain b where "b \<le> MAX_NAME_SIZE" "MAX_NAME_SIZE \<le> b + 3" "is_char_boundary s b"
    using boundary_near [OF assms, of MAX_NAME_SIZE] False by auto
  then have b: "?b \<le> MAX_NAME_SIZE" "MAX_NAME_SIZE \<le> ?b + 3" "is_char_boundary s ?b"
    using char_boundary_before_greatest(1,2) [of s MAX_NAME_SIZE]
      char_boundary_before_greatest(3) [of b MAX_NAME_SIZE s] by auto
  then have "valid_utf8 (take ?b s)" using valid_utf8_take [OF assms] False by simp
  then show ?thesis
    using b False append_take_drop_id [of ?b s] by (auto simp: truncate_name_def intro!: exI [of _ "drop ?b s"])
qed (use assms in \<open>simp add: truncate_name_def\<close>)

theorem truncate_name_sound_witness: "valid_utf8 (truncate_name (replicate 300 65)) \<and> length (truncate_name (replicate 300 65)) \<le> 256"
  using truncate_name_sound [OF valid_utf8_ascii, of "replicate 300 65"] by auto

end
