(* ===== verification/AudioCodec.thy ===== *)
theory AudioCodec
  imports AudioWire
begin

text \<open>
  From the application's samples to messages and back: \<open>src/link_audio/buffer.rs\<close>, \<open>resizer.rs\<close> and \<open>codec.rs\<close>.

  The resizer gathers frames until a message is full and keeps one chunk per run of frames with one tempo; the
  encoder serialises what it emits, the decoder hands every chunk of a received buffer to a callback. Counts of frames
  and channels are naturals with the wrap-around of their type written out; \<open>successor\<close> is the list of
  blocks the resizer has passed on.
\<close>

section \<open>Data\<close>

record buffer =
  bf_rate :: u32
  bf_channels :: nat
  bf_frames :: nat
  bf_samples :: "i16 list"
  bf_begin :: beats
  bf_tempo :: tempo
  bf_count :: u64
  bf_session :: node_id

text \<open>The arguments of \<open>ResizerSink::flush\<close>.\<close>

record block =
  bl_samples :: "i16 list"
  bl_chunks :: "chunk list"
  bl_channels :: nat
  bl_rate :: u32
  bl_session :: node_id

record resizer =
  successor :: "block list"
  max_num_bytes :: nat
  cache :: "i16 list"
  cached_frames :: nat
  available_frames :: nat
  rz_channels :: nat
  rz_rate :: u32
  rz_session :: node_id
  rz_chunks :: "chunk list"
  rz_count :: u64

section \<open>The resizer\<close>

definition new_resizer :: "nat \<Rightarrow> resizer" where
  "new_resizer n =
     \<lparr>successor = [], max_num_bytes = n, cache = replicate (n div 2) 0, cached_frames = 0, available_frames = 0,
      rz_channels = 0, rz_rate = 0, rz_session = replicate 8 0, rz_chunks = [], rz_count = 0\<rparr>"

definition rz_flush :: "resizer \<Rightarrow> resizer" where
  "rz_flush r =
     (if rz_chunks r = [] then r\<lparr>cached_frames := 0\<rparr>
      else
        let num_samples = cached_frames r * rz_channels r
        in r\<lparr>successor := successor r
               @ [\<lparr>bl_samples = take (min num_samples (length (cache r))) (cache r), bl_chunks = rz_chunks r,
                   bl_channels = rz_channels r, bl_rate = rz_rate r, bl_session = rz_session r\<rparr>],
             cached_frames := 0, rz_chunks := []\<rparr>)"

definition chunk_end_beats :: "resizer \<Rightarrow> chunk \<Rightarrow> beats" where
  "chunk_end_beats r c =
     (if rz_rate r = 0 \<or> f64_eq (bpm (ch_tempo c)) (Fin 0) then ch_begin c
      else
        let seconds_per_beat = f64_div (Fin 60) (bpm (ch_tempo c));
            range_duration = f64_div (f64_of_int (int (unat (ch_frames c)))) (f64_of_int (int (unat (rz_rate r))))
        in beats_add (ch_begin c) (beats_new (f64_div range_duration seconds_per_beat)))"

definition new_chunk :: "beats \<Rightarrow> tempo \<Rightarrow> resizer \<Rightarrow> resizer" where
  "new_chunk b t r =
     (let r = r\<lparr>rz_count := rz_count r + 1\<rparr>;
          c = \<lparr>ch_count = rz_count r, ch_frames = 0, ch_begin = b, ch_tempo = t\<rparr>;
          bytes_per_frame = rz_channels r * 2;
          r = (if (cached_frames r + 1) * bytes_per_frame + length (rz_chunks r) * CHUNK_SIZE > max_num_bytes r
               then rz_flush r else r);
          r = r\<lparr>rz_chunks := rz_chunks r @ [c]\<rparr>;
          extra_chunk_bytes = (length (rz_chunks r) - 1) * CHUNK_SIZE
      in r\<lparr>available_frames := (max_num_bytes r - extra_chunk_bytes) div bytes_per_frame mod 2 ^ 32\<rparr>)"

text \<open>The samples of one frame, up to the first that is out of range.\<close>

fun copy_channels :: "i16 list \<Rightarrow> nat \<Rightarrow> nat \<Rightarrow> nat \<Rightarrow> nat list \<Rightarrow> i16 list \<Rightarrow> i16 list" where
  "copy_channels samples num_channels frame cached [] out = out"
| "copy_channels samples num_channels frame cached (channel # cs) out =
     (let src = (num_channels * frame + channel) mod 2 ^ 32;
          dst = (num_channels * cached + channel) mod 2 ^ 32
      in if src \<ge> length samples \<or> dst \<ge> length out then out
         else copy_channels samples num_channels frame cached cs (out[dst := samples ! src]))"

definition count_frame :: "chunk list \<Rightarrow> chunk list" where
  "count_frame cs =
     (if cs = [] then [] else butlast cs @ [(last cs)\<lparr>ch_frames := ch_frames (last cs) + 1\<rparr>])"

definition process_frame ::
  "i16 list \<Rightarrow> nat \<Rightarrow> nat \<Rightarrow> beats \<Rightarrow> tempo \<Rightarrow> nat \<Rightarrow> resizer \<Rightarrow> resizer" where
  "process_frame samples frames num_channels begin_beats t frame r =
     (let r = r\<lparr>cache := copy_channels samples num_channels frame (cached_frames r) [0..<num_channels] (cache r),
                cached_frames := (cached_frames r + 1) mod 2 ^ 32, rz_chunks := count_frame (rz_chunks r)\<rparr>
      in if cached_frames r \<ge> available_frames r
         then
           let next_begin = (if rz_chunks r = [] then begin_beats else chunk_end_beats r (last (rz_chunks r)));
               r = rz_flush r
           in if frame + 1 < frames then new_chunk next_begin t r else r
         else r)"

definition process :: "i16 list \<Rightarrow> nat \<Rightarrow> nat \<Rightarrow> u32 \<Rightarrow> beats \<Rightarrow> tempo \<Rightarrow> node_id \<Rightarrow> resizer \<Rightarrow> resizer" where
  "process samples frames num_channels rate begin_beats t sid r =
     (if num_channels = 0 then r
      else
        let r = (if cached_frames r \<noteq> 0 \<and> (num_channels \<noteq> rz_channels r \<or> rate \<noteq> rz_rate r \<or> sid \<noteq> rz_session r)
                 then rz_flush r else r)
        in if frames = 0 then r
           else
             let r = (if cached_frames r = 0
                      then new_chunk begin_beats t
                             (r\<lparr>rz_rate := rate, rz_channels := num_channels, rz_session := sid, rz_chunks := []\<rparr>)
                      else if rz_chunks r \<noteq> []
                           \<and> (\<not> tempo_eq t (ch_tempo (last (rz_chunks r)))
                              \<or> mb (beats_abs (beats_sub begin_beats (chunk_end_beats r (last (rz_chunks r))))) > 1)
                        then new_chunk begin_beats t r
                      else r)
             in fold (process_frame samples frames num_channels begin_beats t) [0..<frames] r)"

section \<open>Encoder and decoder\<close>

text \<open>\<open>None\<close>: the block is too short for its chunks and is not sent.\<close>

definition pcm_flush :: "node_id \<Rightarrow> block \<Rightarrow> audio_buffer option" where
  "pcm_flush channel bl =
     (let total = unat (num_frames (bl_chunks bl)) * bl_channels bl;
          num_samples = min total (length (bl_samples bl));
          out = \<lparr>ab_channel = channel, ab_session = bl_session bl, ab_chunks = bl_chunks bl, ab_codec = PcmI16,
                 ab_rate = bl_rate bl, ab_channels = word_of_nat (bl_channels bl),
                 ab_bytes = concat (map write_u16 (take num_samples (bl_samples bl)))\<rparr>
      in if total \<noteq> num_samples then None else Some out)"

text \<open>The buffers handed to the sender, one per block that is complete.\<close>

definition sent_buffers :: "node_id \<Rightarrow> resizer \<Rightarrow> audio_buffer list" where
  "sent_buffers channel r = List.map_filter (pcm_flush channel) (successor r)"

abbreviation CODEC_MAX_AUDIO_BYTES :: nat where
  "CODEC_MAX_AUDIO_BYTES \<equiv> 576 - AUDIO_HEADER_SIZE - NON_AUDIO_BYTES"

definition encode_buffer :: "buffer \<Rightarrow> resizer \<Rightarrow> resizer" where
  "encode_buffer b r =
     process (bf_samples b) (bf_frames b) (bf_channels b) (bf_rate b) (bf_begin b) (bf_tempo b) (bf_session b) r"

record buffer_info =
  bi_channels :: nat
  bi_frames :: nat
  bi_rate :: u32
  bi_count :: u64
  bi_beat_time :: f64
  bi_tempo :: f64
  bi_session :: node_id

text \<open>The samples are read until the bytes run out.\<close>

fun read_samples :: "bytes \<Rightarrow> i16 list" where
  "read_samples (a # b # rest) = word_of_nat (from_be [a, b]) # read_samples rest"
| "read_samples _ = []"

fun decode_chunks :: "audio_buffer \<Rightarrow> i16 list \<Rightarrow> chunk list \<Rightarrow> nat \<Rightarrow> (i16 list \<times> buffer_info) list" where
  "decode_chunks input samples [] offset = []"
| "decode_chunks input samples (c # cs) offset =
     (let n = unat (ch_frames c) * unat (ab_channels input)
      in if offset + n > length samples then []
         else (take n (drop offset samples),
               \<lparr>bi_channels = unat (ab_channels input), bi_frames = unat (ch_frames c), bi_rate = ab_rate input,
                bi_count = ch_count c, bi_beat_time = beats_floating (ch_begin c), bi_tempo = bpm (ch_tempo c),
                bi_session = ab_session input\<rparr>)
              # decode_chunks input samples cs (offset + n))"

definition pcm_decode :: "audio_buffer \<Rightarrow> (i16 list \<times> buffer_info) list" where
  "pcm_decode input =
     (if ab_codec input \<noteq> PcmI16 \<or> ab_channels input = 0 then []
      else decode_chunks input (read_samples (ab_bytes input)) (ab_chunks input) 0)"

section \<open>Copying a frame\<close>

lemma copy_channels_nth:
  assumes "k \<le> n" and "n * (frame + 1) \<le> length samples" and "n * (cached + 1) \<le> length out"
    and "length samples \<le> 2 ^ 32" and "length out \<le> 2 ^ 32"
  shows "length (copy_channels samples n frame cached [k..<n] out) = length out"
    and "i < length out \<Longrightarrow> copy_channels samples n frame cached [k..<n] out ! i
           = (if n * cached + k \<le> i \<and> i < n * cached + n then samples ! (n * frame + (i - n * cached)) else out ! i)"
proof -
  have "length (copy_channels samples n frame cached [k..<n] out) = length out
      \<and> (\<forall>i < length out. copy_channels samples n frame cached [k..<n] out ! i
           = (if n * cached + k \<le> i \<and> i < n * cached + n then samples ! (n * frame + (i - n * cached)) else out ! i))"
    using assms
  proof (induction "n - k" arbitrary: k out)
    case 0
    then show ?case by auto
  next
    case (Suc m)
    have k: "k < n" "m = n - Suc k" using Suc.hyps(2) by auto
    have "n * frame + k < n * (frame + 1)" "n * cached + k < n * (cached + 1)" using k by simp_all
    then have src: "n * frame + k < length samples" and dst: "n * cached + k < length out"
      using Suc.prems by linarith+
    then have m: "(n * frame + k) mod 2 ^ 32 = n * frame + k" "(n * cached + k) mod 2 ^ 32 = n * cached + k"
      using Suc.prems(4,5) by simp_all
    have split: "[k..<n] = k # [Suc k..<n]" using k by (simp add: upt_conv_Cons)
    have step: "copy_channels samples n frame cached [k..<n] out
        = copy_channels samples n frame cached [Suc k..<n] (out[n * cached + k := samples ! (n * frame + k)])"
      unfolding split copy_channels.simps Let_def m using src dst by simp
    have IH: "length (copy_channels samples n frame cached [Suc k..<n] (out[n * cached + k := samples ! (n * frame + k)]))
          = length out"
      "\<And>i. i < length out \<Longrightarrow>
        copy_channels samples n frame cached [Suc k..<n] (out[n * cached + k := samples ! (n * frame + k)]) ! i
        = (if n * cached + Suc k \<le> i \<and> i < n * cached + n then samples ! (n * frame + (i - n * cached))
           else out[n * cached + k := samples ! (n * frame + k)] ! i)"
      using Suc.hyps(1) [OF k(2), of "out[n * cached + k := samples ! (n * frame + k)]"] Suc.prems k(1) by simp_all
    show ?case unfolding step using IH k(1) dst by (auto simp: nth_list_update le_Suc_eq not_less_eq_eq)
  qed
  then show "length (copy_channels samples n frame cached [k..<n] out) = length out"
    "i < length out \<Longrightarrow> copy_channels samples n frame cached [k..<n] out ! i
       = (if n * cached + k \<le> i \<and> i < n * cached + n then samples ! (n * frame + (i - n * cached)) else out ! i)"
    by auto
qed

lemma copy_channels_take:
  assumes "n * (frame + 1) \<le> length samples" and "n * (cached + 1) \<le> length out"
    and "length samples \<le> 2 ^ 32" and "length out \<le> 2 ^ 32"
  shows "take (n * (cached + 1)) (copy_channels samples n frame cached [0..<n] out)
           = take (n * cached) out @ take n (drop (n * frame) samples)"
proof (rule nth_equalityI)
  note c = copy_channels_nth [OF le0 assms]
  have l: "n * cached \<le> length out" "n \<le> length samples - n * frame" using assms(1,2) by simp_all
  show "length (take (n * (cached + 1)) (copy_channels samples n frame cached [0..<n] out))
      = length (take (n * cached) out @ take n (drop (n * frame) samples))"
    using c(1) assms(2) l by simp
  fix i assume "i < length (take (n * (cached + 1)) (copy_channels samples n frame cached [0..<n] out))"
  then have i: "i < n * cached + n" "i < length out" using c(1) by simp_all
  then have "take (n * (cached + 1)) (copy_channels samples n frame cached [0..<n] out) ! i
      = (if n * cached \<le> i then samples ! (n * frame + (i - n * cached)) else out ! i)"
    using c(2) [OF i(2)] by simp
  also have "\<dots> = (take (n * cached) out @ take n (drop (n * frame) samples)) ! i"
    using i l assms(1) by (auto simp: nth_append min_def)
  finally show "take (n * (cached + 1)) (copy_channels samples n frame cached [0..<n] out) ! i
      = (take (n * cached) out @ take n (drop (n * frame) samples)) ! i" .
qed

section \<open>Invariant of the resizer\<close>

definition frames_sum :: "chunk list \<Rightarrow> nat" where
  "frames_sum cs = sum_list (map (\<lambda>c. unat (ch_frames c)) cs)"

text \<open>What every block passed on satisfies: it fits one message, and its chunks cover exactly its samples.\<close>

definition block_ok :: "ext \<Rightarrow> nat \<Rightarrow> block \<Rightarrow> bool" where
  "block_ok E n bl \<longleftrightarrow>
     bl_chunks bl \<noteq> [] \<and> length (bl_samples bl) = frames_sum (bl_chunks bl) * bl_channels bl
   \<and> length (bl_samples bl) * 2 + (length (bl_chunks bl) - 1) * CHUNK_SIZE \<le> n
   \<and> bl_channels bl \<in> {1, 2} \<and> bl_rate bl \<noteq> 0 \<and> is_id (bl_session bl)
   \<and> (\<forall>c\<in>set (bl_chunks bl). sendable_tempo E (ch_tempo c))"

definition open_ok :: "ext \<Rightarrow> resizer \<Rightarrow> bool" where
  "open_ok E r \<longleftrightarrow>
     rz_channels r \<in> {1, 2} \<and> rz_rate r \<noteq> 0 \<and> is_id (rz_session r)
   \<and> (\<forall>c\<in>set (rz_chunks r). sendable_tempo E (ch_tempo c))
   \<and> (length (rz_chunks r) - 1) * CHUNK_SIZE \<le> max_num_bytes r
   \<and> available_frames r = (max_num_bytes r - (length (rz_chunks r) - 1) * CHUNK_SIZE) div (rz_channels r * 2)
   \<and> cached_frames r \<le> available_frames r \<and> frames_sum (rz_chunks r) = cached_frames r"

definition rz_inv :: "ext \<Rightarrow> resizer \<Rightarrow> bool" where
  "rz_inv E r \<longleftrightarrow>
     length (cache r) = max_num_bytes r div 2 \<and> max_num_bytes r \<le> 65536 \<and> 4 \<le> max_num_bytes r
   \<and> (\<forall>bl\<in>set (successor r). block_ok E (max_num_bytes r) bl)
   \<and> (if rz_chunks r = [] then cached_frames r = 0 else open_ok E r)"

text \<open>All samples taken so far: those passed on and those in the cache.\<close>

definition taken :: "resizer \<Rightarrow> i16 list" where
  "taken r = concat (map bl_samples (successor r)) @ take (cached_frames r * rz_channels r) (cache r)"

lemma frames_sum_simps [simp]:
  "frames_sum [] = 0" "frames_sum (c # cs) = unat (ch_frames c) + frames_sum cs"
  "frames_sum (cs @ ds) = frames_sum cs + frames_sum ds"
  by (simp_all add: frames_sum_def)

lemma rz_flush_inv:
  assumes "rz_inv E r"
  shows "rz_inv E (rz_flush r)" and "taken (rz_flush r) = taken r" and "rz_chunks (rz_flush r) = []"
    and "cached_frames (rz_flush r) = 0" and "max_num_bytes (rz_flush r) = max_num_bytes r"
proof -
  show "rz_chunks (rz_flush r) = []" "cached_frames (rz_flush r) = 0" "max_num_bytes (rz_flush r) = max_num_bytes r"
    by (simp_all add: rz_flush_def Let_def)
  show "taken (rz_flush r) = taken r"
    using assms by (simp add: rz_flush_def Let_def taken_def rz_inv_def min_def)
  show "rz_inv E (rz_flush r)"
  proof (cases "rz_chunks r = []")
    case True
    then show ?thesis using assms by (simp add: rz_flush_def rz_inv_def)
  next
    case False
    let ?e = "(length (rz_chunks r) - 1) * CHUNK_SIZE" and ?b = "rz_channels r * 2"
    have o: "open_ok E r" using assms False by (simp add: rz_inv_def)
    have "cached_frames r * ?b \<le> (max_num_bytes r - ?e) div ?b * ?b"
      by (rule mult_le_mono1) (use o in \<open>simp add: open_ok_def\<close>)
    also have "\<dots> \<le> max_num_bytes r - ?e" by simp
    finally have "cached_frames r * ?b \<le> max_num_bytes r - ?e" .
    moreover have "?e \<le> max_num_bytes r" using o unfolding open_ok_def by blast
    ultimately have fit: "cached_frames r * rz_channels r * 2 + ?e \<le> max_num_bytes r"
      unfolding mult.assoc by linarith
    then have "cached_frames r * rz_channels r \<le> length (cache r)" using assms by (simp add: rz_inv_def)
    then show ?thesis using assms False o fit
      by (auto simp: rz_flush_def Let_def rz_inv_def block_ok_def open_ok_def)
  qed
qed

text \<open>The cache has room for one more frame.\<close>

lemma open_room:
  assumes "rz_inv E r" and "open_ok E r" and "cached_frames r < available_frames r"
  shows "rz_channels r * (cached_frames r + 1) \<le> length (cache r)" and "cached_frames r + 1 \<le> 32768"
    and "(cached_frames r + 1) * (rz_channels r * 2) + (length (rz_chunks r) - 1) * CHUNK_SIZE \<le> max_num_bytes r"
proof -
  let ?e = "(length (rz_chunks r) - 1) * CHUNK_SIZE" and ?b = "rz_channels r * 2"
  have "(cached_frames r + 1) * ?b \<le> (max_num_bytes r - ?e) div ?b * ?b"
    by (rule mult_le_mono1) (use assms(2,3) in \<open>simp add: open_ok_def\<close>)
  also have "\<dots> \<le> max_num_bytes r - ?e" by simp
  finally have "(cached_frames r + 1) * ?b \<le> max_num_bytes r - ?e" .
  moreover have "?e \<le> max_num_bytes r" using assms(2) unfolding open_ok_def by blast
  ultimately show fit: "(cached_frames r + 1) * ?b + ?e \<le> max_num_bytes r" by linarith
  then have "(cached_frames r + 1) * ?b \<le> max_num_bytes r" by linarith
  then show "rz_channels r * (cached_frames r + 1) \<le> length (cache r)"
    using assms(1) by (simp add: rz_inv_def mult.commute mult.left_commute)
  have "(cached_frames r + 1) * 2 \<le> (cached_frames r + 1) * ?b" using assms(2) by (auto simp: open_ok_def)
  then show "cached_frames r + 1 \<le> 32768"
    using \<open>(cached_frames r + 1) * ?b \<le> max_num_bytes r\<close> assms(1) by (simp add: rz_inv_def)
qed

text \<open>A new chunk, in an empty resizer or behind other chunks.\<close>

lemma new_chunk_inv:
  assumes inv: "rz_inv E r" and ch: "rz_channels r \<in> {1, 2}" and "rz_rate r \<noteq> 0" and "is_id (rz_session r)"
    and t: "sendable_tempo E t"
  shows "rz_inv E (new_chunk b t r)" and "taken (new_chunk b t r) = taken r" and "rz_chunks (new_chunk b t r) \<noteq> []"
    and "rz_channels (new_chunk b t r) = rz_channels r" and "rz_rate (new_chunk b t r) = rz_rate r"
    and "rz_session (new_chunk b t r) = rz_session r" and "max_num_bytes (new_chunk b t r) = max_num_bytes r"
    and "cached_frames (new_chunk b t r) < available_frames (new_chunk b t r)"
proof -
  let ?b = "rz_channels r * 2"
  define r1 where "r1 = r\<lparr>rz_count := rz_count r + 1\<rparr>"
  define r2 where "r2 = (if (cached_frames r1 + 1) * ?b + length (rz_chunks r1) * CHUNK_SIZE > max_num_bytes r1
      then rz_flush r1 else r1)"
  define c where "c = \<lparr>ch_count = rz_count r1, ch_frames = 0, ch_begin = b, ch_tempo = t\<rparr>"
  define n where "n = length (rz_chunks r2)"
  have new: "new_chunk b t r = r2\<lparr>rz_chunks := rz_chunks r2 @ [c],
      available_frames := (max_num_bytes r2 - n * CHUNK_SIZE) div ?b mod 2 ^ 32\<rparr>"
    by (simp add: new_chunk_def Let_def r1_def r2_def c_def n_def)
  have "open_ok E r1 = open_ok E r" by (simp add: r1_def open_ok_def)
  then have r1: "rz_inv E r1" "taken r1 = taken r"
    using inv by (simp_all add: r1_def rz_inv_def taken_def)
  have f: "rz_channels (rz_flush r1) = rz_channels r" "rz_rate (rz_flush r1) = rz_rate r"
    "rz_session (rz_flush r1) = rz_session r" "max_num_bytes (rz_flush r1) = max_num_bytes r"
    by (simp_all add: rz_flush_def Let_def r1_def)
  have r2: "rz_inv E r2" "taken r2 = taken r" "rz_channels r2 = rz_channels r" "rz_rate r2 = rz_rate r"
    "rz_session r2 = rz_session r" "max_num_bytes r2 = max_num_bytes r"
    using r1 rz_flush_inv [OF r1(1)] f by (simp_all add: r2_def) (simp_all add: r1_def)
  have fit: "(cached_frames r2 + 1) * ?b + n * CHUNK_SIZE \<le> max_num_bytes r"
  proof (cases "(cached_frames r1 + 1) * ?b + length (rz_chunks r1) * CHUNK_SIZE > max_num_bytes r1")
    case True
    then have "r2 = rz_flush r1" by (simp add: r2_def)
    then have "cached_frames r2 = 0" "n = 0" using rz_flush_inv [OF r1(1)] by (simp_all add: n_def)
    then show ?thesis using inv ch by (auto simp: rz_inv_def)
  next
    case False
    then show ?thesis by (simp add: r2_def r1_def n_def)
  qed
  have avail: "cached_frames r2 + 1 \<le> (max_num_bytes r - n * CHUNK_SIZE) div ?b"
    using fit ch by (subst less_eq_div_iff_mult_less_eq) auto
  moreover have avail32: "(max_num_bytes r - n * CHUNK_SIZE) div ?b < 2 ^ 32"
  proof -
    have "(max_num_bytes r - n * CHUNK_SIZE) div ?b \<le> max_num_bytes r" by (meson diff_le_self div_le_dividend order_trans)
    then show ?thesis using inv by (simp add: rz_inv_def)
  qed
  moreover have "frames_sum (rz_chunks r2) = cached_frames r2"
    using r2(1) by (auto simp: rz_inv_def open_ok_def split: if_splits)
  moreover have "\<forall>c\<in>set (rz_chunks r2). sendable_tempo E (ch_tempo c)"
    using r2(1) by (auto simp: rz_inv_def open_ok_def split: if_splits)
  ultimately have "open_ok E (new_chunk b t r)"
    using r2(3-6) fit ch assms(3,4) t by (simp add: new open_ok_def c_def n_def)
  then show "rz_inv E (new_chunk b t r)" using r2(1) by (simp add: new rz_inv_def)
  show "taken (new_chunk b t r) = taken r" using r2(2) by (simp add: new taken_def)
  show "rz_chunks (new_chunk b t r) \<noteq> []" "rz_channels (new_chunk b t r) = rz_channels r"
    "rz_rate (new_chunk b t r) = rz_rate r" "rz_session (new_chunk b t r) = rz_session r"
    "max_num_bytes (new_chunk b t r) = max_num_bytes r"
    using r2 by (simp_all add: new)
  show "cached_frames (new_chunk b t r) < available_frames (new_chunk b t r)"
    using avail avail32 r2(6) by (simp add: new)
qed

lemma count_frame_simps:
  assumes "cs \<noteq> []" and "frames_sum cs < 65535"
  shows "frames_sum (count_frame cs) = frames_sum cs + 1" and "length (count_frame cs) = length cs"
    and "count_frame cs \<noteq> []" and "map ch_tempo (count_frame cs) = map ch_tempo cs"
proof -
  obtain ds c where cs: "cs = ds @ [c]" using assms(1) by (metis append_butlast_last_id)
  have "unat (ch_frames c + 1) = unat (ch_frames c) + 1"
    using assms(2) by (subst unat_add_lem [THEN iffD1]) (simp_all add: cs)
  then show "frames_sum (count_frame cs) = frames_sum cs + 1" "length (count_frame cs) = length cs"
    "count_frame cs \<noteq> []" "map ch_tempo (count_frame cs) = map ch_tempo cs"
    by (simp_all add: count_frame_def cs)
qed

text \<open>One frame: its samples are appended to those taken, and a chunk stays open while frames remain.\<close>

definition ready :: "ext \<Rightarrow> resizer \<Rightarrow> bool" where
  "ready E r \<longleftrightarrow> rz_inv E r \<and> (rz_chunks r \<noteq> [] \<longrightarrow> cached_frames r < available_frames r)"

definition opened :: "ext \<Rightarrow> nat \<Rightarrow> resizer \<Rightarrow> bool" where
  "opened E n r \<longleftrightarrow>
     ready E r \<and> rz_chunks r \<noteq> [] \<and> rz_channels r = n"

lemma add_frame:
  assumes o: "opened E n r" and s: "n * (frame + 1) \<le> length samples" "length samples \<le> 2 ^ 32"
    and r': "r' = r\<lparr>cache := copy_channels samples n frame (cached_frames r) [0..<n] (cache r),
               cached_frames := (cached_frames r + 1) mod 2 ^ 32, rz_chunks := count_frame (rz_chunks r)\<rparr>"
  shows "rz_inv E r'" and "rz_chunks r' \<noteq> []" and "taken r' = taken r @ take n (drop (n * frame) samples)"
    and "cached_frames r' = cached_frames r + 1"
proof -
  have inv: "rz_inv E r" and ok: "open_ok E r" and lt: "cached_frames r < available_frames r" and n: "rz_channels r = n"
    using o by (auto simp: opened_def ready_def rz_inv_def)
  note room = open_room [OF inv ok lt, unfolded n]
  have "length (cache r) \<le> max_num_bytes r" "max_num_bytes r \<le> 65536" using inv by (simp_all add: rz_inv_def)
  then have len: "length (cache r) \<le> 2 ^ 32" by simp
  note copy = copy_channels_take [OF s(1) room(1) s(2) len] copy_channels_nth(1) [OF le0 s(1) room(1) s(2) len]
  have small: "frames_sum (rz_chunks r) < 65535" using room(2) ok by (simp add: open_ok_def)
  note count = count_frame_simps [OF _ small]
  have ne: "rz_chunks r \<noteq> []" using o by (simp add: opened_def)
  show cached: "cached_frames r' = cached_frames r + 1" using room(2) by (simp add: r')
  show ne': "rz_chunks r' \<noteq> []" using count(3) [OF ne] by (simp add: r')
  have tempos: "sendable_tempo E (ch_tempo c)" if "c \<in> set (count_frame (rz_chunks r))" for c
  proof -
    have "ch_tempo c \<in> set (map ch_tempo (rz_chunks r))" unfolding count(4) [OF ne, symmetric] using that by simp
    then show ?thesis using ok by (auto simp: open_ok_def)
  qed
  have "open_ok E r'"
    using ok lt cached count(1,2) [OF ne] tempos by (simp add: r' open_ok_def)
  then show "rz_inv E r'" using inv copy(2) ne' by (simp add: r' rz_inv_def)
  show "taken r' = taken r @ take n (drop (n * frame) samples)"
    using copy(1) cached by (simp add: taken_def r' n mult.commute)
qed

lemma process_frame_step:
  assumes o: "opened E n r" and s: "n * (frame + 1) \<le> length samples" "length samples \<le> 2 ^ 32"
    and t: "sendable_tempo E t"
  shows "ready E (process_frame samples frames n b t frame r)"
    and "taken (process_frame samples frames n b t frame r) = taken r @ take n (drop (n * frame) samples)"
    and "frame + 1 < frames \<Longrightarrow> opened E n (process_frame samples frames n b t frame r)"
proof -
  define r' where "r' = r\<lparr>cache := copy_channels samples n frame (cached_frames r) [0..<n] (cache r),
               cached_frames := (cached_frames r + 1) mod 2 ^ 32, rz_chunks := count_frame (rz_chunks r)\<rparr>"
  define next_begin where "next_begin = (if rz_chunks r' = [] then b else chunk_end_beats r' (last (rz_chunks r')))"
  have step: "process_frame samples frames n b t frame r
      = (if cached_frames r' \<ge> available_frames r'
         then if frame + 1 < frames then new_chunk next_begin t (rz_flush r') else rz_flush r'
         else r')"
    by (simp add: process_frame_def Let_def r'_def next_begin_def)
  note add = add_frame [OF o s r'_def]
  have ok: "open_ok E r'" using add(1,2) by (simp add: rz_inv_def)
  have n: "rz_channels r' = n" using o by (simp add: opened_def r'_def)
  note fl = rz_flush_inv [OF add(1)]
  have f: "rz_channels (rz_flush r') = rz_channels r'" "rz_rate (rz_flush r') = rz_rate r'"
    "rz_session (rz_flush r') = rz_session r'"
    by (simp_all add: rz_flush_def Let_def)
  have nc: "rz_channels (rz_flush r') \<in> {1, 2}" "rz_rate (rz_flush r') \<noteq> 0" "is_id (rz_session (rz_flush r'))"
    using ok f by (simp_all add: open_ok_def)
  note new = new_chunk_inv [OF fl(1) nc t, of next_begin]
  show "ready E (process_frame samples frames n b t frame r)"
    using add(1) fl(1,3) new(1,8) by (simp add: step ready_def)
  show "taken (process_frame samples frames n b t frame r) = taken r @ take n (drop (n * frame) samples)"
    using add(3) fl(2) new(2) by (simp add: step)
  show "opened E n (process_frame samples frames n b t frame r)" if "frame + 1 < frames"
    using that add(1,2) new n f(1) by (simp add: step opened_def ready_def)
qed

lemma process_frames:
  assumes "opened E n r" and "m \<le> frames" and "n * frames \<le> length samples" and "length samples \<le> 2 ^ 32"
    and "sendable_tempo E t"
  shows "ready E (fold (process_frame samples frames n b t) [0..<m] r)
       \<and> taken (fold (process_frame samples frames n b t) [0..<m] r) = taken r @ take (n * m) samples
       \<and> (m < frames \<longrightarrow> opened E n (fold (process_frame samples frames n b t) [0..<m] r))"
  using assms(2)
proof (induction m)
  case 0
  then show ?case using assms(1) by (simp add: opened_def)
next
  case (Suc m)
  let ?r = "fold (process_frame samples frames n b t) [0..<m] r"
  have o: "opened E n ?r" and tk: "taken ?r = taken r @ take (n * m) samples" using Suc by simp_all
  have "n * (m + 1) \<le> n * frames" using Suc.prems by (intro mult_le_mono2) simp
  then have s: "n * (m + 1) \<le> length samples" using assms(3) by linarith
  have "take (n * m) samples @ take n (drop (n * m) samples) = take (n * Suc m) samples"
    by (simp add: take_add [symmetric] add.commute)
  then show ?case using process_frame_step [OF o s assms(4,5), of frames b] tk by simp
qed

text \<open>What the application hands over: mono or stereo, a sample rate, samples for all frames, and a
  tempo whose beat lasts between a microsecond and \<open>2 ^ 40\<close> microseconds, as every tempo from 20
  to 999 beats per minute does.\<close>

definition input_ok :: "ext \<Rightarrow> i16 list \<Rightarrow> nat \<Rightarrow> nat \<Rightarrow> u32 \<Rightarrow> tempo \<Rightarrow> node_id \<Rightarrow> bool" where
  "input_ok E samples frames channels rate t sid \<longleftrightarrow>
     channels \<in> {1, 2} \<and> rate \<noteq> 0 \<and> is_id sid \<and> sendable_tempo E t
   \<and> channels * frames \<le> length samples \<and> length samples \<le> 2 ^ 32"

lemma max_num_bytes_flush [simp]: "max_num_bytes (rz_flush r) = max_num_bytes r"
  by (simp add: rz_flush_def Let_def)

lemma max_num_bytes_chunk [simp]: "max_num_bytes (new_chunk b t r) = max_num_bytes r"
  by (simp add: new_chunk_def Let_def)

lemma max_num_bytes_frames [simp]:
  "max_num_bytes (fold (process_frame samples frames n b t) fs r) = max_num_bytes r"
  by (induction fs arbitrary: r) (simp_all add: process_frame_def Let_def)

lemma max_num_bytes_process [simp]: "max_num_bytes (process samples frames n rate b t sid r) = max_num_bytes r"
  by (simp add: process_def Let_def)

lemma process_taken:
  assumes r: "ready E r" and inp: "input_ok E samples frames channels rate t sid"
  shows "ready E (process samples frames channels rate b t sid r)
       \<and> taken (process samples frames channels rate b t sid r) = taken r @ take (channels * frames) samples"
proof -
  define r1 where "r1 = (if cached_frames r \<noteq> 0 \<and> (channels \<noteq> rz_channels r \<or> rate \<noteq> rz_rate r \<or> sid \<noteq> rz_session r)
      then rz_flush r else r)"
  define r0 where "r0 = r1\<lparr>rz_rate := rate, rz_channels := channels, rz_session := sid, rz_chunks := []\<rparr>"
  define r2 where "r2 = (if cached_frames r1 = 0 then new_chunk b t r0
      else if rz_chunks r1 \<noteq> [] \<and> (\<not> tempo_eq t (ch_tempo (last (rz_chunks r1)))
          \<or> mb (beats_abs (beats_sub b (chunk_end_beats r1 (last (rz_chunks r1))))) > 1) then new_chunk b t r1 else r1)"
  note ok = inp [unfolded input_ok_def]
  have ch: "channels \<noteq> 0" using ok by auto
  have proc: "process samples frames channels rate b t sid r
      = (if frames = 0 then r1 else fold (process_frame samples frames channels b t) [0..<frames] r2)"
    unfolding process_def Let_def r2_def r0_def r1_def if_not_P [OF ch] ..
  have inv: "rz_inv E r" using r by (simp add: ready_def)
  note fl = rz_flush_inv [OF inv]
  have r1: "ready E r1" "taken r1 = taken r" using r fl by (simp_all add: r1_def ready_def)
  have "rz_inv E r0 \<and> taken r0 = taken r1" if "cached_frames r1 = 0"
    using r1 that by (simp add: ready_def rz_inv_def r0_def taken_def)
  moreover have "rz_channels r0 = channels" "rz_rate r0 = rate" "rz_session r0 = sid" by (simp_all add: r0_def)
  ultimately have "opened E channels r2 \<and> taken r2 = taken r1" if "cached_frames r1 = 0"
    using that new_chunk_inv [of E r0 t b] ok by (simp add: r2_def opened_def ready_def)
  moreover have "opened E channels r2 \<and> taken r2 = taken r1" if c: "cached_frames r1 \<noteq> 0"
  proof -
    have same: "rz_channels r1 = channels" "rz_rate r1 = rate" "rz_session r1 = sid"
      using c fl(4) unfolding r1_def by (auto split: if_splits)
    have "rz_chunks r1 \<noteq> []" using r1(1) c by (auto simp: ready_def rz_inv_def)
    then show ?thesis
      using c same r1(1) new_chunk_inv [of E r1 t b] ok by (simp add: r2_def opened_def ready_def)
  qed
  ultimately have r2: "opened E channels r2" "taken r2 = taken r1" by blast+
  show ?thesis
  proof (cases "frames = 0")
    case True
    then show ?thesis using proc r1 ok by simp
  next
    case False
    then show ?thesis
      using proc r1 r2 ok process_frames [OF r2(1), of frames frames samples t b] by simp
  qed
qed

section \<open>Blocks on the wire\<close>

lemma num_frames_eq: "num_frames cs = word_of_nat (frames_sum cs)"
  by (induction cs) (simp_all add: num_frames_def unsigned_word_eqI)

lemma write_u16_Cons: "\<exists>a b. write_u16 v = [a, b] \<and> word_of_nat (from_be [a, b]) = v"
proof -
  obtain a b where "write_u16 v = [a, b]"
    using length_write(1) [of v] unfolding numeral_2_eq_2 length_Suc_conv by auto
  then show ?thesis using word_of_be_u16 [of v] by (auto simp: write_u16_def)
qed

lemma read_samples_write [simp]: "read_samples (concat (map write_u16 xs)) = xs"
proof (induction xs)
  case (Cons x xs)
  obtain a b where "write_u16 x = [a, b]" "word_of_nat (from_be [a, b]) = x" using write_u16_Cons by blast
  then show ?case using Cons by simp
qed simp

lemma length_concat_write_u16 [simp]: "length (concat (map write_u16 xs)) = 2 * length xs"
  by (induction xs) simp_all

text \<open>When the frames of the chunks are the samples, the callbacks see all of them in order.\<close>

lemma decode_chunks_samples:
  assumes "offset + frames_sum cs * unat (ab_channels input) = length samples"
  shows "concat (map fst (decode_chunks input samples cs offset)) = drop offset samples"
  using assms
proof (induction cs arbitrary: offset)
  case (Cons c cs)
  let ?n = "unat (ch_frames c) * unat (ab_channels input)"
  have off: "offset + ?n + frames_sum cs * unat (ab_channels input) = length samples"
    using Cons.prems by (simp add: add_mult_distrib)
  have "take ?n (drop offset samples) @ drop (offset + ?n) samples = drop offset samples"
    by (metis add.commute append_take_drop_id drop_drop)
  then show ?case using Cons.IH [OF off] off by (simp add: Let_def)
qed simp

lemma pcm_flush_block:
  assumes "block_ok E n bl" and "n \<le> 1100" and "is_id channel"
  obtains b where "pcm_flush channel bl = Some b" and "sendable_buffer E b"
    and "concat (map fst (pcm_decode b)) = bl_samples bl"
    and "length (encode_audio_buffer E b) \<le> 54 + n"
proof -
  note ok = assms(1) [unfolded block_ok_def]
  let ?k = "length (bl_samples bl)" and ?m = "length (bl_chunks bl)"
  have ne: "bl_chunks bl \<noteq> []" using ok by blast
  have chans: "bl_channels bl = 1 \<or> bl_channels bl = 2" using ok by blast
  have total: "?k = frames_sum (bl_chunks bl) * bl_channels bl" using ok by blast
  have fit: "?k * 2 + (?m - 1) * CHUNK_SIZE \<le> n" using ok by blast
  have k: "?k * 2 \<le> 1100" and m: "?m < 2 ^ 24" using fit assms(2) by simp_all
  have "frames_sum (bl_chunks bl) \<le> ?k" using total chans by auto
  then have frames: "unat (num_frames (bl_chunks bl)) = frames_sum (bl_chunks bl)"
    unfolding num_frames_eq using k by (intro unat_small(1)) simp
  have ch8: "unat (word_of_nat (bl_channels bl) :: u8) = bl_channels bl" using chans by auto
  define b where "b = \<lparr>ab_channel = channel, ab_session = bl_session bl, ab_chunks = bl_chunks bl, ab_codec = PcmI16,
      ab_rate = bl_rate bl, ab_channels = word_of_nat (bl_channels bl),
      ab_bytes = concat (map write_u16 (bl_samples bl))\<rparr>"
  have "pcm_flush channel bl = Some b" by (simp add: pcm_flush_def b_def frames total Let_def)
  moreover have "sendable_buffer E b"
    using ok assms(3) m k frames ch8 chans by (auto simp: sendable_buffer_def b_def)
  moreover have "concat (map fst (pcm_decode b)) = bl_samples bl"
  proof -
    have "ab_channels b \<noteq> 0" using chans by (auto simp: b_def)
    then show ?thesis
      using decode_chunks_samples [of 0 "bl_chunks bl" b "bl_samples bl"] total ch8
      by (simp add: pcm_decode_def) (simp add: b_def)
  qed
  moreover have "length (encode_audio_buffer E b) \<le> 54 + n"
  proof -
    have "length (concat (map (encode_chunk E) cs)) = 26 * length cs" for cs by (induction cs) simp_all
    then have "length (encode_audio_buffer E b) = 28 + 26 * ?m + 2 * ?k"
      using ok assms(3) by (simp add: encode_audio_buffer_def b_def)
    then show ?thesis using fit ne by (cases "bl_chunks bl") simp_all
  qed
  ultimately show ?thesis by (rule that)
qed

lemma decode_chunks_received:
  "map fst (decode_chunks (received_buffer E b) samples (map (received_chunk E) cs) offset)
     = map fst (decode_chunks b samples cs offset)"
  by (induction cs arbitrary: offset) (simp_all add: Let_def)

lemma pcm_decode_received: "map fst (pcm_decode (received_buffer E b)) = map fst (pcm_decode b)"
  by (simp add: pcm_decode_def decode_chunks_received)

lemma ready_new_resizer:
  "ready E (new_resizer CODEC_MAX_AUDIO_BYTES)" "taken (new_resizer n) = []" "max_num_bytes (new_resizer n) = n"
  by (simp_all add: ready_def rz_inv_def new_resizer_def taken_def)

definition published_samples :: "buffer \<Rightarrow> i16 list" where
  "published_samples b = take (bf_channels b * bf_frames b) (bf_samples b)"

abbreviation buffer_ok :: "ext \<Rightarrow> buffer \<Rightarrow> bool" where
  "buffer_ok E b \<equiv> input_ok E (bf_samples b) (bf_frames b) (bf_channels b) (bf_rate b) (bf_tempo b) (bf_session b)"

lemma encode_buffers_taken:
  assumes "ready E r" and "\<forall>b\<in>set inputs. buffer_ok E b"
  shows "ready E (fold encode_buffer inputs r)
       \<and> taken (fold encode_buffer inputs r) = taken r @ concat (map published_samples inputs)
       \<and> max_num_bytes (fold encode_buffer inputs r) = max_num_bytes r"
  using assms
proof (induction inputs arbitrary: r)
  case (Cons b inputs)
  have "ready E (encode_buffer b r)" "taken (encode_buffer b r) = taken r @ published_samples b"
    "max_num_bytes (encode_buffer b r) = max_num_bytes r"
    using process_taken [OF Cons.prems(1), of "bf_samples b"] Cons.prems(2) by (simp_all add: encode_buffer_def published_samples_def)
  then show ?case using Cons.IH [of "encode_buffer b r"] Cons.prems(2) by simp
qed simp

lemma sent_blocks:
  assumes "\<forall>bl\<in>set bls. block_ok E n bl" and "n \<le> 502" and "is_id channel"
  shows "(\<forall>b\<in>set (List.map_filter (pcm_flush channel) bls). sendable_buffer E b \<and> length (encode_audio_buffer E b) \<le> 54 + n)
       \<and> concat (map fst (concat (map pcm_decode (List.map_filter (pcm_flush channel) bls)))) = concat (map bl_samples bls)"
  using assms(1)
proof (induction bls)
  case (Cons bl bls)
  obtain b where "pcm_flush channel bl = Some b" "sendable_buffer E b"
    "concat (map fst (pcm_decode b)) = bl_samples bl" "length (encode_audio_buffer E b) \<le> 54 + n"
    by (rule pcm_flush_block [of E n bl channel]) (use Cons.prems assms(2,3) in auto)
  then show ?case using Cons by (simp add: List.map_filter_simps)
qed (simp add: List.map_filter_simps)

lemma message_payload:
  assumes "length payload \<le> 556" and "is_id sender"
  obtains p where "audio_buffer_message sender payload = Inr p" and "length p = 20 + length payload"
    and "parse_audio_header p = Inr (\<lparr>a_type = 6, a_ttl = 0, a_group = 0, a_ident = sender\<rparr>, 20)"
    and "drop 20 p = payload"
proof -
  let ?h = "\<lparr>a_type = 6, a_ttl = 0, a_group = 0, a_ident = sender\<rparr> :: audio_header"
  let ?p = "AUDIO_PROTOCOL_HEADER @ encode_audio_header ?h @ payload"
  have l: "length AUDIO_PROTOCOL_HEADER = 8" "length (encode_audio_header ?h) = 12"
    using assms(2) by (simp_all add: AUDIO_PROTOCOL_HEADER_def encode_audio_header_def)
  have "decode_audio_header (encode_audio_header ?h) = Inr (?h, [])"
    using assms(2) id_entry.decode_encoded by (simp add: decode_audio_header_def encode_audio_header_def)
  then show ?thesis
    using assms(1) l by (intro that [of ?p]) (simp_all add: audio_buffer_message_def encode_audio_message_def
        parse_audio_header_def Let_def)
qed

section \<open>Properties\<close>

text \<open>C5: Audio goes through the channel without loss. Whatever sequence of buffers the application publishes, mono
  or stereo, changing format, session or tempo between them, with tempos whose beat lasts between one and
  \<open>2 ^ 40\<close> microseconds, every datagram that is sent has at most 576 bytes and is decoded by the receiver to the
  buffer that was sent, except that the tempo of each chunk is the one of its beat period rounded to whole microseconds
  (the period is what the wire carries, and it is unchanged); and the samples of the receiver's callbacks, in
  order, are exactly the published samples.\<close>

theorem audio_pipeline_lossless:
  assumes "\<forall>b\<in>set inputs. buffer_ok E b" and "is_id channel" and "is_id sender"
  defines "sent \<equiv> sent_buffers channel (rz_flush (fold encode_buffer inputs (new_resizer CODEC_MAX_AUDIO_BYTES)))"
  shows "\<exists>ps. map (\<lambda>b. audio_buffer_message sender (encode_audio_buffer E b)) sent = map Inr ps
       \<and> (\<forall>p\<in>set ps. length p \<le> 576)
       \<and> map (\<lambda>p. bind_res (parse_audio_header p) (\<lambda>(_, n). decode_raw E (drop n p))) ps
           = map (\<lambda>b. Inr (received_buffer E b)) sent
       \<and> (\<forall>b\<in>set sent. \<forall>c\<in>set (ab_chunks b). period_micros (received_tempo E (ch_tempo c)) = period_micros (ch_tempo c))
       \<and> concat (map fst (concat (map (\<lambda>b. pcm_decode (received_buffer E b)) sent))) = concat (map published_samples inputs)"
proof -
  let ?r = "fold encode_buffer inputs (new_resizer CODEC_MAX_AUDIO_BYTES)"
  have r: "rz_inv E ?r" "taken ?r = concat (map published_samples inputs)" "max_num_bytes ?r = 502"
    using encode_buffers_taken [OF ready_new_resizer(1) assms(1)]
    by (simp_all add: ready_def ready_new_resizer(2,3))
  note fl = rz_flush_inv [OF r(1)]
  have blocks: "\<forall>bl\<in>set (successor (rz_flush ?r)). block_ok E 502 bl" using fl(1,5) r(3) by (simp add: rz_inv_def)
  have all: "concat (map bl_samples (successor (rz_flush ?r))) = concat (map published_samples inputs)"
    using fl(2,4) r(2) by (simp add: taken_def)
  note sent = sent_blocks [OF blocks order.refl assms(2), folded sent_buffers_def, folded sent_def, unfolded all]
  have "\<exists>p. audio_buffer_message sender (encode_audio_buffer E b) = Inr p \<and> length p \<le> 576
      \<and> bind_res (parse_audio_header p) (\<lambda>(_, n). decode_raw E (drop n p)) = Inr (received_buffer E b)" if "b \<in> set sent" for b
  proof -
    have w: "sendable_buffer E b" and l: "length (encode_audio_buffer E b) \<le> 556" using sent that by auto
    obtain p where "audio_buffer_message sender (encode_audio_buffer E b) = Inr p"
      "length p = 20 + length (encode_audio_buffer E b)"
      "parse_audio_header p = Inr (\<lparr>a_type = 6, a_ttl = 0, a_group = 0, a_ident = sender\<rparr>, 20)"
      "drop 20 p = encode_audio_buffer E b" by (rule message_payload [OF l assms(3)])
    then show ?thesis using l received_buffer_wire(3) [OF w] by simp
  qed
  then obtain f where f: "\<forall>b\<in>set sent. audio_buffer_message sender (encode_audio_buffer E b) = Inr (f b) \<and> length (f b) \<le> 576
      \<and> bind_res (parse_audio_header (f b)) (\<lambda>(_, n). decode_raw E (drop n (f b))) = Inr (received_buffer E b)" by metis
  have periods: "\<forall>b\<in>set sent. \<forall>c\<in>set (ab_chunks b). period_micros (received_tempo E (ch_tempo c)) = period_micros (ch_tempo c)"
    using sent received_tempo_wire(2) unfolding sendable_buffer_def by blast
  have "concat (map fst (concat (map (\<lambda>b. pcm_decode (received_buffer E b)) sent))) = concat (map published_samples inputs)"
    using sent by (simp add: map_concat comp_def pcm_decode_received)
  with periods show ?thesis by (intro exI [of _ "map f sent"]) (use f in auto)
qed

definition sample_input :: buffer where
  "sample_input = \<lparr>bf_rate = 48000, bf_channels = 2, bf_frames = 2, bf_samples = [1, 2, 3, 4, 0, 0], bf_begin = Beats 0,
     bf_tempo = Tempo (Fin 127), bf_count = 1, bf_session = replicate 8 2\<rparr>"

lemma sample_tempo: "sendable_tempo std_ext (Tempo (Fin 127))"
  by (rule sendable_tempo_clamped) simp_all

theorem audio_pipeline_lossless_witness:
  "concat (map fst (concat (map (\<lambda>b. pcm_decode (received_buffer std_ext b))
     (sent_buffers (replicate 8 1) (rz_flush (fold encode_buffer [sample_input, sample_input]
        (new_resizer CODEC_MAX_AUDIO_BYTES))))))) = [1, 2, 3, 4, 1, 2, 3, 4]"
proof -
  have "\<forall>b\<in>set [sample_input, sample_input]. buffer_ok std_ext b"
    using sample_tempo by (simp add: input_ok_def sample_input_def)
  from audio_pipeline_lossless [OF this, of "replicate 8 1" "replicate 8 0"]
  have "concat (map fst (concat (map (\<lambda>b. pcm_decode (received_buffer std_ext b))
     (sent_buffers (replicate 8 1) (rz_flush (fold encode_buffer [sample_input, sample_input]
        (new_resizer CODEC_MAX_AUDIO_BYTES))))))) = concat (map published_samples [sample_input, sample_input])"
    by auto
  then show ?thesis by (rule trans) (simp add: sample_input_def published_samples_def)
qed

end
