(* ===== verification/Phase.thy ===== *)
theory Phase
  imports Timeline
begin

text \<open>
  Phase arithmetic, \<open>src/link/phase.rs\<close>: the remainder of a beat modulo the quantum, the next
  and the closest beat with a given phase, the phase-encoded beats of a timeline and their
  inverse, and the timeline edit that puts a beat at a time (\<open>force_beat_at_time_impl\<close>) with
  its search for an exact anchor at very fast tempos.
\<close>

definition narrow :: "int \<Rightarrow> beats" where
  "narrow b = from_microbeats (word_of_int (sat64 b))"

definition phase_wide :: "int \<Rightarrow> int \<Rightarrow> int" where
  "phase_wide b quantum = (if quantum = 0 then 0 else b mod \<bar>quantum\<bar>)"

definition phase :: "beats \<Rightarrow> beats \<Rightarrow> beats" where
  "phase b quantum = narrow (phase_wide (mb b) (mb quantum))"

definition next_phase_match_wide :: "int \<Rightarrow> int \<Rightarrow> int \<Rightarrow> int" where
  "next_phase_match_wide x target quantum =
     (let offset = phase_wide (phase_wide target quantum - phase_wide x quantum) quantum
      in sat_add x offset)"

definition closest_phase_match_wide :: "int \<Rightarrow> int \<Rightarrow> int \<Rightarrow> int" where
  "closest_phase_match_wide x target quantum =
     (let quantum = \<bar>quantum\<bar>
      in if quantum = 0 then x
         else let offset = phase_wide (phase_wide target quantum - phase_wide x quantum) quantum
              in sat_add x (if offset * 2 \<ge> quantum then offset - quantum else offset))"

definition next_phase_match :: "beats \<Rightarrow> beats \<Rightarrow> beats \<Rightarrow> beats" where
  "next_phase_match x target quantum =
     narrow (next_phase_match_wide (mb x) (mb target) (mb quantum))"

definition closest_phase_match :: "beats \<Rightarrow> beats \<Rightarrow> beats \<Rightarrow> beats" where
  "closest_phase_match x target quantum =
     narrow (closest_phase_match_wide (mb x) (mb target) (mb quantum))"

definition to_phase_encoded_microbeats :: "ext \<Rightarrow> timeline \<Rightarrow> duration \<Rightarrow> beats \<Rightarrow> int" where
  "to_phase_encoded_microbeats E tline time quantum =
     (let beat = microbeats_at E tline time
      in closest_phase_match_wide beat
           (phase_wide beat (mb quantum) - phase_wide (mb (beat_origin tline)) (mb quantum))
           (mb quantum))"

definition to_phase_encoded_beats :: "ext \<Rightarrow> timeline \<Rightarrow> duration \<Rightarrow> beats \<Rightarrow> beats" where
  "to_phase_encoded_beats E tline time quantum =
     narrow (to_phase_encoded_microbeats E tline time quantum)"

definition from_phase_encoded_beats :: "ext \<Rightarrow> timeline \<Rightarrow> beats \<Rightarrow> beats \<Rightarrow> duration" where
  "from_phase_encoded_beats E tline beat quantum =
     (let beat = mb beat;
          origin = mb (beat_origin tline);
          quantum = \<bar>mb quantum\<bar>;
          from_origin = beat - origin;
          remainder = phase_wide from_origin quantum;
          origin_offset = from_origin - remainder;
          inverse_phase_offset =
            closest_phase_match_wide (quantum - remainder) (quantum - phase_wide beat quantum) quantum
      in time_at_microbeats E tline (origin + origin_offset + quantum - inverse_phase_offset))"

definition shifted_time_origin_nanos :: "ext \<Rightarrow> timeline \<Rightarrow> int \<Rightarrow> int" where
  "shifted_time_origin_nanos E tline shift =
     (let origin = mb (beat_origin tline);
          period = period_micros (tempo tline);
          remainder = period smod 1000000;
          delta = sat_add (sat_mul shift (period sdiv 1000000))
                    (round_ratio ((shift - origin) * remainder) 1000000
                     - round_ratio (- origin * remainder) 1000000)
      in sat_sub (duration_nanos E (time_origin tline)) (sat_mul delta 1000))"

definition shift_client_timeline_wide :: "ext \<Rightarrow> timeline \<Rightarrow> int \<Rightarrow> timeline" where
  "shift_client_timeline_wide E tline shift =
     tline\<lparr>time_origin := duration_from_nanos E (shifted_time_origin_nanos E tline shift)\<rparr>"

definition shift_client_timeline :: "ext \<Rightarrow> timeline \<Rightarrow> beats \<Rightarrow> timeline" where
  "shift_client_timeline E tline shift = shift_client_timeline_wide E tline (mb shift)"

subsection \<open>Forcing a beat to a time\<close>

text \<open>The loop of the extended Euclidean algorithm on \<open>1000\<close> and the quantum.\<close>

function euclid_loop :: "int \<Rightarrow> int \<Rightarrow> int \<Rightarrow> int \<Rightarrow> int \<times> int" where
  "euclid_loop divisor remainder inv_c coefficient =
     (if remainder = 0 then (divisor, inv_c)
      else let quot = divisor sdiv remainder
           in euclid_loop remainder (divisor - quot * remainder)
                coefficient (inv_c - quot * coefficient))"
  by pat_completeness auto

termination euclid_loop
proof (relation "measure (\<lambda>(d, r, i, c). nat \<bar>r\<bar>)")
  fix divisor remainder inv_c coefficient quot :: int
  assume "remainder \<noteq> 0" and "quot = divisor sdiv remainder"
  then show "((remainder, divisor - quot * remainder, coefficient, inv_c - quot * coefficient),
         divisor, remainder, inv_c, coefficient) \<in> measure (\<lambda>(d, r, i, c). nat \<bar>r\<bar>)"
    using abs_smod_less [of remainder divisor] sdiv_smod_sum [of divisor remainder]
    by (simp add: algebra_simps)
qed simp

declare euclid_loop.simps [simp del]

text \<open>The check of one candidate: its boundary, and how far its time origin lies from the time.\<close>

definition try_anchor ::
  "ext \<Rightarrow> timeline \<Rightarrow> int \<Rightarrow> duration \<Rightarrow> beats \<Rightarrow> int \<Rightarrow> int \<Rightarrow> timeline option" where
  "try_anchor E tline target time quantum boundary elapsed =
     (let origin = narrow boundary
      in if closest_phase_match_wide (mb origin) 0 \<bar>mb quantum\<bar> \<noteq> boundary then None
         else
           let anchored = tline\<lparr>beat_origin := origin,
                 time_origin := duration_from_nanos E (duration_nanos E time - elapsed)\<rparr>
           in if to_phase_encoded_microbeats E anchored time quantum = target
              then Some anchored else None)"

text \<open>The body of the search for one residue: the anchor it finds, if any.\<close>

definition anchor_at ::
  "ext \<Rightarrow> timeline \<Rightarrow> int \<Rightarrow> duration \<Rightarrow> beats \<Rightarrow> int \<Rightarrow> int \<Rightarrow> int \<Rightarrow> int \<Rightarrow> int \<Rightarrow> int \<Rightarrow> int
     \<Rightarrow> int \<Rightarrow> int \<Rightarrow> int \<Rightarrow> timeline option" where
  "anchor_at E tline target time quantum magnitude divisor modulus inv_c direction sign
     minimum maximum room residue =
     (let rounded = round_ratio (1000 * residue) magnitude;
          rhs = sign * target - rounded
      in if rhs mod divisor \<noteq> 0 then None
         else
           let first = ((rhs sdiv divisor) mod modulus * inv_c) mod modulus;
               lower = max ((minimum - rounded + 999) div 1000) 0;
               upper = min ((maximum - rounded) div 1000) ((room - residue) sdiv magnitude);
               cycles = lower + (first - lower) mod modulus
           in if cycles > upper then None
              else try_anchor E tline target time quantum
                     (target - sign * (1000 * cycles + rounded))
                     (direction * (cycles * magnitude + residue)))"

text \<open>\<open>for residue in 0..magnitude\<close>, stopping at the first anchor or past the span.\<close>

fun residue_loop ::
  "nat \<Rightarrow> int \<Rightarrow> int \<Rightarrow> (int \<Rightarrow> timeline option) \<Rightarrow> timeline option" where
  "residue_loop 0 residue room body = None"
| "residue_loop (Suc n) residue room body =
     (if residue > room then None
      else case body residue of
             Some anchored \<Rightarrow> Some anchored
           | None \<Rightarrow> residue_loop n (residue + 1) room body)"

definition anchor_direction ::
  "ext \<Rightarrow> timeline \<Rightarrow> int \<Rightarrow> duration \<Rightarrow> beats \<Rightarrow> int \<Rightarrow> int \<Rightarrow> int \<Rightarrow> int \<Rightarrow> int
     \<Rightarrow> timeline option" where
  "anchor_direction E tline target time quantum magnitude divisor modulus inv_c direction =
     (let quantum_magnitude = \<bar>mb quantum\<bar>;
          first_boundary = closest_phase_match_wide i64_min 0 quantum_magnitude;
          last_boundary = closest_phase_match_wide i64_max 0 quantum_magnitude;
          time_nanos = duration_nanos E time;
          sign = direction * sgn (period_micros (tempo tline));
          (minimum, maximum) =
            (if sign > 0 then (target - last_boundary, target - first_boundary)
             else (first_boundary - target, last_boundary - target));
          minimum = max minimum 0
      in if maximum < minimum then None
         else
           let room = (if direction > 0 then time_nanos - duration_nanos E (dur_min E)
                       else duration_nanos E (dur_max E) - time_nanos)
           in residue_loop (nat magnitude) 0 room
                (anchor_at E tline target time quantum magnitude divisor modulus inv_c
                   direction sign minimum maximum room))"

definition exact_fast_anchor :: "ext \<Rightarrow> timeline \<Rightarrow> beats \<Rightarrow> duration \<Rightarrow> beats \<Rightarrow> timeline option" where
  "exact_fast_anchor E tline beat time quantum =
     (let magnitude = \<bar>period_micros (tempo tline)\<bar>;
          quantum_magnitude = \<bar>mb quantum\<bar>
      in if \<not> (1 \<le> magnitude \<and> magnitude < 1000) \<or> quantum_magnitude = 0 then None
         else
           let target = mb beat;
               (divisor, inv_c) = euclid_loop 1000 quantum_magnitude 1 0;
               modulus = quantum_magnitude sdiv divisor;
               inv_c = inv_c mod modulus
           in case anchor_direction E tline target time quantum magnitude divisor modulus inv_c 1 of
                Some anchored \<Rightarrow> Some anchored
              | None \<Rightarrow>
                  anchor_direction E tline target time quantum magnitude divisor modulus inv_c (- 1))"

text \<open>One candidate boundary of the fallback: the anchored timeline the code returns, if any.\<close>

definition anchor_boundary ::
  "ext \<Rightarrow> timeline \<Rightarrow> beats \<Rightarrow> duration \<Rightarrow> beats \<Rightarrow> bool \<Rightarrow> int \<Rightarrow> timeline option" where
  "anchor_boundary E tline beat time quantum precise boundary =
     (let min_time = duration_nanos E (dur_min E);
          max_time = duration_nanos E (dur_max E);
          origin = narrow boundary
      in if closest_phase_match_wide (mb origin) 0 (mb quantum) \<noteq> boundary then None
         else
           let offset = mb beat - boundary;
               elapsed = (if precise then nanos_from_microbeats (tempo tline) offset
                          else sat_mul (micros_from_microbeats (tempo tline) offset) 1000);
               anchored_time = sat_sub (duration_nanos E time) elapsed
           in if precise \<or> (min_time \<le> anchored_time \<and> anchored_time \<le> max_time)
              then let anchored = tline\<lparr>beat_origin := origin,
                         time_origin := duration_from_nanos E anchored_time\<rparr>
                   in if \<not> precise \<or> to_phase_encoded_microbeats E anchored time quantum = mb beat
                      then Some anchored else None
              else None)"

definition anchor_boundaries ::
  "ext \<Rightarrow> timeline \<Rightarrow> beats \<Rightarrow> duration \<Rightarrow> beats \<Rightarrow> bool \<Rightarrow> timeline option" where
  "anchor_boundaries E tline beat time quantum precise =
     (let boundary = mb beat - phase_wide (mb beat) (mb quantum)
      in case anchor_boundary E tline beat time quantum precise boundary of
           Some anchored \<Rightarrow> Some anchored
         | None \<Rightarrow> anchor_boundary E tline beat time quantum precise (boundary + \<bar>mb quantum\<bar>))"

definition force_beat_at_time_impl ::
  "ext \<Rightarrow> timeline \<Rightarrow> beats \<Rightarrow> duration \<Rightarrow> beats \<Rightarrow> timeline" where
  "force_beat_at_time_impl E tline beat time quantum =
     (let cur_beat_at_time = to_phase_encoded_microbeats E tline time quantum;
          closest_in_phase = closest_phase_match_wide cur_beat_at_time (mb beat) (mb quantum);
          time_org = shifted_time_origin_nanos E tline (closest_in_phase - cur_beat_at_time);
          beat_org = sat_sub (mb (beat_origin tline) + mb beat) closest_in_phase;
          min_time = duration_nanos E (dur_min E);
          max_time = duration_nanos E (dur_max E);
          out_of_range = (\<not> in_i64 beat_org \<or> \<not> (min_time \<le> time_org \<and> time_org \<le> max_time));
          adjusted = tline\<lparr>beat_origin := narrow beat_org, time_origin := duration_from_nanos E time_org\<rparr>
      in if out_of_range \<or> to_phase_encoded_microbeats E adjusted time quantum \<noteq> mb beat
         then case anchor_boundaries E tline beat time quantum True of
                Some anchored \<Rightarrow> anchored
              | None \<Rightarrow>
                  (case exact_fast_anchor E tline beat time quantum of
                     Some anchored \<Rightarrow> anchored
                   | None \<Rightarrow>
                       if out_of_range
                       then (case anchor_boundaries E tline beat time quantum False of
                               Some anchored \<Rightarrow> anchored
                             | None \<Rightarrow> adjusted)
                       else adjusted)
         else adjusted)"

section \<open>Phase matches\<close>

lemma mb_narrow [simp]: "mb (narrow b) = sat64 b"
  by (simp add: narrow_def from_microbeats_def)

lemma narrow_mb [simp]: "narrow (mb b) = b"
  by (simp add: narrow_def from_microbeats_def)

lemma phase_wide_diff:
  "phase_wide (phase_wide t q - phase_wide x q) q = (if q = 0 then 0 else (t - x) mod \<bar>q\<bar>)"
  by (simp add: phase_wide_def mod_diff_eq)

lemma dvd_mod_diff: "q dvd a mod q - a" for a q :: int
  by (simp flip: mod_eq_dvd_iff)

text \<open>The signed offset of the closest match: at least minus half a quantum, below half.\<close>

definition closest_offset :: "int \<Rightarrow> int \<Rightarrow> int" where
  "closest_offset d q = (if 2 * (d mod q) \<ge> q then d mod q - q else d mod q)"

lemma closest_offset_props:
  assumes "0 < q"
  shows "- q \<le> 2 * closest_offset d q" and "2 * closest_offset d q < q"
    and "q dvd closest_offset d q - d"
proof -
  have "0 \<le> d mod q" "d mod q < q" using assms by simp_all
  then show "- q \<le> 2 * closest_offset d q" and "2 * closest_offset d q < q"
    by (auto simp: closest_offset_def)
  have "closest_offset d q mod q = d mod q" by (simp add: closest_offset_def)
  then show "q dvd closest_offset d q - d" by (simp only: mod_eq_dvd_iff)
qed

lemma closest_offset_cong: "q dvd d - e \<Longrightarrow> closest_offset d q = closest_offset e q"
  by (simp add: closest_offset_def flip: mod_eq_dvd_iff)

lemma closest_phase_match_offset:
  "closest_phase_match_wide x t q = (if q = 0 then x else sat_add x (closest_offset (t - x) \<bar>q\<bar>))"
  using phase_wide_diff [of t "\<bar>q\<bar>" x]
  by (simp add: closest_phase_match_wide_def Let_def closest_offset_def mult.commute)

lemma next_phase_match_offset:
  "next_phase_match_wide x t q = (if q = 0 then sat128 x else sat_add x ((t - x) mod \<bar>q\<bar>))"
  by (simp add: next_phase_match_wide_def Let_def phase_wide_diff sat_add_def)

lemma abs_closest_offset: "0 < q \<Longrightarrow> \<bar>closest_offset d q\<bar> \<le> q"
  using closest_offset_props(1,2) [of q d] by linarith

section \<open>Phase encoding\<close>

text \<open>The phase-encoded beat: the beat moved by less than half a quantum.\<close>

lemma to_phase_encoded_offset:
  "to_phase_encoded_microbeats E tline time quantum =
     (if mb quantum = 0 then microbeats_at E tline time
      else sat_add (microbeats_at E tline time)
             (closest_offset (- mb (beat_origin tline)) \<bar>mb quantum\<bar>))"
proof (cases "mb quantum = 0")
  case False
  define b where "b = microbeats_at E tline time"
  define o' where "o' = mb (beat_origin tline)"
  define q where "q = \<bar>mb quantum\<bar>"
  have "q dvd (b mod q - b) - (o' mod q - o')"
    by (rule dvd_diff [OF dvd_mod_diff dvd_mod_diff])
  then have "q dvd (b mod q - o' mod q - b) - (- o')"
    by (simp add: algebra_simps)
  from closest_offset_cong [OF this] False show ?thesis
    by (simp add: to_phase_encoded_microbeats_def closest_phase_match_offset phase_wide_def
        flip: b_def o'_def q_def)
qed (simp add: to_phase_encoded_microbeats_def closest_phase_match_offset)

lemma from_phase_encoded_offset:
  "from_phase_encoded_beats E tline beat quantum =
     time_at_microbeats E tline
       (if mb quantum = 0 then mb beat
        else mb beat - closest_offset (- mb (beat_origin tline)) \<bar>mb quantum\<bar>)"
proof (cases "mb quantum = 0")
  case True
  then show ?thesis
    by (simp add: from_phase_encoded_beats_def Let_def closest_phase_match_offset phase_wide_def)
next
  case False
  define e where "e = mb beat"
  define o' where "o' = mb (beat_origin tline)"
  define q where "q = \<bar>mb quantum\<bar>"
  define r where "r = (e - o') mod q"
  have q: "0 < q" "q \<le> 2 ^ 63" using False sint_i64_bounds [of "beats_value quantum"]
    by (auto simp: q_def abs_le_iff)
  have r: "0 \<le> r" "r < q" using q by (simp_all add: r_def)
  have "q dvd (r - (e - o')) - (e mod q - e)"
    unfolding r_def by (rule dvd_diff [OF dvd_mod_diff dvd_mod_diff])
  then have "q dvd (q - e mod q - (q - r)) - (- o')" by (simp add: algebra_simps)
  note off = closest_offset_cong [OF this]
  have "\<bar>closest_offset (- o') q\<bar> \<le> q" by (rule abs_closest_offset [OF q(1)])
  then have "in_i128 (q - r + closest_offset (- o') q)" using q r by (auto simp: in_i128_def abs_le_iff)
  with off False q have "closest_phase_match_wide (q - r) (q - e mod q) q = q - r + closest_offset (- o') q"
    by (simp add: closest_phase_match_offset)
  then show ?thesis using False q
    by (simp add: from_phase_encoded_beats_def Let_def phase_wide_def flip: q_def e_def o'_def r_def)
qed

lemma phase_encoding_inverse:
  assumes "in_i64 (to_phase_encoded_microbeats E tline time quantum)"
  shows "from_phase_encoded_beats E tline (to_phase_encoded_beats E tline time quantum) quantum
           = time_at_microbeats E tline (microbeats_at E tline time)"
proof (cases "mb quantum = 0")
  case False
  define b where "b = microbeats_at E tline time"
  define c where "c = closest_offset (- mb (beat_origin tline)) \<bar>mb quantum\<bar>"
  have e: "to_phase_encoded_microbeats E tline time quantum = sat128 (b + c)"
    using False by (simp add: to_phase_encoded_offset sat_add_def b_def c_def)
  have "sat128 (b + c) = b + c" using assms e by (auto simp: sat128_def clamp_def in_i64_def split: if_splits)
  then show ?thesis using False assms
    by (simp add: from_phase_encoded_offset to_phase_encoded_beats_def e flip: b_def c_def)
qed (use assms in \<open>simp add: from_phase_encoded_offset to_phase_encoded_beats_def to_phase_encoded_offset\<close>)

section \<open>The search for an exact anchor\<close>

text \<open>Euclid's loop ends with the greatest common divisor and a coefficient for it.\<close>

lemma euclid_loop_gcd:
  assumes "0 \<le> divisor" and "0 \<le> remainder"
    and "m dvd inv_c * a - divisor" and "m dvd coefficient * a - remainder"
    and "euclid_loop divisor remainder inv_c coefficient = (g, i)"
  shows "g = gcd divisor remainder \<and> m dvd i * a - g"
  using assms
proof (induction divisor remainder inv_c coefficient rule: euclid_loop.induct)
  case (1 divisor remainder inv_c coefficient)
  show ?case
  proof (cases "remainder = 0")
    case True
    then show ?thesis using 1 by (simp add: euclid_loop.simps [of divisor])
  next
    case False
    define quot where "quot = divisor sdiv remainder"
    have r: "divisor - quot * remainder = divisor mod remainder"
      using sdiv_smod_sum [of divisor remainder] smod_mod_positive [OF 1(2,3)]
      by (simp add: quot_def algebra_simps)
    have "m dvd (inv_c * a - divisor) - quot * (coefficient * a - remainder)"
      by (rule dvd_diff [OF 1(4) dvd_mult [OF 1(5)]])
    then have "m dvd (inv_c - quot * coefficient) * a - (divisor - quot * remainder)"
      by (simp add: algebra_simps)
    note step = this
    have run: "euclid_loop remainder (divisor - quot * remainder) coefficient
        (inv_c - quot * coefficient) = (g, i)"
      using 1(6) False by (simp add: euclid_loop.simps [of divisor] Let_def quot_def)
    have "0 \<le> divisor - quot * remainder" unfolding r using False 1(3) by simp
    then have "g = gcd remainder (divisor - quot * remainder) \<and> m dvd i * a - g"
      by (rule 1(1) [OF False quot_def 1(3) _ 1(5) step run])
    then have "g = gcd remainder (divisor mod remainder) \<and> m dvd i * a - g" unfolding r .
    moreover have "gcd remainder (divisor mod remainder) = gcd divisor remainder"
      by (metis gcd.commute gcd_red_int)
    ultimately show ?thesis by (simp only:) blast
  qed
qed

text \<open>
  The number of cycles the search computes solves the congruence: the boundary of every
  candidate is a multiple of the quantum.
\<close>

lemma anchor_boundary_multiple:
  assumes q: "0 < q" and eu: "euclid_loop 1000 q 1 0 = (g, i)"
    and rhs: "rhs mod g = 0" and sgn: "sign = 1 \<or> sign = (- 1 :: int)"
    and first: "first = ((rhs sdiv g) mod (q sdiv g) * (i mod (q sdiv g))) mod (q sdiv g)"
    and cycles: "cycles = lower + (first - lower) mod (q sdiv g)"
    and r: "rhs = sign * target - rounded"
  shows "q dvd target - sign * (1000 * cycles + rounded)"
proof -
  have gi: "g = gcd 1000 q \<and> q dvd i * 1000 - g"
    by (rule euclid_loop_gcd [OF _ _ _ _ eu]) (use q in simp_all)
  then have g: "g = gcd 1000 q" and i: "q dvd i * 1000 - g" by blast+
  have g0: "0 < g" using q by (simp add: g)
  obtain n where n: "q = g * n" using g by (metis dvdE gcd_dvd2)
  have n0: "0 < n" using q g0 n by (simp add: zero_less_mult_iff)
  obtain k where k: "rhs = g * k" using rhs by (metis mod_0_imp_dvd dvdE)
  have sd: "rhs sdiv g = k" "q sdiv g = n"
    using g0 n0 by (simp_all add: k n signed_divide_int_def sgn_mult abs_mult mult_sgn_abs)
  have "cycles mod n = first mod n" unfolding cycles sd by (simp add: mod_add_right_eq)
  then have "n dvd cycles - k * i"
    unfolding first sd by (simp add: mod_mult_eq flip: mod_eq_dvd_iff)
  then have "q dvd (cycles - k * i) * g" unfolding n by (simp add: mult.commute)
  have "g dvd 1000" by (simp add: g)
  then obtain w where w: "1000 = g * w" by (elim dvdE)
  with \<open>q dvd (cycles - k * i) * g\<close> have "q dvd (cycles - k * i) * g * w" by simp
  then have "q dvd (cycles - k * i) * 1000" by (simp add: w mult.assoc)
  moreover have "q dvd k * (i * 1000 - g)" using i by (rule dvd_mult)
  ultimately have "q dvd (cycles - k * i) * 1000 + k * (i * 1000 - g)" by (rule dvd_add)
  then have "q dvd 1000 * cycles - rhs" by (simp add: k algebra_simps)
  then have "q dvd - sign * (1000 * cycles - rhs)" by (rule dvd_mult)
  moreover have "- sign * (1000 * cycles - rhs) = target - sign * (1000 * cycles + rounded)"
    using sgn by (auto simp: r algebra_simps)
  ultimately show ?thesis by (simp only:)
qed

text \<open>
  What the search looks for at one residue: a number of whole cycles whose boundary is a multiple of the
  quantum, between the first and the last boundary, and whose elapsed time fits.
\<close>

definition anchor_candidate :: "int \<Rightarrow> int \<Rightarrow> int \<Rightarrow> int \<Rightarrow> int \<Rightarrow> int \<Rightarrow> int \<Rightarrow> int \<Rightarrow> int \<Rightarrow> bool" where
  "anchor_candidate q target magnitude sign minimum maximum room residue cycles \<longleftrightarrow>
     (let units = 1000 * cycles + round_ratio (1000 * residue) magnitude
      in 0 \<le> cycles \<and> minimum \<le> units \<and> units \<le> maximum \<and> cycles * magnitude + residue \<le> room
       \<and> q dvd target - sign * units)"

lemma anchor_candidate_iff:
  fixes q :: int
  assumes "0 < magnitude" and "residue \<le> room"
  defines "rounded \<equiv> round_ratio (1000 * residue) magnitude"
  shows "anchor_candidate q target magnitude sign minimum maximum room residue c \<longleftrightarrow>
           max ((minimum - rounded + 999) div 1000) 0 \<le> c
         \<and> c \<le> min ((maximum - rounded) div 1000) ((room - residue) sdiv magnitude)
         \<and> q dvd target - sign * (1000 * c + rounded)"
proof -
  have sd: "(room - residue) sdiv magnitude = (room - residue) div magnitude"
    using assms(1,2) by (cases "room = residue") (simp_all add: signed_divide_int_def)
  have "c \<le> x div magnitude \<longleftrightarrow> c * magnitude \<le> x" for x
  proof
    assume "c \<le> x div magnitude"
    then have "c * magnitude \<le> x div magnitude * magnitude" using assms(1) by (intro mult_right_mono) simp_all
    also have "\<dots> \<le> x" using assms(1) pos_mod_sign [of magnitude x] by (simp add: minus_mod_eq_div_mult [symmetric])
    finally show "c * magnitude \<le> x" .
  qed (use zdiv_mono1 [of "c * magnitude" x magnitude] assms(1) in simp)
  then have "c \<le> (room - residue) div magnitude \<longleftrightarrow> c * magnitude + residue \<le> room" by (simp add: le_diff_eq)
  then show ?thesis unfolding sd by (auto simp: anchor_candidate_def Let_def rounded_def)
qed

text \<open>Two solutions of the congruence differ by a multiple of the modulus.\<close>

lemma anchor_solutions:
  assumes q: "0 < q" and "q dvd target - sign * (1000 * c + rounded)" and "q dvd target - sign * (1000 * d + rounded)"
    and sgn: "sign = 1 \<or> sign = (- 1 :: int)"
  shows "q sdiv gcd 1000 q dvd c - d"
proof -
  have "q dvd (target - sign * (1000 * d + rounded)) - (target - sign * (1000 * c + rounded))"
    by (rule dvd_diff [OF assms(3,2)])
  then have "q dvd sign * (1000 * (c - d))" by (simp add: algebra_simps)
  then have "q dvd 1000 * (c - d)" using sgn by (elim disjE) (simp_all only: mult_1 mult_minus_left dvd_minus_iff)
  then have "q div gcd 1000 q dvd (1000 * (c - d)) div gcd 1000 q" by (intro div_dvd_div [THEN iffD2]) auto
  moreover have "(1000 * (c - d)) div gcd 1000 q = 1000 div gcd 1000 q * (c - d)" by (rule dvd_div_mult [symmetric]) simp
  ultimately have "q div gcd 1000 q dvd 1000 div gcd 1000 q * (c - d)" by simp
  moreover have "coprime (q div gcd 1000 q) (1000 div gcd 1000 q)"
    using q by (metis coprime_commute div_gcd_coprime less_irrefl)
  ultimately have "q div gcd 1000 q dvd c - d" by (simp add: coprime_dvd_mult_right_iff)
  moreover have "q sdiv gcd 1000 q = q div gcd 1000 q" using q by (simp add: signed_divide_int_def)
  ultimately show ?thesis by simp
qed

lemma anchor_at_least:
  fixes E :: ext and tline :: timeline and time :: duration and quantum :: beats
    and target direction minimum maximum :: int
  assumes q: "0 < q" and eu: "euclid_loop 1000 q 1 0 = (g, i)" and sgn: "sign = 1 \<or> sign = (- 1 :: int)"
    and "0 < magnitude" and "residue \<le> room"
  defines "result \<equiv> anchor_at E tline target time quantum magnitude g (q sdiv g) (i mod (q sdiv g)) direction sign
                      minimum maximum room residue"
    and "cand \<equiv> anchor_candidate q target magnitude sign minimum maximum room residue"
  shows "(\<forall>c. \<not> cand c) \<and> result = None
       \<or> (\<exists>c. cand c \<and> (\<forall>d. cand d \<longrightarrow> c \<le> d)
            \<and> result = try_anchor E tline target time quantum
                (target - sign * (1000 * c + round_ratio (1000 * residue) magnitude)) (direction * (c * magnitude + residue)))"
proof -
  define rounded where "rounded = round_ratio (1000 * residue) magnitude"
  define rhs where "rhs = sign * target - rounded"
  define low where "low = max ((minimum - rounded + 999) div 1000) 0"
  define up where "up = min ((maximum - rounded) div 1000) ((room - residue) sdiv magnitude)"
  define first where "first = ((rhs sdiv g) mod (q sdiv g) * (i mod (q sdiv g))) mod (q sdiv g)"
  define c where "c = low + (first - low) mod (q sdiv g)"
  have "g = gcd 1000 q \<and> q dvd i * 1000 - g" by (rule euclid_loop_gcd [OF _ _ _ _ eu]) (use q in simp_all)
  then have g: "g = gcd 1000 q" by blast
  have cand: "cand d \<longleftrightarrow> low \<le> d \<and> d \<le> up \<and> q dvd target - sign * (1000 * d + rounded)" for d
    unfolding cand_def low_def up_def rounded_def by (rule anchor_candidate_iff [OF assms(4,5)])
  have res: "result = (if rhs mod g \<noteq> 0 then None else if c > up then None else
      try_anchor E tline target time quantum (target - sign * (1000 * c + rounded)) (direction * (c * magnitude + residue)))"
    by (simp add: result_def anchor_at_def Let_def rounded_def rhs_def low_def up_def first_def c_def)
  show ?thesis
  proof (cases "rhs mod g = 0")
    case False
    have "rhs mod g = 0" if "cand d" for d
    proof -
      have "g dvd target - sign * (1000 * d + rounded)" using that gcd_dvd2 [of 1000 q] unfolding cand g by (meson dvd_trans)
      then have "g dvd sign * (target - sign * (1000 * d + rounded)) + 1000 * d"
        by (intro dvd_add dvd_mult [of g _ sign] dvd_mult2 [of g 1000 d]) (simp_all add: g)
      moreover have "sign * (target - sign * (1000 * d + rounded)) + 1000 * d = rhs" using sgn by (auto simp: rhs_def)
      ultimately show ?thesis by (simp add: mod_0_imp_dvd dvd_imp_mod_0)
    qed
    then show ?thesis using False res by auto
  next
    case True
    have sol: "q dvd target - sign * (1000 * c + rounded)"
      by (rule anchor_boundary_multiple [OF q eu True sgn first_def c_def rhs_def])
    have n: "0 < q sdiv g" using q by (simp add: g signed_divide_int_def)
      (metis gcd_dvd2 gcd_pos_int less_irrefl pos_imp_zdiv_pos_iff zdvd_imp_le)
    have least: "c \<le> d" if "cand d" for d
    proof (rule ccontr)
      assume "\<not> c \<le> d"
      then have "0 < c - d" "c - d < q sdiv g"
        using that n unfolding cand c_def by (simp_all, smt (verit) pos_mod_bound)
      moreover have "q sdiv g dvd c - d" unfolding g by (rule anchor_solutions [OF q sol _ sgn]) (use that cand in blast)
      ultimately show False using zdvd_imp_le by fastforce
    qed
    have low: "low \<le> c" using n by (simp add: c_def)
    then have "cand c" if "\<not> c > up" using that sol cand by simp
    moreover have "\<not> cand d" if "c > up" for d using least [of d] that cand by fastforce
    ultimately show ?thesis using least res True by (cases "c > up") (auto simp: rounded_def)
  qed
qed

lemma residue_loop_sound:
  "residue_loop n residue room body = Some a \<Longrightarrow> \<exists>r. body r = Some a"
  by (induction n arbitrary: residue) (auto split: if_splits option.splits)

lemma try_anchor_sound:
  assumes "try_anchor E tline target time quantum boundary elapsed = Some a"
  shows "to_phase_encoded_microbeats E a time quantum = target" and "tempo a = tempo tline"
  using assms by (auto simp: try_anchor_def Let_def split: if_splits)

lemma anchor_at_sound:
  assumes "anchor_at E tline target time quantum mag dv md iv dir sg mn mx room r = Some a"
  shows "to_phase_encoded_microbeats E a time quantum = target" and "tempo a = tempo tline"
  using assms try_anchor_sound unfolding anchor_at_def Let_def guard_simps by blast+

lemma exact_fast_anchor_sound:
  assumes "exact_fast_anchor E tline beat time quantum = Some a"
  shows "to_phase_encoded_microbeats E a time quantum = mb beat" and "tempo a = tempo tline"
proof -
  have "to_phase_encoded_microbeats E a time quantum = target \<and> tempo a = tempo tline"
    if "anchor_direction E tline target time quantum mag dv md iv dir = Some a" for target mag dv md iv dir
    using that
    by (auto simp: anchor_direction_def Let_def split: if_splits
        dest!: residue_loop_sound dest: anchor_at_sound)
  then show "to_phase_encoded_microbeats E a time quantum = mb beat" "tempo a = tempo tline"
    using assms by (auto simp: exact_fast_anchor_def Let_def split: if_splits prod.splits option.splits)
qed

section \<open>Forcing a beat to a time\<close>

text \<open>
  The first precise candidate: the multiple of the quantum at or below the beat, at the time
  the tempo needs for the rest.
\<close>

lemma anchor_boundary_exact:
  assumes E: "chrono_ok E" and t: "valid_dur E time" and p: "1000 \<le> \<bar>period_micros (tempo tline)\<bar>"
    and b: "boundary = mb beat - phase_wide (mb beat) (mb quantum)" and fit: "in_i64 boundary"
    and e: "elapsed = round_ratio (phase_wide (mb beat) (mb quantum) * period_micros (tempo tline)) 1000"
    and room: "valid_dur E (time - elapsed)"
  defines "anchored \<equiv> tline\<lparr>beat_origin := narrow boundary, time_origin := time - elapsed\<rparr>"
  shows "anchor_boundary E tline beat time quantum True boundary = Some anchored"
    and "to_phase_encoded_microbeats E anchored time quantum = mb beat"
proof -
  define q where "q = mb quantum"
  define r where "r = phase_wide (mb beat) q"
  have sum: "boundary + r = mb beat" using b by (simp add: r_def q_def)
  have mult: "q \<noteq> 0 \<Longrightarrow> \<bar>q\<bar> dvd - boundary"
    unfolding b using dvd_mod_diff [of "\<bar>q\<bar>" "mb beat"] by (simp add: phase_wide_def q_def)
  have off: "q \<noteq> 0 \<Longrightarrow> closest_offset (- boundary) \<bar>q\<bar> = 0"
    using mult by (auto simp: closest_offset_def)
  have el: "in_i128 elapsed"
    using time_range(1) [OF E t room] by simp
  have nanos: "nanos_from_microbeats (tempo tline) r = elapsed"
    using el by (simp add: nanos_from_microbeats_exact e r_def q_def)
  have "period_micros (tempo tline) \<noteq> 0" using p by auto
  then have "microbeats_at E anchored time = round_ratio (elapsed * 1000) (period_micros (tempo tline)) + boundary"
    using microbeats_at_exact [OF E t, of anchored] room fit by (simp add: anchored_def)
  also have "\<dots> = mb beat"
    using round_ratio_1000_inverse [OF p, of r] sum by (simp add: e r_def q_def)
  finally have at: "microbeats_at E anchored time = mb beat" .
  have "mb (beat_origin anchored) = boundary" using fit by (simp add: anchored_def)
  then show enc: "to_phase_encoded_microbeats E anchored time quantum = mb beat"
    using off by (simp add: to_phase_encoded_offset at q_def)
  have "closest_phase_match_wide (mb (narrow boundary)) 0 (mb quantum) = boundary"
    using off fit in_i64_in_i128 [OF fit] by (simp add: closest_phase_match_offset q_def)
  moreover have "mb beat - boundary = r" using sum by simp
  moreover have "sat_sub time elapsed = time - elapsed"
    using room E by (intro sat_sub_exact) (auto simp: in_i128_def valid_dur_iff abs_le_iff)
  ultimately show "anchor_boundary E tline beat time quantum True boundary = Some anchored"
    using E t room nanos enc by (simp add: anchor_boundary_def Let_def anchored_def)
qed

lemma force_beat_at_time_exact:
  assumes E: "chrono_ok E" and t: "valid_dur E time" and p: "1000 \<le> \<bar>period_micros (tempo tline)\<bar>"
    and fit: "in_i64 (mb beat - phase_wide (mb beat) (mb quantum))"
    and room: "valid_dur E (time - round_ratio (phase_wide (mb beat) (mb quantum)
                                   * period_micros (tempo tline)) 1000)"
  shows "to_phase_encoded_microbeats E (force_beat_at_time_impl E tline beat time quantum) time quantum
           = mb beat"
    and "tempo (force_beat_at_time_impl E tline beat time quantum) = tempo tline"
proof -
  note A = anchor_boundary_exact [OF E t p refl fit refl room]
  have B: "\<exists>a. anchor_boundaries E tline beat time quantum True = Some a
      \<and> to_phase_encoded_microbeats E a time quantum = mb beat \<and> tempo a = tempo tline"
    unfolding anchor_boundaries_def Let_def A(1) using A(2) by simp
  show "to_phase_encoded_microbeats E (force_beat_at_time_impl E tline beat time quantum) time quantum = mb beat"
    and "tempo (force_beat_at_time_impl E tline beat time quantum) = tempo tline"
    using B by (auto simp: force_beat_at_time_impl_def Let_def)
qed

section \<open>Shifting a timeline\<close>

text \<open>Splitting the period before multiplying keeps the rounding of each conversion.\<close>

lemma round_ratio_split_period:
  assumes "0 < M"
  shows "round_ratio (x * p) M = x * (p sdiv M) + round_ratio (x * (p smod M)) M"
proof -
  have "round_ratio (\<bar>x\<bar> * \<bar>p\<bar>) M = \<bar>x\<bar> * (\<bar>p\<bar> div M) + round_ratio (\<bar>x\<bar> * (\<bar>p\<bar> mod M)) M"
  proof -
    have "2 * (x' * (d * M + r)) + M = (2 * (x' * r) + M) + x' * d * (2 * M)" for x' d r
      by (simp add: algebra_simps)
    from this [of "\<bar>x\<bar>" "\<bar>p\<bar> div M" "\<bar>p\<bar> mod M"]
    have eq: "2 * (\<bar>x\<bar> * \<bar>p\<bar>) + M = (2 * (\<bar>x\<bar> * (\<bar>p\<bar> mod M)) + M) + \<bar>x\<bar> * (\<bar>p\<bar> div M) * (2 * M)"
      by (simp only: div_mult_mod_eq)
    have "(2 * (\<bar>x\<bar> * \<bar>p\<bar>) + M) div (2 * M)
        = \<bar>x\<bar> * (\<bar>p\<bar> div M) + (2 * (\<bar>x\<bar> * (\<bar>p\<bar> mod M)) + M) div (2 * M)"
      unfolding eq using assms by (intro div_mult_self1) simp
    then show ?thesis using assms by (simp add: round_ratio_pos)
  qed
  moreover have "round_ratio (c * y) M = c * round_ratio y M" if "c = 1 \<or> c = - 1 \<or> c = 0" for c y
    using that assms by auto
  note sg = this [of "sgn x * sgn p"]
  have "sgn x * sgn p = 1 \<or> sgn x * sgn p = - 1 \<or> sgn x * sgn p = 0" by (auto simp: sgn_if)
  note sg = sg [OF this]
  have "x * p = sgn x * sgn p * (\<bar>x\<bar> * \<bar>p\<bar>)"
    by (metis mult.assoc mult.left_commute mult_sgn_abs mult.commute)
  moreover have "x * (p smod M) = sgn x * sgn p * (\<bar>x\<bar> * (\<bar>p\<bar> mod M))"
    using assms by (simp add: smod_int_alt_def) (metis mult.assoc mult.left_commute mult_sgn_abs mult.commute)
  moreover have "x * (p sdiv M) = sgn x * sgn p * (\<bar>x\<bar> * (\<bar>p\<bar> div M))"
    using assms by (simp add: signed_divide_int_def) (metis mult.assoc mult.left_commute mult_sgn_abs mult.commute)
  ultimately show ?thesis by (simp only: sg distrib_left)
qed

lemma shifted_time_origin_exact:
  assumes E: "chrono_ok E" and o: "valid_dur E (time_origin tline)"
    and d: "delta = round_ratio ((shift - mb (beat_origin tline)) * period_micros (tempo tline)) 1000000
                    - round_ratio (- mb (beat_origin tline) * period_micros (tempo tline)) 1000000"
    and fit: "in_i128 (shift * (period_micros (tempo tline) sdiv 1000000))" "in_i128 (delta * 1000)"
      "in_i128 (time_origin tline - delta * 1000)"
  shows "shifted_time_origin_nanos E tline shift = time_origin tline - delta * 1000"
proof -
  define org where "org = mb (beat_origin tline)"
  define p where "p = period_micros (tempo tline)"
  have "delta = shift * (p sdiv 1000000) + (round_ratio ((shift - org) * (p smod 1000000)) 1000000
        - round_ratio (- org * (p smod 1000000)) 1000000)"
    unfolding d org_def [symmetric] p_def [symmetric]
    by (subst (1 2) round_ratio_split_period) (simp_all add: algebra_simps)
  moreover have "in_i128 delta" using fit(2) by (auto simp: in_i128_def)
  ultimately have "sat_add (sat_mul shift (p sdiv 1000000))
      (round_ratio ((shift - org) * (p smod 1000000)) 1000000
        - round_ratio (- org * (p smod 1000000)) 1000000) = delta"
    using fit(1) by (simp add: p_def)
  then show ?thesis using E o fit(2,3)
    by (simp add: shifted_time_origin_nanos_def Let_def flip: org_def p_def)
qed

section \<open>Properties\<close>

text \<open>The next phase match is the least beat at or after \<open>x\<close> with the target's phase: it is
  congruent to the target modulo the quantum, not before \<open>x\<close>, and no congruent beat lies
  between, unless the result saturates.\<close>

theorem next_phase_match_least:
  assumes "mb q \<noteq> 0" and "in_i64 (mb x + (mb t - mb x) mod \<bar>mb q\<bar>)"
  shows "let y = mb (next_phase_match x t q) in
           \<bar>mb q\<bar> dvd y - mb t \<and> mb x \<le> y
           \<and> (\<forall>z. mb x \<le> z \<and> \<bar>mb q\<bar> dvd z - mb t \<longrightarrow> y \<le> z)"
proof -
  define Q where "Q = \<bar>mb q\<bar>"
  define d where "d = (mb t - mb x) mod Q"
  have Q: "0 < Q" using assms(1) by (simp add: Q_def)
  have d: "0 \<le> d" "d < Q" using Q by (simp_all add: d_def)
  have y: "mb (next_phase_match x t q) = mb x + d"
    using assms in_i64_in_i128 [OF assms(2)]
    by (simp add: next_phase_match_def next_phase_match_offset Q_def d_def)
  have "Q dvd d - (mb t - mb x)" unfolding d_def by (rule dvd_mod_diff)
  then have dv: "Q dvd (mb x + d) - mb t" by (simp add: algebra_simps)
  have "mb x + d \<le> z" if z: "mb x \<le> z" "Q dvd z - mb t" for z
  proof (rule ccontr)
    assume "\<not> mb x + d \<le> z"
    then have "0 < mb x + d - z" "mb x + d - z < Q" using d z(1) by auto
    moreover have "Q dvd ((mb x + d) - mb t) - (z - mb t)" by (rule dvd_diff [OF dv z(2)])
    then have "Q dvd mb x + d - z" by (simp only: diff_diff_eq2 diff_add_cancel)
    ultimately show False using zdvd_imp_le by fastforce
  qed
  then show ?thesis using dv d by (simp add: y Let_def flip: Q_def)
qed

theorem next_phase_match_least_witness:
  "let y = mb (next_phase_match (Beats 7) (Beats 3) (Beats 4)) in
     \<bar>mb (Beats 4)\<bar> dvd y - mb (Beats 3) \<and> mb (Beats 7) \<le> y
     \<and> (\<forall>z. mb (Beats 7) \<le> z \<and> \<bar>mb (Beats 4)\<bar> dvd z - mb (Beats 3) \<longrightarrow> y \<le> z)"
  by (rule next_phase_match_least) (simp_all add: in_i64_def)

text \<open>The closest phase match has the target's phase and no congruent beat is nearer; at a tie
  it is the lower one.\<close>

theorem closest_phase_match_closest:
  assumes "mb q \<noteq> 0" and "in_i64 (mb x - \<bar>mb q\<bar>)" and "in_i64 (mb x + \<bar>mb q\<bar>)"
  shows "let y = mb (closest_phase_match x t q) in
           \<bar>mb q\<bar> dvd y - mb t
           \<and> (\<forall>z. \<bar>mb q\<bar> dvd z - mb t \<longrightarrow>
                \<bar>y - mb x\<bar> < \<bar>z - mb x\<bar> \<or> (\<bar>y - mb x\<bar> = \<bar>z - mb x\<bar> \<and> y \<le> z))"
proof -
  define Q where "Q = \<bar>mb q\<bar>"
  define c where "c = closest_offset (mb t - mb x) Q"
  have Q: "0 < Q" using assms(1) by (simp add: Q_def)
  note c = closest_offset_props [OF Q, of "mb t - mb x", folded c_def]
  have "in_i64 (mb x + c)" using assms(2,3) c(1,2) Q by (auto simp: in_i64_def simp flip: Q_def)
  then have y: "mb (closest_phase_match x t q) = mb x + c"
    using assms(1) in_i64_in_i128 [of "mb x + c"]
    by (simp add: closest_phase_match_def closest_phase_match_offset c_def Q_def)
  have dv: "Q dvd (mb x + c) - mb t" using c(3) by (simp add: algebra_simps)
  have "\<bar>c\<bar> < \<bar>z - mb x\<bar> \<or> (\<bar>c\<bar> = \<bar>z - mb x\<bar> \<and> mb x + c \<le> z)" if z: "Q dvd z - mb t" for z
  proof -
    have "Q dvd (z - mb t) - ((mb x + c) - mb t)" by (rule dvd_diff [OF z dv])
    then obtain k where "(z - mb t) - ((mb x + c) - mb t) = Q * k" by (rule dvdE)
    then have zk: "z - mb x = c + Q * k" by linarith
    consider "k \<le> - 1" | "k = 0" | "1 \<le> k" by linarith
    then show ?thesis
    proof cases
      case 1
      then have "Q * k \<le> Q * - 1" using Q by (intro mult_left_mono) auto
      then show ?thesis using zk c(1,2) by linarith
    next
      case 3
      then have "Q * 1 \<le> Q * k" using Q by (intro mult_left_mono) auto
      then show ?thesis using zk c(1,2) by linarith
    qed (use zk in simp)
  qed
  then show ?thesis using dv by (simp add: y Let_def flip: Q_def)
qed

theorem closest_phase_match_closest_witness:
  "let y = mb (closest_phase_match (Beats 9) (Beats 3) (Beats 4)) in
     \<bar>mb (Beats 4)\<bar> dvd y - mb (Beats 3)
     \<and> (\<forall>z. \<bar>mb (Beats 4)\<bar> dvd z - mb (Beats 3) \<longrightarrow>
          \<bar>y - mb (Beats 9)\<bar> < \<bar>z - mb (Beats 9)\<bar> \<or> (\<bar>y - mb (Beats 9)\<bar> = \<bar>z - mb (Beats 9)\<bar> \<and> y \<le> z))"
  by (rule closest_phase_match_closest) (simp_all add: in_i64_def)

text \<open>Decoding a phase-encoded beat inverts the encoding, the tie at half a quantum included: it
  returns the time of the beat that was encoded, for every quantum, zero and negative ones
  too, when the encoded beat fits an \<open>i64\<close>.\<close>

theorem phase_encoding_round_trip:
  assumes "in_i64 (to_phase_encoded_microbeats E tline time quantum)"
  shows "from_phase_encoded_beats E tline (to_phase_encoded_beats E tline time quantum) quantum
           = time_at_microbeats E tline (microbeats_at E tline time)"
  using assms by (rule phase_encoding_inverse)

lemma microbeats_120 [simp]:
  "\<bar>t\<bar> \<le> max_nanos \<Longrightarrow> microbeats_at std_ext \<lparr>tempo = Tempo (Fin 120), beat_origin = b, time_origin = 0\<rparr> t
     = round_ratio (t * 1000) 500000 + mb b"
  using microbeats_at_exact [of std_ext t "\<lparr>tempo = Tempo (Fin 120), beat_origin = b, time_origin = 0\<rparr>"]
  by simp

theorem phase_encoding_round_trip_witness:
  "from_phase_encoded_beats std_ext \<lparr>tempo = Tempo (Fin 120), beat_origin = Beats 2000000, time_origin = 0\<rparr>
     (to_phase_encoded_beats std_ext
        \<lparr>tempo = Tempo (Fin 120), beat_origin = Beats 2000000, time_origin = 0\<rparr> 250000000 (Beats 4000000)) (Beats 4000000)
   = time_at_microbeats std_ext \<lparr>tempo = Tempo (Fin 120), beat_origin = Beats 2000000, time_origin = 0\<rparr>
       (microbeats_at std_ext \<lparr>tempo = Tempo (Fin 120), beat_origin = Beats 2000000, time_origin = 0\<rparr> 250000000)"
  by (rule phase_encoding_round_trip)
    (simp add: to_phase_encoded_offset round_ratio_closed closest_offset_def in_i64_def in_i128_def)

text \<open>C16: After \<open>force_beat_at_time_impl\<close> the timeline shows exactly the requested beat at the
  requested time, in the phase encoding of the quantum, and keeps its tempo: whatever the
  timeline was, for periods of a millisecond or more, as long as the quantum boundary
  below the beat and its time are representable.\<close>

theorem force_beat_at_time_correct:
  assumes "chrono_ok E" and "valid_dur E time" and "1000 \<le> \<bar>period_micros (tempo tline)\<bar>"
    and "in_i64 (mb beat - phase_wide (mb beat) (mb quantum))"
    and "valid_dur E (time - round_ratio (phase_wide (mb beat) (mb quantum)
                               * period_micros (tempo tline)) 1000)"
  shows "to_phase_encoded_beats E (force_beat_at_time_impl E tline beat time quantum) time quantum = beat
         \<and> tempo (force_beat_at_time_impl E tline beat time quantum) = tempo tline"
  using force_beat_at_time_exact [OF assms] by (simp add: to_phase_encoded_beats_def)

theorem force_beat_at_time_correct_witness:
  "to_phase_encoded_beats std_ext
     (force_beat_at_time_impl std_ext \<lparr>tempo = Tempo (Fin 120), beat_origin = Beats 17, time_origin = 0\<rparr>
        (Beats 6000000) 1000000007 (Beats 4000000)) 1000000007 (Beats 4000000) = Beats 6000000
   \<and> tempo (force_beat_at_time_impl std_ext \<lparr>tempo = Tempo (Fin 120), beat_origin = Beats 17, time_origin = 0\<rparr>
        (Beats 6000000) 1000000007 (Beats 4000000))
     = tempo \<lparr>tempo = Tempo (Fin 120), beat_origin = Beats 17, time_origin = 0\<rparr>"
  by (rule force_beat_at_time_correct) (simp_all add: phase_wide_def in_i64_def round_ratio_closed)

text \<open>C34: The search for an exact anchor at periods below a millisecond misses no candidate. At each residue that is within the span, the
  closed form that the code computes from its Euclidean loop gives what a search through all numbers of cycles would: it
  tries the least number of cycles whose boundary is a multiple of the quantum, lies between the first and the last boundary
  and whose elapsed time fits, and it gives up exactly when there is none.\<close>

theorem exact_anchor_complete:
  fixes E :: ext and tline :: timeline and time :: duration and quantum :: beats
    and target direction minimum maximum :: int
  assumes "0 < \<bar>mb quantum\<bar>" and "euclid_loop 1000 \<bar>mb quantum\<bar> 1 0 = (divisor, inv_c)"
    and "modulus = \<bar>mb quantum\<bar> sdiv divisor" and "sign = 1 \<or> sign = - 1" and "0 < magnitude" and "residue \<le> room"
  defines "result \<equiv> anchor_at E tline target time quantum magnitude divisor modulus (inv_c mod modulus) direction sign
                      minimum maximum room residue"
    and "cand \<equiv> anchor_candidate \<bar>mb quantum\<bar> target magnitude sign minimum maximum room residue"
  shows "(\<forall>c. \<not> cand c) \<and> result = None
       \<or> (\<exists>c. cand c \<and> (\<forall>d. cand d \<longrightarrow> c \<le> d)
            \<and> result = try_anchor E tline target time quantum
                (target - sign * (1000 * c + round_ratio (1000 * residue) magnitude)) (direction * (c * magnitude + residue)))"
  unfolding result_def cand_def assms(3) by (rule anchor_at_least [OF assms(1,2,4-6)])

lemma euclid_sample: "euclid_loop 1000 4000000 1 0 = (1000, 1)"
  by (simp add: euclid_loop.simps signed_divide_int_def)

theorem exact_anchor_complete_witness:
  "anchor_at std_ext default_timeline 9000429 0 (Beats 4000000) 7 1000 4000 1 1 1 0 (10 ^ 9) (10 ^ 9) 3
     = try_anchor std_ext default_timeline 9000429 0 (Beats 4000000) 8000000 7003"
proof -
  have "euclid_loop 1000 \<bar>mb (Beats 4000000)\<bar> 1 0 = (1000, 1)" "(4000 :: int) = \<bar>mb (Beats 4000000)\<bar> sdiv 1000"
    using euclid_sample by (simp_all add: signed_divide_int_def)
  note search = exact_anchor_complete [OF _ this, where sign = 1 and magnitude = 7 and residue = 3 and room = "10 ^ 9" and E = std_ext
    and tline = default_timeline and target = 9000429 and time = 0 and direction = 1 and minimum = 0 and maximum = "10 ^ 9"]
  let ?cand = "anchor_candidate \<bar>mb (Beats 4000000)\<bar> 9000429 7 1 0 (10 ^ 9) (10 ^ 9) 3"
  have r: "round_ratio 3000 7 = 429" by (simp add: round_ratio_closed)
  have cand: "?cand c \<longleftrightarrow> 0 \<le> c \<and> 1000 * c + 429 \<le> 10 ^ 9 \<and> c * 7 + 3 \<le> 10 ^ 9 \<and> 4000000 dvd 9000429 - (1000 * c + 429)" for c
    by (auto simp: anchor_candidate_def Let_def r)
  have thousand: "?cand 1000" unfolding cand by simp
  have unique: "c = 1000" if "?cand c" "c \<le> 1000" for c
  proof -
    have "4000000 dvd 9000429 - (1000 * c + 429)" "0 \<le> c" using that(1) unfolding cand by blast+
    then obtain k where k: "9000429 - (1000 * c + 429) = 4000000 * k" by (elim dvdE)
    then have "k = 2" using that(2) \<open>0 \<le> c\<close> by linarith
    then show ?thesis using k by simp
  qed
  obtain c where "?cand c" "\<forall>d. ?cand d \<longrightarrow> c \<le> d"
    and c: "anchor_at std_ext default_timeline 9000429 0 (Beats 4000000) 7 1000 4000 (1 mod 4000) 1 1 0 (10 ^ 9) (10 ^ 9) 3
      = try_anchor std_ext default_timeline 9000429 0 (Beats 4000000) (9000429 - 1 * (1000 * c + round_ratio (1000 * 3) 7)) (1 * (c * 7 + 3))"
    using search thousand by fastforce
  then have "c = 1000" using unique thousand by blast
  then show ?thesis using c r by simp
qed

text \<open>Shifting a timeline by beats moves its time origin by the difference of the two rounded
  conversions it replaces, in whole microseconds, although the code multiplies only the
  parts of the period.\<close>

theorem shift_timeline_correct:
  assumes "chrono_ok E" and "valid_dur E (time_origin tline)"
    and "delta = round_away (of_int ((mb shift - mb (beat_origin tline)) * period_micros (tempo tline)) / 1000000)
                 - round_away (of_int (- mb (beat_origin tline) * period_micros (tempo tline)) / 1000000)"
    and "in_i128 (mb shift * (period_micros (tempo tline) sdiv 1000000))" and "in_i128 (delta * 1000)"
    and "valid_dur E (time_origin tline - delta * 1000)"
  shows "shift_client_timeline E tline shift = tline\<lparr>time_origin := time_origin tline - delta * 1000\<rparr>"
proof -
  have d: "delta = round_ratio ((mb shift - mb (beat_origin tline)) * period_micros (tempo tline)) 1000000
      - round_ratio (- mb (beat_origin tline) * period_micros (tempo tline)) 1000000"
    unfolding assms(3) by (simp add: round_ratio_round_away)
  have "in_i128 (time_origin tline - delta * 1000)"
    using assms(1,6) by (auto simp: in_i128_def valid_dur_iff abs_le_iff)
  from shifted_time_origin_exact [OF assms(1,2) d assms(4,5) this] assms(1,6)
  show ?thesis by (simp add: shift_client_timeline_def shift_client_timeline_wide_def)
qed

theorem shift_timeline_correct_witness:
  "shift_client_timeline std_ext \<lparr>tempo = Tempo (Fin 120), beat_origin = Beats 0, time_origin = 0\<rparr> (Beats 2000000)
     = \<lparr>tempo = Tempo (Fin 120), beat_origin = Beats 0, time_origin = 0\<rparr>\<lparr>time_origin := 0 - 1000000 * 1000\<rparr>"
  using shift_timeline_correct [of std_ext
      "\<lparr>tempo = Tempo (Fin 120), beat_origin = Beats 0, time_origin = 0\<rparr>" 1000000 "Beats 2000000"]
  by (simp add: in_i128_def)

end
