(* ===== verification/AudioChannels.thy ===== *)
theory AudioChannels
  imports AudioWire Phase
begin

text \<open>
  What a peer knows of the other peers' audio: \<open>src/link_audio/channels.rs\<close>, \<open>receivers.rs\<close>,
  \<open>network_metrics.rs\<close> and \<open>beat_time_mapping.rs\<close>.

  An \<open>Instant\<close> is a reading of the monotonic clock in nanoseconds. The hash map of the send handlers is a map. The
  registry of channels refines a map from channel and gateway to what was announced last.
\<close>

section \<open>Network metrics\<close>

text \<open>\<open>f64::sqrt\<close>, correctly rounded: sixty bits of the root and whether anything is left below them.\<close>

fun isqrt_go :: "nat \<Rightarrow> nat \<Rightarrow> nat \<Rightarrow> nat" where
  "isqrt_go 0 n r = r"
| "isqrt_go (Suc k) n r = (let c = r + 2 ^ k in isqrt_go k n (if c * c \<le> n then c else r))"

definition isqrt :: "nat \<Rightarrow> nat" where
  "isqrt n = isqrt_go (nat (bitlen (int n))) n 0"

fun f64_sqrt :: "f64 \<Rightarrow> f64" where
  "f64_sqrt (Fin x) =
     (if x < 0 then NaN
      else if x = 0 then Fin 0
      else
        let k = 60 - ilog2 x div 2;
            y = x * 4 powi k;
            m = isqrt (nat \<lfloor>y\<rfloor>)
        in round_f64 False ((of_nat m + (if of_nat (m * m) = y then 0 else 1 / 2)) / 2 powi k))"
| "f64_sqrt NegZero = NegZero"
| "f64_sqrt PosInf = PosInf"
| "f64_sqrt _ = NaN"

abbreviation METRICS_SIZE :: nat where "METRICS_SIZE \<equiv> 10"

record metrics =
  speed :: f64
  jitter :: f64

definition metrics_quality :: "metrics \<Rightarrow> f64" where
  "metrics_quality m = f64_div (speed m) (f64_add (Fin 1) (jitter m))"

record metrics_filter =
  ping_pong_times :: "duration list"
  current_index :: nat
  mf_count :: nat

definition new_filter :: metrics_filter where
  "new_filter = \<lparr>ping_pong_times = replicate METRICS_SIZE 0, current_index = 0, mf_count = 0\<rparr>"

definition push_time :: "duration \<Rightarrow> metrics_filter \<Rightarrow> metrics_filter" where
  "push_time t f =
     f\<lparr>ping_pong_times := (ping_pong_times f)[current_index f := t],
       current_index := (current_index f + 1) mod METRICS_SIZE,
       mf_count := (if mf_count f < METRICS_SIZE then mf_count f + 1 else mf_count f)\<rparr>"

definition time_f64 :: "ext \<Rightarrow> duration \<Rightarrow> f64" where
  "time_f64 E t = f64_of_int (case num_microseconds E t of None \<Rightarrow> 0 | Some m \<Rightarrow> m)"

definition filter_metrics :: "ext \<Rightarrow> metrics_filter \<Rightarrow> metrics" where
  "filter_metrics E f =
     (if mf_count f = 0 then \<lparr>speed = Fin 0, jitter = Fin 0\<rparr>
      else
        let times = map (time_f64 E) (take (mf_count f) (ping_pong_times f));
            n = f64_of_int (int (mf_count f));
            avg_rtt = f64_div (foldl f64_add (Fin 0) times) n;
            sp = (if \<not> f64_eq avg_rtt (Fin 0) then f64_div (Fin 1000000) avg_rtt else Fin 0);
            variance = f64_div (foldl f64_add (Fin 0)
              (map (\<lambda>t. f64_mul (f64_sub t avg_rtt) (f64_sub t avg_rtt)) times)) n;
            penalty = f64_sub (Fin 10000) (f64_div (f64_mul (Fin 10000) n) (f64_of_int (int METRICS_SIZE)))
        in \<lparr>speed = sp, jitter = f64_add penalty (f64_sqrt variance)\<rparr>)"

definition filter_quality :: "ext \<Rightarrow> metrics_filter \<Rightarrow> f64" where
  "filter_quality E f = metrics_quality (filter_metrics E f)"

section \<open>Beat times on the wire\<close>

definition global_beat_at_beat :: "ext \<Rightarrow> timeline \<Rightarrow> beats \<Rightarrow> beats \<Rightarrow> beats" where
  "global_beat_at_beat E line target_beat quantum =
     beats_sub target_beat (to_phase_encoded_beats E line (time_origin line) quantum)"

definition beat_at_global_beat :: "ext \<Rightarrow> timeline \<Rightarrow> beats \<Rightarrow> beats \<Rightarrow> beats" where
  "beat_at_global_beat E line global_beat quantum =
     beats_add global_beat (to_phase_encoded_beats E line (time_origin line) quantum)"

section \<open>Receivers of a sink\<close>

type_synonym endpoint = "u32 \<times> u16"
type_synonym instant = nat

abbreviation nanos_per_second :: nat where "nanos_per_second \<equiv> 1000000000"

text \<open>Entries stay for one second after their time to live.\<close>

abbreviation PRUNE_PADDING :: nat where "PRUNE_PADDING \<equiv> nanos_per_second"

record receiver =
  rc_peer :: node_id
  rc_endpoint :: "endpoint option"
  rc_expires :: instant

type_synonym receivers = "receiver list"

text \<open>
  The index is found by a binary search that needs the list to be partitioned by the predicate; it is, by
  \<open>receivers_ok\<close> below, and then the index is the number of elements in front.
\<close>

definition receive_channel_request ::
  "channel_request \<Rightarrow> u8 \<Rightarrow> endpoint option \<Rightarrow> instant \<Rightarrow> receivers \<Rightarrow> receivers" where
  "receive_channel_request request t ep now rs =
     (let rs = filter (\<lambda>r. rc_peer r \<noteq> cr_peer request) rs;
          r = \<lparr>rc_peer = cr_peer request, rc_endpoint = ep, rc_expires = now + unat t * nanos_per_second\<rparr>;
          index = length (takeWhile (\<lambda>x. rc_expires x \<le> rc_expires r) rs)
      in take index rs @ [r] @ drop index rs)"

definition receive_channel_stop_request :: "channel_request \<Rightarrow> receivers \<Rightarrow> receivers" where
  "receive_channel_stop_request request rs = filter (\<lambda>r. rc_peer r \<noteq> cr_peer request) rs"

definition prune_receivers :: "instant \<Rightarrow> receivers \<Rightarrow> receivers" where
  "prune_receivers now rs = filter (\<lambda>r. rc_expires r + PRUNE_PADDING > now) rs"

definition retain_peers :: "node_id list \<Rightarrow> receivers \<Rightarrow> receivers" where
  "retain_peers ps rs = filter (\<lambda>r. rc_peer r \<in> set ps) rs"

definition set_endpoint :: "node_id \<Rightarrow> endpoint option \<Rightarrow> receivers \<Rightarrow> receivers" where
  "set_endpoint p ep rs = map (\<lambda>r. if rc_peer r = p then r\<lparr>rc_endpoint := ep\<rparr> else r) rs"

definition endpoints :: "receivers \<Rightarrow> endpoint list" where
  "endpoints rs = List.map_filter rc_endpoint rs"

section \<open>The registry of channels\<close>

record channel =
  c_id :: node_id
  c_name :: bytes
  c_peer :: node_id
  c_peer_name :: bytes
  c_session :: session_id

record channel_info =
  ci_channel :: channel
  ci_gateway :: u32
  ci_expires :: instant

record send_handler =
  sh_endpoint :: endpoint
  sh_quality :: f64

record channels =
  infos :: "channel_info list"
  handlers :: "node_id \<rightharpoonup> send_handler"

definition new_channels :: channels where
  "new_channels = \<lparr>infos = [], handlers = Map.empty\<rparr>"

text \<open>The first entry of a channel on a gateway is replaced, a new one goes to the end.\<close>

fun upsert :: "channel \<Rightarrow> u32 \<Rightarrow> instant \<Rightarrow> channel_info list \<Rightarrow> bool \<times> channel_info list" where
  "upsert c g e [] = (True, [\<lparr>ci_channel = c, ci_gateway = g, ci_expires = e\<rparr>])"
| "upsert c g e (i # is) =
     (if c_id (ci_channel i) = c_id c \<and> ci_gateway i = g
      then (ci_channel i \<noteq> c, i\<lparr>ci_channel := c, ci_expires := e\<rparr> # is)
      else let (changed, is) = upsert c g e is in (changed, i # is))"

definition announced_channel :: "node_id \<Rightarrow> bytes \<Rightarrow> session_id \<Rightarrow> channel_announcement \<Rightarrow> channel" where
  "announced_channel p name sid a =
     \<lparr>c_id = ca_id a, c_name = ca_name a, c_peer = p, c_peer_name = name, c_session = sid\<rparr>"

fun record_announced ::
  "(channel_announcement \<Rightarrow> channel) \<Rightarrow> u32 \<Rightarrow> instant \<Rightarrow> channel_announcement list \<Rightarrow> bool \<Rightarrow> channel_info list
     \<Rightarrow> bool \<times> channel_info list" where
  "record_announced mk g e [] changed is = (changed, is)"
| "record_announced mk g e (a # as) changed is =
     (let (c, is) = upsert (mk a) g e is in record_announced mk g e as (changed \<or> c) is)"

definition better_handler :: "send_handler option \<Rightarrow> send_handler \<Rightarrow> send_handler" where
  "better_handler old h =
     (case old of
        Some existing \<Rightarrow> if f64_le (sh_quality h) (sh_quality existing) then existing else h
      | None \<Rightarrow> h)"

definition saw_announcement ::
  "node_id \<Rightarrow> bytes \<Rightarrow> session_id \<Rightarrow> channel_announcement list \<Rightarrow> u32 \<Rightarrow> endpoint \<Rightarrow> f64 \<Rightarrow> u8 \<Rightarrow> instant
     \<Rightarrow> channels \<Rightarrow> bool \<times> channels" where
  "saw_announcement p name sid announced g ep quality t now C =
     (let expires_at = now + unat t * nanos_per_second;
          (changed, is) = record_announced (announced_channel p name sid) g expires_at announced False (infos C)
      in (changed,
          \<lparr>infos = is,
           handlers = (handlers C)(p \<mapsto> better_handler (handlers C p) \<lparr>sh_endpoint = ep, sh_quality = quality\<rparr>)\<rparr>))"

definition prune_send_handlers :: "channels \<Rightarrow> channels" where
  "prune_send_handlers C = C\<lparr>handlers := handlers C |` (c_peer ` ci_channel ` set (infos C))\<rparr>"

text \<open>Three operations drop entries and, when any was dropped, the handlers of peers without channels.\<close>

definition retain_infos :: "(channel_info \<Rightarrow> bool) \<Rightarrow> channels \<Rightarrow> bool \<times> channels" where
  "retain_infos keep C =
     (let C' = C\<lparr>infos := filter keep (infos C)\<rparr>;
          changed = (length (infos C') \<noteq> length (infos C))
      in (changed, if changed then prune_send_handlers C' else C'))"

definition channels_left :: "u32 \<Rightarrow> node_id list \<Rightarrow> channels \<Rightarrow> bool \<times> channels" where
  "channels_left g byes = retain_infos (\<lambda>i. \<not> (ci_gateway i = g \<and> c_id (ci_channel i) \<in> set byes))"

definition gateway_closed :: "u32 \<Rightarrow> channels \<Rightarrow> bool \<times> channels" where
  "gateway_closed g = retain_infos (\<lambda>i. ci_gateway i \<noteq> g)"

definition prune_expired_channels :: "instant \<Rightarrow> channels \<Rightarrow> bool \<times> channels" where
  "prune_expired_channels now = retain_infos (\<lambda>i. ci_expires i + PRUNE_PADDING > now)"

definition prune_peer_channels :: "node_id list \<Rightarrow> channels \<Rightarrow> bool \<times> channels" where
  "prune_peer_channels ps C =
     (let is = filter (\<lambda>i. c_peer (ci_channel i) \<in> set ps) (infos C)
      in (length is \<noteq> length (infos C), \<lparr>infos = is, handlers = handlers C |` set ps\<rparr>))"

text \<open>One entry per channel, the one seen first.\<close>

fun dedup_channels :: "channel list \<Rightarrow> channel list \<Rightarrow> channel list" where
  "dedup_channels result [] = result"
| "dedup_channels result (c # cs) =
     dedup_channels (if c_id c \<in> c_id ` set result then result else result @ [c]) cs"

definition all_channels :: "channels \<Rightarrow> channel list" where
  "all_channels C = dedup_channels [] (map ci_channel (infos C))"

definition session_channels :: "session_id \<Rightarrow> channels \<Rightarrow> channel list" where
  "session_channels sid C = dedup_channels [] (filter (\<lambda>c. c_session c = sid) (map ci_channel (infos C)))"

definition peer_endpoint_of :: "node_id \<Rightarrow> channels \<Rightarrow> endpoint option" where
  "peer_endpoint_of p C = map_option sh_endpoint (handlers C p)"

definition channel_endpoint :: "node_id \<Rightarrow> channels \<Rightarrow> endpoint option" where
  "channel_endpoint i C =
     (case find (\<lambda>x. c_id (ci_channel x) = i) (infos C) of
        None \<Rightarrow> None
      | Some x \<Rightarrow> peer_endpoint_of (c_peer (ci_channel x)) C)"

section \<open>Roots and the window of round trip times\<close>

lemma isqrt_go_spec:
  "r * r \<le> n \<Longrightarrow> n < (r + 2 ^ k) * (r + 2 ^ k) \<Longrightarrow>
     isqrt_go k n r * isqrt_go k n r \<le> n \<and> n < (isqrt_go k n r + 1) * (isqrt_go k n r + 1)"
proof (induction k arbitrary: r)
  case (Suc k)
  then show ?case using Suc.IH [of r] Suc.IH [of "r + 2 ^ k"] by (simp add: Let_def not_le add.assoc mult_2)
qed simp

lemma isqrt_spec: "isqrt n * isqrt n \<le> n \<and> n < (isqrt n + 1) * (isqrt n + 1)"
  unfolding isqrt_def
proof (rule isqrt_go_spec)
  let ?k = "nat (bitlen (int n))"
  have "int n < 2 ^ ?k" using bitlen_bounds [of "int n"] by (cases "n = 0") simp_all
  then have n: "n < 2 ^ ?k" by (metis of_nat_less_iff of_nat_numeral of_nat_power)
  also have "\<dots> \<le> 2 ^ ?k * 2 ^ ?k" by simp
  finally show "n < (0 + 2 ^ ?k) * (0 + 2 ^ ?k)" by simp
qed simp

definition pushed :: "duration list \<Rightarrow> metrics_filter" where
  "pushed ts = fold push_time ts new_filter"

lemma pushed_snoc: "pushed (ts @ [t]) = push_time t (pushed ts)"
  by (simp add: pushed_def)

lemma pushed_shape:
  "length (ping_pong_times (pushed ts)) = METRICS_SIZE" "current_index (pushed ts) = length ts mod METRICS_SIZE"
  "mf_count (pushed ts) = min METRICS_SIZE (length ts)"
  by (induction ts rule: rev_induct)
    (auto simp: pushed_snoc push_time_def pushed_def new_filter_def mod_Suc_eq)

text \<open>Two different numbers of the last ten do not share a place.\<close>

lemma window_place:
  fixes i n :: nat
  assumes "i < n" and "n < i + METRICS_SIZE"
  shows "i mod METRICS_SIZE \<noteq> n mod METRICS_SIZE"
proof
  assume "i mod METRICS_SIZE = n mod METRICS_SIZE"
  then have "METRICS_SIZE dvd n - i" using assms(1) mod_eq_dvd_iff_nat [of i n METRICS_SIZE] by simp
  then show False using assms by (auto dest: dvd_imp_le)
qed

lemma pushed_window:
  "i < length ts \<Longrightarrow> length ts \<le> i + METRICS_SIZE \<Longrightarrow> ping_pong_times (pushed ts) ! (i mod METRICS_SIZE) = ts ! i"
proof (induction ts rule: rev_induct)
  case (snoc t ts)
  have upd: "ping_pong_times (pushed (ts @ [t])) = (ping_pong_times (pushed ts))[length ts mod METRICS_SIZE := t]"
    by (simp add: pushed_snoc push_time_def pushed_shape)
  show ?case
  proof (cases "i = length ts")
    case True
    then show ?thesis by (simp add: upd pushed_shape)
  next
    case False
    then have "i < length ts" "length ts < i + METRICS_SIZE" using snoc.prems by simp_all
    then show ?thesis using snoc.IH window_place [of i "length ts"] by (simp add: upd nth_append)
  qed
qed simp

text \<open>Mapping a beat to the wire and back gives the beat, unless the difference is out of range.\<close>

lemma beat_at_global_beat_inverse:
  assumes "in_i64 (mb b - mb (to_phase_encoded_beats E line (time_origin line) quantum))"
  shows "beat_at_global_beat E line (global_beat_at_beat E line b quantum) quantum = b"
  using assms by (simp add: beat_at_global_beat_def global_beat_at_beat_def beats_eq_iff)

section \<open>Receivers\<close>

definition receivers_ok :: "receivers \<Rightarrow> bool" where
  "receivers_ok rs \<longleftrightarrow> sorted (map rc_expires rs) \<and> distinct (map rc_peer rs)"

text \<open>The abstract value: which peer receives, at which endpoint and until when.\<close>

definition receiver_map :: "receivers \<Rightarrow> node_id \<rightharpoonup> endpoint option \<times> instant" where
  "receiver_map rs = map_of (map (\<lambda>r. (rc_peer r, rc_endpoint r, rc_expires r)) rs)"

lemma sorted_insert_after:
  fixes f :: "'a \<Rightarrow> nat"
  assumes "sorted (map f xs)"
  shows "sorted (map f (takeWhile (\<lambda>y. f y \<le> f x) xs @ [x] @ dropWhile (\<lambda>y. f y \<le> f x) xs))"
  using assms
proof (induction xs)
  case (Cons a xs)
  have ge: "\<forall>y\<in>set xs. f a \<le> f y" using Cons.prems by simp
  show ?case
  proof (cases "f a \<le> f x")
    case True
    have "f a \<le> f y" if "y \<in> set (takeWhile (\<lambda>y. f y \<le> f x) xs @ [x] @ dropWhile (\<lambda>y. f y \<le> f x) xs)" for y
      using that True ge by (auto dest: set_takeWhileD set_dropWhileD)
    then show ?thesis using True Cons by auto
  qed (use Cons.prems in auto)
qed simp

lemma map_of_filter_key:
  "map_of (map (\<lambda>r. (k r, v r)) (filter (\<lambda>r. P (k r)) rs)) = map_of (map (\<lambda>r. (k r, v r)) rs) |` Collect P"
  by (induction rs) (auto simp: restrict_map_def)

lemma map_of_filter_value:
  assumes "distinct (map k rs)"
  shows "map_of (map (\<lambda>r. (k r, v r)) (filter (\<lambda>r. P (v r)) rs)) x
           = (case map_of (map (\<lambda>r. (k r, v r)) rs) x of None \<Rightarrow> None | Some y \<Rightarrow> if P y then Some y else None)"
  using assms
proof (induction rs)
  case (Cons r rs)
  moreover have "map_of (map (\<lambda>r. (k r, v r)) rs) (k r) = None"
    using Cons.prems by (auto simp: map_of_eq_None_iff)
  ultimately show ?case by (auto split: option.splits)
qed simp

lemma map_of_insert_new:
  "k r \<notin> k ` set (xs @ ys) \<Longrightarrow>
     map_of (map (\<lambda>r. (k r, v r)) (xs @ [r] @ ys)) = (map_of (map (\<lambda>r. (k r, v r)) (xs @ ys)))(k r \<mapsto> v r)"
  by (induction xs) (auto simp: fun_upd_twist)

lemma distinct_insert_new:
  "distinct (map k (xs @ ys)) \<Longrightarrow> k r \<notin> k ` set (xs @ ys) \<Longrightarrow> distinct (map k (xs @ [r] @ ys))"
  by auto

lemma request_split:
  "receive_channel_request q t ep now rs =
     (let r = \<lparr>rc_peer = cr_peer q, rc_endpoint = ep, rc_expires = now + unat t * nanos_per_second\<rparr>;
          os = filter (\<lambda>r. rc_peer r \<noteq> cr_peer q) rs
      in takeWhile (\<lambda>x. rc_expires x \<le> rc_expires r) os @ [r] @ dropWhile (\<lambda>x. rc_expires x \<le> rc_expires r) os)"
  by (simp add: receive_channel_request_def Let_def takeWhile_eq_take [symmetric] dropWhile_eq_drop [symmetric])

lemma receivers_ok_filter: "receivers_ok rs \<Longrightarrow> receivers_ok (filter P rs)"
  by (simp add: receivers_ok_def sorted_filter distinct_map_filter)

text \<open>Every operation on the receivers keeps them sorted, with one entry for a peer.\<close>

locale receivers_op =
  fixes f :: "receivers \<Rightarrow> receivers"
  assumes keeps: "receivers_ok rs \<Longrightarrow> receivers_ok (f rs)"
begin

lemma keeps_iterated: "receivers_ok rs \<Longrightarrow> receivers_ok ((f ^^ n) rs)"
  by (induction n) (simp_all add: keeps)

end

lemma request_ok: "receivers_ok rs \<Longrightarrow> receivers_ok (receive_channel_request q t ep now rs)"
proof -
  assume rs: "receivers_ok rs"
  let ?r = "\<lparr>rc_peer = cr_peer q, rc_endpoint = ep, rc_expires = now + unat t * nanos_per_second\<rparr>"
  let ?os = "filter (\<lambda>r. rc_peer r \<noteq> cr_peer q) rs"
  let ?t = "takeWhile (\<lambda>x. rc_expires x \<le> rc_expires ?r) ?os" and ?d = "dropWhile (\<lambda>x. rc_expires x \<le> rc_expires ?r) ?os"
  have os: "receivers_ok ?os" by (rule receivers_ok_filter [OF rs])
  have "sorted (map rc_expires (?t @ [?r] @ ?d))"
    by (rule sorted_insert_after) (use os in \<open>simp add: receivers_ok_def\<close>)
  moreover have "distinct (map rc_peer (?t @ [?r] @ ?d))"
    by (rule distinct_insert_new) (use os in \<open>simp_all only: takeWhile_dropWhile_id receivers_ok_def, auto\<close>)
  ultimately show ?thesis by (simp add: request_split Let_def receivers_ok_def)
qed

interpretation request_receivers: receivers_op "receive_channel_request q t ep now" for q t ep now
  by unfold_locales (rule request_ok)

interpretation stop_receivers: receivers_op "receive_channel_stop_request q" for q
  by unfold_locales (simp add: receive_channel_stop_request_def receivers_ok_filter)

interpretation expired_receivers: receivers_op "prune_receivers now" for now
  by unfold_locales (simp add: prune_receivers_def receivers_ok_filter)

interpretation left_receivers: receivers_op "retain_peers ps" for ps
  by unfold_locales (simp add: retain_peers_def receivers_ok_filter)

interpretation endpoint_receivers: receivers_op "set_endpoint p ep" for p ep
  by unfold_locales (simp add: set_endpoint_def receivers_ok_def comp_def if_distrib cong: if_cong)

lemma receiver_map_request:
  "receiver_map (receive_channel_request q t ep now rs)
     = (receiver_map rs)(cr_peer q \<mapsto> (ep, now + unat t * nanos_per_second))"
proof -
  let ?e = "now + unat t * nanos_per_second"
  let ?r = "\<lparr>rc_peer = cr_peer q, rc_endpoint = ep, rc_expires = ?e\<rparr>"
  let ?os = "filter (\<lambda>r. rc_peer r \<noteq> cr_peer q) rs"
  let ?t = "takeWhile (\<lambda>x. rc_expires x \<le> ?e) ?os" and ?d = "dropWhile (\<lambda>x. rc_expires x \<le> ?e) ?os"
  have req: "receive_channel_request q t ep now rs = ?t @ [?r] @ ?d" by (simp add: request_split Let_def)
  have "rc_peer ?r \<notin> rc_peer ` set (?t @ ?d)" unfolding takeWhile_dropWhile_id by auto
  then have "receiver_map (?t @ [?r] @ ?d) = (receiver_map (?t @ ?d))(cr_peer q \<mapsto> (ep, ?e))"
    unfolding receiver_map_def using map_of_insert_new [of rc_peer ?r ?t ?d "\<lambda>r. (rc_endpoint r, rc_expires r)"] by simp
  then show ?thesis
    unfolding req takeWhile_dropWhile_id receiver_map_def
    using map_of_filter_key [of rc_peer "\<lambda>r. (rc_endpoint r, rc_expires r)" "\<lambda>p. p \<noteq> cr_peer q" rs]
    by (auto simp: restrict_map_def fun_eq_iff)
qed

lemma receiver_map_filter:
  "receiver_map (receive_channel_stop_request q rs) = (receiver_map rs)(cr_peer q := None)"
  "receiver_map (retain_peers ps rs) = receiver_map rs |` set ps"
  "receivers_ok rs \<Longrightarrow> receiver_map (prune_receivers now rs) p
     = (case receiver_map rs p of None \<Rightarrow> None
        | Some (ep, e) \<Rightarrow> if e + PRUNE_PADDING > now then Some (ep, e) else None)"
proof -
  let ?v = "\<lambda>r. (rc_endpoint r, rc_expires r)"
  show "receiver_map (receive_channel_stop_request q rs) = (receiver_map rs)(cr_peer q := None)"
    using map_of_filter_key [of rc_peer ?v "\<lambda>p. p \<noteq> cr_peer q" rs]
    by (auto simp: receiver_map_def receive_channel_stop_request_def restrict_map_def fun_eq_iff)
  show "receiver_map (retain_peers ps rs) = receiver_map rs |` set ps"
    using map_of_filter_key [of rc_peer ?v "\<lambda>p. p \<in> set ps" rs] by (simp add: receiver_map_def retain_peers_def)
  show "receivers_ok rs \<Longrightarrow> receiver_map (prune_receivers now rs) p
     = (case receiver_map rs p of None \<Rightarrow> None
        | Some (ep, e) \<Rightarrow> if e + PRUNE_PADDING > now then Some (ep, e) else None)"
    using map_of_filter_value [of rc_peer rs ?v "\<lambda>(ep, e). e + PRUNE_PADDING > now" p]
    by (auto simp: receiver_map_def prune_receivers_def receivers_ok_def split: option.splits prod.splits)
qed

section \<open>The registry\<close>

abbreviation info_key :: "channel_info \<Rightarrow> node_id \<times> u32" where
  "info_key i \<equiv> (c_id (ci_channel i), ci_gateway i)"

definition channels_ok :: "channels \<Rightarrow> bool" where
  "channels_ok C \<longleftrightarrow>
     distinct (map info_key (infos C)) \<and> (\<forall>i\<in>set (infos C). handlers C (c_peer (ci_channel i)) \<noteq> None)"

text \<open>The abstract value: the channel announced last for an identifier on a gateway, and until when it is known.\<close>

definition registry :: "channel_info list \<Rightarrow> node_id \<times> u32 \<rightharpoonup> channel \<times> instant" where
  "registry is = map_of (map (\<lambda>i. (info_key i, ci_channel i, ci_expires i)) is)"

lemma upsert_keys:
  "info_key ` set (snd (upsert c g e is)) = insert (c_id c, g) (info_key ` set is)"
proof (induction c g e "is" rule: upsert.induct)
  case (2 c g e i "is")
  obtain b js where "upsert c g e is = (b, js)" by fastforce
  then show ?case using 2 by (auto simp: insert_commute)
qed simp

lemma upsert_spec:
  assumes "distinct (map info_key is)"
  shows "distinct (map info_key (snd (upsert c g e is)))"
    and "registry (snd (upsert c g e is)) = (registry is)((c_id c, g) \<mapsto> (c, e))"
    and "\<not> fst (upsert c g e is) \<Longrightarrow> map ci_channel (snd (upsert c g e is)) = map ci_channel is"
    and "ci_channel ` set (snd (upsert c g e is)) \<subseteq> insert c (ci_channel ` set is)"
proof -
  show "distinct (map info_key (snd (upsert c g e is)))"
    using assms
  proof (induction c g e "is" rule: upsert.induct)
    case (2 c g e i "is")
    then show ?case using upsert_keys [of c g e "is"] by (auto simp: Let_def split: prod.splits)
  qed simp
  show "registry (snd (upsert c g e is)) = (registry is)((c_id c, g) \<mapsto> (c, e))"
    by (induction c g e "is" rule: upsert.induct)
      (auto simp: registry_def Let_def fun_upd_twist split: prod.splits)
  show "\<not> fst (upsert c g e is) \<Longrightarrow> map ci_channel (snd (upsert c g e is)) = map ci_channel is"
    by (induction c g e "is" rule: upsert.induct) (auto simp: Let_def split: prod.splits if_splits)
  show "ci_channel ` set (snd (upsert c g e is)) \<subseteq> insert c (ci_channel ` set is)"
  proof (induction c g e "is" rule: upsert.induct)
    case (2 c g e i "is")
    obtain b js where "upsert c g e is = (b, js)" by fastforce
    then show ?case using 2 by auto
  qed simp
qed

lemma record_announced_spec:
  assumes "distinct (map info_key is)" and "\<forall>a. c_id (mk a) = ca_id a"
  shows "distinct (map info_key (snd (record_announced mk g e as b is)))
       \<and> registry (snd (record_announced mk g e as b is))
           = fold (\<lambda>a m. m((ca_id a, g) \<mapsto> (mk a, e))) as (registry is)
       \<and> (\<not> fst (record_announced mk g e as b is) \<longrightarrow>
            \<not> b \<and> map ci_channel (snd (record_announced mk g e as b is)) = map ci_channel is)
       \<and> ci_channel ` set (snd (record_announced mk g e as b is)) \<subseteq> mk ` set as \<union> ci_channel ` set is"
  using assms(1)
proof (induction as arbitrary: b "is")
  case (Cons a as)
  obtain c js where u: "upsert (mk a) g e is = (c, js)" by fastforce
  note s = upsert_spec [OF Cons.prems, of "mk a" g e, unfolded u, simplified]
  have eq: "record_announced mk g e (a # as) b is = record_announced mk g e as (b \<or> c) js" by (simp add: u)
  have sub: "mk ` set as \<union> ci_channel ` set js \<subseteq> mk ` set (a # as) \<union> ci_channel ` set is" using s(4) by auto
  show ?case
    unfolding eq using Cons.IH [OF s(1), of "b \<or> c"] s(2,3) assms(2)
    by (intro conjI order_trans [OF _ sub]) auto
qed auto

text \<open>
  Every operation keeps the registry in order, and reports a change whenever the list of channels is another one
  than before.
\<close>

locale registry_op =
  fixes f :: "channels \<Rightarrow> bool \<times> channels"
  assumes keeps: "channels_ok C \<Longrightarrow> channels_ok (snd (f C))"
    and silent: "channels_ok C \<Longrightarrow> \<not> fst (f C) \<Longrightarrow> map ci_channel (infos (snd (f C))) = map ci_channel (infos C)"
begin

lemma silent_channels:
  "channels_ok C \<Longrightarrow> \<not> fst (f C) \<Longrightarrow>
     all_channels (snd (f C)) = all_channels C \<and> session_channels sid (snd (f C)) = session_channels sid C"
  using silent by (simp add: all_channels_def session_channels_def)

end

lemma retain_infos_spec:
  assumes "channels_ok C"
  shows "channels_ok (snd (retain_infos keep C))" and "infos (snd (retain_infos keep C)) = filter keep (infos C)"
    and "\<not> fst (retain_infos keep C) \<Longrightarrow> infos (snd (retain_infos keep C)) = infos C"
proof -
  show "channels_ok (snd (retain_infos keep C))"
    using assms
    by (auto simp: channels_ok_def retain_infos_def prune_send_handlers_def Let_def restrict_map_def distinct_map_filter)
  show "infos (snd (retain_infos keep C)) = filter keep (infos C)"
    by (simp add: retain_infos_def prune_send_handlers_def Let_def)
  have "filter keep (infos C) = infos C" if "length (filter keep (infos C)) = length (infos C)"
    using that by (metis filter_id_conv length_filter_less less_irrefl)
  then show "\<not> fst (retain_infos keep C) \<Longrightarrow> infos (snd (retain_infos keep C)) = infos C"
    by (simp add: retain_infos_def Let_def)
qed

interpretation retain_registry: registry_op "retain_infos keep" for keep
  by unfold_locales (use retain_infos_spec in auto)

interpretation bye_registry: registry_op "channels_left g byes" for g byes
  unfolding channels_left_def by (rule retain_registry.registry_op_axioms)

interpretation gateway_registry: registry_op "gateway_closed g" for g
  unfolding gateway_closed_def by (rule retain_registry.registry_op_axioms)

interpretation expiry_registry: registry_op "prune_expired_channels now" for now
  unfolding prune_expired_channels_def by (rule retain_registry.registry_op_axioms)

interpretation peers_registry: registry_op "prune_peer_channels ps" for ps
proof
  fix C
  assume C: "channels_ok C"
  then show "channels_ok (snd (prune_peer_channels ps C))"
    by (auto simp: channels_ok_def prune_peer_channels_def Let_def restrict_map_def distinct_map_filter)
  show "map ci_channel (infos (snd (prune_peer_channels ps C))) = map ci_channel (infos C)"
    if "\<not> fst (prune_peer_channels ps C)"
    using that by (simp add: prune_peer_channels_def Let_def) (metis filter_id_conv length_filter_less less_irrefl)
qed

lemma announced_channel_simps [simp]:
  "c_id (announced_channel p name sid a) = ca_id a" "c_peer (announced_channel p name sid a) = p"
  by (simp_all add: announced_channel_def)

interpretation announcement_registry: registry_op "saw_announcement p name sid announced g ep quality t now"
  for p name sid announced g ep quality t now
proof
  fix C
  assume C: "channels_ok C"
  let ?mk = "announced_channel p name sid" and ?e = "now + unat t * nanos_per_second"
  obtain b js where r: "record_announced ?mk g ?e announced False (infos C) = (b, js)" by fastforce
  have "distinct (map info_key (infos C))" using C by (simp add: channels_ok_def)
  note spec = record_announced_spec [OF this, of ?mk g ?e announced False, unfolded r, simplified]
  have saw: "saw_announcement p name sid announced g ep quality t now C = (b, \<lparr>infos = js,
      handlers = (handlers C)(p \<mapsto> better_handler (handlers C p) \<lparr>sh_endpoint = ep, sh_quality = quality\<rparr>)\<rparr>)"
    by (simp add: saw_announcement_def r Let_def)
  have "handlers C (c_peer (ci_channel i)) \<noteq> None \<or> c_peer (ci_channel i) = p" if "i \<in> set js" for i
  proof -
    have "ci_channel i \<in> ?mk ` set announced \<union> ci_channel ` set (infos C)" using spec that by auto
    then show ?thesis using C by (auto simp: channels_ok_def)
  qed
  then show "channels_ok (snd (saw_announcement p name sid announced g ep quality t now C))"
    using spec by (auto simp: saw channels_ok_def)
  show "map ci_channel (infos (snd (saw_announcement p name sid announced g ep quality t now C))) = map ci_channel (infos C)"
    if "\<not> fst (saw_announcement p name sid announced g ep quality t now C)"
    using that spec by (simp add: saw)
qed

lemma channels_ok_new: "channels_ok new_channels"
  by (simp add: channels_ok_def new_channels_def)

text \<open>The list for the application.\<close>

lemma dedup_channels_spec:
  assumes "distinct (map c_id result)"
  shows "distinct (map c_id (dedup_channels result cs))
       \<and> c_id ` set (dedup_channels result cs) = c_id ` set result \<union> c_id ` set cs
       \<and> set (dedup_channels result cs) \<subseteq> set result \<union> set cs"
  using assms
proof (induction cs arbitrary: result)
  case (Cons c cs)
  let ?r = "if c_id c \<in> c_id ` set result then result else result @ [c]"
  have "distinct (map c_id ?r)" using Cons.prems by auto
  from Cons.IH [OF this] show ?case by (auto split: if_splits)
qed simp

lemma listed_channel_reachable:
  assumes "channels_ok C" and "c \<in> set (all_channels C)"
  shows "channel_endpoint (c_id c) C \<noteq> None"
proof -
  have "c \<in> ci_channel ` set (infos C)"
    using assms(2) dedup_channels_spec [of "[]" "map ci_channel (infos C)"] by (auto simp: all_channels_def)
  then have "find (\<lambda>x. c_id (ci_channel x) = c_id c) (infos C) \<noteq> None" by (auto simp: find_None_iff)
  then obtain i where i: "find (\<lambda>x. c_id (ci_channel x) = c_id c) (infos C) = Some i" by blast
  then have "i \<in> set (infos C)" by (auto simp: find_Some_iff)
  then show ?thesis using i assms(1) by (auto simp: channel_endpoint_def peer_endpoint_of_def channels_ok_def)
qed

text \<open>What the operations do to the abstract value.\<close>

lemma registry_announced:
  assumes "channels_ok C"
  shows "registry (infos (snd (saw_announcement p name sid announced g ep quality t now C)))
           = fold (\<lambda>a m. m((ca_id a, g) \<mapsto> (announced_channel p name sid a, now + unat t * nanos_per_second)))
               announced (registry (infos C))"
proof -
  let ?mk = "announced_channel p name sid" and ?e = "now + unat t * nanos_per_second"
  obtain b js where r: "record_announced ?mk g ?e announced False (infos C) = (b, js)" by fastforce
  have "distinct (map info_key (infos C))" using assms by (simp add: channels_ok_def)
  note spec = record_announced_spec [OF this, of ?mk g ?e announced False, unfolded r, simplified]
  then show ?thesis by (simp add: saw_announcement_def r Let_def)
qed

lemma registry_filter:
  assumes "channels_ok C"
  shows "registry (filter (\<lambda>i. P (ci_channel i) (ci_gateway i) (ci_expires i)) (infos C)) (k, g)
           = (case registry (infos C) (k, g) of None \<Rightarrow> None
              | Some (c, e) \<Rightarrow> if P c g e then Some (c, e) else None)"
proof -
  have "distinct (map info_key is) \<Longrightarrow>
      registry (filter (\<lambda>i. P (ci_channel i) (ci_gateway i) (ci_expires i)) is) (k, g)
        = (case registry is (k, g) of None \<Rightarrow> None | Some (c, e) \<Rightarrow> if P c g e then Some (c, e) else None)" for "is"
  proof (induction "is")
    case (Cons i "is")
    have "registry is (info_key i) = None" using Cons.prems by (auto simp: registry_def map_of_eq_None_iff)
    then show ?case using Cons by (auto simp: registry_def split: option.splits)
  qed (simp add: registry_def)
  then show ?thesis using assms by (simp add: channels_ok_def)
qed

lemma registry_id: "registry is (k, g) = Some (c, e) \<Longrightarrow> c_id c = k"
  by (auto simp: registry_def dest!: map_of_SomeD)

text \<open>The states the engine can bring the registry to.\<close>

inductive registry_reachable :: "channels \<Rightarrow> bool" where
  reg_new: "registry_reachable new_channels"
| reg_announced: "registry_reachable C \<Longrightarrow>
    registry_reachable (snd (saw_announcement p name sid announced g ep quality t now C))"
| reg_left: "registry_reachable C \<Longrightarrow> registry_reachable (snd (channels_left g byes C))"
| reg_gateway: "registry_reachable C \<Longrightarrow> registry_reachable (snd (gateway_closed g C))"
| reg_peers: "registry_reachable C \<Longrightarrow> registry_reachable (snd (prune_peer_channels ps C))"
| reg_expired: "registry_reachable C \<Longrightarrow> registry_reachable (snd (prune_expired_channels now C))"

lemma registry_reachable_ok: "registry_reachable C \<Longrightarrow> channels_ok C"
  by (induction rule: registry_reachable.induct)
    (auto intro: channels_ok_new announcement_registry.keeps bye_registry.keeps gateway_registry.keeps
      peers_registry.keeps expiry_registry.keeps)

section \<open>Properties\<close>

text \<open>The registry of channels is a map from channel and gateway to what was announced last and until when it
  is known. An announcement sets its channels; a goodbye removes the named channels of its gateway; pruning
  keeps the channels that were refreshed within their time to live and a second, or whose peer is still
  connected.\<close>

theorem registry_refines_map:
  assumes "channels_ok C"
  shows "registry (infos (snd (saw_announcement p name sid announced g ep quality t now C)))
           = fold (\<lambda>a m. m((ca_id a, g) \<mapsto> (announced_channel p name sid a, now + unat t * nanos_per_second)))
               announced (registry (infos C))
       \<and> registry (infos (snd (channels_left g byes C))) = registry (infos C) |` (- (set byes \<times> {g}))
       \<and> registry (infos (snd (gateway_closed g C))) = registry (infos C) |` (- (UNIV \<times> {g}))
       \<and> registry (infos (snd (prune_expired_channels now C)))
           = (\<lambda>k. case registry (infos C) k of None \<Rightarrow> None
                | Some (c, e) \<Rightarrow> if now < e + PRUNE_PADDING then Some (c, e) else None)
       \<and> registry (infos (snd (prune_peer_channels ps C)))
           = (\<lambda>k. case registry (infos C) k of None \<Rightarrow> None
                | Some (c, e) \<Rightarrow> if c_peer c \<in> set ps then Some (c, e) else None)"
proof (intro conjI)
  show "registry (infos (snd (saw_announcement p name sid announced g ep quality t now C)))
      = fold (\<lambda>a m. m((ca_id a, g) \<mapsto> (announced_channel p name sid a, now + unat t * nanos_per_second)))
          announced (registry (infos C))"
    by (rule registry_announced [OF assms])
  note f = registry_filter [OF assms] and i = retain_infos_spec(2) [OF assms]
  show "registry (infos (snd (channels_left g byes C))) = registry (infos C) |` (- (set byes \<times> {g}))"
    using f [of "\<lambda>c h e. \<not> (h = g \<and> c_id c \<in> set byes)"]
    by (auto simp: channels_left_def i restrict_map_def fun_eq_iff dest: registry_id split: option.splits)
  show "registry (infos (snd (gateway_closed g C))) = registry (infos C) |` (- (UNIV \<times> {g}))"
    using f [of "\<lambda>c h e. h \<noteq> g"]
    by (auto simp: gateway_closed_def i restrict_map_def fun_eq_iff split: option.splits)
  show "registry (infos (snd (prune_expired_channels now C)))
      = (\<lambda>k. case registry (infos C) k of None \<Rightarrow> None
           | Some (c, e) \<Rightarrow> if now < e + PRUNE_PADDING then Some (c, e) else None)"
    using f [of "\<lambda>c h e. now < e + PRUNE_PADDING"] by (simp add: prune_expired_channels_def i fun_eq_iff)
  show "registry (infos (snd (prune_peer_channels ps C)))
      = (\<lambda>k. case registry (infos C) k of None \<Rightarrow> None
           | Some (c, e) \<Rightarrow> if c_peer c \<in> set ps then Some (c, e) else None)"
    using f [of "\<lambda>c h e. c_peer c \<in> set ps"] by (simp add: prune_peer_channels_def Let_def fun_eq_iff)
qed

definition sample_registry :: channels where
  "sample_registry = snd (saw_announcement (replicate 8 1) [80] (replicate 8 2)
     [\<lparr>ca_name = [65], ca_id = replicate 8 3\<rparr>] 7 (9, 20808) (Fin 1) 5 100 new_channels)"

lemma sample_registry_reachable: "registry_reachable sample_registry"
  unfolding sample_registry_def by (intro reg_announced reg_new)

theorem registry_refines_map_witness:
  "registry (infos (snd (channels_left 7 [replicate 8 3] sample_registry))) (replicate 8 3, 7) = None
   \<and> registry (infos sample_registry) (replicate 8 3, 7) \<noteq> None"
proof -
  have "registry (infos (snd (channels_left 7 [replicate 8 3] sample_registry)))
      = registry (infos sample_registry) |` (- (set [replicate 8 3] \<times> {7}))"
    using registry_refines_map [OF registry_reachable_ok [OF sample_registry_reachable]] by blast
  then show ?thesis
    by (simp add: sample_registry_def saw_announcement_def new_channels_def registry_def announced_channel_def)
qed

text \<open>Whatever the engine does to the registry, the list it gives to the application has every known channel once,
  and every channel of the list can be reached: its peer has an endpoint for requests.\<close>

theorem listed_channels_reachable:
  assumes "registry_reachable C"
  shows "distinct (map c_id (all_channels C)) \<and> c_id ` set (all_channels C) = c_id ` ci_channel ` set (infos C)
       \<and> (\<forall>c\<in>set (all_channels C). channel_endpoint (c_id c) C \<noteq> None)"
  using registry_reachable_ok [OF assms] listed_channel_reachable dedup_channels_spec [of "[]" "map ci_channel (infos C)"]
  by (auto simp: all_channels_def)

theorem listed_channels_reachable_witness:
  "map c_id (all_channels sample_registry) = [replicate 8 3]
   \<and> channel_endpoint (replicate 8 3) sample_registry = Some (9, 20808)"
proof -
  have l: "all_channels sample_registry = [announced_channel (replicate 8 1) [80] (replicate 8 2) \<lparr>ca_name = [65], ca_id = replicate 8 3\<rparr>]"
    by (simp add: sample_registry_def saw_announcement_def new_channels_def all_channels_def)
  have "channel_endpoint (replicate 8 3) sample_registry \<noteq> None"
    using listed_channels_reachable [OF sample_registry_reachable] by (simp add: l)
  then show ?thesis
    using l by (auto simp: channel_endpoint_def peer_endpoint_of_def sample_registry_def saw_announcement_def
        new_channels_def better_handler_def)
qed

text \<open>The receivers of a sink are a map from peer to endpoint and expiry, kept sorted by expiry with one entry
  for a peer: a request sets the entry of its peer, a stop request removes it, pruning keeps what was
  refreshed in time, and peers that left the session are dropped.\<close>

theorem receivers_refine_map:
  assumes "receivers_ok rs"
  shows "receivers_ok (receive_channel_request q t ep now rs)
       \<and> receiver_map (receive_channel_request q t ep now rs)
           = (receiver_map rs)(cr_peer q \<mapsto> (ep, now + unat t * nanos_per_second))
       \<and> receivers_ok (receive_channel_stop_request q rs)
       \<and> receiver_map (receive_channel_stop_request q rs) = (receiver_map rs)(cr_peer q := None)
       \<and> receivers_ok (prune_receivers now rs)
       \<and> receiver_map (prune_receivers now rs)
           = (\<lambda>p. case receiver_map rs p of None \<Rightarrow> None
                | Some (ep, e) \<Rightarrow> if now < e + PRUNE_PADDING then Some (ep, e) else None)
       \<and> receivers_ok (retain_peers ps rs) \<and> receiver_map (retain_peers ps rs) = receiver_map rs |` set ps"
  using receiver_map_filter(3) [OF assms]
  by (simp add: assms request_receivers.keeps stop_receivers.keeps expired_receivers.keeps left_receivers.keeps
      receiver_map_request receiver_map_filter(1,2) fun_eq_iff)

theorem receivers_refine_map_witness:
  "receiver_map (receive_channel_request \<lparr>cr_peer = replicate 8 1, cr_channel = replicate 8 2\<rparr> 5 (Some (9, 20808)) 100
     [\<lparr>rc_peer = replicate 8 3, rc_endpoint = None, rc_expires = 200\<rparr>]) (replicate 8 1)
   = Some (Some (9, 20808), 5000000100)"
  using receivers_refine_map [of "[\<lparr>rc_peer = replicate 8 3, rc_endpoint = None, rc_expires = 200\<rparr>]"
      "\<lparr>cr_peer = replicate 8 1, cr_channel = replicate 8 2\<rparr>" 5 "Some (9, 20808)" 100]
  by (simp add: receivers_ok_def)

text \<open>The network metrics are taken over the last ten round trip times: after any sequence of measurements the
  window has as many entries as there were measurements, at most ten, and each of the last ten measurements
  has a place of its own in it.\<close>

theorem metrics_window:
  "mf_count (fold push_time ts new_filter) = min METRICS_SIZE (length ts)
   \<and> (\<forall>i. i < length ts \<and> length ts \<le> i + METRICS_SIZE \<longrightarrow>
        i mod METRICS_SIZE < mf_count (fold push_time ts new_filter)
      \<and> ping_pong_times (fold push_time ts new_filter) ! (i mod METRICS_SIZE) = ts ! i)"
proof -
  have "i mod METRICS_SIZE < min METRICS_SIZE (length ts)" if "i < length ts" for i
    using that le_less_trans [OF mod_less_eq_dividend [of i METRICS_SIZE]] by simp
  then show ?thesis using pushed_shape(3) [of ts] pushed_window [of _ ts] by (auto simp: pushed_def)
qed

theorem metrics_window_witness:
  "ping_pong_times (fold push_time [1, 2, 3, 4, 5, 6, 7, 8, 9, 10, 11] new_filter) ! 0 = 11"
  using metrics_window [of "[1, 2, 3, 4, 5, 6, 7, 8, 9, 10, 11]", THEN conjunct2, rule_format, of 10] by simp

end
