(* ===== verification/AudioSink.thy ===== *)
theory AudioSink
  imports AudioCodec AudioChannels
begin

text \<open>
  The pool of buffers between the audio thread and the Link thread, \<open>src/link_audio/queue.rs\<close>, and the sink that
  fills it, \<open>sink.rs\<close>.

  The two bounded channels of the queue are lists. Its writer and its reader run on different threads: every access to
  a channel or to the shared epoch is a step of its own, and \<open>slot_step\<close> interleaves them. The reader knows where
  it is in its loops by \<open>r_phase\<close>. The epoch counts the discards; it is a natural number, since its 64 bits are
  never exhausted. Both halves of the queue are alive. The operations of a sink, which hold the lock of the writer,
  run the steps of the writer one after the other.
\<close>

section \<open>The queue\<close>

datatype r_phase = RIdle | RScan nat | RReleasing | RDrain nat

record 'a slot_queue =
  free_slots :: "'a list"
  filled_slots :: "(nat \<times> 'a) list"
  w_current :: "'a option"
  w_epoch :: nat
  w_loaded :: "nat option"
  r_current :: "'a option"
  reader :: r_phase
  q_epoch :: nat
  num_slots :: nat

definition new_queue :: "nat \<Rightarrow> 'a \<Rightarrow> 'a slot_queue" where
  "new_queue n v =
     (let n = max n 1
      in \<lparr>free_slots = replicate n v, filled_slots = [], w_current = None, w_epoch = 0, w_loaded = None,
          r_current = None, reader = RIdle, q_epoch = 0, num_slots = n\<rparr>)"

text \<open>A slot that does not fit a channel is dropped.\<close>

definition send_free :: "'a \<Rightarrow> 'a slot_queue \<Rightarrow> 'a slot_queue" where
  "send_free s q = (if length (free_slots q) < num_slots q then q\<lparr>free_slots := free_slots q @ [s]\<rparr> else q)"

definition w_retain_load :: "'a slot_queue \<Rightarrow> 'a slot_queue" where
  "w_retain_load q = (if w_current q \<noteq> None then q else q\<lparr>w_loaded := Some (q_epoch q)\<rparr>)"

definition w_retain_take :: "'a slot_queue \<Rightarrow> 'a slot_queue" where
  "w_retain_take q =
     (case w_loaded q of
        None \<Rightarrow> q
      | Some e \<Rightarrow>
          (case free_slots q of
             [] \<Rightarrow> q\<lparr>w_loaded := None\<rparr>
           | s # fs \<Rightarrow> q\<lparr>w_loaded := None, free_slots := fs, w_current := Some s, w_epoch := e\<rparr>))"

definition w_release :: "'a slot_queue \<Rightarrow> 'a slot_queue" where
  "w_release q =
     (case w_current q of
        None \<Rightarrow> q
      | Some s \<Rightarrow>
          (let q = q\<lparr>w_current := None\<rparr>
           in if length (filled_slots q) < num_slots q then q\<lparr>filled_slots := filled_slots q @ [(w_epoch q, s)]\<rparr>
              else q))"

definition r_retain_begin :: "'a slot_queue \<Rightarrow> 'a slot_queue" where
  "r_retain_begin q = (if r_current q \<noteq> None then q else q\<lparr>reader := RScan (num_slots q)\<rparr>)"

definition r_scan :: "'a slot_queue \<Rightarrow> 'a slot_queue" where
  "r_scan q =
     (case reader q of
        RScan (Suc n) \<Rightarrow>
          (case filled_slots q of
             [] \<Rightarrow> q\<lparr>reader := RIdle\<rparr>
           | (e, s) # rest \<Rightarrow>
               if e = q_epoch q then q\<lparr>filled_slots := rest, r_current := Some s, reader := RIdle\<rparr>
               else send_free s (q\<lparr>filled_slots := rest, reader := RScan n\<rparr>))
      | RScan 0 \<Rightarrow> q\<lparr>reader := RIdle\<rparr>
      | _ \<Rightarrow> q)"

definition r_release :: "'a slot_queue \<Rightarrow> 'a slot_queue" where
  "r_release q = (case r_current q of None \<Rightarrow> q | Some s \<Rightarrow> send_free s (q\<lparr>r_current := None\<rparr>))"

text \<open>\<open>discard_pending\<close>: the epoch, the slot of the reader, then the slots that are queued.\<close>

definition r_discard_begin :: "'a slot_queue \<Rightarrow> 'a slot_queue" where
  "r_discard_begin q = q\<lparr>q_epoch := q_epoch q + 1, reader := RReleasing\<rparr>"

definition r_discard_release :: "'a slot_queue \<Rightarrow> 'a slot_queue" where
  "r_discard_release q = (r_release q)\<lparr>reader := RDrain (num_slots q)\<rparr>"

definition r_drain :: "'a slot_queue \<Rightarrow> 'a slot_queue" where
  "r_drain q =
     (case reader q of
        RDrain (Suc n) \<Rightarrow>
          (case filled_slots q of
             [] \<Rightarrow> q\<lparr>reader := RIdle\<rparr>
           | (_, s) # rest \<Rightarrow> send_free s (q\<lparr>filled_slots := rest, reader := RDrain n\<rparr>))
      | RDrain 0 \<Rightarrow> q\<lparr>reader := RIdle\<rparr>
      | _ \<Rightarrow> q)"

text \<open>The loops of the reader, run to their end.\<close>

fun r_scan_loop :: "nat \<Rightarrow> 'a slot_queue \<Rightarrow> 'a slot_queue" where
  "r_scan_loop 0 q = r_scan q"
| "r_scan_loop (Suc n) q = (let q = r_scan q in if reader q = RIdle then q else r_scan_loop n q)"

definition r_retain :: "'a slot_queue \<Rightarrow> bool \<times> 'a slot_queue" where
  "r_retain q =
     (if r_current q \<noteq> None then (False, q)
      else let q = r_scan_loop (num_slots q) (r_retain_begin q) in (r_current q \<noteq> None, q))"

fun r_drain_loop :: "nat \<Rightarrow> 'a slot_queue \<Rightarrow> 'a slot_queue" where
  "r_drain_loop 0 q = r_drain q"
| "r_drain_loop (Suc n) q = (let q = r_drain q in if reader q = RIdle then q else r_drain_loop n q)"

definition discard_pending :: "'a slot_queue \<Rightarrow> 'a slot_queue" where
  "discard_pending q = r_drain_loop (num_slots q) (r_discard_release (r_discard_begin q))"

definition w_retain :: "'a slot_queue \<Rightarrow> bool \<times> 'a slot_queue" where
  "w_retain q =
     (if w_current q \<noteq> None then (False, q)
      else let q = w_retain_take (w_retain_load q) in (w_current q \<noteq> None, q))"

text \<open>Both threads. The flag tells whether the writer starts to retain a slot.\<close>

inductive slot_step :: "bool \<Rightarrow> 'a slot_queue \<Rightarrow> 'a slot_queue \<Rightarrow> bool" where
  step_load: "w_loaded q = None \<Longrightarrow> slot_step True q (w_retain_load q)"
| step_take: "slot_step False q (w_retain_take q)"
| step_write: "w_loaded q = None \<Longrightarrow> slot_step False q (q\<lparr>w_current := map_option f (w_current q)\<rparr>)"
| step_release: "w_loaded q = None \<Longrightarrow> slot_step False q (w_release q)"
| step_retain: "reader q = RIdle \<Longrightarrow> slot_step False q (r_retain_begin q)"
| step_scan: "slot_step False q (r_scan q)"
| step_read: "reader q = RIdle \<Longrightarrow> slot_step False q (q\<lparr>r_current := map_option f (r_current q)\<rparr>)"
| step_recycle: "reader q = RIdle \<Longrightarrow> slot_step False q (r_release q)"
| step_discard: "reader q = RIdle \<Longrightarrow> slot_step False q (r_discard_begin q)"
| step_discard_release: "reader q = RReleasing \<Longrightarrow> slot_step False q (r_discard_release q)"
| step_drain: "slot_step False q (r_drain q)"

inductive slot_reachable :: "'a slot_queue \<Rightarrow> bool" where
  slots_new: "slot_reachable (new_queue n v)"
| slots_step: "slot_reachable q \<Longrightarrow> slot_step b q q' \<Longrightarrow> slot_reachable q'"

section \<open>The sink\<close>

abbreviation SINK_QUEUE_SIZE :: nat where "SINK_QUEUE_SIZE \<equiv> 128"

record sink =
  sk_name :: bytes
  name_is_up_to_date :: bool
  sk_id :: node_id
  sk_max_num_samples :: nat
  sk_queue :: "buffer slot_queue"
  sk_connected :: bool

definition new_buffer :: "nat \<Rightarrow> buffer" where
  "new_buffer n =
     \<lparr>bf_rate = 0, bf_channels = 0, bf_frames = 0, bf_samples = replicate n 0, bf_begin = beats_new (Fin 0),
      bf_tempo = Tempo (Fin 0), bf_count = 0, bf_session = replicate 8 0\<rparr>"

definition clear_timing :: "buffer \<Rightarrow> buffer" where
  "clear_timing b = b\<lparr>bf_begin := beats_new (Fin 0), bf_tempo := Tempo (Fin 0)\<rparr>"

definition grow_samples :: "nat \<Rightarrow> buffer \<Rightarrow> buffer" where
  "grow_samples n b =
     (if length (bf_samples b) < n
      then b\<lparr>bf_samples := bf_samples b @ replicate (n - length (bf_samples b)) 0\<rparr> else b)"

definition new_sink :: "bytes \<Rightarrow> nat \<Rightarrow> node_id \<Rightarrow> sink" where
  "new_sink name n i =
     \<lparr>sk_name = truncate_name name, name_is_up_to_date = False, sk_id = i, sk_max_num_samples = n,
      sk_queue = new_queue SINK_QUEUE_SIZE (new_buffer n), sk_connected = False\<rparr>"

definition sink_set_name :: "bytes \<Rightarrow> sink \<Rightarrow> sink" where
  "sink_set_name name sk = sk\<lparr>sk_name := truncate_name name, name_is_up_to_date := False\<rparr>"

definition sink_name_changed :: "sink \<Rightarrow> bool \<times> sink" where
  "sink_name_changed sk = (\<not> name_is_up_to_date sk, sk\<lparr>name_is_up_to_date := True\<rparr>)"

definition request_max_num_samples :: "nat \<Rightarrow> sink \<Rightarrow> sink" where
  "request_max_num_samples n sk = sk\<lparr>sk_max_num_samples := max (sk_max_num_samples sk) n\<rparr>"

text \<open>\<open>True\<close>: a handle is given out; its buffer is the slot of the writer.\<close>

definition retain_buffer :: "sink \<Rightarrow> bool \<times> sink" where
  "retain_buffer sk =
     (if \<not> sk_connected sk then (False, sk)
      else
        case w_retain (sk_queue sk) of
          (False, q) \<Rightarrow> (False, sk\<lparr>sk_queue := q\<rparr>)
        | (True, q) \<Rightarrow>
            (True, sk\<lparr>sk_queue := q\<lparr>w_current := map_option (grow_samples (sk_max_num_samples sk)) (w_current q)\<rparr>\<rparr>))"

definition handle_write :: "i16 list \<Rightarrow> sink \<Rightarrow> sink" where
  "handle_write xs sk =
     sk\<lparr>sk_queue := (sk_queue sk)\<lparr>w_current :=
       map_option (\<lambda>b. b\<lparr>bf_samples := take (length (bf_samples b)) xs @ drop (length xs) (bf_samples b)\<rparr>)
         (w_current (sk_queue sk))\<rparr>\<rparr>"

definition handle_drop :: "sink \<Rightarrow> sink" where
  "handle_drop sk =
     sk\<lparr>sk_queue := w_release ((sk_queue sk)\<lparr>w_current := map_option clear_timing (w_current (sk_queue sk))\<rparr>)\<rparr>"

definition handle_commit ::
  "ext \<Rightarrow> timeline \<Rightarrow> node_id \<Rightarrow> f64 \<Rightarrow> f64 \<Rightarrow> nat \<Rightarrow> nat \<Rightarrow> u32 \<Rightarrow> sink \<Rightarrow> bool \<times> sink" where
  "handle_commit E line sid beats_at_begin quantum frames channels rate sk =
     (if channels = 0 \<or> rate = 0 \<or> frames * channels mod 2 ^ 64 > sk_max_num_samples sk then (False, handle_drop sk)
      else
        let begin_beats = global_beat_at_beat E line (beats_new beats_at_begin) (beats_new quantum)
        in case w_current (sk_queue sk) of
             None \<Rightarrow> (False, handle_drop sk)
           | Some b \<Rightarrow>
               let b = b\<lparr>bf_begin := begin_beats, bf_tempo := tempo line, bf_channels := channels mod 2 ^ 32,
                         bf_rate := rate, bf_frames := frames mod 2 ^ 32, bf_session := sid\<rparr>
               in (True, sk\<lparr>sk_queue := w_release ((sk_queue sk)\<lparr>w_current := Some b\<rparr>)\<rparr>))"

section \<open>Draining a sink\<close>

text \<open>
  One round of the process task over the slots that are queued: a buffer with timing goes to the encoder, every
  slot is grown and recycled.
\<close>

definition has_audio :: "buffer \<Rightarrow> bool" where
  "has_audio b \<longleftrightarrow> f64_lt (Fin 0) (bpm (bf_tempo b))"

lemma send_free_simps [simp]:
  "filled_slots (send_free s q) = filled_slots q" "w_current (send_free s q) = w_current q"
  "w_epoch (send_free s q) = w_epoch q" "w_loaded (send_free s q) = w_loaded q" "r_current (send_free s q) = r_current q"
  "reader (send_free s q) = reader q" "q_epoch (send_free s q) = q_epoch q" "num_slots (send_free s q) = num_slots q"
  by (simp_all add: send_free_def)

lemma r_scan_filled:
  assumes "r_current q = None"
  shows "length (filled_slots (r_scan q)) + (if r_current (r_scan q) = None then 0 else 1) \<le> length (filled_slots q)"
  using assms by (auto simp: r_scan_def split: r_phase.splits nat.splits list.splits)

text \<open>The loop goes on only while nothing was taken.\<close>

lemma r_scan_taken: "r_current q = None \<Longrightarrow> r_current (r_scan q) \<noteq> None \<Longrightarrow> reader (r_scan q) = RIdle"
  by (auto simp: r_scan_def split: r_phase.splits nat.splits list.splits if_splits)

lemma r_scan_loop_filled:
  "r_current q = None \<Longrightarrow>
     length (filled_slots (r_scan_loop n q)) + (if r_current (r_scan_loop n q) = None then 0 else 1)
       \<le> length (filled_slots q)"
proof (induction n arbitrary: q)
  case (Suc n)
  show ?case
  proof (cases "reader (r_scan q) = RIdle")
    case False
    then have "r_current (r_scan q) = None" using r_scan_taken [OF Suc.prems] by blast
    then show ?thesis using Suc.IH [of "r_scan q"] r_scan_filled [OF Suc.prems] False by (simp add: Let_def split: if_splits)
  qed (use r_scan_filled [OF Suc.prems] in simp)
qed (simp add: r_scan_filled)

lemma r_retain_filled: "r_retain q = (True, q') \<Longrightarrow> length (filled_slots q') < length (filled_slots q)"
  using r_scan_loop_filled [of "r_retain_begin q" "num_slots q"]
  by (auto simp: r_retain_def r_retain_begin_def Let_def split: if_splits)

function drain_sink :: "nat \<Rightarrow> buffer slot_queue \<Rightarrow> resizer \<Rightarrow> buffer slot_queue \<times> resizer" where
  "drain_sink n q r =
     (case r_retain q of
        (False, q) \<Rightarrow> (q, r)
      | (True, q) \<Rightarrow>
          let r = (case r_current q of Some b \<Rightarrow> if has_audio b then encode_buffer b r else r | None \<Rightarrow> r);
              q = r_release (q\<lparr>r_current := map_option (grow_samples n) (r_current q)\<rparr>)
          in drain_sink n q r)"
  by pat_completeness auto
termination
  by (relation "measure (\<lambda>(_, q, _). length (filled_slots q))")
    (auto simp: r_release_def dest!: r_retain_filled [OF sym] split: option.splits)

declare drain_sink.simps [simp del]

section \<open>Slots and epochs\<close>

abbreviation held :: "'a option \<Rightarrow> nat" where
  "held x \<equiv> (if x = None then 0 else 1)"

fun looping :: "r_phase \<Rightarrow> bool" where
  "looping (RScan _) = True"
| "looping (RDrain _) = True"
| "looping _ = False"

text \<open>Every slot is in one place, and no slot is marked with an epoch that has not come.\<close>

definition slots_ok :: "'a slot_queue \<Rightarrow> bool" where
  "slots_ok q \<longleftrightarrow>
     length (free_slots q) + length (filled_slots q) + held (w_current q) + held (r_current q) = num_slots q
   \<and> (\<forall>x\<in>set (filled_slots q). fst x \<le> q_epoch q)
   \<and> (w_current q \<noteq> None \<longrightarrow> w_epoch q \<le> q_epoch q \<and> w_loaded q = None)
   \<and> (\<forall>e. w_loaded q = Some e \<longrightarrow> e \<le> q_epoch q)
   \<and> (looping (reader q) \<longrightarrow> r_current q = None)"

lemma send_free_room:
  "length (free_slots q) < num_slots q \<Longrightarrow> length (free_slots (send_free s q)) = length (free_slots q) + 1"
  by (simp add: send_free_def)

lemma slots_ok_new: "slots_ok (new_queue n v)"
  by (simp add: slots_ok_def new_queue_def Let_def)

lemma slots_ok_step: "slot_step b q q' \<Longrightarrow> slots_ok q \<Longrightarrow> slots_ok q'"
proof (induction rule: slot_step.induct)
  case (step_load q)
  then show ?case by (auto simp: slots_ok_def w_retain_load_def)
next
  case (step_take q)
  then show ?case by (auto simp: slots_ok_def w_retain_take_def split: option.splits list.splits r_phase.splits)
next
  case (step_write q f)
  then show ?case by (auto simp: slots_ok_def)
next
  case (step_release q)
  then show ?case by (auto simp: slots_ok_def w_release_def Let_def split: option.splits)
next
  case (step_retain q)
  then show ?case by (auto simp: slots_ok_def r_retain_begin_def)
next
  case (step_scan q)
  then show ?case
    by (auto simp: slots_ok_def r_scan_def send_free_room split: r_phase.splits nat.splits list.splits)
next
  case (step_read q f)
  then show ?case by (auto simp: slots_ok_def)
next
  case (step_recycle q)
  then show ?case by (auto simp: slots_ok_def r_release_def send_free_room split: option.splits)
next
  case (step_discard q)
  then show ?case by (auto simp: slots_ok_def r_discard_begin_def intro: le_SucI)
next
  case (step_discard_release q)
  then show ?case
    by (auto simp: slots_ok_def r_discard_release_def r_release_def send_free_room split: option.splits)
next
  case (step_drain q)
  then show ?case
    by (auto simp: slots_ok_def r_drain_def send_free_room split: r_phase.splits nat.splits list.splits)
qed

lemma slot_reachable_ok: "slot_reachable q \<Longrightarrow> slots_ok q"
  by (induction rule: slot_reachable.induct) (simp_all add: slots_ok_new slots_ok_step)

text \<open>Nothing that is on its way to the reader has the current epoch.\<close>

definition nothing_live :: "'a slot_queue \<Rightarrow> bool" where
  "nothing_live q \<longleftrightarrow>
     (\<forall>x\<in>set (filled_slots q). fst x < q_epoch q) \<and> (w_current q \<noteq> None \<longrightarrow> w_epoch q < q_epoch q)
   \<and> (\<forall>e. w_loaded q = Some e \<longrightarrow> e < q_epoch q) \<and> (r_current q = None \<or> reader q = RReleasing)"

lemma nothing_live_step: "slot_step b q q' \<Longrightarrow> \<not> b \<Longrightarrow> nothing_live q \<Longrightarrow> nothing_live q'"
proof (induction rule: slot_step.induct)
  case (step_take q)
  then show ?case by (auto simp: nothing_live_def w_retain_take_def split: option.splits list.splits)
next
  case (step_release q)
  then show ?case by (auto simp: nothing_live_def w_release_def Let_def split: option.splits)
next
  case (step_retain q)
  then show ?case by (auto simp: nothing_live_def r_retain_begin_def)
next
  case (step_scan q)
  then show ?case by (auto simp: nothing_live_def r_scan_def split: r_phase.splits nat.splits list.splits)
next
  case (step_recycle q)
  then show ?case by (auto simp: nothing_live_def r_release_def)
next
  case (step_discard q)
  then show ?case by (auto simp: nothing_live_def r_discard_begin_def intro: less_SucI)
next
  case (step_discard_release q)
  then show ?case by (auto simp: nothing_live_def r_discard_release_def r_release_def split: option.splits)
next
  case (step_drain q)
  then show ?case by (auto simp: nothing_live_def r_drain_def split: r_phase.splits nat.splits list.splits)
qed (auto simp: nothing_live_def)

lemma nothing_live_discarded: "slots_ok q \<Longrightarrow> nothing_live (r_discard_begin q)"
  by (auto simp: slots_ok_def nothing_live_def r_discard_begin_def less_Suc_eq_le)

lemma nothing_live_steps: "(slot_step False)\<^sup>*\<^sup>* q q' \<Longrightarrow> nothing_live q \<Longrightarrow> nothing_live q'"
  by (induction rule: rtranclp_induct) (auto intro: nothing_live_step)

section \<open>The queue as a FIFO\<close>

text \<open>What the reader is going to get.\<close>

definition live :: "'a slot_queue \<Rightarrow> 'a list" where
  "live q = map snd (filter (\<lambda>x. fst x = q_epoch q) (filled_slots q))"

lemma live_send_free [simp]: "live (send_free s q) = live q"
  by (simp add: live_def)

lemma r_scan_loop_fifo:
  assumes "length (filled_slots q) \<le> n" and "reader q = RScan n" and "r_current q = None"
  shows "reader (r_scan_loop n q) = RIdle
       \<and> r_current (r_scan_loop n q) = (if live q = [] then None else Some (hd (live q)))
       \<and> live (r_scan_loop n q) = List.tl (live q)"
  using assms
proof (induction n arbitrary: q)
  case 0
  then show ?case by (simp add: r_scan_def live_def)
next
  case (Suc n)
  show ?case
  proof (cases "filled_slots q")
    case Nil
    then show ?thesis using Suc.prems by (simp add: r_scan_def live_def)
  next
    case (Cons x rest)
    obtain e s where x: "x = (e, s)" by fastforce
    let ?q = "send_free s (q\<lparr>filled_slots := rest, reader := RScan n\<rparr>)"
    show ?thesis
    proof (cases "e = q_epoch q")
      case True
      then show ?thesis using Suc.prems Cons x by (simp add: r_scan_def live_def)
    next
      case False
      have "live ?q = live q" using False by (simp add: live_def Cons x)
      moreover have "r_scan_loop (Suc n) q = r_scan_loop n ?q"
        using Suc.prems Cons x False by (simp add: r_scan_def)
      ultimately show ?thesis using Suc.IH [of ?q] Suc.prems Cons by simp
    qed
  qed
qed

lemma r_retain_fifo:
  assumes "slots_ok q" and "r_current q = None"
  shows "fst (r_retain q) \<longleftrightarrow> live q \<noteq> []" and "live (snd (r_retain q)) = List.tl (live q)"
    and "reader (snd (r_retain q)) = RIdle" and "live q \<noteq> [] \<Longrightarrow> r_current (snd (r_retain q)) = Some (hd (live q))"
proof -
  let ?q = "q\<lparr>reader := RScan (num_slots q)\<rparr>"
  have "length (filled_slots ?q) \<le> num_slots q" using assms(1) by (auto simp: slots_ok_def)
  then have "reader (r_scan_loop (num_slots q) ?q) = RIdle
       \<and> r_current (r_scan_loop (num_slots q) ?q) = (if live ?q = [] then None else Some (hd (live ?q)))
       \<and> live (r_scan_loop (num_slots q) ?q) = List.tl (live ?q)"
    using r_scan_loop_fifo [of ?q "num_slots q"] assms(2) by simp
  moreover have "live ?q = live q" by (simp add: live_def)
  ultimately show "fst (r_retain q) \<longleftrightarrow> live q \<noteq> []" "live (snd (r_retain q)) = List.tl (live q)"
    "reader (snd (r_retain q)) = RIdle" "live q \<noteq> [] \<Longrightarrow> r_current (snd (r_retain q)) = Some (hd (live q))"
    using assms(2) by (simp_all add: r_retain_def r_retain_begin_def Let_def)
qed

text \<open>The functions of the reader are made of its steps.\<close>

lemma r_scan_loop_steps: "(slot_step False)\<^sup>*\<^sup>* q (r_scan_loop n q)"
proof (induction n arbitrary: q)
  case (Suc n)
  have "slot_step False q (r_scan q)" by (rule step_scan)
  then show ?case using Suc.IH [of "r_scan q"] by (auto simp: Let_def intro: converse_rtranclp_into_rtranclp)
qed (auto intro: step_scan)

lemma r_retain_steps: "reader q = RIdle \<Longrightarrow> (slot_step False)\<^sup>*\<^sup>* q (snd (r_retain q))"
  using r_scan_loop_steps step_retain
  by (auto simp: r_retain_def Let_def intro: converse_rtranclp_into_rtranclp)

lemma r_drain_loop_steps: "(slot_step False)\<^sup>*\<^sup>* q (r_drain_loop n q)"
proof (induction n arbitrary: q)
  case (Suc n)
  have "slot_step False q (r_drain q)" by (rule step_drain)
  then show ?case using Suc.IH [of "r_drain q"] by (auto simp: Let_def intro: converse_rtranclp_into_rtranclp)
qed (auto intro: step_drain)

lemma discard_pending_steps: "reader q = RIdle \<Longrightarrow> (slot_step False)\<^sup>*\<^sup>* (r_discard_begin q) (discard_pending q)"
proof -
  have "slot_step False (r_discard_begin q) (r_discard_release (r_discard_begin q))"
    by (rule step_discard_release) (simp add: r_discard_begin_def)
  then show ?thesis
    unfolding discard_pending_def using r_drain_loop_steps by (rule converse_rtranclp_into_rtranclp)
qed

lemma slots_ok_steps: "(slot_step b)\<^sup>*\<^sup>* q q' \<Longrightarrow> slots_ok q \<Longrightarrow> slots_ok q'"
  by (induction rule: rtranclp_induct) (auto intro: slots_ok_step)

section \<open>Draining\<close>

definition idle :: "'a slot_queue \<Rightarrow> bool" where
  "idle q \<longleftrightarrow> slots_ok q \<and> reader q = RIdle \<and> r_current q = None"

lemma r_retain_idle:
  assumes "idle q"
  shows "slots_ok (snd (r_retain q))" and "live q = [] \<Longrightarrow> idle (snd (r_retain q))"
proof -
  show ok: "slots_ok (snd (r_retain q))"
    using slots_ok_steps [OF r_retain_steps [of q]] assms by (simp add: idle_def)
  show "live q = [] \<Longrightarrow> idle (snd (r_retain q))"
    using ok r_retain_fifo [of q] assms by (auto simp: idle_def r_retain_def Let_def split: if_splits)
qed

lemma recycle_idle:
  assumes "slots_ok q" and "reader q = RIdle"
  shows "idle (r_release (q\<lparr>r_current := map_option f (r_current q)\<rparr>))"
    and "live (r_release (q\<lparr>r_current := map_option f (r_current q)\<rparr>)) = live q"
proof -
  let ?q = "q\<lparr>r_current := map_option f (r_current q)\<rparr>"
  have "slots_ok ?q" using slots_ok_step [OF step_read] assms by blast
  then have "slots_ok (r_release ?q)" using slots_ok_step [OF step_recycle [of ?q]] assms(2) by simp
  then show "idle (r_release ?q)" using assms(2) by (simp add: idle_def r_release_def split: option.splits)
  show "live (r_release ?q) = live q" by (auto simp: r_release_def live_def split: option.splits)
qed

lemma drain_sink_fifo:
  assumes "idle q"
  shows "snd (drain_sink n q r) = fold encode_buffer (filter has_audio (live q)) r
       \<and> live (fst (drain_sink n q r)) = [] \<and> idle (fst (drain_sink n q r))"
  using assms
proof (induction n q r rule: drain_sink.induct)
  case (1 n q r)
  have ok: "slots_ok q" "r_current q = None" using "1.prems" by (simp_all add: idle_def)
  note fifo = r_retain_fifo [OF ok] and idle = r_retain_idle [OF "1.prems"]
  show ?case
  proof (cases "live q")
    case Nil
    then obtain q' where "r_retain q = (False, q')" using fifo(1) by (cases "r_retain q") auto
    then show ?thesis using fifo(2) idle Nil by (simp add: drain_sink.simps [of n q r])
  next
    case (Cons b bs)
    then obtain q' where q': "r_retain q = (True, q')" using fifo(1) by (cases "r_retain q") auto
    have b: "r_current q' = Some b" "live q' = bs" "reader q' = RIdle" "slots_ok q'"
      using fifo idle(1) Cons q' by simp_all
    define r' where "r' = (if has_audio b then encode_buffer b r else r)"
    define q'' where "q'' = r_release (q'\<lparr>r_current := map_option (grow_samples n) (r_current q')\<rparr>)"
    have "idle q''" "live q'' = bs" unfolding q''_def using recycle_idle [OF b(4,3)] b(2) by simp_all
    moreover have "drain_sink n q r = drain_sink n q'' r'"
      by (simp add: drain_sink.simps [of n q r] q' b(1) r'_def q''_def)
    ultimately show ?thesis
      using "1.IH" [OF q'[symmetric] refl, of r' q''] Cons by (simp add: r'_def q''_def b(1))
  qed
qed

section \<open>Commits\<close>

text \<open>A sink whose writer has no slot and whose pool has a free one.\<close>

definition sink_ready :: "sink \<Rightarrow> bool" where
  "sink_ready sk \<longleftrightarrow>
     slots_ok (sk_queue sk) \<and> sk_connected sk \<and> w_current (sk_queue sk) = None \<and> w_loaded (sk_queue sk) = None
   \<and> free_slots (sk_queue sk) \<noteq> []"

lemma retain_buffer_ready:
  assumes "sink_ready sk"
  obtains b where "fst (retain_buffer sk)" and "w_current (sk_queue (snd (retain_buffer sk))) = Some b"
    and "sk_max_num_samples sk \<le> length (bf_samples b)" and "live (sk_queue (snd (retain_buffer sk))) = live (sk_queue sk)"
    and "w_epoch (sk_queue (snd (retain_buffer sk))) = q_epoch (sk_queue sk)"
    and "q_epoch (sk_queue (snd (retain_buffer sk))) = q_epoch (sk_queue sk)"
    and "length (filled_slots (sk_queue (snd (retain_buffer sk)))) < num_slots (sk_queue (snd (retain_buffer sk)))"
    and "sk_max_num_samples (snd (retain_buffer sk)) = sk_max_num_samples sk"
proof -
  obtain s fs where "free_slots (sk_queue sk) = s # fs" using assms by (cases "free_slots (sk_queue sk)") (auto simp: sink_ready_def)
  then show ?thesis
    using assms
    by (intro that [of "grow_samples (sk_max_num_samples sk) s"])
      (auto simp: sink_ready_def retain_buffer_def w_retain_def w_retain_load_def w_retain_take_def Let_def live_def
        slots_ok_def grow_samples_def)
qed

text \<open>A release hands over one slot, with the current epoch when it was retained in it.\<close>

lemma w_release_live:
  assumes "w_current q = Some b" and "length (filled_slots q) < num_slots q" and "w_epoch q = q_epoch q"
  shows "live (w_release q) = live q @ [b]"
  using assms by (simp add: w_release_def live_def)

section \<open>Properties\<close>

text \<open>No slot of the pool is ever lost. In every state that the audio thread and the Link thread reach together,
  each of the slots is free, queued, with the writer or with the reader; the writer's release and the reader's
  recycling therefore always find room in their channels.\<close>

theorem slots_conserved:
  assumes "slot_reachable q"
  shows "length (free_slots q) + length (filled_slots q) + held (w_current q) + held (r_current q) = num_slots q
       \<and> (w_current q \<noteq> None \<longrightarrow> length (filled_slots q) < num_slots q)
       \<and> (r_current q \<noteq> None \<or> filled_slots q \<noteq> [] \<longrightarrow> length (free_slots q) < num_slots q)"
proof -
  have n: "length (free_slots q) + length (filled_slots q) + held (w_current q) + held (r_current q) = num_slots q"
    using slot_reachable_ok [OF assms] by (simp add: slots_ok_def)
  then show ?thesis by (cases "filled_slots q") (auto split: if_splits)
qed

theorem slots_conserved_witness:
  "w_current (w_retain_take (w_retain_load (new_queue 2 (0 :: nat)))) = Some 0
   \<and> length (free_slots (w_retain_take (w_retain_load (new_queue 2 (0 :: nat))))) + 1 = 2"
proof -
  let ?q = "w_retain_take (w_retain_load (new_queue 2 (0 :: nat)))"
  have "slot_reachable ?q"
    by (rule slots_step [OF slots_step [OF slots_new step_load] step_take]) (simp add: new_queue_def Let_def)
  from slots_conserved [OF this] show ?thesis
    by (simp add: new_queue_def w_retain_load_def w_retain_take_def numeral_2_eq_2)
qed

text \<open>C7: Audio from before a pause is never sent after it. Once the reader has started to discard, whatever was queued,
  retained or being retained by the audio thread at that moment is never handed to the reader, however the two
  threads interleave, until the writer retains a slot anew.\<close>

theorem discarded_audio_never_delivered:
  assumes "slot_reachable q" and "(slot_step False)\<^sup>*\<^sup>* (r_discard_begin q) q'"
  shows "r_current q' = None \<or> reader q' = RReleasing"
  using nothing_live_steps [OF assms(2) nothing_live_discarded [OF slot_reachable_ok [OF assms(1)]]]
  by (simp add: nothing_live_def)

theorem discarded_audio_never_delivered_witness:
  "r_current (snd (r_retain (w_release (discard_pending (w_retain_take (w_retain_load (new_queue 2 (7 :: nat)))))))) = None"
proof -
  let ?q = "w_retain_take (w_retain_load (new_queue 2 (7 :: nat)))"
  have r: "slot_reachable ?q"
    by (rule slots_step [OF slots_step [OF slots_new step_load] step_take]) (simp add: new_queue_def Let_def)
  have d: "reader ?q = RIdle" "w_loaded (discard_pending ?q) = None" "reader (w_release (discard_pending ?q)) = RIdle"
    by (simp_all add: new_queue_def w_retain_load_def w_retain_take_def discard_pending_def r_discard_begin_def
        r_discard_release_def r_release_def r_drain_def w_release_def numeral_2_eq_2)
  have "(slot_step False)\<^sup>*\<^sup>* (r_discard_begin ?q) (snd (r_retain (w_release (discard_pending ?q))))"
    using discard_pending_steps [OF d(1)] step_release [OF d(2)] r_retain_steps [OF d(3)]
    by (meson rtranclp.rtrancl_into_rtrancl rtranclp_trans)
  from discarded_audio_never_delivered [OF r this] show ?thesis
    using r_retain_fifo(3) [of "w_release (discard_pending ?q)"] slots_ok_steps slot_reachable_ok [OF r]
    by (simp add: new_queue_def w_retain_load_def w_retain_take_def discard_pending_def r_discard_begin_def
        r_discard_release_def r_release_def r_drain_def w_release_def numeral_2_eq_2 r_retain_def r_retain_begin_def
        r_scan_def send_free_def)
qed

text \<open>A commit queues exactly what the application wrote. The retained buffer has room for the requested number of
  samples; the committed buffer has the samples that were written with the format given and the tempo of the
  timeline, and it is queued behind the buffers committed before.\<close>

theorem commit_queues_audio:
  assumes "sink_ready sk" and "length xs = channels * frames" and "length xs \<le> sk_max_num_samples sk"
    and "length xs < 2 ^ 32" and "0 < channels" and "channels < 2 ^ 32" and "frames < 2 ^ 32" and "rate \<noteq> 0"
  shows "\<exists>b sk'. handle_commit E line sid beats_at_begin quantum frames channels rate
            (handle_write xs (snd (retain_buffer sk))) = (True, sk')
       \<and> live (sk_queue sk') = live (sk_queue sk) @ [b]
       \<and> published_samples b = xs \<and> bf_frames b = frames \<and> bf_channels b = channels \<and> bf_rate b = rate
       \<and> bf_session b = sid \<and> bf_tempo b = tempo line
       \<and> bf_begin b = global_beat_at_beat E line (beats_new beats_at_begin) (beats_new quantum)"
proof -
  let ?s = "snd (retain_buffer sk)"
  obtain b where b: "w_current (sk_queue ?s) = Some b"
    "sk_max_num_samples sk \<le> length (bf_samples b)" "live (sk_queue ?s) = live (sk_queue sk)"
    "w_epoch (sk_queue ?s) = q_epoch (sk_queue sk)" "q_epoch (sk_queue ?s) = q_epoch (sk_queue sk)"
    "length (filled_slots (sk_queue ?s)) < num_slots (sk_queue ?s)"
    "sk_max_num_samples ?s = sk_max_num_samples sk"
    by (rule retain_buffer_ready [OF assms(1)])
  define c where "c = b\<lparr>bf_samples := take (length (bf_samples b)) xs @ drop (length xs) (bf_samples b),
      bf_begin := global_beat_at_beat E line (beats_new beats_at_begin) (beats_new quantum), bf_tempo := tempo line,
      bf_channels := channels, bf_rate := rate, bf_frames := frames, bf_session := sid\<rparr>"
  define q where "q = (sk_queue ?s)\<lparr>w_current := Some c\<rparr>"
  have small: "\<not> frames * channels mod 2 ^ 64 > sk_max_num_samples sk"
    using assms(2,3) mod_less_eq_dividend [of "frames * channels" "2 ^ 64"] by (simp add: mult.commute)
  have "handle_commit E line sid beats_at_begin quantum frames channels rate (handle_write xs ?s)
      = (True, ?s\<lparr>sk_queue := w_release q\<rparr>)"
    using assms(5-8) small b(1,7) by (simp add: handle_commit_def handle_write_def c_def q_def)
  moreover have "live (w_release q) = live (sk_queue sk) @ [c]"
    using w_release_live [of q c] b by (simp add: q_def live_def)
  moreover have "published_samples c = xs"
    using assms(2,3) b(2) by (simp add: published_samples_def c_def)
  ultimately show ?thesis by (intro exI [of _ c] exI [of _ "?s\<lparr>sk_queue := w_release q\<rparr>"]) (simp add: c_def)
qed

definition sample_sink :: sink where
  "sample_sink = (new_sink [68] 4 (replicate 8 1))\<lparr>sk_connected := True\<rparr>"

lemma sample_sink_ready: "sink_ready sample_sink"
  by (simp add: sink_ready_def sample_sink_def new_sink_def slots_ok_def new_queue_def)

lemma sample_retained:
  "snd (retain_buffer sample_sink) = sample_sink\<lparr>sk_queue :=
     \<lparr>free_slots = replicate 127 (new_buffer 4), filled_slots = [], w_current = Some (new_buffer 4), w_epoch = 0,
      w_loaded = None, r_current = None, reader = RIdle, q_epoch = 0, num_slots = 128\<rparr>\<rparr>"
proof -
  have "replicate 128 (new_buffer 4) = new_buffer 4 # replicate 127 (new_buffer 4)" by (simp flip: replicate_Suc)
  moreover have "grow_samples 4 (new_buffer 4) = new_buffer 4" by (simp add: grow_samples_def new_buffer_def)
  ultimately show ?thesis
    by (simp add: sample_sink_def new_sink_def new_queue_def retain_buffer_def w_retain_def w_retain_load_def
        w_retain_take_def)
qed

theorem commit_queues_audio_witness:
  "\<exists>b sk'. handle_commit std_ext \<lparr>tempo = Tempo (Fin 120), beat_origin = Beats 0, time_origin = 0\<rparr> (replicate 8 2) (Fin 0) (Fin 4)
      2 2 48000 (handle_write [1, 2, 3, 4] (snd (retain_buffer sample_sink))) = (True, sk')
     \<and> live (sk_queue sk') = [b] \<and> published_samples b = [1, 2, 3, 4]"
proof -
  have "length [1, 2, 3, 4 :: i16] \<le> sk_max_num_samples sample_sink" "live (sk_queue sample_sink) = []"
    by (simp_all add: sample_sink_def new_sink_def live_def new_queue_def)
  then show ?thesis
    using commit_queues_audio [OF sample_sink_ready, of "[1, 2, 3, 4]" 2 2 48000 std_ext
        "\<lparr>tempo = Tempo (Fin 120), beat_origin = Beats 0, time_origin = 0\<rparr>" "replicate 8 2" "Fin 0" "Fin 4"]
    by fastforce
qed

text \<open>Committed audio reaches the encoder in order and once. A round of the process task gives every queued buffer
  that carries audio to the encoder, first in first out, skips the buffers that were dropped without a commit,
  and leaves nothing queued.\<close>

theorem drain_is_fifo:
  assumes "idle q"
  shows "snd (drain_sink n q r) = fold encode_buffer (filter has_audio (live q)) r
       \<and> live (fst (drain_sink n q r)) = [] \<and> idle (fst (drain_sink n q r))"
  by (rule drain_sink_fifo [OF assms])

lemma sample_dropped: "idle (sk_queue (handle_drop (snd (retain_buffer sample_sink))))"
  "filter has_audio (live (sk_queue (handle_drop (snd (retain_buffer sample_sink))))) = []"
  by (simp_all add: sample_retained handle_drop_def w_release_def idle_def slots_ok_def live_def clear_timing_def
      has_audio_def bpm_def)

theorem drain_is_fifo_witness:
  "snd (drain_sink 4 (sk_queue (handle_drop (snd (retain_buffer sample_sink)))) (new_resizer 502)) = new_resizer 502"
  using drain_is_fifo [OF sample_dropped(1), of 4 "new_resizer 502"] by (simp add: sample_dropped(2))

text \<open>C38: A commit can claim more frames than its buffer has. Whenever a size larger than the retained buffer is requested between
  retaining it and committing it, every commit of up to that size is accepted, since it is compared with the new size while the buffer still
  has the old one: the buffer that is queued for the encoder has the frames and channels of the commit and only the samples of the retained
  buffer, fewer than frames times channels.\<close>

theorem commit_exceeds_buffer:
  assumes "sink_ready sk" and "w_current (sk_queue (snd (retain_buffer sk))) = Some b0"
    and "length (bf_samples b0) < frames * channels" and "frames * channels \<le> n"
    and "0 < channels" and "channels < 2 ^ 32" and "frames < 2 ^ 32" and "rate \<noteq> 0"
  shows "\<exists>b sk'. handle_commit E line sid beats_at_begin quantum frames channels rate
            (request_max_num_samples n (handle_write xs (snd (retain_buffer sk)))) = (True, sk')
       \<and> live (sk_queue sk') = live (sk_queue sk) @ [b] \<and> bf_frames b = frames \<and> bf_channels b = channels
       \<and> length (bf_samples b) = length (bf_samples b0) \<and> length (bf_samples b) < bf_frames b * bf_channels b"
proof -
  let ?s = "snd (retain_buffer sk)"
  have b: "live (sk_queue ?s) = live (sk_queue sk)" "w_epoch (sk_queue ?s) = q_epoch (sk_queue sk)"
    "q_epoch (sk_queue ?s) = q_epoch (sk_queue sk)" "length (filled_slots (sk_queue ?s)) < num_slots (sk_queue ?s)"
    by (rule retain_buffer_ready [OF assms(1)]; simp)+
  define c where "c = b0\<lparr>bf_samples := take (length (bf_samples b0)) xs @ drop (length xs) (bf_samples b0),
      bf_begin := global_beat_at_beat E line (beats_new beats_at_begin) (beats_new quantum), bf_tempo := tempo line,
      bf_channels := channels, bf_rate := rate, bf_frames := frames, bf_session := sid\<rparr>"
  define q where "q = (sk_queue ?s)\<lparr>w_current := Some c\<rparr>"
  have small: "\<not> frames * channels mod 2 ^ 64 > max (sk_max_num_samples ?s) n"
    using order_trans [OF mod_less_eq_dividend assms(4), of "2 ^ 64"] by (simp add: not_less le_max_iff_disj)
  have "handle_commit E line sid beats_at_begin quantum frames channels rate (request_max_num_samples n (handle_write xs ?s))
      = (True, ?s\<lparr>sk_queue := w_release q, sk_max_num_samples := max (sk_max_num_samples ?s) n\<rparr>)"
    using assms(2,5-8) small by (simp add: handle_commit_def handle_write_def request_max_num_samples_def c_def q_def Let_def)
  moreover have "live (w_release q) = live (sk_queue sk) @ [c]"
    using w_release_live [of q c] b by (simp add: q_def live_def)
  moreover have "length (bf_samples c) = length (bf_samples b0)" by (simp add: c_def)
  ultimately show ?thesis using assms(3)
    by (intro exI [of _ c] exI [of _ "?s\<lparr>sk_queue := w_release q, sk_max_num_samples := max (sk_max_num_samples ?s) n\<rparr>"])
      (simp add: c_def)
qed

theorem commit_exceeds_buffer_witness:
  "\<exists>b sk'. handle_commit std_ext \<lparr>tempo = Tempo (Fin 120), beat_origin = Beats 0, time_origin = 0\<rparr> (replicate 8 2) (Fin 0) (Fin 4)
      8 1 48000 (request_max_num_samples 8 (handle_write [1, 2, 3, 4] (snd (retain_buffer sample_sink)))) = (True, sk')
     \<and> live (sk_queue sk') = [b] \<and> length (bf_samples b) < bf_frames b * bf_channels b"
proof -
  have "w_current (sk_queue (snd (retain_buffer sample_sink))) = Some (new_buffer 4)" "live (sk_queue sample_sink) = []"
    by (simp add: sample_retained) (simp add: sample_sink_def new_sink_def new_queue_def live_def)
  then show ?thesis
    using commit_exceeds_buffer [OF sample_sink_ready, of "new_buffer 4" 8 1 8 48000 std_ext
        "\<lparr>tempo = Tempo (Fin 120), beat_origin = Beats 0, time_origin = 0\<rparr>" "replicate 8 2" "Fin 0" "Fin 4" "[1, 2, 3, 4]"]
    by (fastforce simp: new_buffer_def)
qed

end
