(* ===== verification/AudioEngine.thy ===== *)
theory AudioEngine
  imports AudioSink "HOL-Library.Multiset"
begin

text \<open>
  The LinkAudio engine: \<open>src/link_audio/engine.rs\<close>, with the calls of \<open>api.rs\<close> that start and stop it.

  The state behind the mutex is \<open>engine_state\<close>; every function that runs under the lock is a definition on it,
  which also returns what it sends and the callbacks it makes. The engine around it has the flags and epochs that the
  tasks and the application share. A task enters the gate, works under the lock and sends its datagrams one by one;
  these are steps of \<open>engine_step\<close>, so that a pause or a shutdown can come between any two of them. Datagrams
  that are sent under an epoch carry it in the log \<open>wire\<close>. An encoder is its resizer, whose successor list is
  the outbox. The clock readings are arguments.
\<close>

section \<open>The state behind the lock\<close>

record peer_receiver =
  pr_peer :: node_id
  pr_endpoint :: endpoint
  pr_metrics :: metrics_filter

record sink_entry =
  se_sink :: sink
  se_receivers :: receivers
  se_encoder :: resizer

record engine_state =
  es_node :: node_id
  es_session :: session_id
  es_name :: bytes
  es_gateway :: u32
  es_peers :: "peer_receiver list"
  es_channels :: channels
  es_sinks :: "sink_entry list"
  es_sources :: "node_id list"
  es_announced :: "channel_announcement list"

type_synonym datagrams = "(bytes \<times> endpoint) list"
type_synonym callback_log = "(node_id \<times> i16 list \<times> buffer_info) list"

abbreviation AUDIO_TTL :: u8 where "AUDIO_TTL \<equiv> 5"
abbreviation PEER_ANNOUNCEMENT :: u8 where "PEER_ANNOUNCEMENT \<equiv> 1"
abbreviation CHANNEL_BYES :: u8 where "CHANNEL_BYES \<equiv> 2"
abbreviation AUDIO_PONG :: u8 where "AUDIO_PONG \<equiv> 3"
abbreviation CHANNEL_REQUEST :: u8 where "CHANNEL_REQUEST \<equiv> 4"
abbreviation STOP_CHANNEL_REQUEST :: u8 where "STOP_CHANNEL_REQUEST \<equiv> 5"
abbreviation AUDIO_BUFFER :: u8 where "AUDIO_BUFFER \<equiv> 6"

definition new_engine_state :: "u32 \<Rightarrow> node_id \<Rightarrow> session_id \<Rightarrow> bytes \<Rightarrow> engine_state" where
  "new_engine_state addr node sid name =
     \<lparr>es_node = node, es_session = sid, es_name = truncate_name name, es_gateway = addr, es_peers = [],
      es_channels = new_channels, es_sinks = [], es_sources = [], es_announced = []\<rparr>"

text \<open>A message that cannot be encoded is not sent.\<close>

definition datagram :: "node_id \<Rightarrow> u8 \<Rightarrow> u8 \<Rightarrow> bytes \<Rightarrow> endpoint \<Rightarrow> datagrams" where
  "datagram node t kind payload to =
     (case encode_audio_message node t kind payload of Inl _ \<Rightarrow> [] | Inr m \<Rightarrow> [(m, to)])"

section \<open>Announcements and goodbyes\<close>

definition announcement_payload_size :: "peer_announcement \<Rightarrow> u32" where
  "announcement_payload_size a = (8 + 8) + (8 + size_of_string (pa_name a)) + (8 + announcements_size (pa_channels a))"

definition channel_announcements :: "engine_state \<Rightarrow> channel_announcement list" where
  "channel_announcements st = map (\<lambda>e. \<lparr>ca_name = sk_name (se_sink e), ca_id = sk_id (se_sink e)\<rparr>) (es_sinks st)"

definition push_channel :: "channel_announcement \<Rightarrow> peer_announcement list \<Rightarrow> peer_announcement list" where
  "push_channel c as =
     (if as = [] then [] else butlast as @ [(last as)\<lparr>pa_channels := pa_channels (last as) @ [c]\<rparr>])"

fun split_announcements ::
  "peer_announcement \<Rightarrow> channel_announcement list \<Rightarrow> peer_announcement list \<Rightarrow> peer_announcement list" where
  "split_announcements base [] as = as"
| "split_announcements base (c # cs) as =
     (let channel_size = announcement_size c;
          added_size = (if length as = 1 then channel_size + (8 + 8) else channel_size);
          current_size = (if as = [] then 0 else announcement_payload_size (last as));
          as = (if current_size + added_size > word_of_nat MAX_PAYLOAD_SIZE then as @ [base] else as)
      in split_announcements base cs (push_channel c as))"

definition announcements :: "engine_state \<Rightarrow> peer_announcement list" where
  "announcements st =
     (let base = \<lparr>pa_node = es_node st, pa_session = es_session st, pa_name = truncate_name (es_name st), pa_channels = []\<rparr>
      in split_announcements base (channel_announcements st) [base])"

fun split_byes_loop :: "node_id list \<Rightarrow> node_id list list \<Rightarrow> node_id list list" where
  "split_byes_loop [] result = result"
| "split_byes_loop (i # ids) result =
     (let result = (if result \<noteq> [] \<and> (8 + byes_size (last result)) + 8 > word_of_nat MAX_PAYLOAD_SIZE
                    then result @ [[]] else result)
      in split_byes_loop ids (if result = [] then [] else butlast result @ [last result @ [i]]))"

definition split_byes :: "node_id list \<Rightarrow> node_id list list" where
  "split_byes ids = filter (\<lambda>b. b \<noteq> []) (split_byes_loop ids [[]])"

definition byes_payload :: "node_id list \<Rightarrow> bytes" where
  "byes_payload ids = encode_audio_entry (key_of ''aucb'') byes_size encode_byes ids"

definition channel_byes :: "node_id \<Rightarrow> endpoint list \<Rightarrow> node_id list \<Rightarrow> datagrams" where
  "channel_byes node eps ids =
     concat (map (\<lambda>b. concat (map (datagram node AUDIO_TTL CHANNEL_BYES (byes_payload b)) eps)) (split_byes ids))"

definition host_time_payload :: "ext \<Rightarrow> duration \<Rightarrow> bytes" where
  "host_time_payload E t = encode_audio_entry (key_of ''__ht'') (\<lambda>_. 8) (encode_host_time E) t"

text \<open>The announce task: goodbyes of channels that disappeared, then the announcements, the first with a ping.\<close>

fun with_ping :: "ext \<Rightarrow> duration \<Rightarrow> bytes list \<Rightarrow> bytes list" where
  "with_ping E t [] = []"
| "with_ping E t (p # ps) = (p @ host_time_payload E t) # ps"

definition announce :: "ext \<Rightarrow> int \<Rightarrow> engine_state \<Rightarrow> engine_state \<times> datagrams" where
  "announce E now_us st =
     (let as = announcements st;
          cur = concat (map pa_channels as);
          byes = map ca_id (filter (\<lambda>p. ca_id p \<notin> ca_id ` set cur) (es_announced st));
          eps = map pr_endpoint (es_peers st);
          payloads = with_ping E (of_microseconds E now_us) (map announcement_payload as)
      in (st\<lparr>es_announced := cur\<rparr>,
          channel_byes (es_node st) eps byes
          @ concat (map (\<lambda>ep. concat (map (\<lambda>p. datagram (es_node st) AUDIO_TTL PEER_ANNOUNCEMENT p ep) payloads)) eps)))"

section \<open>Received messages\<close>

text \<open>Entries are walked as by \<open>parse_entries\<close>, but what was read before an error is kept.\<close>

function walk_entries :: "(u32 \<Rightarrow> bytes \<Rightarrow> 's \<Rightarrow> 's option) \<Rightarrow> bytes \<Rightarrow> 's \<Rightarrow> 's" where
  "walk_entries visit data s =
     (if length data < 8 then s
      else case read_u32 data of
        Inl e \<Rightarrow> s
      | Inr (k, data1) \<Rightarrow>
          (case read_u32 data1 of
             Inl e \<Rightarrow> s
           | Inr (n, data2) \<Rightarrow>
               (case take_bytes (unat n) data2 of
                  Inl e \<Rightarrow> s
                | Inr (body, rest) \<Rightarrow>
                    (case visit k body s of None \<Rightarrow> s | Some s \<Rightarrow> walk_entries visit rest s))))"
  by pat_completeness auto
termination
  by (relation "measure (\<lambda>(_, data, _). length data)")
    (auto simp: read_u32_def take_bytes_def result_simps split: if_splits prod.splits)

declare walk_entries.simps [simp del]

definition host_time_visit :: "ext \<Rightarrow> u32 \<Rightarrow> bytes \<Rightarrow> duration option \<Rightarrow> duration option option" where
  "host_time_visit E k body t =
     (if k = key_of ''__ht''
      then case decode_host_time E body of Inl _ \<Rightarrow> None | Inr (h, _) \<Rightarrow> Some (Some h)
      else Some t)"

definition byes_visit :: "u32 \<Rightarrow> bytes \<Rightarrow> node_id list \<Rightarrow> node_id list option" where
  "byes_visit k body ids =
     (if k = key_of ''aucb'' then case decode_byes body of Inl _ \<Rightarrow> None | Inr (i, _) \<Rightarrow> Some i else Some ids)"

definition receive_announcement ::
  "ext \<Rightarrow> node_id \<Rightarrow> bytes \<Rightarrow> endpoint \<Rightarrow> u8 \<Rightarrow> instant \<Rightarrow> engine_state \<Rightarrow> bool \<times> engine_state" where
  "receive_announcement E peer payload sender t now st =
     (case find (\<lambda>p. pr_endpoint p = sender) (es_peers st) of
        None \<Rightarrow> (False, st)
      | Some p \<Rightarrow>
          (case announcement_from_payload peer payload of
             Inl _ \<Rightarrow> (False, st)
           | Inr a \<Rightarrow>
               (case saw_announcement peer (pa_name a) (pa_session a) (pa_channels a) (es_gateway st) sender
                       (filter_quality E (pr_metrics p)) t now (es_channels st) of
                  (changed, C) \<Rightarrow> (changed, st\<lparr>es_channels := C\<rparr>))))"

definition receive_ping :: "ext \<Rightarrow> bytes \<Rightarrow> endpoint \<Rightarrow> engine_state \<Rightarrow> datagrams" where
  "receive_ping E payload sender st =
     (case walk_entries (host_time_visit E) payload None of
        None \<Rightarrow> []
      | Some t \<Rightarrow> datagram (es_node st) AUDIO_TTL AUDIO_PONG (host_time_payload E t) sender)"

fun update_first :: "('a \<Rightarrow> bool) \<Rightarrow> ('a \<Rightarrow> 'a) \<Rightarrow> 'a list \<Rightarrow> 'a list" where
  "update_first P f [] = []"
| "update_first P f (x # xs) = (if P x then f x # xs else x # update_first P f xs)"

definition receive_pong :: "ext \<Rightarrow> bytes \<Rightarrow> endpoint \<Rightarrow> int \<Rightarrow> engine_state \<Rightarrow> engine_state" where
  "receive_pong E payload sender now_us st =
     (case walk_entries (host_time_visit E) payload None of
        None \<Rightarrow> st
      | Some send_time \<Rightarrow>
          st\<lparr>es_peers := update_first (\<lambda>p. pr_endpoint p = sender)
            (\<lambda>p. p\<lparr>pr_metrics := push_time (dur_add E (of_microseconds E now_us) (dur_neg E send_time)) (pr_metrics p)\<rparr>)
            (es_peers st)\<rparr>)"

definition receive_channel_byes :: "bytes \<Rightarrow> engine_state \<Rightarrow> bool \<times> engine_state" where
  "receive_channel_byes payload st =
     (let byes = walk_entries byes_visit payload []
      in if byes = [] then (False, st)
         else case channels_left (es_gateway st) byes (es_channels st) of
                (changed, C) \<Rightarrow> (changed, st\<lparr>es_channels := C\<rparr>))"

definition update_receivers :: "node_id \<Rightarrow> (receivers \<Rightarrow> receivers) \<Rightarrow> engine_state \<Rightarrow> engine_state" where
  "update_receivers i f st =
     st\<lparr>es_sinks := update_first (\<lambda>e. sk_id (se_sink e) = i)
       (\<lambda>e. let rs = f (se_receivers e)
            in e\<lparr>se_receivers := rs, se_sink := (se_sink e)\<lparr>sk_connected := rs \<noteq> []\<rparr>\<rparr>)
       (es_sinks st)\<rparr>"

definition receive_request :: "node_id \<Rightarrow> bytes \<Rightarrow> u8 \<Rightarrow> endpoint \<Rightarrow> instant \<Rightarrow> engine_state \<Rightarrow> engine_state" where
  "receive_request peer payload t sender now st =
     (case request_from_payload peer payload of
        Inl _ \<Rightarrow> st
      | Inr r \<Rightarrow> update_receivers (cr_channel r) (receive_channel_request r t (Some sender) now) st)"

definition receive_stop_request :: "node_id \<Rightarrow> bytes \<Rightarrow> engine_state \<Rightarrow> engine_state" where
  "receive_stop_request peer payload st =
     (case request_from_payload peer payload of
        Inl _ \<Rightarrow> st
      | Inr r \<Rightarrow> update_receivers (cr_channel r) (receive_channel_stop_request r) st)"

text \<open>The callbacks of a source are dropped once the engine is shut down.\<close>

definition receive_audio_buffer :: "ext \<Rightarrow> bool \<Rightarrow> bytes \<Rightarrow> engine_state \<Rightarrow> callback_log" where
  "receive_audio_buffer E down payload st =
     (case decode_raw E payload of
        Inl _ \<Rightarrow> []
      | Inr b \<Rightarrow>
          (case find (\<lambda>i. i = ab_channel b) (es_sources st) of
             None \<Rightarrow> []
           | Some i \<Rightarrow> if down then [] else map (\<lambda>(xs, info). (i, xs, info)) (pcm_decode b)))"

definition handle_message ::
  "ext \<Rightarrow> bool \<Rightarrow> instant \<Rightarrow> int \<Rightarrow> bytes \<Rightarrow> endpoint \<Rightarrow> engine_state \<Rightarrow> bool \<times> engine_state \<times> datagrams \<times> callback_log" where
  "handle_message E down now now_us data sender st =
     (case parse_audio_header data of
        Inl _ \<Rightarrow> (False, st, [], [])
      | Inr (h, payload_offset) \<Rightarrow>
          let payload = drop payload_offset data
          in if a_ident h = es_node st then (False, st, [], [])
             else if a_type h = PEER_ANNOUNCEMENT
               then case receive_announcement E (a_ident h) payload sender (a_ttl h) now st of
                      (changed, st') \<Rightarrow> (changed, st', receive_ping E payload sender st', [])
             else if a_type h = CHANNEL_BYES
               then case receive_channel_byes payload st of (changed, st') \<Rightarrow> (changed, st', [], [])
             else if a_type h = AUDIO_PONG then (False, receive_pong E payload sender now_us st, [], [])
             else if a_type h = CHANNEL_REQUEST
               then (False, receive_request (a_ident h) payload (a_ttl h) sender now st, [], [])
             else if a_type h = STOP_CHANNEL_REQUEST then (False, receive_stop_request (a_ident h) payload st, [], [])
             else if a_type h = AUDIO_BUFFER then (False, st, [], receive_audio_buffer E down payload st)
             else (False, st, [], []))"

section \<open>The process and request tasks\<close>

definition process_entry :: "ext \<Rightarrow> node_id \<Rightarrow> instant \<Rightarrow> sink_entry \<Rightarrow> bool \<times> sink_entry \<times> datagrams" where
  "process_entry E node now e =
     (let (named, sk) = sink_name_changed (se_sink e);
          rs = prune_receivers now (se_receivers e);
          sk = sk\<lparr>sk_connected := rs \<noteq> []\<rparr>;
          (q, r) = drain_sink (sk_max_num_samples sk) (sk_queue sk) (se_encoder e);
          eps = endpoints rs;
          send = (\<lambda>b. if eps = [] then []
                      else case audio_buffer_message node (encode_audio_buffer E b) of
                             Inl _ \<Rightarrow> [] | Inr m \<Rightarrow> map (\<lambda>ep. (m, ep)) eps)
      in (named, \<lparr>se_sink = sk\<lparr>sk_queue := q\<rparr>, se_receivers = rs, se_encoder = r\<lparr>successor := []\<rparr>\<rparr>,
          concat (map send (sent_buffers (sk_id sk) r))))"

definition process_sinks :: "ext \<Rightarrow> instant \<Rightarrow> engine_state \<Rightarrow> bool \<times> engine_state \<times> datagrams" where
  "process_sinks E now st =
     (let rs = map (process_entry E (es_node st) now) (es_sinks st);
          (expired, C) = prune_expired_channels now (es_channels st)
      in ((\<exists>r\<in>set rs. fst r) \<or> expired,
          st\<lparr>es_sinks := map (\<lambda>(_, e, _). e) rs, es_channels := C\<rparr>,
          concat (map (\<lambda>(_, _, ms). ms) rs)))"

definition channel_requests :: "engine_state \<Rightarrow> datagrams" where
  "channel_requests st =
     concat (map (\<lambda>i. case channel_endpoint i (es_channels st) of
                        None \<Rightarrow> []
                      | Some ep \<Rightarrow> datagram (es_node st) AUDIO_TTL CHANNEL_REQUEST
                          (request_payload \<lparr>cr_peer = es_node st, cr_channel = i\<rparr>) ep)
       (es_sources st))"

section \<open>Peers of the session\<close>

definition saw_endpoint :: "node_id \<Rightarrow> endpoint option \<Rightarrow> engine_state \<Rightarrow> engine_state" where
  "saw_endpoint p ep st =
     (case ep of
        Some e \<Rightarrow>
          if \<exists>x\<in>set (es_peers st). pr_endpoint x = e then st
          else st\<lparr>es_peers := es_peers st @ [\<lparr>pr_peer = p, pr_endpoint = e, pr_metrics = new_filter\<rparr>]\<rparr>
      | None \<Rightarrow> st\<lparr>es_peers := filter (\<lambda>x. pr_peer x \<noteq> p) (es_peers st)\<rparr>)"

definition prune_peers :: "node_id list \<Rightarrow> engine_state \<Rightarrow> bool \<times> engine_state" where
  "prune_peers ps st =
     (let sinks = map (\<lambda>e. let rs = retain_peers ps (se_receivers e)
                           in e\<lparr>se_receivers := rs, se_sink := (se_sink e)\<lparr>sk_connected := rs \<noteq> []\<rparr>\<rparr>) (es_sinks st);
          (changed, C) = prune_peer_channels ps (es_channels st)
      in (changed, st\<lparr>es_peers := filter (\<lambda>p. pr_peer p \<in> set ps) (es_peers st), es_sinks := sinks, es_channels := C\<rparr>))"

definition discard_sink_buffers :: "engine_state \<Rightarrow> engine_state" where
  "discard_sink_buffers st =
     st\<lparr>es_sinks := map (\<lambda>e. e\<lparr>se_sink := (se_sink e)\<lparr>sk_queue := discard_pending (sk_queue (se_sink e))\<rparr>,
                            se_encoder := new_resizer CODEC_MAX_AUDIO_BYTES\<rparr>) (es_sinks st)\<rparr>"

section \<open>The engine\<close>

text \<open>
  \<open>in_flight\<close> has the epochs of the task iterations that have passed the gate, \<open>pending\<close> the datagrams
  they have prepared and not yet sent, \<open>unpublished\<close> counts the changes of the channels that are still to be
  published, with the lock taken again. A call that removes a sink or a source gives up the lock before it says so
  (\<open>farewells\<close>) and sends the datagrams one by one without a gate (\<open>ungated\<close>). \<open>begin_pc\<close> tells how far \<open>begin_peer_sync\<close> has come while it
  holds the lock of the state, the one critical section that is not a single step: the teardown and a pause write their flags without the
  lock, and so between any two of its writes.
\<close>

datatype begin_pc = Unlocked | Checked | Bumped nat | Discarded nat | Armed nat

datatype farewell = Byes "node_id list" | Stop node_id endpoint

record engine =
  est :: engine_state
  api_channels :: "channel list"
  notifications :: nat
  unpublished :: nat
  sync_epoch :: nat
  sharing_active :: bool
  shut_down :: bool
  send_epoch :: "nat option"
  begin_pc :: begin_pc
  in_flight :: "nat list"
  pending :: "(nat \<times> bytes \<times> endpoint) list"
  farewells :: "farewell list"
  ungated :: datagrams
  wire :: "(nat option \<times> bytes \<times> endpoint) list"
  delivered :: callback_log

definition new_engine :: "u32 \<Rightarrow> node_id \<Rightarrow> session_id \<Rightarrow> bytes \<Rightarrow> engine" where
  "new_engine addr node sid name =
     \<lparr>est = new_engine_state addr node sid name, api_channels = [], notifications = 0, unpublished = 0, sync_epoch = 1,
      sharing_active = True, shut_down = False, send_epoch = Some 1, begin_pc = Unlocked, in_flight = [], pending = [],
      farewells = [], ungated = [], wire = [], delivered = []\<rparr>"

abbreviation locked :: "engine \<Rightarrow> bool" where
  "locked G \<equiv> begin_pc G \<noteq> Unlocked"

definition publish :: "engine \<Rightarrow> engine" where
  "publish G =
     (let sid = es_session (est G);
          cs = all_channels (es_channels (est G));
          ordered = filter (\<lambda>c. c_session c = sid) cs @ filter (\<lambda>c. c_session c \<noteq> sid) cs
      in if api_channels G = ordered then G
         else G\<lparr>api_channels := ordered, notifications := notifications G + 1\<rparr>)"

definition publish_if :: "bool \<Rightarrow> engine \<Rightarrow> engine" where
  "publish_if changed G = (if changed then G\<lparr>unpublished := unpublished G + 1\<rparr> else G)"

definition send_now :: "datagrams \<Rightarrow> engine \<Rightarrow> engine" where
  "send_now ms G = G\<lparr>ungated := ungated G @ ms\<rparr>"

definition send_to_with :: "bytes \<times> endpoint \<Rightarrow> engine \<Rightarrow> engine" where
  "send_to_with x G = (case x of (m, ep) \<Rightarrow> G\<lparr>wire := wire G @ [(None, m, ep)]\<rparr>)"

definition send_later :: "nat \<Rightarrow> datagrams \<Rightarrow> engine \<Rightarrow> engine" where
  "send_later e ms G = G\<lparr>pending := pending G @ map (\<lambda>(m, ep). (e, m, ep)) ms\<rparr>"

definition send_to_at :: "nat \<times> bytes \<times> endpoint \<Rightarrow> engine \<Rightarrow> engine" where
  "send_to_at x G =
     (case x of (e, m, ep) \<Rightarrow> if send_epoch G \<noteq> Some e then G else G\<lparr>wire := wire G @ [(Some e, m, ep)]\<rparr>)"

definition enter_active_gate :: "engine \<Rightarrow> bool" where
  "enter_active_gate G \<longleftrightarrow> \<not> shut_down G \<and> sharing_active G"

definition epoch_is_current :: "nat \<Rightarrow> engine \<Rightarrow> bool" where
  "epoch_is_current e G \<longleftrightarrow> sharing_active G \<and> \<not> shut_down G \<and> sync_epoch G = e"

definition live_epoch :: "engine \<Rightarrow> nat" where
  "live_epoch G = (if shut_down G \<or> \<not> sharing_active G then 0 else sync_epoch G)"

subsection \<open>Iterations of the tasks\<close>

definition receive_iteration :: "ext \<Rightarrow> nat \<Rightarrow> instant \<Rightarrow> int \<Rightarrow> bytes \<Rightarrow> endpoint \<Rightarrow> engine \<Rightarrow> engine" where
  "receive_iteration E e now now_us data sender G =
     (if send_epoch G \<noteq> Some e then G
      else case handle_message E (shut_down G) now now_us data sender (est G) of
             (changed, st, ms, calls) \<Rightarrow>
               publish_if changed (send_later e ms (G\<lparr>est := st, delivered := delivered G @ calls\<rparr>)))"

definition announce_iteration :: "ext \<Rightarrow> nat \<Rightarrow> int \<Rightarrow> engine \<Rightarrow> engine" where
  "announce_iteration E e now_us G =
     (if send_epoch G \<noteq> Some e then G
      else case announce E now_us (est G) of (st, ms) \<Rightarrow> send_later e ms (G\<lparr>est := st\<rparr>))"

definition process_iteration :: "ext \<Rightarrow> nat \<Rightarrow> instant \<Rightarrow> engine \<Rightarrow> engine" where
  "process_iteration E e now G =
     (if send_epoch G \<noteq> Some e then G
      else case process_sinks E now (est G) of
             (changed, st, ms) \<Rightarrow> publish_if changed (send_later e ms (G\<lparr>est := st\<rparr>)))"

definition request_iteration :: "nat \<Rightarrow> engine \<Rightarrow> engine" where
  "request_iteration e G = (if send_epoch G \<noteq> Some e then G else send_later e (channel_requests (est G)) G)"

subsection \<open>Calls of the application and of the peer synchronisation\<close>

definition set_peer_name :: "bytes \<Rightarrow> engine \<Rightarrow> engine" where
  "set_peer_name name G = G\<lparr>est := (est G)\<lparr>es_name := truncate_name name\<rparr>\<rparr>"

definition set_identity_at :: "nat \<Rightarrow> node_id \<Rightarrow> session_id \<Rightarrow> engine \<Rightarrow> engine" where
  "set_identity_at e node sid G =
     (if \<not> epoch_is_current e G then G else G\<lparr>est := (est G)\<lparr>es_node := node, es_session := sid\<rparr>\<rparr>)"

definition saw_link_audio_endpoint_at :: "nat \<Rightarrow> node_id \<Rightarrow> endpoint option \<Rightarrow> engine \<Rightarrow> engine" where
  "saw_link_audio_endpoint_at e p ep G =
     (if \<not> epoch_is_current e G then G else G\<lparr>est := saw_endpoint p ep (est G)\<rparr>)"

definition update_session_peers_at :: "nat \<Rightarrow> node_id list \<Rightarrow> engine \<Rightarrow> engine" where
  "update_session_peers_at e ps G =
     (if \<not> epoch_is_current e G then G
      else case prune_peers ps (est G) of (changed, st) \<Rightarrow> publish_if changed (G\<lparr>est := st\<rparr>))"

definition add_sink :: "bytes \<Rightarrow> nat \<Rightarrow> node_id \<Rightarrow> engine \<Rightarrow> engine" where
  "add_sink name n i G =
     G\<lparr>est := (est G)\<lparr>es_sinks := es_sinks (est G)
       @ [\<lparr>se_sink = new_sink name n i, se_receivers = [], se_encoder = new_resizer CODEC_MAX_AUDIO_BYTES\<rparr>]\<rparr>\<rparr>"

definition send_channel_byes :: "node_id list \<Rightarrow> engine \<Rightarrow> engine" where
  "send_channel_byes ids G = send_now (channel_byes (es_node (est G)) (map pr_endpoint (es_peers (est G))) ids) G"

definition remove_sink :: "node_id \<Rightarrow> engine \<Rightarrow> engine" where
  "remove_sink i G =
     (let sinks = filter (\<lambda>e. sk_id (se_sink e) \<noteq> i) (es_sinks (est G));
          G' = G\<lparr>est := (est G)\<lparr>es_sinks := sinks\<rparr>\<rparr>
      in if length sinks \<noteq> length (es_sinks (est G)) then G'\<lparr>farewells := farewells G @ [Byes [i]]\<rparr> else G')"

definition send_channel_requests :: "engine \<Rightarrow> engine" where
  "send_channel_requests G =
     (if \<not> enter_active_gate G then G
      else case send_epoch G of None \<Rightarrow> G | Some e \<Rightarrow> send_later e (channel_requests (est G)) G)"

definition add_source :: "node_id \<Rightarrow> engine \<Rightarrow> engine" where
  "add_source i G = send_channel_requests (G\<lparr>est := (est G)\<lparr>es_sources := es_sources (est G) @ [i]\<rparr>\<rparr>)"

definition remove_source :: "node_id \<Rightarrow> engine \<Rightarrow> engine" where
  "remove_source i G =
     (let st = est G;
          sources = filter (\<lambda>j. j \<noteq> i) (es_sources st);
          G' = G\<lparr>est := st\<lparr>es_sources := sources\<rparr>\<rparr>
      in case channel_endpoint i (es_channels st) of
           Some ep \<Rightarrow>
             if length sources \<noteq> length (es_sources st) then G'\<lparr>farewells := farewells G @ [Stop i ep]\<rparr> else G'
         | None \<Rightarrow> G')"

definition say_farewell :: "farewell \<Rightarrow> engine \<Rightarrow> engine" where
  "say_farewell f G =
     (case f of
        Byes ids \<Rightarrow> send_channel_byes ids G
      | Stop i ep \<Rightarrow> send_now (datagram (es_node (est G)) 0 STOP_CHANNEL_REQUEST
          (request_payload \<lparr>cr_peer = es_node (est G), cr_channel = i\<rparr>) ep) G)"

subsection \<open>Starting, pausing and shutting down\<close>

definition begin_check :: "engine \<Rightarrow> engine" where
  "begin_check G = (if shut_down G then G else G\<lparr>begin_pc := Checked\<rparr>)"

text \<open>The writes of \<open>begin_peer_sync\<close> under the lock, one by one; the last one is followed by the release of the lock.\<close>

definition begin_next :: "engine \<Rightarrow> engine" where
  "begin_next G =
     (case begin_pc G of
        Unlocked \<Rightarrow> G
      | Checked \<Rightarrow> G\<lparr>sync_epoch := sync_epoch G + 1, begin_pc := Bumped (sync_epoch G + 1)\<rparr>
      | Bumped e \<Rightarrow> G\<lparr>est := discard_sink_buffers (est G), begin_pc := Discarded e\<rparr>
      | Discarded e \<Rightarrow> G\<lparr>send_epoch := Some e, begin_pc := Armed e\<rparr>
      | Armed e \<Rightarrow> G\<lparr>sharing_active := True, begin_pc := Unlocked\<rparr>)"

definition begin_commit :: "engine \<Rightarrow> engine" where
  "begin_commit G = begin_next (begin_next (begin_next (begin_next G)))"

text \<open>The flags, each an atomic write of its own.\<close>

definition sharing_off :: "engine \<Rightarrow> engine" where
  "sharing_off G = G\<lparr>sharing_active := False\<rparr>"

definition send_off :: "engine \<Rightarrow> engine" where
  "send_off G = G\<lparr>send_epoch := None\<rparr>"

definition epoch_bump :: "engine \<Rightarrow> engine" where
  "epoch_bump G = G\<lparr>sync_epoch := sync_epoch G + 1\<rparr>"

definition pause_flags :: "engine \<Rightarrow> engine" where
  "pause_flags G = send_off (sharing_off G)"

definition pause_commit :: "engine \<Rightarrow> engine" where
  "pause_commit G =
     (case prune_peers [] (discard_sink_buffers (est G)) of
        (changed, st) \<Rightarrow>
          publish_if changed
            (G\<lparr>sharing_active := False, send_epoch := None, sync_epoch := sync_epoch G + 1, est := st\<rparr>))"

definition end_peer_sync :: "engine \<Rightarrow> engine" where
  "end_peer_sync G = pause_commit (pause_flags G)"

text \<open>The teardown. The state is left as it is when its lock is not free in time.\<close>

definition shutdown_swap :: "engine \<Rightarrow> engine" where
  "shutdown_swap G = G\<lparr>shut_down := True\<rparr>"

definition shutdown_flags :: "engine \<Rightarrow> engine" where
  "shutdown_flags G = (if shut_down G then G else epoch_bump (send_off (sharing_off (shutdown_swap G))))"

definition shutdown_byes :: "bool \<Rightarrow> engine \<Rightarrow> engine" where
  "shutdown_byes free G =
     (let ids = (if free then map (\<lambda>e. sk_id (se_sink e)) (es_sinks (est G)) else [])
      in if ids = [] then G else G\<lparr>farewells := farewells G @ [Byes ids]\<rparr>)"

definition try_end_peer_sync :: "bool \<Rightarrow> engine \<Rightarrow> engine" where
  "try_end_peer_sync free G =
     (let G = G\<lparr>sync_epoch := sync_epoch G + 1\<rparr>
      in if free then case prune_peers [] (est G) of (changed, st) \<Rightarrow> publish_if changed (G\<lparr>est := st\<rparr>) else G)"

subsection \<open>Interleaving\<close>

text \<open>What the application does to a sink outside the lock of the engine.\<close>

inductive sink_call :: "sink \<Rightarrow> sink \<Rightarrow> bool" where
  call_name: "sink_call sk (sink_set_name name sk)"
| call_size: "sink_call sk (request_max_num_samples n sk)"
| call_retain: "sink_call sk (snd (retain_buffer sk))"
| call_write: "sink_call sk (handle_write xs sk)"
| call_commit: "sink_call sk (snd (handle_commit E line sid beats_at_begin quantum frames channels rate sk))"
| call_drop: "sink_call sk (handle_drop sk)"

text \<open>
  The flag tells whether a new run of synchronisation is started. The writes of \<open>pause_flags\<close> and \<open>shutdown_flags\<close> are steps of their own, by any thread
  at any time; so is every intermediate state of a pause under the lock.
\<close>

inductive engine_step :: "bool \<Rightarrow> engine \<Rightarrow> engine \<Rightarrow> bool" where
  es_enter: "enter_active_gate G \<Longrightarrow> send_epoch G = Some e \<Longrightarrow>
    engine_step False G (G\<lparr>in_flight := in_flight G @ [e]\<rparr>)"
| es_receive: "e \<in> set (in_flight G) \<Longrightarrow> \<not> locked G \<Longrightarrow> engine_step False G (receive_iteration E e now now_us data sender G)"
| es_announce: "e \<in> set (in_flight G) \<Longrightarrow> \<not> locked G \<Longrightarrow> engine_step False G (announce_iteration E e now_us G)"
| es_process: "e \<in> set (in_flight G) \<Longrightarrow> \<not> locked G \<Longrightarrow> engine_step False G (process_iteration E e now G)"
| es_request: "e \<in> set (in_flight G) \<Longrightarrow> \<not> locked G \<Longrightarrow> engine_step False G (request_iteration e G)"
| es_send: "x \<in> set (pending G) \<Longrightarrow> engine_step False G (send_to_at x (G\<lparr>pending := remove1 x (pending G)\<rparr>))"
| es_farewell: "f \<in> set (farewells G) \<Longrightarrow> \<not> locked G \<Longrightarrow>
    engine_step False G (say_farewell f (G\<lparr>farewells := remove1 f (farewells G)\<rparr>))"
| es_ungated: "x \<in> set (ungated G) \<Longrightarrow> engine_step False G (send_to_with x (G\<lparr>ungated := remove1 x (ungated G)\<rparr>))"
| es_publish: "0 < unpublished G \<Longrightarrow> \<not> locked G \<Longrightarrow>
    engine_step False G (publish (G\<lparr>unpublished := unpublished G - 1\<rparr>))"
| es_rename: "\<not> locked G \<Longrightarrow> engine_step False G (set_peer_name name G)"
| es_identity: "\<not> locked G \<Longrightarrow> engine_step False G (set_identity_at e node sid G)"
| es_endpoint: "\<not> locked G \<Longrightarrow> engine_step False G (saw_link_audio_endpoint_at e p ep G)"
| es_session_peers: "\<not> locked G \<Longrightarrow> engine_step False G (update_session_peers_at e ps G)"
| es_add_sink: "\<not> locked G \<Longrightarrow> engine_step False G (add_sink name n i G)"
| es_remove_sink: "\<not> locked G \<Longrightarrow> engine_step False G (remove_sink i G)"
| es_add_source: "\<not> locked G \<Longrightarrow> engine_step False G (add_source i G)"
| es_remove_source: "\<not> locked G \<Longrightarrow> engine_step False G (remove_source i G)"
| es_sink: "i < length (es_sinks (est G)) \<Longrightarrow> sink_call (se_sink (es_sinks (est G) ! i)) sk \<Longrightarrow>
    engine_step False G
      (G\<lparr>est := (est G)\<lparr>es_sinks := (es_sinks (est G))[i := (es_sinks (est G) ! i)\<lparr>se_sink := sk\<rparr>]\<rparr>\<rparr>)"
| es_begin: "\<not> locked G \<Longrightarrow> engine_step True G (begin_check G)"
| es_begun: "locked G \<Longrightarrow> engine_step False G (begin_next G)"
| es_sharing_off: "engine_step False G (sharing_off G)"
| es_send_off: "engine_step False G (send_off G)"
| es_paused: "\<not> locked G \<Longrightarrow> engine_step False G (pause_commit G)"
| es_shutdown: "\<not> shut_down G \<Longrightarrow> engine_step False G (shutdown_swap G)"
| es_invalidate: "shut_down G \<Longrightarrow> engine_step False G (epoch_bump G)"
| es_byes: "shut_down G \<Longrightarrow> engine_step False G (shutdown_byes (\<not> locked G) G)"
| es_end: "shut_down G \<Longrightarrow> engine_step False G (try_end_peer_sync (free \<and> \<not> locked G) G)"

inductive engine_reachable :: "engine \<Rightarrow> bool" where
  eng_new: "engine_reachable (new_engine addr node sid name)"
| eng_step: "engine_reachable G \<Longrightarrow> engine_step b G G' \<Longrightarrow> engine_reachable G'"

section \<open>Epochs\<close>

lemma publish_simps [simp]:
  "est (publish G) = est G" "sync_epoch (publish G) = sync_epoch G" "sharing_active (publish G) = sharing_active G"
  "shut_down (publish G) = shut_down G" "send_epoch (publish G) = send_epoch G" "begin_pc (publish G) = begin_pc G"
  "in_flight (publish G) = in_flight G" "pending (publish G) = pending G" "wire (publish G) = wire G"
  "unpublished (publish G) = unpublished G" "delivered (publish G) = delivered G"
  "farewells (publish G) = farewells G" "ungated (publish G) = ungated G"
  by (simp_all add: publish_def Let_def)

lemma publish_if_simps [simp]:
  "est (publish_if c G) = est G" "sync_epoch (publish_if c G) = sync_epoch G"
  "sharing_active (publish_if c G) = sharing_active G" "shut_down (publish_if c G) = shut_down G"
  "send_epoch (publish_if c G) = send_epoch G" "begin_pc (publish_if c G) = begin_pc G"
  "in_flight (publish_if c G) = in_flight G" "pending (publish_if c G) = pending G" "wire (publish_if c G) = wire G"
  "api_channels (publish_if c G) = api_channels G"
  "unpublished (publish_if c G) = unpublished G + (if c then 1 else 0)" "delivered (publish_if c G) = delivered G"
  "farewells (publish_if c G) = farewells G" "ungated (publish_if c G) = ungated G"
  by (simp_all add: publish_if_def)

lemma send_simps [simp]:
  "est (send_later e ms G) = est G" "sync_epoch (send_later e ms G) = sync_epoch G"
  "sharing_active (send_later e ms G) = sharing_active G" "shut_down (send_later e ms G) = shut_down G"
  "send_epoch (send_later e ms G) = send_epoch G" "begin_pc (send_later e ms G) = begin_pc G"
  "in_flight (send_later e ms G) = in_flight G" "wire (send_later e ms G) = wire G"
  "api_channels (send_later e ms G) = api_channels G" "unpublished (send_later e ms G) = unpublished G"
  "est (send_now ms G) = est G" "sync_epoch (send_now ms G) = sync_epoch G"
  "sharing_active (send_now ms G) = sharing_active G" "shut_down (send_now ms G) = shut_down G"
  "send_epoch (send_now ms G) = send_epoch G" "begin_pc (send_now ms G) = begin_pc G"
  "in_flight (send_now ms G) = in_flight G" "pending (send_now ms G) = pending G"
  "api_channels (send_now ms G) = api_channels G" "unpublished (send_now ms G) = unpublished G"
  "farewells (send_later e ms G) = farewells G" "ungated (send_later e ms G) = ungated G"
  "farewells (send_now ms G) = farewells G" "ungated (send_now ms G) = ungated G @ ms" "wire (send_now ms G) = wire G"
  by (simp_all add: send_later_def send_now_def)

lemma send_channel_byes_simps [simp]:
  "est (send_channel_byes ids G) = est G" "sync_epoch (send_channel_byes ids G) = sync_epoch G"
  "sharing_active (send_channel_byes ids G) = sharing_active G" "shut_down (send_channel_byes ids G) = shut_down G"
  "send_epoch (send_channel_byes ids G) = send_epoch G" "begin_pc (send_channel_byes ids G) = begin_pc G"
  "in_flight (send_channel_byes ids G) = in_flight G" "pending (send_channel_byes ids G) = pending G"
  "api_channels (send_channel_byes ids G) = api_channels G" "unpublished (send_channel_byes ids G) = unpublished G"
  "farewells (send_channel_byes ids G) = farewells G" "wire (send_channel_byes ids G) = wire G"
  by (simp_all add: send_channel_byes_def)

lemma say_farewell_simps [simp]:
  "est (say_farewell f G) = est G" "sync_epoch (say_farewell f G) = sync_epoch G"
  "sharing_active (say_farewell f G) = sharing_active G" "shut_down (say_farewell f G) = shut_down G"
  "send_epoch (say_farewell f G) = send_epoch G" "begin_pc (say_farewell f G) = begin_pc G"
  "in_flight (say_farewell f G) = in_flight G" "pending (say_farewell f G) = pending G"
  "api_channels (say_farewell f G) = api_channels G" "unpublished (say_farewell f G) = unpublished G"
  "farewells (say_farewell f G) = farewells G" "wire (say_farewell f G) = wire G"
  by (simp_all add: say_farewell_def split: farewell.splits)

lemmas engine_defs =
  send_to_with_def receive_iteration_def announce_iteration_def process_iteration_def request_iteration_def send_to_at_def
  set_peer_name_def set_identity_at_def saw_link_audio_endpoint_at_def update_session_peers_at_def add_sink_def
  remove_sink_def send_channel_requests_def add_source_def remove_source_def begin_check_def
  begin_next_def sharing_off_def send_off_def epoch_bump_def shutdown_swap_def pause_commit_def shutdown_byes_def try_end_peer_sync_def

text \<open>The epoch of a run that has been numbered and does not send yet.\<close>

fun numbered :: "begin_pc \<Rightarrow> nat option" where
  "numbered (Bumped e) = Some e"
| "numbered (Discarded e) = Some e"
| "numbered _ = None"

text \<open>The epoch only grows, sending is switched to the run being started or off, and what goes out under an epoch goes out under the current one.\<close>

lemma engine_step_epochs:
  assumes "engine_step b G G'"
  shows "sync_epoch G \<le> sync_epoch G'" and "send_epoch G' \<in> {send_epoch G, None, numbered (begin_pc G)}"
    and "numbered (begin_pc G') \<in> {numbered (begin_pc G), None}
         \<or> numbered (begin_pc G') = Some (sync_epoch G + 1) \<and> sync_epoch G' = sync_epoch G + 1 \<and> send_epoch G' = send_epoch G"
    and "\<exists>new. wire G' = wire G @ new \<and> (\<forall>x\<in>set new. fst x = None \<or> fst x = send_epoch G)"
proof -
  show "sync_epoch G \<le> sync_epoch G'"
    using assms by cases (auto simp: engine_defs Let_def split: prod.splits option.splits if_splits begin_pc.splits)
  show "send_epoch G' \<in> {send_epoch G, None, numbered (begin_pc G)}"
    using assms by cases (auto simp: engine_defs Let_def split: prod.splits option.splits if_splits begin_pc.splits)
  show "numbered (begin_pc G') \<in> {numbered (begin_pc G), None}
      \<or> numbered (begin_pc G') = Some (sync_epoch G + 1) \<and> sync_epoch G' = sync_epoch G + 1 \<and> send_epoch G' = send_epoch G"
    using assms by cases (auto simp: engine_defs Let_def split: prod.splits option.splits if_splits begin_pc.splits)
  show "\<exists>new. wire G' = wire G @ new \<and> (\<forall>x\<in>set new. fst x = None \<or> fst x = send_epoch G)"
    using assms by cases (auto simp: engine_defs Let_def split: prod.splits option.splits if_splits begin_pc.splits)
qed

definition any_step :: "engine \<Rightarrow> engine \<Rightarrow> bool" where
  "any_step G G' \<longleftrightarrow> (\<exists>b. engine_step b G G')"

text \<open>Sending is off or belongs to a run after epoch \<open>n\<close>, and so does the run being started.\<close>

definition after_epoch :: "nat \<Rightarrow> engine \<Rightarrow> bool" where
  "after_epoch n G \<longleftrightarrow> n \<le> sync_epoch G \<and> (\<forall>e. send_epoch G = Some e \<longrightarrow> n < e) \<and> (\<forall>e. numbered (begin_pc G) = Some e \<longrightarrow> n < e)"

lemma after_epoch_step:
  assumes "any_step G G'" and "after_epoch n G"
  shows "after_epoch n G'"
    and "\<exists>new. wire G' = wire G @ new \<and> (\<forall>x\<in>set new. case fst x of None \<Rightarrow> True | Some e \<Rightarrow> n < e)"
proof -
  obtain b where st: "engine_step b G G'" using assms(1) by (auto simp: any_step_def)
  note e = engine_step_epochs [OF st]
  show "after_epoch n G'" using e(1-3) assms(2) by (auto simp: after_epoch_def)
  obtain new where "wire G' = wire G @ new" "\<forall>x\<in>set new. fst x = None \<or> fst x = send_epoch G" using e(4) by blast
  then show "\<exists>new. wire G' = wire G @ new \<and> (\<forall>x\<in>set new. case fst x of None \<Rightarrow> True | Some e \<Rightarrow> n < e)"
    using assms(2) by (intro exI [of _ new]) (auto simp: after_epoch_def split: option.splits)
qed

lemma after_epoch_steps:
  "any_step\<^sup>*\<^sup>* G G' \<Longrightarrow> after_epoch n G \<Longrightarrow>
     after_epoch n G' \<and> (\<exists>new. wire G' = wire G @ new \<and> (\<forall>x\<in>set new. case fst x of None \<Rightarrow> True | Some e \<Rightarrow> n < e))"
proof (induction rule: rtranclp_induct)
  case (step H H')
  then obtain new where "after_epoch n H" "wire H = wire G @ new"
    "\<forall>x\<in>set new. case fst x of None \<Rightarrow> True | Some e \<Rightarrow> n < e" by blast
  moreover from this obtain new' where "after_epoch n H'" "wire H' = wire H @ new'"
    "\<forall>x\<in>set new'. case fst x of None \<Rightarrow> True | Some e \<Rightarrow> n < e"
    using after_epoch_step [OF step.hyps(2)] by blast
  ultimately show ?case by (auto intro!: exI [of _ "new @ new'"])
qed simp

text \<open>
  The last epoch under which anything can have been prepared: the current one, or the one before that of a run that is
  being started and does not send yet.
\<close>

definition last_sending_epoch :: "engine \<Rightarrow> nat" where
  "last_sending_epoch G = (case numbered (begin_pc G) of Some e \<Rightarrow> e - 1 | None \<Rightarrow> sync_epoch G)"

definition epochs_ok :: "engine \<Rightarrow> bool" where
  "epochs_ok G \<longleftrightarrow>
     (\<forall>e. numbered (begin_pc G) = Some e \<longrightarrow> 0 < e \<and> e \<le> sync_epoch G)
   \<and> (\<forall>e\<in>set_option (send_epoch G) \<union> set (in_flight G) \<union> fst ` set (pending G). e \<le> last_sending_epoch G)"

lemma in_flight_step:
  "engine_step b G G' \<Longrightarrow> set (in_flight G') \<subseteq> set (in_flight G) \<union> set_option (send_epoch G)"
  by (erule engine_step.cases) (auto simp: engine_defs Let_def split: prod.splits option.splits if_splits begin_pc.splits)

lemma pending_step:
  "engine_step b G G' \<Longrightarrow> fst ` set (pending G') \<subseteq> fst ` set (pending G) \<union> set_option (send_epoch G)"
  by (erule engine_step.cases)
    (auto simp: engine_defs send_later_def send_now_def Let_def dest: set_remove1_subset [THEN subsetD]
      split: prod.splits option.splits if_splits begin_pc.splits)

text \<open>The bound moves up when a run starts to send, and stays when it is numbered.\<close>

lemma last_sending_step:
  assumes "engine_step b G G'" and "epochs_ok G"
  shows "last_sending_epoch G \<le> last_sending_epoch G'" and "send_epoch G' \<in> {send_epoch G, None} \<or> numbered (begin_pc G') = None"
    and "\<forall>e. numbered (begin_pc G') = Some e \<longrightarrow> 0 < e \<and> e \<le> sync_epoch G'"
proof -
  note e = engine_step_epochs [OF assms(1)]
  have n: "\<forall>e. numbered (begin_pc G) = Some e \<longrightarrow> 0 < e \<and> e \<le> sync_epoch G" using assms(2) by (simp add: epochs_ok_def)
  show "last_sending_epoch G \<le> last_sending_epoch G'"
    using e(1,3) n by (auto simp: last_sending_epoch_def split: option.splits)
  show "send_epoch G' \<in> {send_epoch G, None} \<or> numbered (begin_pc G') = None"
    using assms(1) by cases (auto simp: engine_defs Let_def split: prod.splits option.splits if_splits begin_pc.splits)
  show "\<forall>e. numbered (begin_pc G') = Some e \<longrightarrow> 0 < e \<and> e \<le> sync_epoch G'"
    using e(1,3) n by auto
qed

lemma epochs_ok_step: "engine_step b G G' \<Longrightarrow> epochs_ok G \<Longrightarrow> epochs_ok G'"
proof -
  assume st: "engine_step b G G'" and ok: "epochs_ok G"
  note e = engine_step_epochs [OF st] and l = last_sending_step [OF st ok]
  have old: "x \<le> last_sending_epoch G" if "x \<in> set_option (send_epoch G) \<union> set (in_flight G) \<union> fst ` set (pending G)" for x
    using ok that by (simp add: epochs_ok_def)
  have "x \<le> last_sending_epoch G'" if "x \<in> set (in_flight G') \<union> fst ` set (pending G')" for x
  proof -
    have "x \<in> set_option (send_epoch G) \<union> set (in_flight G) \<union> fst ` set (pending G)"
      using that in_flight_step [OF st] pending_step [OF st] by blast
    then show ?thesis using old [of x] l(1) by linarith
  qed
  moreover have "x \<le> last_sending_epoch G'" if "send_epoch G' = Some x" for x
  proof (cases "send_epoch G' = send_epoch G")
    case True
    then show ?thesis using that old [of x] l(1) by simp
  next
    case False
    then have "numbered (begin_pc G) = Some x" "numbered (begin_pc G') = None" using that e(2) l(2) by auto
    then show ?thesis using ok e(1) by (auto simp: epochs_ok_def last_sending_epoch_def)
  qed
  ultimately show ?thesis using l(3) by (auto simp: epochs_ok_def)
qed

lemma engine_reachable_epochs: "engine_reachable G \<Longrightarrow> epochs_ok G"
  by (induction rule: engine_reachable.induct) (auto simp: epochs_ok_step, simp add: epochs_ok_def new_engine_def last_sending_epoch_def)

section \<open>A paused engine\<close>

text \<open>No call is about to tell a peer that it has ended.\<close>

definition nothing_to_send :: "engine \<Rightarrow> bool" where
  "nothing_to_send G \<longleftrightarrow> ungated G = [] \<and> (\<forall>i ep. Stop i ep \<notin> set (farewells G))"

definition paused :: "engine \<Rightarrow> bool" where
  "paused G \<longleftrightarrow>
     \<not> sharing_active G \<and> send_epoch G = None \<and> \<not> locked G \<and> es_peers (est G) = []
   \<and> (\<forall>e\<in>set (es_sinks (est G)). se_receivers e = [] \<and> \<not> sk_connected (se_sink e))
   \<and> infos (es_channels (est G)) = [] \<and> handlers (es_channels (est G)) = Map.empty \<and> nothing_to_send G"

lemma prune_peers_none:
  "prune_peers [] st = (infos (es_channels st) \<noteq> [], st\<lparr>es_peers := [],
     es_sinks := map (\<lambda>e. e\<lparr>se_receivers := [], se_sink := (se_sink e)\<lparr>sk_connected := False\<rparr>\<rparr>) (es_sinks st),
     es_channels := \<lparr>infos = [], handlers = Map.empty\<rparr>\<rparr>)"
  by (auto simp: prune_peers_def retain_peers_def prune_peer_channels_def Let_def)

lemma paused_pause_commit: "\<not> locked G \<Longrightarrow> nothing_to_send G \<Longrightarrow> paused (pause_commit G)"
  by (auto simp: paused_def pause_commit_def prune_peers_none nothing_to_send_def)

lemma nobody_to_greet:
  assumes "nothing_to_send G" and "es_peers (est G) = []" and "f \<in> set (farewells G)"
  shows "nothing_to_send (say_farewell f (G\<lparr>farewells := remove1 f (farewells G)\<rparr>))"
  using assms
  by (cases f) (auto simp: nothing_to_send_def say_farewell_def send_channel_byes_def channel_byes_def
      dest: set_remove1_subset [THEN subsetD])

lemma sink_call_connected: "sink_call sk sk' \<Longrightarrow> sk_connected sk' = sk_connected sk"
  by (induction rule: sink_call.induct)
    (auto simp: sink_set_name_def request_max_num_samples_def retain_buffer_def handle_write_def handle_commit_def
      handle_drop_def Let_def split: prod.splits bool.splits option.splits if_splits)

lemma paused_step: "engine_step b G G' \<Longrightarrow> \<not> b \<Longrightarrow> paused G \<Longrightarrow> paused G'"
proof (induction rule: engine_step.induct)
  case (es_sink i G sk)
  then show ?case using sink_call_connected [OF es_sink.hyps(2)]
    by (auto simp: paused_def nothing_to_send_def dest!: set_update_subset_insert [THEN subsetD])
next
  case (es_farewell f G)
  then show ?case using nobody_to_greet [of G f] by (simp add: paused_def)
next
  case (es_paused G)
  then have "nothing_to_send G" by (simp add: paused_def)
  then show ?case using es_paused by (simp add: paused_pause_commit)
next
  case (es_remove_source G i)
  then have "channel_endpoint i (es_channels (est G)) = None" by (simp add: paused_def channel_endpoint_def)
  then show ?case using es_remove_source by (simp add: remove_source_def paused_def nothing_to_send_def Let_def)
qed (auto simp: paused_def nothing_to_send_def engine_defs epoch_is_current_def enter_active_gate_def prune_peers_none new_sink_def Let_def
    split: option.splits)

lemma paused_steps: "(engine_step False)\<^sup>*\<^sup>* G G' \<Longrightarrow> paused G \<Longrightarrow> paused G'"
  by (induction rule: rtranclp_induct) (auto intro: paused_step)

section \<open>The list of channels\<close>

text \<open>An operation under the lock keeps the registry in order and reports every change of the channels.\<close>

definition reports :: "bool \<Rightarrow> engine_state \<Rightarrow> engine_state \<Rightarrow> bool" where
  "reports changed st st' \<longleftrightarrow>
     (channels_ok (es_channels st) \<longrightarrow>
        channels_ok (es_channels st') \<and> (\<not> changed \<longrightarrow> all_channels (es_channels st') = all_channels (es_channels st)))"

lemma reports_same: "es_channels st' = es_channels st \<Longrightarrow> reports c st st'"
  by (simp add: reports_def)

lemma reports_op:
  assumes "registry_op f" and "f (es_channels st) = (c, C)" and "es_channels st' = C"
  shows "reports c st st'"
  using registry_op.keeps [OF assms(1), of "es_channels st"] registry_op.silent_channels [OF assms(1), of "es_channels st"]
    assms(2,3) by (auto simp: reports_def)

lemma handle_message_reports:
  "handle_message E down now now_us data sender st = (changed, st', ms, calls) \<Longrightarrow> reports changed st st'"
proof (cases "parse_audio_header data")
  case (Inr x)
  assume h: "handle_message E down now now_us data sender st = (changed, st', ms, calls)"
  obtain hd off where x: "x = (hd, off)" by fastforce
  have ann: "reports c st t" if "receive_announcement E i p sender l now st = (c, t)" for c t i p l
    using that
    by (auto simp: receive_announcement_def reports_same split: option.splits sum.splits prod.splits
        intro: reports_op [OF announcement_registry.registry_op_axioms])
  have bye: "reports c st t" if "receive_channel_byes p st = (c, t)" for c t p
    using that reports_op [OF bye_registry.registry_op_axioms, of _ _ st c _ t]
    by (auto simp: receive_channel_byes_def reports_same Let_def split: prod.splits if_splits)
  have same: "es_channels (receive_pong E p sender now_us st) = es_channels st"
    "es_channels (receive_request i p l sender now st) = es_channels st"
    "es_channels (receive_stop_request i p st) = es_channels st" for p i l
    by (simp_all add: receive_pong_def receive_request_def receive_stop_request_def update_receivers_def
        split: option.splits sum.splits)
  show ?thesis
    using h Inr x ann bye same
    by (auto simp: handle_message_def Let_def reports_same split: if_splits prod.splits)
qed (simp add: handle_message_def reports_same)

lemma process_sinks_reports: "process_sinks E now st = (changed, st', ms) \<Longrightarrow> reports changed st st'"
  using reports_op [OF expiry_registry.registry_op_axioms, of now st _ _ st']
  by (auto simp: process_sinks_def Let_def reports_def split: prod.splits)

lemma prune_peers_reports: "prune_peers ps st = (changed, st') \<Longrightarrow> reports changed st st'"
  using reports_op [OF peers_registry.registry_op_axioms, of ps st _ _ st']
  by (auto simp: prune_peers_def Let_def split: prod.splits)

lemma es_channels_simps [simp]:
  "es_channels (discard_sink_buffers st) = es_channels st" "es_channels (saw_endpoint p ep st) = es_channels st"
  by (auto simp: discard_sink_buffers_def saw_endpoint_def split: option.splits)

lemma announce_channels: "announce E t st = (st', ms) \<Longrightarrow> es_channels st' = es_channels st"
  by (auto simp: announce_def Let_def)

definition list_current :: "engine \<Rightarrow> bool" where
  "list_current G \<longleftrightarrow>
     channels_ok (es_channels (est G))
   \<and> (unpublished G = 0 \<longrightarrow> mset (api_channels G) = mset (all_channels (es_channels (est G))))"

lemma list_current_publish_if:
  assumes "reports c (est G) st" and "list_current G" and "est G' = st" and "api_channels G' = api_channels G"
    and "unpublished G' = unpublished G"
  shows "list_current (publish_if c G')"
  using assms by (auto simp: list_current_def reports_def)

lemma list_current_same:
  assumes "list_current G" and "es_channels (est G') = es_channels (est G)" and "api_channels G' = api_channels G"
    and "unpublished G' = unpublished G"
  shows "list_current G'"
  using assms by (simp add: list_current_def)

lemma list_current_publish: "channels_ok (es_channels (est G)) \<Longrightarrow> list_current (publish G)"
proof -
  have "mset (filter P cs @ filter (\<lambda>x. \<not> P x) cs) = mset cs" for P and cs :: "channel list"
    by (simp add: mset_filter)
  then show "channels_ok (es_channels (est G)) \<Longrightarrow> list_current (publish G)"
    by (auto simp: list_current_def publish_def Let_def)
qed

lemma list_current_step: "engine_step b G G' \<Longrightarrow> list_current G \<Longrightarrow> list_current G'"
proof (induction rule: engine_step.induct)
  case (es_receive e G E now now_us data sender)
  then show ?case
    by (auto simp: receive_iteration_def intro!: list_current_publish_if split: prod.splits intro: handle_message_reports)
next
  case (es_process e G E now)
  then show ?case using process_sinks_reports
    by (auto simp: process_iteration_def intro!: list_current_publish_if split: prod.splits)
next
  case (es_session_peers G e ps)
  then show ?case using prune_peers_reports
    by (auto simp: update_session_peers_at_def intro!: list_current_publish_if split: prod.splits)
next
  case (es_publish G)
  then show ?case by (intro list_current_publish) (simp add: list_current_def)
next
  case (es_paused G)
  have "reports c (est G) st" if "prune_peers [] (discard_sink_buffers (est G)) = (c, st)" for c st
    using prune_peers_reports [OF that] by (simp add: reports_def)
  then show ?case using es_paused
    by (auto simp: pause_commit_def intro!: list_current_publish_if split: prod.splits)
next
  case (es_begun G)
  then show ?case by (cases "begin_pc G") (simp_all add: begin_next_def list_current_def)
next
  case (es_end G free)
  have "reports c (est G) st" if "prune_peers [] (est G) = (c, st)" for c st
    using prune_peers_reports [OF that] .
  then show ?case using es_end
    by (auto simp: try_end_peer_sync_def Let_def list_current_same intro!: list_current_publish_if split: prod.splits)
qed (auto simp: engine_defs Let_def elim!: list_current_same intro: announce_channels split: prod.splits option.splits)

lemma list_current_new: "list_current (new_engine addr node sid name)"
  by (simp add: list_current_def new_engine_def new_engine_state_def channels_ok_new)
    (simp add: all_channels_def new_channels_def)

lemma list_current_reachable: "engine_reachable G \<Longrightarrow> list_current G"
  by (induction rule: engine_reachable.induct) (simp_all add: list_current_new list_current_step)

section \<open>Sizes of announcements and goodbyes\<close>

definition channels_bytes :: "channel_announcement list \<Rightarrow> nat" where
  "channels_bytes cs = sum_list (map (\<lambda>c. 12 + length (ca_name c)) cs)"

definition payload_bytes :: "peer_announcement \<Rightarrow> nat" where
  "payload_bytes a = 40 + length (pa_name a) + channels_bytes (pa_channels a)"

lemma channels_bytes_simps [simp]:
  "channels_bytes [] = 0" "channels_bytes (c # cs) = 12 + length (ca_name c) + channels_bytes cs"
  "channels_bytes (cs @ ds) = channels_bytes cs + channels_bytes ds"
  by (simp_all add: channels_bytes_def)

lemma announcements_size_bytes: "announcements_size cs = word_of_nat (4 + channels_bytes cs)"
proof -
  have "sum_list (map announcement_size cs) = word_of_nat (channels_bytes cs)"
    by (induction cs) (simp_all add: announcement_size_def size_of_string_def)
  then show ?thesis by (simp add: announcements_size_def)
qed

lemma payload_size_bytes: "announcement_payload_size a = word_of_nat (payload_bytes a)"
  by (simp add: announcement_payload_size_def announcements_size_bytes size_of_string_def payload_bytes_def)

lemma length_announcement_payload:
  assumes "is_id (pa_session a)" and "\<forall>c\<in>set (pa_channels a). is_id (ca_id c)"
  shows "length (announcement_payload a) = payload_bytes a"
proof -
  have "length (concat (map encode_announcement cs)) = channels_bytes cs" if "\<forall>c\<in>set cs. is_id (ca_id c)" for cs
    using that by (induction cs) (simp_all add: encode_announcement_def write_string_def)
  then show ?thesis
    using assms by (simp add: announcement_payload_def encode_audio_entry_def write_string_def encode_announcements_def
        payload_bytes_def)
qed

lemma length_truncate_name: "length (truncate_name s) \<le> MAX_NAME_SIZE"
  using char_boundary_before_greatest(2) [of s MAX_NAME_SIZE] by (simp add: truncate_name_def)

definition fits :: "peer_announcement \<Rightarrow> peer_announcement list \<Rightarrow> bool" where
  "fits base as \<longleftrightarrow>
     as \<noteq> [] \<and> payload_bytes (hd as) + 16 \<le> MAX_PAYLOAD_SIZE
   \<and> (\<forall>a\<in>set as. payload_bytes a \<le> MAX_PAYLOAD_SIZE \<and> a = base\<lparr>pa_channels := pa_channels a\<rparr>)"

lemma word_sum_exceeds:
  assumes "m + n < 2 ^ 32"
  shows "(word_of_nat m + word_of_nat n :: u32) > word_of_nat MAX_PAYLOAD_SIZE \<longleftrightarrow> MAX_PAYLOAD_SIZE < m + n"
proof -
  have "(word_of_nat m + word_of_nat n :: u32) = word_of_nat (m + n)" by simp
  then show ?thesis unfolding word_less_nat_alt using unat_small(1) [OF assms] by (simp del: of_nat_add)
qed

lemma push_channel_fits:
  assumes "as = xs @ [a]" and "fits base (xs @ [a])" and "payload_bytes a + 12 + length (ca_name c) \<le> MAX_PAYLOAD_SIZE"
    and "xs = [] \<Longrightarrow> payload_bytes a + 28 + length (ca_name c) \<le> MAX_PAYLOAD_SIZE"
  shows "fits base (push_channel c as)" and "concat (map pa_channels (push_channel c as)) = concat (map pa_channels as) @ [c]"
proof -
  have "payload_bytes (a\<lparr>pa_channels := pa_channels a @ [c]\<rparr>) = payload_bytes a + 12 + length (ca_name c)"
    by (simp add: payload_bytes_def)
  moreover have "a\<lparr>pa_channels := cs\<rparr> = base\<lparr>pa_channels := cs\<rparr>" for cs
  proof -
    have "a = base\<lparr>pa_channels := pa_channels a\<rparr>" using assms(2) by (simp add: fits_def)
    then show ?thesis by (metis peer_announcement.surjective peer_announcement.update_convs(4))
  qed
  ultimately show "fits base (push_channel c as)"
    using assms by (cases xs) (auto simp: push_channel_def fits_def)
  show "concat (map pa_channels (push_channel c as)) = concat (map pa_channels as) @ [c]"
    by (simp add: push_channel_def assms(1))
qed

lemma split_announcements_fit:
  assumes "pa_channels base = []" and "length (pa_name base) \<le> MAX_NAME_SIZE"
    and "\<forall>c\<in>set cs. length (ca_name c) \<le> MAX_NAME_SIZE" and "fits base as"
  shows "fits base (split_announcements base cs as)
       \<and> concat (map pa_channels (split_announcements base cs as)) = concat (map pa_channels as) @ cs"
  using assms(3,4)
proof (induction cs arbitrary: as)
  case (Cons c cs)
  obtain xs a where as: "as = xs @ [a]" using Cons.prems(2) by (metis fits_def rev_exhaust)
  have name: "length (ca_name c) \<le> MAX_NAME_SIZE" using Cons.prems(1) by simp
  have a: "payload_bytes a \<le> MAX_PAYLOAD_SIZE" using Cons.prems(2) by (simp add: as fits_def)
  let ?n = "12 + length (ca_name c) + (if xs = [] then 16 else 0)"
  have size: "(if length as = 1 then announcement_size c + (8 + 8) else announcement_size c) = word_of_nat ?n"
    by (simp add: as announcement_size_def size_of_string_def)
  have "payload_bytes a + ?n < 2 ^ 32" using a name by simp
  note cond = word_sum_exceeds [OF this]
  let ?as = "if MAX_PAYLOAD_SIZE < payload_bytes a + ?n then as @ [base] else as"
  have step: "split_announcements base (c # cs) as = split_announcements base cs (push_channel c ?as)"
    unfolding split_announcements.simps Let_def size using cond by (simp add: as payload_size_bytes)
  have base: "payload_bytes base \<le> 296" "base = base\<lparr>pa_channels := pa_channels base\<rparr>"
    using assms(1,2) by (simp_all add: payload_bytes_def)
  have "fits base (push_channel c ?as) \<and> concat (map pa_channels (push_channel c ?as)) = concat (map pa_channels as) @ [c]"
  proof (cases "MAX_PAYLOAD_SIZE < payload_bytes a + ?n")
    case True
    have "fits base (as @ [base])" using Cons.prems(2) base by (auto simp: fits_def)
    then show ?thesis
      using push_channel_fits [of "as @ [base]" as base base c] True base(1) name assms(1) as by simp
  next
    case False
    then show ?thesis using push_channel_fits [of as xs a base c] Cons.prems(2) as by (simp split: if_splits)
  qed
  then show ?case using Cons.IH [of "push_channel c ?as"] Cons.prems(1) unfolding step by simp
qed simp

lemma announcements_split:
  assumes "\<forall>e\<in>set (es_sinks st). length (sk_name (se_sink e)) \<le> MAX_NAME_SIZE"
  defines "base \<equiv> \<lparr>pa_node = es_node st, pa_session = es_session st, pa_name = truncate_name (es_name st), pa_channels = []\<rparr>"
  shows "fits base (announcements st)" and "concat (map pa_channels (announcements st)) = channel_announcements st"
proof -
  have name: "length (pa_name base) \<le> MAX_NAME_SIZE" "pa_channels base = []"
    using length_truncate_name [of "es_name st"] by (simp_all add: base_def)
  have "fits base [base]" using name by (simp add: fits_def payload_bytes_def)
  moreover have "\<forall>c\<in>set (channel_announcements st). length (ca_name c) \<le> MAX_NAME_SIZE"
    using assms(1) by (auto simp: channel_announcements_def)
  ultimately show "fits base (announcements st)" "concat (map pa_channels (announcements st)) = channel_announcements st"
    using split_announcements_fit [OF name(2,1)] name(2)
    by (auto simp: announcements_def Let_def base_def)
qed

text \<open>The names of sinks are truncated whenever they are set.\<close>

definition names_ok :: "engine \<Rightarrow> bool" where
  "names_ok G \<longleftrightarrow> (\<forall>e\<in>set (es_sinks (est G)). length (sk_name (se_sink e)) \<le> MAX_NAME_SIZE)"

lemma sink_call_name: "sink_call sk sk' \<Longrightarrow> length (sk_name sk) \<le> MAX_NAME_SIZE \<Longrightarrow> length (sk_name sk') \<le> MAX_NAME_SIZE"
  by (induction rule: sink_call.induct)
    (auto simp: sink_set_name_def request_max_num_samples_def retain_buffer_def handle_write_def handle_commit_def
      handle_drop_def Let_def length_truncate_name split: prod.splits bool.splits option.splits if_splits)

definition same_names :: "engine_state \<Rightarrow> engine_state \<Rightarrow> bool" where
  "same_names st st' \<longleftrightarrow> map (\<lambda>e. sk_name (se_sink e)) (es_sinks st') = map (\<lambda>e. sk_name (se_sink e)) (es_sinks st)"

lemma same_names_refl [simp]: "es_sinks st' = es_sinks st \<Longrightarrow> same_names st st'"
  by (simp add: same_names_def)

lemma map_update_first: "(\<And>x. h (f x) = h x) \<Longrightarrow> map h (update_first P f xs) = map h xs"
  by (induction xs) auto

lemma same_names_update_receivers [simp]: "same_names st (update_receivers i f st)"
  by (simp add: same_names_def update_receivers_def Let_def map_update_first)

lemma same_names_handle:
  "handle_message E down now now_us data sender st = (changed, st', ms, calls) \<Longrightarrow> same_names st st'"
proof -
  have "same_names st t" if "receive_announcement E i p sender l now st = (c, t)" for c t i p l
    using that by (auto simp: receive_announcement_def split: option.splits sum.splits prod.splits)
  moreover have "same_names st t" if "receive_channel_byes p st = (c, t)" for c t p
    using that by (auto simp: receive_channel_byes_def Let_def split: prod.splits if_splits)
  moreover have "same_names st (receive_pong E p sender now_us st)" "same_names st (receive_request i p l sender now st)"
    "same_names st (receive_stop_request i p st)" for p i l
    by (auto simp: receive_pong_def receive_request_def receive_stop_request_def split: option.splits sum.splits)
  ultimately show "handle_message E down now now_us data sender st = (changed, st', ms, calls) \<Longrightarrow> same_names st st'"
    by (auto simp: handle_message_def Let_def split: if_splits prod.splits sum.splits)
qed

lemma same_names_process: "process_sinks E now st = (changed, st', ms) \<Longrightarrow> same_names st st'"
  by (auto simp: process_sinks_def same_names_def process_entry_def sink_name_changed_def Let_def split: prod.splits)

lemma same_names_prune: "prune_peers ps st = (changed, st') \<Longrightarrow> same_names st st'"
  by (auto simp: prune_peers_def same_names_def Let_def split: prod.splits)

lemma same_names_ok: "same_names (est G) (est G') \<Longrightarrow> names_ok G \<Longrightarrow> names_ok G'"
proof -
  assume a: "same_names (est G) (est G')" "names_ok G"
  have "sk_name (se_sink e) \<in> (\<lambda>e. sk_name (se_sink e)) ` set (es_sinks (est G))" if "e \<in> set (es_sinks (est G'))" for e
    using a(1) that unfolding same_names_def by (metis (no_types, lifting) image_eqI image_set)
  then show ?thesis using a(2) by (fastforce simp: names_ok_def)
qed

lemma names_ok_step: "engine_step b G G' \<Longrightarrow> names_ok G \<Longrightarrow> names_ok G'"
proof (induction rule: engine_step.induct)
  case (es_sink i G sk)
  then show ?case using sink_call_name [OF es_sink.hyps(2)]
    by (auto simp: names_ok_def dest!: set_update_subset_insert [THEN subsetD])
next
  case (es_add_sink G name n i)
  then show ?case using length_truncate_name [of name] by (auto simp: names_ok_def add_sink_def new_sink_def)
next
  case (es_remove_sink G i)
  then show ?case by (auto simp: names_ok_def remove_sink_def send_channel_byes_def Let_def)
next
  case (es_paused G)
  have "same_names (est G) st" if "prune_peers [] (discard_sink_buffers (est G)) = (c, st)" for c st
    using same_names_prune [OF that] by (simp add: same_names_def discard_sink_buffers_def)
  then show ?case using es_paused by (auto simp: pause_commit_def intro: same_names_ok split: prod.splits)
next
  case (es_begun G)
  then show ?case by (cases "begin_pc G") (auto simp: begin_next_def names_ok_def discard_sink_buffers_def)
qed (erule same_names_ok [rotated]; auto simp: engine_defs Let_def announce_def saw_endpoint_def
    intro: same_names_handle same_names_process same_names_prune split: prod.splits option.splits)+

lemma names_ok_reachable: "engine_reachable G \<Longrightarrow> names_ok G"
  by (induction rule: engine_reachable.induct)
    (auto simp: names_ok_step, simp add: names_ok_def new_engine_def new_engine_state_def)

text \<open>A paused engine knows nobody to send to.\<close>

lemma paused_step_wire: "engine_step b G G' \<Longrightarrow> \<not> b \<Longrightarrow> paused G \<Longrightarrow> wire G' = wire G"
proof (induction rule: engine_step.induct)
  case (es_remove_source G i)
  then have "channel_endpoint i (es_channels (est G)) = None" by (simp add: paused_def channel_endpoint_def)
  then show ?case by (simp add: remove_source_def Let_def)
qed (auto simp: paused_def nothing_to_send_def engine_defs Let_def split: prod.splits option.splits)

lemma paused_steps_wire: "(engine_step False)\<^sup>*\<^sup>* G G' \<Longrightarrow> paused G \<Longrightarrow> wire G' = wire G"
  by (induction rule: rtranclp_induct) (simp_all add: paused_step_wire paused_steps)

lemma length_host_time_payload [simp]: "length (host_time_payload E t) = 16"
  by (simp add: host_time_payload_def encode_audio_entry_def encode_host_time_def)

lemma encode_audio_message_fits:
  assumes "length p \<le> MAX_PAYLOAD_SIZE" and "is_id node"
  shows "\<exists>m. encode_audio_message node t kind p = Inr m \<and> length m \<le> AUDIO_MAX_MESSAGE_SIZE"
  using assms by (simp add: encode_audio_message_def AUDIO_PROTOCOL_HEADER_def encode_audio_header_def Let_def)

section \<open>Properties\<close>

text \<open>C12: A batch of datagrams never survives a pause. When a pause or the teardown switches sending off, whatever the tasks had prepared by then
  and not yet sent is never sent: from then on every datagram that leaves under an epoch belongs to a run
  of synchronisation that was started later, or was being started and did not send yet, however the single writes of the tasks, the application, the
  start of runs and the teardown interleave.\<close>

theorem paused_batches_never_sent:
  assumes "engine_reachable G" and "any_step\<^sup>*\<^sup>* (send_off G) G'"
  shows "(\<forall>x\<in>set (pending G). fst x \<le> last_sending_epoch G)
       \<and> (\<not> locked G \<longrightarrow> last_sending_epoch G = sync_epoch G)
       \<and> (\<exists>new. wire G' = wire G @ new \<and> list_all (\<lambda>x. case fst x of None \<Rightarrow> True | Some e \<Rightarrow> last_sending_epoch G < e) new)"
proof -
  note ok = engine_reachable_epochs [OF assms(1)]
  then have "after_epoch (last_sending_epoch G) (send_off G)"
    by (auto simp: after_epoch_def send_off_def epochs_ok_def last_sending_epoch_def split: option.split)
  from after_epoch_steps [OF assms(2) this] show ?thesis
    using ok by (auto simp: epochs_ok_def send_off_def list_all_iff) (simp add: last_sending_epoch_def)
qed

definition sample_engine :: engine where
  "sample_engine = add_sink [68] 4 (replicate 8 1) (new_engine 7 (replicate 8 2) (replicate 8 3) [65])"

lemma sample_engine_reachable: "engine_reachable sample_engine"
  unfolding sample_engine_def by (rule eng_step [OF eng_new es_add_sink]) (simp add: new_engine_def)

theorem paused_batches_never_sent_witness:
  "\<exists>new. wire (begin_check (send_off sample_engine)) = [] @ new
     \<and> list_all (\<lambda>x. case fst x of None \<Rightarrow> True | Some e \<Rightarrow> 1 < e) new"
proof -
  have G: "\<not> locked sample_engine" "sync_epoch sample_engine = 1" "wire sample_engine = []"
    by (simp_all add: sample_engine_def new_engine_def add_sink_def)
  then have "\<not> locked (send_off sample_engine)" by (simp add: send_off_def)
  then have "any_step\<^sup>*\<^sup>* (send_off sample_engine) (begin_check (send_off sample_engine))"
    by (intro r_into_rtranclp) (auto simp: any_step_def intro: es_begin)
  note never = paused_batches_never_sent [OF sample_engine_reachable this]
  then have l: "last_sending_epoch sample_engine = 1" using G by simp
  from never show ?thesis unfolding l G(3) by blast
qed

text \<open>A paused engine is silent. Once a pause has been committed the engine has no peers, no listed channels and no
  receivers, its sinks say that they are not connected, and until sharing is started again it sends nothing at
  all, whatever the application adds, renames or removes, provided that no call that was made before is still
  telling its peers about the end of a sink or a source.\<close>

theorem paused_engine_silent:
  assumes "\<not> locked G" and "nothing_to_send G" and "(engine_step False)\<^sup>*\<^sup>* (pause_commit G) G'"
  shows "wire G' = wire G \<and> es_peers (est G') = [] \<and> all_channels (es_channels (est G')) = []
       \<and> (\<forall>e\<in>set (es_sinks (est G')). se_receivers e = [] \<and> \<not> sk_connected (se_sink e))"
proof -
  have "wire (pause_commit G) = wire G" by (simp add: pause_commit_def split: prod.splits)
  moreover have "paused G'" using paused_steps [OF assms(3) paused_pause_commit [OF assms(1,2)]] .
  ultimately show ?thesis
    using paused_steps_wire [OF assms(3) paused_pause_commit [OF assms(1,2)]]
    by (simp add: paused_def all_channels_def)
qed

theorem paused_engine_silent_witness:
  "wire (remove_sink (replicate 8 1) (pause_commit sample_engine)) = []"
proof -
  have G: "\<not> locked sample_engine" "wire sample_engine = []"
    by (simp_all add: sample_engine_def new_engine_def add_sink_def)
  then have "\<not> locked (pause_commit sample_engine)" by (simp add: pause_commit_def split: prod.splits)
  moreover have "nothing_to_send sample_engine"
    by (simp add: nothing_to_send_def sample_engine_def new_engine_def add_sink_def)
  ultimately show ?thesis
    using paused_engine_silent [OF G(1) _ r_into_rtranclp [of "engine_step False", OF es_remove_sink]] G(2) by simp
qed

text \<open>The list of channels that the application sees is the registry's. In every state of the engine in which no
  change waits to be published, the published list has exactly the channels of the registry, in some order.\<close>

theorem channel_list_current:
  assumes "engine_reachable G" and "unpublished G = 0"
  shows "mset (api_channels G) = mset (all_channels (es_channels (est G)))"
  using list_current_reachable [OF assms(1)] assms(2) by (simp add: list_current_def)

theorem channel_list_current_witness:
  "mset (api_channels sample_engine) = mset (all_channels (es_channels (est sample_engine)))"
  by (rule channel_list_current [OF sample_engine_reachable]) (simp add: sample_engine_def new_engine_def add_sink_def)

text \<open>Announcements always fit into a datagram. However many sinks there are and whatever their names, the
  announcements of a reachable engine together name every sink once and in order, and each payload, the one that
  carries the ping included, is encoded as a message within the limit, so that none is dropped.\<close>

theorem announcements_fit:
  assumes "engine_reachable G" and "is_id (es_node (est G))" and "is_id (es_session (est G))"
    and "\<forall>e\<in>set (es_sinks (est G)). is_id (sk_id (se_sink e))"
  shows "concat (map pa_channels (announcements (est G))) = channel_announcements (est G)
       \<and> (\<forall>p\<in>set (with_ping E t (map announcement_payload (announcements (est G)))).
            \<exists>m. encode_audio_message (es_node (est G)) AUDIO_TTL PEER_ANNOUNCEMENT p = Inr m
              \<and> length m \<le> AUDIO_MAX_MESSAGE_SIZE)"
proof -
  let ?as = "announcements (est G)"
  have names: "\<forall>e\<in>set (es_sinks (est G)). length (sk_name (se_sink e)) \<le> MAX_NAME_SIZE"
    using names_ok_reachable [OF assms(1)] by (simp add: names_ok_def)
  note split = announcements_split [OF names]
  have "length (announcement_payload a) = payload_bytes a" if "a \<in> set ?as" for a
  proof (rule length_announcement_payload)
    have "pa_session a = es_session (est G)"
      using split(1) that unfolding fits_def by (metis peer_announcement.select_convs(2) peer_announcement.update_convs(4))
    then show "is_id (pa_session a)" using assms(3) by simp
    have "set (pa_channels a) \<subseteq> set (channel_announcements (est G))" using split(2) [symmetric] that by auto
    then show "\<forall>c\<in>set (pa_channels a). is_id (ca_id c)" using assms(4) by (auto simp: channel_announcements_def)
  qed
  then have "length p \<le> MAX_PAYLOAD_SIZE" if "p \<in> set (with_ping E t (map announcement_payload ?as))" for p
    using that split(1) by (cases ?as) (auto simp: fits_def)
  then show ?thesis using split(2) encode_audio_message_fits [OF _ assms(2)] by blast
qed

theorem announcements_fit_witness:
  "concat (map pa_channels (announcements (est sample_engine))) = [\<lparr>ca_name = [68], ca_id = replicate 8 1\<rparr>]"
proof -
  have "is_id (es_node (est sample_engine))" "is_id (es_session (est sample_engine))"
    "\<forall>e\<in>set (es_sinks (est sample_engine)). is_id (sk_id (se_sink e))"
    by (simp_all add: sample_engine_def new_engine_def new_engine_state_def add_sink_def new_sink_def)
  from announcements_fit [OF sample_engine_reachable this] show ?thesis
    by (simp add: channel_announcements_def)
      (simp add: sample_engine_def new_engine_def new_engine_state_def add_sink_def new_sink_def truncate_name_def)
qed

end
