(* ===== verification/AudioPath.thy ===== *)
theory AudioPath
  imports AudioEngine
begin

text \<open>
  Two LinkAudio engines talking to each other: what one engine announces, requests or sends, handled by the other.
  The definitions are those of \<open>AudioEngine\<close>; the statements here follow a datagram from the task of
  \<open>src/link_audio/engine.rs\<close> that prepares it to the handler of the peer.
\<close>

section \<open>Datagrams and their handlers\<close>

lemma handle_datagram:
  assumes "(m, to) \<in> set (datagram node t kind payload ep)" and "is_id node"
  shows "to = ep" and "parse_audio_header m = Inr (\<lparr>a_type = kind, a_ttl = t, a_group = 0, a_ident = node\<rparr>, 20)"
    and "drop 20 m = payload"
proof -
  let ?h = "\<lparr>a_type = kind, a_ttl = t, a_group = 0, a_ident = node\<rparr> :: audio_header"
  have l: "length AUDIO_PROTOCOL_HEADER = 8" "length (encode_audio_header ?h) = 12"
    using assms(2) by (simp_all add: AUDIO_PROTOCOL_HEADER_def encode_audio_header_def)
  have m: "to = ep" "m = AUDIO_PROTOCOL_HEADER @ encode_audio_header ?h @ payload" "8 + 12 + length payload \<le> AUDIO_MAX_MESSAGE_SIZE"
    using assms(1) by (auto simp: datagram_def encode_audio_message_def Let_def split: if_splits)
  have "decode_audio_header (encode_audio_header ?h) = Inr (?h, [])"
    using assms(2) id_entry.decode_encoded by (simp add: decode_audio_header_def encode_audio_header_def)
  then show "to = ep" "parse_audio_header m = Inr (?h, 20)" "drop 20 m = payload"
    using m l by (simp_all add: parse_audio_header_def Let_def)
qed

lemma request_parse: "is_id (cr_channel r) \<Longrightarrow> request_from_payload p (request_payload r) = Inr \<lparr>cr_peer = p, cr_channel = cr_channel r\<rparr>"
  using id_entry.parse_entry [of "cr_channel r" request_visit "key_of ''chid''" "[]"] id_entry.decode_encoded [of "cr_channel r"]
  by (simp add: request_from_payload_def request_payload_def request_visit_def parse_entries.simps [of _ "[]"])

text \<open>An entry for the host time says nothing about channels.\<close>

lemma ignores_host_time: "parse_entries announcement_visit (host_time_payload E t) s = Inr s"
proof -
  have "key_of ''__ht'' \<noteq> key_of ''sess''" "key_of ''__ht'' \<noteq> key_of ''__pi''" "key_of ''__ht'' \<noteq> key_of ''auca''"
    by (simp_all add: key_of_def from_be_def of_char_def)
  then have "announcement_visit (key_of ''__ht'') b s = Inr s" for b s by (simp add: announcement_visit_def)
  moreover have "read_id (write_u64 x) = Inr (write_u64 x, [])" for x using id_entry.decode_encoded by simp
  ultimately show ?thesis
    by (simp add: host_time_payload_def encode_audio_entry_def encode_host_time_def parse_entries.simps)
qed

lemma update_first_distinct:
  assumes "distinct (map ident xs)" and "\<And>x. ident x = i \<Longrightarrow> R x (f x)" and "\<And>x. ident x \<noteq> i \<Longrightarrow> R x x"
  shows "list_all2 R xs (update_first (\<lambda>x. ident x = i) f xs)"
  using assms(1)
proof (induction xs)
  case (Cons x xs)
  have "list_all2 R xs xs" if "i \<notin> ident ` set xs" using that by (intro list.rel_refl_strong assms(3)) auto
  then show ?case using Cons assms(2,3) by auto
qed simp

section \<open>Audio\<close>













section \<open>Properties\<close>


definition sample_entry :: sink_entry where
  "sample_entry = \<lparr>se_sink = sample_sink\<lparr>sk_queue := (sk_queue sample_sink)\<lparr>free_slots := replicate 127 (new_buffer 4),
     filled_slots := [(0, sample_input)]\<rparr>\<rparr>,
     se_receivers = [\<lparr>rc_peer = replicate 8 5, rc_endpoint = Some (9, 20808), rc_expires = 100\<rparr>],
     se_encoder = new_resizer CODEC_MAX_AUDIO_BYTES\<rparr>"


definition sample_listener :: engine_state where
  "sample_listener = (new_engine_state 7 (replicate 8 5) (replicate 8 2) [66])\<lparr>es_sources := [replicate 8 1]\<rparr>"


text \<open>What an engine announces is what its peer lists. A datagram with one of the announcements, the one with the
  ping or another, handled by an engine that knows the sender as a peer, sets exactly the announced channels, with
  their names and the peer's name and session, in the registry for the next five seconds.\<close>

theorem announcement_registers_channels:
  assumes "p \<in> set (with_ping E ht (map announcement_payload (announcements st)))"
    and "(m, ep) \<in> set (datagram (es_node st) AUDIO_TTL PEER_ANNOUNCEMENT p ep)"
    and "is_id (es_node st)" and "is_id (es_session st)" and "wire_string (truncate_name (es_name st))"
    and "\<forall>e\<in>set (es_sinks st). is_id (sk_id (se_sink e)) \<and> valid_utf8 (sk_name (se_sink e))
           \<and> length (sk_name (se_sink e)) \<le> MAX_NAME_SIZE"
    and "es_node st' \<noteq> es_node st" and "\<exists>q\<in>set (es_peers st'). pr_endpoint q = sender" and "channels_ok (es_channels st')"
  shows "\<exists>a\<in>set (announcements st).
           registry (infos (es_channels (fst (snd (handle_message E down now now_us m sender st')))))
             = fold (\<lambda>c r. r((ca_id c, es_gateway st') \<mapsto>
                   (announced_channel (es_node st) (truncate_name (es_name st)) (es_session st) c, now + 5 * nanos_per_second)))
                 (pa_channels a) (registry (infos (es_channels st')))"
proof -
  have names: "\<forall>e\<in>set (es_sinks st). length (sk_name (se_sink e)) \<le> MAX_NAME_SIZE" using assms(6) by blast
  note split = announcements_split [OF names]
  obtain a rest where a: "a \<in> set (announcements st)" "p = announcement_payload a @ rest" "rest = [] \<or> rest = host_time_payload E ht"
    using assms(1) by (cases "announcements st") force+
  have base: "a = \<lparr>pa_node = es_node st, pa_session = es_session st, pa_name = truncate_name (es_name st), pa_channels = pa_channels a\<rparr>"
    using split(1) a(1) unfolding fits_def by (metis peer_announcement.update_convs(4))
  then have f: "pa_session a = es_session st" "pa_name a = truncate_name (es_name st)"
    by (metis peer_announcement.select_convs)+
  have "set (pa_channels a) \<subseteq> set (channel_announcements st)" using split(2) [symmetric] a(1) by auto
  then have cs: "\<forall>c\<in>set (pa_channels a). valid_utf8 (ca_name c) \<and> is_id (ca_id c)"
    using assms(6) by (auto simp: channel_announcements_def)
  have "length (encode_announcements (pa_channels a)) \<le> length (announcement_payload a)"
    by (simp add: announcement_payload_def encode_audio_entry_def)
  also have "\<dots> = payload_bytes a" using cs f(1) assms(4) by (intro length_announcement_payload) auto
  also have "\<dots> < 2 ^ 32" using split(1) a(1) by (fastforce simp: fits_def)
  finally have w: "wire_announcements (pa_channels a)" using cs by (simp add: wire_announcements_def)
  have "parse_entries announcement_visit rest s = Inr s" for s
    using a(3) ignores_host_time by (auto simp: parse_entries.simps [of _ "[]"])
  then have "announcement_from_payload (es_node st) p = Inr a"
    using announcement_parse [of a] f assms(4,5) w base by (simp add: announcement_from_payload_def a(2))
  moreover obtain q where "find (\<lambda>p. pr_endpoint p = sender) (es_peers st') = Some q"
    using assms(8) by (cases "find (\<lambda>p. pr_endpoint p = sender) (es_peers st')") (auto simp: find_None_iff)
  ultimately show ?thesis
    using registry_announced [OF assms(9)] handle_datagram [OF assms(2,3)] assms(7) f a(1)
    by (intro bexI [of _ a]) (simp_all add: handle_message_def receive_announcement_def case_prod_beta)
qed

definition sample_state :: engine_state where
  "sample_state = (new_engine_state 7 (replicate 8 4) (replicate 8 2) [65])\<lparr>es_sinks := [sample_entry]\<rparr>"

definition sample_peer :: engine_state where
  "sample_peer = sample_listener\<lparr>es_peers := [\<lparr>pr_peer = replicate 8 4, pr_endpoint = (9, 20808), pr_metrics = new_filter\<rparr>]\<rparr>"

lemma sample_entry_sink: "sk_id (se_sink sample_entry) = replicate 8 1" "sk_name (se_sink sample_entry) = [68]"
  by (simp_all add: sample_entry_def sample_sink_def new_sink_def truncate_name_def)

lemma sample_announcements:
  "announcements sample_state = [\<lparr>pa_node = replicate 8 4, pa_session = replicate 8 2, pa_name = [65],
     pa_channels = [\<lparr>ca_name = [68], ca_id = replicate 8 1\<rparr>]\<rparr>]"
  by (simp add: announcements_def channel_announcements_def sample_state_def new_engine_state_def sample_entry_sink
      truncate_name_def announcement_payload_size_def announcement_size_def size_of_string_def announcements_size_def
      push_channel_def Let_def)

theorem announcement_registers_channels_witness:
  "\<exists>m. registry (infos (es_channels (fst (snd (handle_message std_ext False 100 0 m (9, 20808) sample_peer))))) (replicate 8 1, 7)
      = Some (\<lparr>c_id = replicate 8 1, c_name = [68], c_peer = replicate 8 4, c_peer_name = [65], c_session = replicate 8 2\<rparr>, 5000000100)"
proof -
  let ?p = "hd (with_ping std_ext 0 (map announcement_payload (announcements sample_state)))"
  have "length ?p \<le> MAX_PAYLOAD_SIZE"
    by (simp add: sample_announcements announcement_payload_def encode_audio_entry_def write_string_def
        encode_announcements_def encode_announcement_def)
  then obtain m where "encode_audio_message (es_node sample_state) AUDIO_TTL PEER_ANNOUNCEMENT ?p = Inr m"
    using encode_audio_message_fits [of ?p "es_node sample_state"] by (auto simp: sample_state_def new_engine_state_def)
  then have m: "(m, (9, 20808)) \<in> set (datagram (es_node sample_state) AUDIO_TTL PEER_ANNOUNCEMENT ?p (9, 20808))"
    by (simp add: datagram_def)
  have p: "?p \<in> set (with_ping std_ext 0 (map announcement_payload (announcements sample_state)))"
    by (simp add: sample_announcements)
  have st: "es_node sample_state = replicate 8 4" "es_session sample_state = replicate 8 2" "es_name sample_state = [65]"
    "es_sinks sample_state = [sample_entry]" "truncate_name [65] = [65]"
    by (simp_all add: sample_state_def new_engine_state_def truncate_name_def)
  have peer: "es_node sample_peer = replicate 8 5" "es_gateway sample_peer = 7" "es_channels sample_peer = new_channels"
    "es_peers sample_peer = [\<lparr>pr_peer = replicate 8 4, pr_endpoint = (9, 20808), pr_metrics = new_filter\<rparr>]"
    by (simp_all add: sample_peer_def sample_listener_def new_engine_state_def)
  have utf8: "valid_utf8 [65]" "valid_utf8 [68]" by (simp_all add: valid_utf8_ascii)
  then have "wire_string [65]" by (simp add: wire_string_def)
  with announcement_registers_channels [OF p m, of sample_peer "(9, 20808)" False 100 0]
  have "registry (infos (es_channels (fst (snd (handle_message std_ext False 100 0 m (9, 20808) sample_peer)))))
      = (registry (infos new_channels))((replicate 8 1, 7) \<mapsto>
          (announced_channel (replicate 8 4) [65] (replicate 8 2) \<lparr>ca_name = [68], ca_id = replicate 8 1\<rparr>, 100 + 5 * nanos_per_second))"
    unfolding st peer by (simp add: sample_entry_sink utf8 channels_ok_new sample_announcements)
  then show ?thesis by (intro exI [of _ m]) (simp add: announced_channel_def)
qed

text \<open>A request connects a source with a sink. The request that an engine sends for one of its sources, handled by the engine
  that has the sink, makes the sender a receiver of the sink for five seconds and tells the
  application that the sink is connected; no other sink changes.\<close>

theorem request_connects_sink:
  assumes "(m, ep) \<in> set (channel_requests st)" and "is_id (es_node st)" and "\<forall>i\<in>set (es_sources st). is_id i"
    and "es_node st' \<noteq> es_node st" and "handle_message E down now now_us m sender st' = (changed, st'', ms, calls)"
    and "distinct (map (\<lambda>e. sk_id (se_sink e)) (es_sinks st'))"
  shows "\<exists>i\<in>set (es_sources st). channel_endpoint i (es_channels st) = Some ep
       \<and> list_all2 (\<lambda>e e'. if sk_id (se_sink e) = i
            then sk_connected (se_sink e') \<and> sk_id (se_sink e') = i
               \<and> \<lparr>rc_peer = es_node st, rc_endpoint = Some sender, rc_expires = now + 5 * nanos_per_second\<rparr> \<in> set (se_receivers e')
            else e' = e) (es_sinks st') (es_sinks st'')"
proof -
  obtain i to where to: "i \<in> set (es_sources st)" "channel_endpoint i (es_channels st) = Some to"
    "(m, ep) \<in> set (datagram (es_node st) AUDIO_TTL CHANNEL_REQUEST (request_payload \<lparr>cr_peer = es_node st, cr_channel = i\<rparr>) to)"
    using assms(1) unfolding channel_requests_def by (auto split: option.splits) (metis option.simps(5))
  note i = to [folded handle_datagram(1) [OF to(3) assms(2)]]
  have "is_id i" using assms(3) i(1) by blast
  note d = handle_datagram [OF i(3) assms(2)] and r = request_parse [of "\<lparr>cr_peer = es_node st, cr_channel = i\<rparr>" "es_node st"]
  let ?f = "receive_channel_request \<lparr>cr_peer = es_node st, cr_channel = i\<rparr> AUDIO_TTL (Some sender) now"
  have st'': "st'' = update_receivers i ?f st'"
    using assms(4,5) d r \<open>is_id i\<close> by (simp add: handle_message_def receive_request_def)
  have new: "\<lparr>rc_peer = es_node st, rc_endpoint = Some sender, rc_expires = now + 5 * nanos_per_second\<rparr> \<in> set (?f rs)" for rs
    by (simp add: receive_channel_request_def Let_def)
  then have "?f rs \<noteq> []" for rs by (metis empty_iff list.set(1))
  with new show ?thesis
    unfolding st'' update_receivers_def Let_def
    by (intro bexI [OF _ i(1)] conjI i(2)) (simp, rule update_first_distinct [OF assms(6)], simp_all)
qed

definition sample_requester :: engine_state where
  "sample_requester = (new_engine_state 7 (replicate 8 5) (replicate 8 2) [66])\<lparr>es_channels := sample_registry,
     es_sources := [replicate 8 3]\<rparr>"

definition sample_provider :: engine_state where
  "sample_provider = sample_state\<lparr>es_sinks := [sample_entry\<lparr>se_sink := (se_sink sample_entry)\<lparr>sk_id := replicate 8 3\<rparr>\<rparr>]\<rparr>"

theorem request_connects_sink_witness:
  "\<exists>m. list_ex (\<lambda>e. sk_connected (se_sink e) \<and>
         \<lparr>rc_peer = replicate 8 5, rc_endpoint = Some (8, 9), rc_expires = 5000000100\<rparr> \<in> set (se_receivers e))
       (es_sinks (fst (snd (handle_message std_ext False 100 0 m (8, 9) sample_provider))))"
proof -
  have st: "es_node sample_requester = replicate 8 5" "es_sources sample_requester = [replicate 8 3]"
    "es_channels sample_requester = sample_registry" "es_node sample_provider = replicate 8 4"
    "es_sinks sample_provider = [sample_entry\<lparr>se_sink := (se_sink sample_entry)\<lparr>sk_id := replicate 8 3\<rparr>\<rparr>]"
    by (simp_all add: sample_requester_def sample_provider_def sample_state_def new_engine_state_def)
  have ep: "channel_endpoint (replicate 8 3) sample_registry = Some (9, 20808)"
    by (simp add: sample_registry_def saw_announcement_def new_channels_def channel_endpoint_def peer_endpoint_of_def)
      (simp add: announced_channel_def better_handler_def)
  obtain m where "(m, (9, 20808)) \<in> set (channel_requests sample_requester)"
    using encode_audio_message_fits [of "request_payload \<lparr>cr_peer = replicate 8 5, cr_channel = replicate 8 3\<rparr>" "replicate 8 5" AUDIO_TTL CHANNEL_REQUEST]
    by (fastforce simp: channel_requests_def st ep datagram_def request_payload_def encode_audio_entry_def)
  moreover obtain changed st'' ms calls where h:
    "handle_message std_ext False 100 0 m (8, 9) sample_provider = (changed, st'', ms, calls)" by (metis prod_cases4)
  ultimately have "list_ex (\<lambda>e. sk_connected (se_sink e) \<and>
      \<lparr>rc_peer = replicate 8 5, rc_endpoint = Some (8, 9), rc_expires = 5000000100\<rparr> \<in> set (se_receivers e)) (es_sinks st'')"
    using request_connects_sink [of m "(9, 20808)" sample_requester sample_provider std_ext False 100 0 "(8, 9)" changed st'' ms calls]
    unfolding st by (auto simp: list_all2_Cons1)
  then show ?thesis using h by (intro exI [of _ m]) simp
qed

text \<open>Messages that are not for the engine do nothing. A datagram without a valid header, one's own message that
  comes back, and a message of an unknown type change nothing, are not answered and reach no callback; so are
  announcements and goodbyes whose payload cannot be read, except that a readable ping is still answered.\<close>

theorem foreign_messages_ignored:
  assumes "handle_message E down now now_us data sender st = (changed, st', ms, calls)"
    and "case parse_audio_header data of Inl _ \<Rightarrow> True
         | Inr (h, n) \<Rightarrow> a_ident h = es_node st \<or> a_type h = 0 \<or> 6 < a_type h
             \<or> a_type h = PEER_ANNOUNCEMENT \<and> isl (announcement_from_payload (a_ident h) (drop n data))
             \<or> a_type h \<in> {CHANNEL_REQUEST, STOP_CHANNEL_REQUEST} \<and> isl (request_from_payload (a_ident h) (drop n data))
             \<or> a_type h = AUDIO_BUFFER \<and> isl (decode_raw E (drop n data))"
  shows "\<not> changed \<and> st' = st \<and> calls = []
       \<and> (ms = [] \<or> (\<exists>h n. parse_audio_header data = Inr (h, n) \<and> a_type h = PEER_ANNOUNCEMENT
             \<and> ms = receive_ping E (drop n data) sender st))"
proof (cases "parse_audio_header data")
  case (Inr x)
  obtain h n where x: "x = (h, n)" by fastforce
  note r = Inr [unfolded x]
  show ?thesis
  proof (cases "a_ident h = es_node st")
    case False
    then consider "a_type h = 0 \<or> 6 < a_type h"
      | e where "a_type h = PEER_ANNOUNCEMENT" "announcement_from_payload (a_ident h) (drop n data) = Inl e"
      | e where "a_type h \<in> {CHANNEL_REQUEST, STOP_CHANNEL_REQUEST}" "request_from_payload (a_ident h) (drop n data) = Inl e"
      | e where "a_type h = AUDIO_BUFFER" "decode_raw E (drop n data) = Inl e"
      using assms(2) r by (fastforce dest: isl_def [THEN iffD1])
    then show ?thesis
      using assms(1) r False
      by cases (auto simp: handle_message_def receive_announcement_def receive_request_def receive_stop_request_def
          receive_audio_buffer_def Let_def split: option.splits if_splits)
  qed (use assms(1) r in \<open>simp add: handle_message_def\<close>)
qed (use assms(1) in \<open>simp add: handle_message_def\<close>)

theorem foreign_messages_ignored_witness:
  "handle_message std_ext False 0 0 [1, 2, 3] (8, 9) sample_state = (False, sample_state, [], [])"
proof -
  obtain changed st' ms calls where h: "handle_message std_ext False 0 0 [1, 2, 3] (8, 9) sample_state = (changed, st', ms, calls)"
    by (metis prod_cases4)
  have e: "\<exists>e. parse_audio_header [1, 2, 3] = Inl e" by (simp add: parse_audio_header_def Let_def)
  then show ?thesis using foreign_messages_ignored [OF h] h by auto
qed

end
