(* ===== verification/AudioApi.thy ===== *)
theory AudioApi
  imports AudioPath
begin

text \<open>
  What an application sees of LinkAudio: \<open>src/link_audio/api.rs\<close>, with the notifications about changed
  channels of \<open>src/link_audio/engine.rs\<close>.

  The first part is the queue of notifications as steps of the threads in it, the second the object
  \<open>LinkAudio\<close> that starts and stops the engine with Link, the third the place of received audio on the beat
  grid of the application.
\<close>

section \<open>Notifications about channels\<close>

text \<open>
  Callbacks are numbers. \<open>draining\<close> is the number of threads at the start of an iteration of \<open>drain\<close>,
  \<open>active\<close> has the callbacks that are taken out: the callback (none after a panic), the number of marks
  when it was taken, and whether the call is over. \<open>marks\<close> counts the accepted notifications; every call
  is logged with the marks it covers.
\<close>

record channel_notifications =
  cn_callback :: "nat option"
  cn_pending :: bool
  cn_running :: bool
  cn_closed :: bool
  draining :: nat
  active :: "(nat option \<times> nat \<times> bool) list"
  marks :: nat
  call_log :: "(nat \<times> nat) list"

definition new_notifications :: channel_notifications where
  "new_notifications =
     \<lparr>cn_callback = None, cn_pending = False, cn_running = False, cn_closed = False, draining = 0, active = [], marks = 0,
      call_log = []\<rparr>"

definition cn_set :: "nat \<Rightarrow> channel_notifications \<Rightarrow> channel_notifications" where
  "cn_set c N = N\<lparr>cn_callback := Some c, draining := draining N + 1\<rparr>"

definition cn_notify :: "channel_notifications \<Rightarrow> channel_notifications" where
  "cn_notify N =
     (if cn_callback N = None \<and> \<not> cn_running N then N
      else N\<lparr>cn_pending := True, marks := marks N + 1, draining := draining N + 1\<rparr>)"

text \<open>An iteration of \<open>drain\<close> up to the call.\<close>

definition drain_take :: "channel_notifications \<Rightarrow> channel_notifications" where
  "drain_take N =
     (let N = N\<lparr>draining := draining N - 1\<rparr>
      in if cn_closed N then N\<lparr>cn_pending := False\<rparr>
         else if cn_running N \<or> \<not> cn_pending N then N
         else case cn_callback N of
           None \<Rightarrow> N
         | Some c \<Rightarrow>
             N\<lparr>cn_callback := None, cn_pending := False, cn_running := True, active := (Some c, marks N, False) # active N\<rparr>)"

definition drain_call :: "nat \<Rightarrow> channel_notifications \<Rightarrow> channel_notifications" where
  "drain_call i N =
     (case active N ! i of
        (Some c, m, False) \<Rightarrow>
          N\<lparr>active := (active N)[i := (Some c, m, True)],
            call_log := (if cn_closed N then call_log N else call_log N @ [(c, m)])\<rparr>
      | _ \<Rightarrow> N)"

definition drain_panic :: "nat \<Rightarrow> channel_notifications \<Rightarrow> channel_notifications" where
  "drain_panic i N = (case active N ! i of (_, m, True) \<Rightarrow> N\<lparr>active := (active N)[i := (None, m, True)]\<rparr> | _ \<Rightarrow> N)"

text \<open>The guard is dropped and the thread goes on with the next iteration.\<close>

definition drain_drop :: "nat \<Rightarrow> channel_notifications \<Rightarrow> channel_notifications" where
  "drain_drop i N =
     (case active N ! i of
        (c, m, True) \<Rightarrow>
          N\<lparr>cn_running := False, cn_callback := (if cn_callback N = None then c else cn_callback N),
            active := take i (active N) @ drop (i + 1) (active N), draining := draining N + 1\<rparr>
      | _ \<Rightarrow> N)"

inductive cn_step :: "channel_notifications \<Rightarrow> channel_notifications \<Rightarrow> bool" where
  cn_set: "cn_step N (cn_set c N)"
| cn_notify: "cn_step N (cn_notify N)"
| cn_take: "0 < draining N \<Longrightarrow> cn_step N (drain_take N)"
| cn_call: "i < length (active N) \<Longrightarrow> cn_step N (drain_call i N)"
| cn_panic: "i < length (active N) \<Longrightarrow> cn_step N (drain_panic i N)"
| cn_drop: "i < length (active N) \<Longrightarrow> cn_step N (drain_drop i N)"
| cn_close: "cn_step N (N\<lparr>cn_closed := True\<rparr>)"

inductive cn_reachable :: "channel_notifications \<Rightarrow> bool" where
  cn_new: "cn_reachable new_notifications"
| cn_next: "cn_reachable N \<Longrightarrow> cn_step N N' \<Longrightarrow> cn_reachable N'"

definition cn_ok :: "channel_notifications \<Rightarrow> bool" where
  "cn_ok N \<longleftrightarrow>
     length (active N) = (if cn_running N then 1 else 0)
   \<and> (\<forall>x\<in>set (active N). fst (snd x) \<le> marks N \<and> (fst x = None \<longrightarrow> snd (snd x)))
   \<and> (cn_closed N \<or> cn_callback N = None \<or> cn_running N \<or> \<not> cn_pending N \<or> 0 < draining N)
   \<and> (cn_closed N \<or> cn_pending N \<or> marks N = 0 \<or> marks N \<in> snd ` set (call_log N)
      \<or> (\<exists>c. (Some c, marks N, False) \<in> set (active N)))"

lemma cn_ok_new: "cn_ok new_notifications"
  by (simp add: cn_ok_def new_notifications_def)

lemma cn_ok_step: "cn_step N N' \<Longrightarrow> cn_ok N \<Longrightarrow> cn_ok N'"
proof (induction rule: cn_step.induct)
  case (cn_take N)
  then show ?case by (auto simp: cn_ok_def drain_take_def Let_def split: option.splits if_splits)
next
  case (cn_call i N)
  then obtain c m b where "cn_running N" "active N = [(c, m, b)]" "i = 0"
    by (auto simp: cn_ok_def length_Suc_conv split: if_splits)
  then show ?case using cn_call by (auto simp: cn_ok_def drain_call_def split: option.splits bool.splits)
next
  case (cn_panic i N)
  then obtain c m b where "cn_running N" "active N = [(c, m, b)]" "i = 0"
    by (auto simp: cn_ok_def length_Suc_conv split: if_splits)
  then show ?case using cn_panic by (auto simp: cn_ok_def drain_panic_def split: bool.splits)
next
  case (cn_drop i N)
  then obtain c m b where "cn_running N" "active N = [(c, m, b)]" "i = 0"
    by (auto simp: cn_ok_def length_Suc_conv split: if_splits)
  then show ?case using cn_drop by (auto simp: cn_ok_def drain_drop_def split: bool.splits)
qed (auto simp: cn_ok_def cn_set_def cn_notify_def split: if_splits)

lemma cn_reachable_ok: "cn_reachable N \<Longrightarrow> cn_ok N"
  by (induction rule: cn_reachable.induct) (auto simp: cn_ok_new cn_ok_step)

section \<open>The LinkAudio object\<close>

text \<open>
  \<open>la_announced\<close> is the audio endpoint in the peer state of the controller, \<open>la_task\<close> the epoch of the
  task that synchronises the peers. The methods take the object exclusively, so each is one step; the tasks of
  the engine run in between.
\<close>

record link_audio =
  la_engine :: engine
  la_endpoint :: endpoint
  la_announced :: "endpoint option"
  la_enabled :: bool
  la_task :: "nat option"
  by_user :: bool

definition begin_peer_sync :: "engine \<Rightarrow> nat \<times> engine" where
  "begin_peer_sync G = (if shut_down G then (0, G) else (sync_epoch G + 1, begin_commit (begin_check G)))"

definition new_link_audio :: "u32 \<Rightarrow> endpoint \<Rightarrow> node_id \<Rightarrow> session_id \<Rightarrow> bytes \<Rightarrow> link_audio" where
  "new_link_audio addr ep node sid name =
     \<lparr>la_engine = end_peer_sync (new_engine addr node sid name), la_endpoint = ep, la_announced = None,
      la_enabled = False, la_task = None, by_user = False\<rparr>"

definition stop_audio_sharing :: "link_audio \<Rightarrow> link_audio" where
  "stop_audio_sharing L = L\<lparr>la_announced := None, la_task := None, la_engine := end_peer_sync (la_engine L)\<rparr>"

definition update_is_link_audio_enabled :: "link_audio \<Rightarrow> link_audio" where
  "update_is_link_audio_enabled L =
     (let should_be_enabled = (by_user L \<and> la_enabled L)
      in if should_be_enabled = (la_task L \<noteq> None) then L
         else if should_be_enabled
           then case begin_peer_sync (la_engine L) of
                  (epoch, G) \<Rightarrow> L\<lparr>la_engine := G, la_announced := Some (la_endpoint L), la_task := Some epoch\<rparr>
         else stop_audio_sharing L)"

definition enable_link_audio :: "bool \<Rightarrow> link_audio \<Rightarrow> link_audio" where
  "enable_link_audio on L = (if on = by_user L then L else update_is_link_audio_enabled (L\<lparr>by_user := on\<rparr>))"

definition la_enable :: "link_audio \<Rightarrow> link_audio" where
  "la_enable L = update_is_link_audio_enabled (L\<lparr>la_enabled := True\<rparr>)"

definition la_disable :: "link_audio \<Rightarrow> link_audio" where
  "la_disable L = (stop_audio_sharing L)\<lparr>la_enabled := False\<rparr>"

text \<open>One round of the synchronisation. A contended lock is \<open>None\<close>.\<close>

definition peer_sync_iteration ::
  "nat \<Rightarrow> (node_id \<times> session_id) option \<Rightarrow> (node_id \<times> endpoint option) list option \<Rightarrow> engine \<Rightarrow> engine" where
  "peer_sync_iteration epoch ident discovered G =
     (if sync_epoch G \<noteq> epoch then G
      else
        let G = (case ident of None \<Rightarrow> G | Some (node, sid) \<Rightarrow> set_identity_at epoch node sid G)
        in case discovered of
             None \<Rightarrow> G
           | Some ps \<Rightarrow>
               update_session_peers_at epoch (map fst ps)
                 (fold (\<lambda>(p, ep). saw_link_audio_endpoint_at epoch p ep) ps G))"

text \<open>The tasks of the engine and the calls on sinks and sources do not start or stop it.\<close>

definition same_run :: "engine \<Rightarrow> engine \<Rightarrow> bool" where
  "same_run G G' \<longleftrightarrow>
     sync_epoch G' = sync_epoch G \<and> sharing_active G' = sharing_active G \<and> shut_down G' = shut_down G
   \<and> send_epoch G' = send_epoch G \<and> begin_pc G' = begin_pc G"

inductive la_step :: "link_audio \<Rightarrow> link_audio \<Rightarrow> bool" where
  la_audio: "la_step L (enable_link_audio on L)"
| la_on: "la_step L (la_enable L)"
| la_off: "la_step L (la_disable L)"
| la_sync: "la_step L (L\<lparr>la_engine := peer_sync_iteration e ident discovered (la_engine L)\<rparr>)"
| la_run: "engine_step False (la_engine L) G \<Longrightarrow> same_run (la_engine L) G \<Longrightarrow> la_step L (L\<lparr>la_engine := G\<rparr>)"

inductive la_reachable :: "link_audio \<Rightarrow> bool" where
  la_new: "la_reachable (new_link_audio addr ep node sid name)"
| la_next: "la_reachable L \<Longrightarrow> la_step L L' \<Longrightarrow> la_reachable L'"

definition la_ok :: "link_audio \<Rightarrow> bool" where
  "la_ok L \<longleftrightarrow>
     (la_task L \<noteq> None \<longleftrightarrow> by_user L \<and> la_enabled L)
   \<and> la_announced L = (if la_task L = None then None else Some (la_endpoint L))
   \<and> sharing_active (la_engine L) = (la_task L \<noteq> None) \<and> send_epoch (la_engine L) = la_task L
   \<and> (\<forall>e. la_task L = Some e \<longrightarrow> e = sync_epoch (la_engine L))
   \<and> (la_task L = None \<longrightarrow> es_peers (est (la_engine L)) = [])
   \<and> \<not> locked (la_engine L) \<and> \<not> shut_down (la_engine L)"

lemma end_peer_sync_simps [simp]:
  "sharing_active (end_peer_sync G) = False" "send_epoch (end_peer_sync G) = None" "begin_pc (end_peer_sync G) = begin_pc G"
  "shut_down (end_peer_sync G) = shut_down G" "es_peers (est (end_peer_sync G)) = []"
  by (simp_all add: end_peer_sync_def pause_commit_def pause_flags_def sharing_off_def send_off_def prune_peers_none)

lemma same_run_trans: "same_run G H \<Longrightarrow> same_run H I \<Longrightarrow> same_run G I"
  by (simp add: same_run_def)

lemma same_run_sync:
  "same_run G G" "same_run G (set_identity_at e n s G)" "same_run G (update_session_peers_at e ps G)"
  "same_run G (saw_link_audio_endpoint_at e p ep G)"
  by (auto simp: same_run_def set_identity_at_def update_session_peers_at_def saw_link_audio_endpoint_at_def
      split: prod.splits)

lemma same_run_fold: "(\<And>x G. same_run G (f x G)) \<Longrightarrow> same_run G (fold f xs G)"
  by (induction xs arbitrary: G) (auto intro: same_run_sync(1) same_run_trans)

lemma same_run_peer_sync: "same_run G (peer_sync_iteration e ident discovered G)"
proof -
  have all: "same_run H (update_session_peers_at e qs (fold (\<lambda>(p, ep). saw_link_audio_endpoint_at e p ep) ps H))" for H ps qs
    by (rule same_run_trans [OF same_run_fold same_run_sync(3)]) (simp add: same_run_sync(4) split: prod.split)
  define H where "H = (case ident of None \<Rightarrow> G | Some (node, sid) \<Rightarrow> set_identity_at e node sid G)"
  have "same_run G H" by (simp add: H_def same_run_sync split: option.split)
  moreover have "same_run H (case discovered of None \<Rightarrow> H | Some ps \<Rightarrow> update_session_peers_at e (map fst ps)
      (fold (\<lambda>(p, ep). saw_link_audio_endpoint_at e p ep) ps H))"
    by (cases discovered) (simp_all add: all same_run_sync(1))
  ultimately show ?thesis
    unfolding peer_sync_iteration_def Let_def H_def [symmetric] by (simp add: same_run_sync(1) same_run_trans)
qed

lemma peer_sync_stopped:
  assumes "\<not> sharing_active G"
  shows "peer_sync_iteration e ident discovered G = G"
proof -
  have "fold (\<lambda>(p, ep). saw_link_audio_endpoint_at e p ep) ps G = G" for ps
    using assms by (induction ps) (auto simp: saw_link_audio_endpoint_at_def epoch_is_current_def)
  then show ?thesis
    using assms by (auto simp: peer_sync_iteration_def set_identity_at_def update_session_peers_at_def
        epoch_is_current_def split: option.splits)
qed

lemma stopped_no_peers:
  "engine_step b G G' \<Longrightarrow> \<not> b \<Longrightarrow> \<not> locked G \<Longrightarrow> \<not> sharing_active G \<Longrightarrow> send_epoch G = None \<Longrightarrow>
     es_peers (est G) = [] \<Longrightarrow> es_peers (est G') = []"
  by (erule engine_step.cases)
    (auto simp: engine_defs epoch_is_current_def prune_peers_none discard_sink_buffers_def prune_peers_def Let_def
      split: prod.splits option.splits)

lemma la_ok_update:
  assumes "la_ok (L\<lparr>by_user := u, la_enabled := n\<rparr>)"
  shows "la_ok (update_is_link_audio_enabled (L\<lparr>by_user := u', la_enabled := n'\<rparr>))"
  using assms
  by (auto simp: la_ok_def update_is_link_audio_enabled_def stop_audio_sharing_def begin_peer_sync_def begin_commit_def begin_next_def
      begin_check_def Let_def)

lemma la_ok_step: "la_step L L' \<Longrightarrow> la_ok L \<Longrightarrow> la_ok L'"
proof (induction rule: la_step.induct)
  case (la_audio L on)
  have "la_ok (L\<lparr>by_user := by_user L, la_enabled := la_enabled L\<rparr>)" using la_audio by simp
  from la_ok_update [OF this, where u' = on and n' = "la_enabled L"] show ?case
    using la_audio by (cases "on = by_user L") (simp_all add: enable_link_audio_def)
next
  case (la_on L)
  have "la_ok (L\<lparr>by_user := by_user L, la_enabled := la_enabled L\<rparr>)" using la_on by simp
  from la_ok_update [OF this, where u' = "by_user L" and n' = True] show ?case by (simp add: la_enable_def)
next
  case (la_sync L e ident discovered)
  then show ?case
    using same_run_peer_sync [of "la_engine L" e ident discovered] peer_sync_stopped [of "la_engine L" e ident discovered]
    by (auto simp: la_ok_def same_run_def)
next
  case (la_run L G)
  then show ?case using stopped_no_peers [OF la_run.hyps(1)] by (auto simp: la_ok_def same_run_def)
qed (auto simp: la_ok_def la_disable_def stop_audio_sharing_def)

lemma la_reachable_ok: "la_reachable L \<Longrightarrow> la_ok L"
proof (induction rule: la_reachable.induct)
  case (la_new addr ep node sid name)
  have "\<not> locked (new_engine addr node sid name)" "\<not> shut_down (new_engine addr node sid name)"
    by (simp_all add: new_engine_def)
  then show ?case by (simp add: la_ok_def new_link_audio_def)
qed (simp add: la_ok_step)

section \<open>Received audio on the beat grid\<close>

definition duration_in_beats :: "buffer_info \<Rightarrow> f64" where
  "duration_in_beats info =
     (if bi_rate info = 0 \<or> f64_le (bi_tempo info) (Fin 0) then Fin 0
      else f64_div (f64_mul (f64_div (f64_of_int (int (bi_frames info))) (f64_of_int (uint (bi_rate info)))) (bi_tempo info)) (Fin 60))"

definition begin_beats :: "ext \<Rightarrow> buffer_info \<Rightarrow> timeline \<Rightarrow> f64 \<Rightarrow> f64 option" where
  "begin_beats E info line quantum =
     Some (beats_floating (beat_at_global_beat E line (beats_new (bi_beat_time info)) (beats_new quantum)))"

definition end_beats :: "ext \<Rightarrow> buffer_info \<Rightarrow> timeline \<Rightarrow> f64 \<Rightarrow> f64 option" where
  "end_beats E info line quantum =
     map_option (\<lambda>b. f64_add b (duration_in_beats info)) (begin_beats E info line quantum)"





text \<open>The beginnings of the chunks in a stream: the number of samples before the chunk, and its beat, tempo and session.\<close>

type_synonym chunk_mark = "nat \<times> beats \<times> tempo \<times> node_id"

fun chunk_marks :: "node_id \<Rightarrow> nat \<Rightarrow> nat \<Rightarrow> chunk list \<Rightarrow> chunk_mark list" where
  "chunk_marks sid ofs n [] = []"
| "chunk_marks sid ofs n (c # cs) = (ofs, ch_begin c, ch_tempo c, sid) # chunk_marks sid (ofs + unat (ch_frames c) * n) n cs"

fun block_marks :: "nat \<Rightarrow> block list \<Rightarrow> chunk_mark list" where
  "block_marks ofs [] = []"
| "block_marks ofs (bl # bls) =
     chunk_marks (bl_session bl) ofs (bl_channels bl) (bl_chunks bl) @ block_marks (ofs + length (bl_samples bl)) bls"


lemma chunk_marks_append [simp]:
  "chunk_marks sid ofs n (cs @ ds) = chunk_marks sid ofs n cs @ chunk_marks sid (ofs + frames_sum cs * n) n ds"
  by (induction cs arbitrary: ofs) (simp_all add: algebra_simps)

lemma chunk_marks_count [simp]: "chunk_marks sid ofs n (count_frame cs) = chunk_marks sid ofs n cs"
  by (cases cs rule: rev_cases) (simp_all add: count_frame_def)


lemma block_marks_append [simp]:
  "block_marks ofs (as @ bs) = block_marks ofs as @ block_marks (ofs + length (concat (map bl_samples as))) bs"
  by (induction as arbitrary: ofs) (simp_all add: add.assoc)















section \<open>Properties\<close>

text \<open>C39: No change of the channels goes unnoticed. However threads register callbacks, notify, run callbacks that
  call back or panic, at most one callback runs at a time; and once no thread is left in the notification code
  and a callback is installed, a call was started after the last change that was accepted.\<close>

theorem channel_changes_noticed:
  assumes "cn_reachable N"
  shows "length (active N) \<le> 1
       \<and> (draining N = 0 \<and> active N = [] \<and> \<not> cn_closed N \<and> cn_callback N \<noteq> None \<and> 0 < marks N
            \<longrightarrow> marks N \<in> snd ` set (call_log N))"
  using cn_reachable_ok [OF assms] by (auto simp: cn_ok_def split: if_splits)

definition sample_notified :: channel_notifications where
  "sample_notified = drain_take (drain_drop 0 (drain_call 0 (drain_take (cn_notify (drain_take (cn_set 7 new_notifications))))))"

theorem channel_changes_noticed_witness: "marks sample_notified = 1 \<and> marks sample_notified \<in> snd ` set (call_log sample_notified)"
proof -
  note d = cn_set_def cn_notify_def new_notifications_def drain_take_def drain_call_def drain_drop_def
  have "cn_reachable sample_notified"
    unfolding sample_notified_def
    by (intro cn_next [OF _ cn_take] cn_next [OF _ cn_drop] cn_next [OF _ cn_call] cn_next [OF _ cn_notify] cn_next [OF _ cn_set] cn_new)
      (simp_all add: d)
  moreover have "draining sample_notified = 0" "active sample_notified = []" "\<not> cn_closed sample_notified"
    "cn_callback sample_notified \<noteq> None" "marks sample_notified = 1"
    by (simp_all add: sample_notified_def d)
  ultimately show ?thesis using channel_changes_noticed [of sample_notified] by simp
qed

text \<open>Audio is shared exactly while the application wants it and Link is enabled. After any sequence of calls, with
  the tasks of the engine in between, the audio endpoint is announced, the engine is active and its peers are
  synchronised under the current epoch if and only if sharing was requested and Link is enabled; otherwise the engine has no
  peers.\<close>

theorem audio_sharing_follows_link:
  assumes "la_reachable L"
  shows "(sharing_active (la_engine L) \<longleftrightarrow> by_user L \<and> la_enabled L)
       \<and> la_announced L = (if by_user L \<and> la_enabled L then Some (la_endpoint L) else None)
       \<and> la_task L = (if by_user L \<and> la_enabled L then Some (sync_epoch (la_engine L)) else None)
       \<and> send_epoch (la_engine L) = la_task L
       \<and> (\<not> (by_user L \<and> la_enabled L) \<longrightarrow> es_peers (est (la_engine L)) = [])"
  using la_reachable_ok [OF assms] by (auto simp: la_ok_def)

theorem audio_sharing_follows_link_witness:
  "la_announced (la_enable (enable_link_audio True (new_link_audio 7 (9, 20808) (replicate 8 1) (replicate 8 2) [65]))) = Some (9, 20808)"
proof -
  let ?L = "la_enable (enable_link_audio True (new_link_audio 7 (9, 20808) (replicate 8 1) (replicate 8 2) [65]))"
  have "la_reachable ?L" by (intro la_next [OF _ la_on] la_next [OF _ la_audio] la_new)
  moreover have "by_user ?L" "la_enabled ?L" "la_endpoint ?L = (9, 20808)"
    by (simp_all add: la_enable_def enable_link_audio_def update_is_link_audio_enabled_def begin_peer_sync_def Let_def)
      (simp_all add: new_link_audio_def)
  ultimately show ?thesis using audio_sharing_follows_link [of ?L] by simp
qed








end
