(* ===== verification/ClientApi.thy ===== *)
theory ClientApi
  imports Phase Sessions
begin

text \<open>
  The session state an application edits: \<open>SessionState\<close> of \<open>src/link/mod.rs\<close>, with the client state of
  \<open>src/link/state.rs\<close> it is captured from and the edit it is turned into when it is committed. An edit carries
  a timeline or a start/stop state only if the application changed it.
\<close>

section \<open>Data\<close>

record client_state =
  cl_timeline :: timeline
  timeline_session_id :: session_id
  cl_start_stop :: client_start_stop_state

record incoming_client_state =
  in_timeline :: "timeline option"
  in_start_stop :: "client_start_stop_state option"
  timeline_timestamp :: duration

record api_start_stop_state =
  api_is_playing :: bool
  api_time :: duration

record api_state =
  api_timeline :: timeline
  api_session_id :: session_id
  api_start_stop :: api_start_stop_state

record session_state =
  original_state :: api_state
  state :: api_state
  respect_quantum :: bool
  origin :: "session_edit_origin option"

section \<open>Operations\<close>

definition to_session_state :: "client_state \<Rightarrow> session_state" where
  "to_session_state c =
     (let s = \<lparr>api_timeline = cl_timeline c, api_session_id = timeline_session_id c,
               api_start_stop = \<lparr>api_is_playing = c_is_playing (cl_start_stop c),
                                  api_time = c_time (cl_start_stop c)\<rparr>\<rparr>
      in \<lparr>original_state = s, state = s, respect_quantum = True, origin = None\<rparr>)"

definition to_incoming_client_state :: "api_state \<Rightarrow> api_state \<Rightarrow> duration \<Rightarrow> incoming_client_state" where
  "to_incoming_client_state s original now =
     \<lparr>in_timeline = (if \<not> timeline_eq (api_timeline original) (api_timeline s) then Some (api_timeline s) else None),
      in_start_stop = (if api_start_stop original \<noteq> api_start_stop s
        then Some \<lparr>c_is_playing = api_is_playing (api_start_stop s), c_time = api_time (api_start_stop s),
                   c_timestamp = now\<rparr> else None),
      timeline_timestamp = now\<rparr>"

text \<open>The edited timeline of a state.\<close>

abbreviation tline_of :: "session_state \<Rightarrow> timeline" where
  "tline_of s \<equiv> api_timeline (state s)"

definition with_timeline :: "timeline \<Rightarrow> session_state \<Rightarrow> session_state" where
  "with_timeline t s = s\<lparr>state := (state s)\<lparr>api_timeline := t\<rparr>\<rparr>"

definition get_tempo :: "session_state \<Rightarrow> f64" where
  "get_tempo s = bpm (tempo (tline_of s))"

definition set_tempo :: "ext \<Rightarrow> f64 \<Rightarrow> duration \<Rightarrow> session_state \<Rightarrow> session_state" where
  "set_tempo E b at_time s =
     (let new = tempo (clamp_tempo ((tline_of s)\<lparr>tempo := Tempo b\<rparr>))
      in if tempo_eq new (tempo (tline_of s)) then s
         else
           let difference = sat_sub (mb (beat_origin (tline_of s))) (microbeats_at E (tline_of s) at_time);
               torigin = duration_from_nanos E (sat_add (duration_nanos E at_time)
                           (nanos_from_microbeats new difference))
           in with_timeline \<lparr>tempo = new, beat_origin = beat_origin (tline_of s), time_origin = torigin\<rparr> s)"

definition beat_at_time :: "ext \<Rightarrow> duration \<Rightarrow> f64 \<Rightarrow> session_state \<Rightarrow> f64" where
  "beat_at_time E time quantum s =
     beats_floating (to_phase_encoded_beats E (tline_of s) time (beats_new quantum))"

definition phase_at_time :: "ext \<Rightarrow> duration \<Rightarrow> f64 \<Rightarrow> session_state \<Rightarrow> f64" where
  "phase_at_time E time quantum s =
     beats_floating (phase (beats_new (beat_at_time E time quantum s)) (beats_new quantum))"

definition time_at_beat :: "ext \<Rightarrow> f64 \<Rightarrow> f64 \<Rightarrow> session_state \<Rightarrow> duration" where
  "time_at_beat E beat quantum s =
     from_phase_encoded_beats E (tline_of s) (beats_new beat) (beats_new quantum)"

definition force_beat_at_time :: "ext \<Rightarrow> f64 \<Rightarrow> duration \<Rightarrow> f64 \<Rightarrow> session_state \<Rightarrow> session_state" where
  "force_beat_at_time E beat time quantum s =
     (let s = with_timeline
                (force_beat_at_time_impl E (tline_of s) (beats_new beat) time (beats_new quantum)) s
      in if f64_lt beat (beat_at_time E time quantum s)
         then with_timeline
                (force_beat_at_time_impl E (tline_of s) (beats_new beat)
                   (duration_from_nanos E (duration_nanos E time + 1000)) (beats_new quantum)) s
         else s)"

definition request_beat_at_time :: "ext \<Rightarrow> f64 \<Rightarrow> duration \<Rightarrow> f64 \<Rightarrow> session_state \<Rightarrow> session_state" where
  "request_beat_at_time E beat time quantum s =
     (let time = (if respect_quantum s
                  then time_at_beat E
                         (beats_floating (next_phase_match (beats_new (beat_at_time E time quantum s))
                            (beats_new beat) (beats_new quantum))) quantum s
                  else time)
      in force_beat_at_time E beat time quantum s)"

definition set_is_playing :: "bool \<Rightarrow> duration \<Rightarrow> session_state \<Rightarrow> session_state" where
  "set_is_playing playing time s =
     s\<lparr>state := (state s)\<lparr>api_start_stop := \<lparr>api_is_playing = playing, api_time = time\<rparr>\<rparr>\<rparr>"

definition request_beat_at_start_playing_time :: "ext \<Rightarrow> f64 \<Rightarrow> f64 \<Rightarrow> session_state \<Rightarrow> session_state" where
  "request_beat_at_start_playing_time E beat quantum s =
     (if api_is_playing (api_start_stop (state s))
      then request_beat_at_time E beat (api_time (api_start_stop (state s))) quantum s else s)"

definition set_is_playing_and_request_beat_at_time ::
  "ext \<Rightarrow> bool \<Rightarrow> duration \<Rightarrow> f64 \<Rightarrow> f64 \<Rightarrow> session_state \<Rightarrow> session_state" where
  "set_is_playing_and_request_beat_at_time E playing time beat quantum s =
     request_beat_at_start_playing_time E beat quantum (set_is_playing playing time s)"

section \<open>Lemmas\<close>

lemma tline_with_timeline [simp]: "tline_of (with_timeline t s) = t"
  by (simp add: with_timeline_def)

lemma timeline_eq_refl: "\<not> is_nan (tempo_value (tempo t)) \<Longrightarrow> timeline_eq t t"
  by (cases "tempo_value (tempo t)") (simp_all add: timeline_eq_def tempo_eq_def)

text \<open>A new tempo with the time origin chosen so that the beat at \<open>at_time\<close> stays.\<close>

lemma retempo_keeps_beat:
  assumes E: "chrono_ok E" and at: "valid_dur E at_time" and orig: "valid_dur E (time_origin tline)"
    and p: "period_micros (tempo tline) \<noteq> 0" and q: "1000 \<le> \<bar>period_micros new\<bar>"
    and room: "valid_dur E (at_time + round_ratio ((mb (beat_origin tline) - microbeats_at E tline at_time)
                                          * period_micros new) 1000)"
  defines "difference \<equiv> sat_sub (mb (beat_origin tline)) (microbeats_at E tline at_time)"
  defines "torigin \<equiv> duration_from_nanos E (sat_add (duration_nanos E at_time) (nanos_from_microbeats new difference))"
  shows "microbeats_at E \<lparr>tempo = new, beat_origin = beat_origin tline, time_origin = torigin\<rparr> at_time
           = microbeats_at E tline at_time"
    and "torigin = at_time + round_ratio ((mb (beat_origin tline) - microbeats_at E tline at_time)
                                          * period_micros new) 1000"
proof -
  let ?d = "mb (beat_origin tline) - microbeats_at E tline at_time" and ?p = "period_micros new"
  define e where "e = round_ratio (?d * ?p) 1000"
  have d: "?d = - round_ratio ((at_time - time_origin tline) * 1000) (period_micros (tempo tline))"
    using microbeats_at_exact [OF E at orig p] by simp
  have "in_i128 (round_ratio ((time_origin tline - at_time) * 1000) (period_micros (tempo tline)))"
    by (rule microbeats_range(1) [OF E orig at p])
  moreover have "(time_origin tline - at_time) * 1000 = - ((at_time - time_origin tline) * 1000)" by simp
  ultimately have di: "in_i128 ?d" unfolding d by (simp only: round_ratio_minus [OF p])
  then have diff: "difference = ?d" by (simp add: difference_def)
  have vt: "valid_dur E (at_time + e)" using room by (simp add: e_def)
  have ei: "in_i128 e" "in_i128 (at_time + e)"
    using time_range(1) [OF E vt at] time_range(1) [OF E vt, of 0] E by (simp_all add: valid_dur_def chrono_laws)
  have nb: "nanos_from_microbeats new ?d = e"
    using ei(1) by (simp add: nanos_from_microbeats_exact e_def)
  show o: "torigin = at_time + round_ratio (?d * ?p) 1000"
    using ei vt at E by (simp add: torigin_def diff nb e_def [symmetric] duration_from_nanos_id)
  have "?p \<noteq> 0" using q by auto
  then have "microbeats_at E \<lparr>tempo = new, beat_origin = beat_origin tline, time_origin = torigin\<rparr> at_time
      = round_ratio ((at_time - torigin) * 1000) ?p + mb (beat_origin tline)"
    using microbeats_at_exact [OF E at, of "\<lparr>tempo = new, beat_origin = beat_origin tline, time_origin = torigin\<rparr>"] o vt
    by (simp add: e_def)
  also have "(at_time - torigin) * 1000 = - (e * 1000)" by (simp add: o e_def)
  also have "round_ratio (- (e * 1000)) ?p = - ?d"
    unfolding round_ratio_minus [OF \<open>?p \<noteq> 0\<close>] e_def using round_ratio_1000_inverse [OF q] by simp
  finally show "microbeats_at E \<lparr>tempo = new, beat_origin = beat_origin tline, time_origin = torigin\<rparr> at_time
           = microbeats_at E tline at_time" by simp
qed

section \<open>Properties\<close>

text \<open>Changing the tempo does not make the beat jump. After \<open>set_tempo\<close> the timeline shows, at the
  time of the change, exactly the beat it showed before, the beat origin is kept, and the tempo is the requested one
  clamped to 20 to 999 bpm; a request that normalises to the current tempo changes nothing at all.\<close>

theorem set_tempo_keeps_beat:
  assumes "chrono_ok E" and "valid_dur E at_time" and "valid_dur E (time_origin (tline_of s))"
    and "period_micros (tempo (tline_of s)) \<noteq> 0"
    and "valid_dur E (at_time
           + round_ratio ((mb (beat_origin (tline_of s)) - microbeats_at E (tline_of s) at_time)
               * period_micros (tempo (clamp_tempo ((tline_of s)\<lparr>tempo := Tempo b\<rparr>)))) 1000)"
  shows "microbeats_at E (tline_of (set_tempo E b at_time s)) at_time = microbeats_at E (tline_of s) at_time
       \<and> beat_origin (tline_of (set_tempo E b at_time s)) = beat_origin (tline_of s)
       \<and> tempo_eq (tempo (tline_of (set_tempo E b at_time s)))
           (tempo (clamp_tempo ((tline_of s)\<lparr>tempo := Tempo b\<rparr>)))"
proof -
  let ?new = "tempo (clamp_tempo ((tline_of s)\<lparr>tempo := Tempo b\<rparr>))"
  have q: "1000 \<le> \<bar>period_micros ?new\<bar>"
    using clamped_period(1) [of "(tline_of s)\<lparr>tempo := Tempo b\<rparr>"] by simp
  have refl: "tempo_eq ?new ?new"
    using clamp_tempo_range [of "(tline_of s)\<lparr>tempo := Tempo b\<rparr>"] by (auto simp: tempo_eq_def)
  show ?thesis
  proof (cases "tempo_eq ?new (tempo (tline_of s))")
    case True
    then have "tempo_eq (tempo (tline_of s)) ?new"
      using clamp_tempo_range [of "(tline_of s)\<lparr>tempo := Tempo b\<rparr>"]
      by (cases "tempo_value (tempo (tline_of s))") (auto simp: tempo_eq_def is_zero_def)
    with True show ?thesis by (simp add: set_tempo_def Let_def)
  next
    case False
    then show ?thesis
      using retempo_keeps_beat(1) [OF assms(1-4) q assms(5)] refl by (simp add: set_tempo_def Let_def)
  qed
qed

lemma clamp_60: "tempo (clamp_tempo \<lparr>tempo = Tempo (Fin 60), beat_origin = b, time_origin = t\<rparr>) = Tempo (Fin 60)"
  by (simp add: clamp_tempo_def f64_clamp_def bpm_def)

lemma period_60 [simp]: "period_micros (Tempo (Fin 60)) = 1000000"
proof -
  have "f64_div (f64_mul (Fin 60) (Fin 1000000)) (Fin 60) = Fin 1000000"
    using round_f64_int [of 60000000 False] round_f64_int [of 1000000 False]
    by (simp add: f64_mul_def f64_div_def is_zero_def is_finite_def)
  then show ?thesis by (simp add: period_micros_def bpm_def clamp_def)
qed

theorem set_tempo_keeps_beat_witness:
  "microbeats_at std_ext (tline_of (set_tempo std_ext (Fin 60) 2000000000
      (to_session_state \<lparr>cl_timeline = \<lparr>tempo = Tempo (Fin 120), beat_origin = Beats 0, time_origin = 0\<rparr>,
         timeline_session_id = replicate 8 1, cl_start_stop = default_client_start_stop\<rparr>))) 2000000000
   = 4000000"
proof -
  let ?t = "\<lparr>tempo = Tempo (Fin 120), beat_origin = Beats 0, time_origin = 0\<rparr>"
  let ?s = "to_session_state \<lparr>cl_timeline = ?t, timeline_session_id = replicate 8 1,
      cl_start_stop = default_client_start_stop\<rparr>"
  have tl: "tline_of ?s = ?t" by (simp add: to_session_state_def Let_def)
  have v: "valid_dur std_ext 2000000000" "valid_dur std_ext (- 2000000000)" "valid_dur std_ext 0"
    by (simp_all add: valid_dur_def std_ext_def)
  have m: "microbeats_at std_ext ?t 2000000000 = 4000000"
    using microbeats_at_exact [of std_ext 2000000000 ?t] v by (simp add: round_ratio_closed)
  have "microbeats_at std_ext (tline_of (set_tempo std_ext (Fin 60) 2000000000 ?s)) 2000000000
      = microbeats_at std_ext (tline_of ?s) 2000000000"
    using set_tempo_keeps_beat [of std_ext 2000000000 ?s "Fin 60"] v m
    by (simp add: tl clamp_60 round_ratio_closed)
  then show ?thesis by (simp only: tl m)
qed

text \<open>Forcing a beat through the API. The timeline afterwards shows the requested beat, rounded to microbeats, at
  the requested time; only when that rounding makes the beat larger than the double the caller
  asked for is the timeline placed one microsecond later, so that no caller sees a beat beyond the one it
  forced.\<close>

theorem force_beat_through_api:
  assumes "chrono_ok E" and "valid_dur E time" and "valid_dur E (time + 1000)"
    and "1000 \<le> \<bar>period_micros (tempo (tline_of s))\<bar>"
    and "in_i64 (mb (beats_new beat) - phase_wide (mb (beats_new beat)) (mb (beats_new quantum)))"
    and "valid_dur E (time - round_ratio (phase_wide (mb (beats_new beat)) (mb (beats_new quantum))
                               * period_micros (tempo (tline_of s))) 1000)"
    and "valid_dur E (time + 1000 - round_ratio (phase_wide (mb (beats_new beat)) (mb (beats_new quantum))
                               * period_micros (tempo (tline_of s))) 1000)"
  shows "to_phase_encoded_beats E (tline_of (force_beat_at_time E beat time quantum s))
           (if f64_lt beat (beats_floating (beats_new beat)) then time + 1000 else time) (beats_new quantum)
           = beats_new beat
       \<and> tempo (tline_of (force_beat_at_time E beat time quantum s)) = tempo (tline_of s)"
proof -
  let ?f = "\<lambda>t. force_beat_at_time_impl E t (beats_new beat)" and ?q = "beats_new quantum"
  note A = force_beat_at_time_exact [OF assms(1,2,4,5,6)]
  have enc: "to_phase_encoded_beats E (?f (tline_of s) time ?q) time ?q = beats_new beat"
    using A(1) by (simp add: to_phase_encoded_beats_def)
  have d: "duration_from_nanos E (duration_nanos E time + 1000) = time + 1000" using assms(1-3) by simp
  have B: "to_phase_encoded_microbeats E (?f (?f (tline_of s) time ?q) (time + 1000) ?q) (time + 1000) ?q
        = mb (beats_new beat)"
    "tempo (?f (?f (tline_of s) time ?q) (time + 1000) ?q) = tempo (tline_of s)"
    using force_beat_at_time_exact [OF assms(1,3), of "?f (tline_of s) time ?q" "beats_new beat" ?q] A(2) assms(4,5,7)
    by simp_all
  show ?thesis
    using enc A(2) B d by (simp add: force_beat_at_time_def Let_def beat_at_time_def to_phase_encoded_beats_def)
qed

theorem force_beat_through_api_witness:
  "to_phase_encoded_beats std_ext (tline_of (force_beat_at_time std_ext (Fin 6) 1000000007 (Fin 4)
      (to_session_state \<lparr>cl_timeline = \<lparr>tempo = Tempo (Fin 120), beat_origin = Beats 17, time_origin = 0\<rparr>,
         timeline_session_id = replicate 8 1, cl_start_stop = default_client_start_stop\<rparr>)))
     1000000007 (Beats 4000000) = Beats 6000000"
proof -
  let ?t = "\<lparr>tempo = Tempo (Fin 120), beat_origin = Beats 17, time_origin = 0\<rparr>"
  let ?s = "to_session_state \<lparr>cl_timeline = ?t, timeline_session_id = replicate 8 1,
      cl_start_stop = default_client_start_stop\<rparr>"
  have tl: "tline_of ?s = ?t" by (simp add: to_session_state_def Let_def)
  have b: "beats_new (Fin 6) = Beats 6000000" "beats_new (Fin 4) = Beats 4000000"
    using round_f64_int [of 6000000 False] round_f64_int [of 4000000 False]
    by (simp_all add: beats_new_def f64_mul_def is_zero_def is_finite_def clamp_def)
  have "beats_floating (Beats 6000000) = Fin 6"
    using f64_of_int_exact [of 6000000] round_f64_int [of 6 False]
    by (simp add: beats_floating_def f64_div_def is_zero_def is_finite_def)
  then have f: "\<not> f64_lt (Fin 6) (beats_floating (beats_new (Fin 6)))" by (simp add: b)
  have ph: "phase_wide 6000000 4000000 = 2000000" by (simp add: phase_wide_def)
  show ?thesis
    using force_beat_through_api [of std_ext 1000000007 ?s "Fin 6" "Fin 4"] f
    by (simp add: tl b ph round_ratio_closed in_i64_def)
qed

end
