(* ===== verification/Peers.thy ===== *)
theory Peers
  imports Sessions
begin

text \<open>
  The registry of peers: \<open>src/discovery/peers.rs\<close>. An announcement adds or replaces a peer and yields
  the list of changes its consumers are told about; a goodbye or a timeout removes it. Every
  action on the registry also retires the candidate sessions that no peer is in any more. The
  second half composes the registry with the sessions: every operation of both is a step of one
  transition relation.
\<close>

section \<open>Data\<close>

datatype peer_state_change =
    SessionMembershipChange
  | SessionTimeline session_id timeline
  | SessionStartStopState session_id timeline start_stop_state
  | PeerLeft
  | AudioEndpoint node_id "socket_v4 option"

record peer_state_message =
  msg_node_state :: node_state
  msg_ttl :: u8
  expires_at :: "duration option"
  msg_measurement_endpoint :: "socket_v4 option"
  msg_audio_endpoint :: "socket_v4 option"

definition peer_ident :: "controller_peer \<Rightarrow> node_id" where
  "peer_ident p = node_id (node_state (peer p))"

definition peer_session :: "controller_peer \<Rightarrow> session_id" where
  "peer_session p = session_id (node_state (peer p))"

definition count_session_peers :: "session_id \<Rightarrow> controller_peer list \<Rightarrow> node_id \<Rightarrow> nat" where
  "count_session_peers sid ps self =
     card (set (map peer_ident (filter (\<lambda>p. peer_session p = sid \<and> peer_ident p \<noteq> self) ps)))"

section \<open>The registry\<close>

text \<open>
  One announcement. \<open>expired\<close> is the answer of the last look at the deadline, just before the
  registry changes.
\<close>

definition apply_peer ::
  "peer_state \<Rightarrow> controller_peer list \<Rightarrow> node_id \<Rightarrow> bool \<Rightarrow> controller_peer list \<times> peer_state_change list" where
  "apply_peer state ps self expired =
     (let ident = node_id (node_state state); sid = session_id (node_state state);
          tline = timeline (node_state state); ss = start_stop_state (node_state state)
      in if ident = self then (ps, [])
         else
           let timeline_changed = (\<not> (\<exists>p\<in>set ps. peer_session p = sid
                 \<and> timeline_eq (timeline (node_state (peer p))) tline));
               start_stop_changed = (\<not> (\<exists>p\<in>set ps. peer_session p = sid
                 \<and> timeline_eq (timeline (node_state (peer p))) tline
                 \<and> start_stop_state (node_state (peer p)) = ss));
               previous = position (\<lambda>p. peer_ident p = ident) ps;
               membership_changed = (case previous of None \<Rightarrow> True | Some i \<Rightarrow> peer_session (ps ! i) \<noteq> sid);
               audio_changed = (case previous of None \<Rightarrow> True
                 | Some i \<Rightarrow> audio_endpoint (peer (ps ! i)) \<noteq> audio_endpoint state);
               changes = (if timeline_changed then [SessionTimeline sid tline] else [])
                 @ (if timeline_changed \<or> start_stop_changed then [SessionStartStopState sid tline ss] else [])
                 @ (if membership_changed then [SessionMembershipChange] else [])
                 @ (if audio_changed then [AudioEndpoint ident (audio_endpoint state)] else [])
           in if expired then (ps, [])
              else (case previous of
                      Some i \<Rightarrow> ps[i := \<lparr>peer = state\<rparr>]
                    | None \<Rightarrow> ps @ [\<lparr>peer = state\<rparr>], changes))"

definition remove_peer :: "node_id \<Rightarrow> controller_peer list \<Rightarrow> controller_peer list \<times> peer_state_change list" where
  "remove_peer node ps =
     (let ps' = filter (\<lambda>p. peer_ident p \<noteq> node) ps
      in (ps', if length ps \<noteq> length ps' then [PeerLeft] else []))"

definition retain_live_sessions :: "session \<Rightarrow> session list \<Rightarrow> session_id list \<Rightarrow> session list" where
  "retain_live_sessions cur others live =
     filter (\<lambda>s. key_matches (session_key_of s) cur \<or> se_id s \<in> set live) others"

text \<open>An action on the registry under the locks of the sessions.\<close>

definition with_observer_state ::
  "(controller_peer list \<Rightarrow> controller_peer list \<times> 'r) \<Rightarrow> sessions \<Rightarrow> sessions \<times> 'r" where
  "with_observer_state action S =
     (case action (peers S) of (ps, r) \<Rightarrow>
        (S\<lparr>other_sessions := retain_live_sessions (current S) (other_sessions S) (map peer_session ps),
            peers := ps\<rparr>, r))"

text \<open>
  A gateway announcement: expired ones and those whose ingress is gone are dropped, a time to live of zero is
  a goodbye. \<open>expired1\<close>, \<open>expired2\<close> and \<open>expired3\<close> are the successive looks at the deadline, \<open>live\<close> tells
  whether the observation is still the one its ingress owns.
\<close>

definition observed_peer ::
  "peer_state_message \<Rightarrow> node_id \<Rightarrow> bool \<Rightarrow> bool \<Rightarrow> bool \<Rightarrow> bool \<Rightarrow> sessions
     \<Rightarrow> sessions \<times> peer_state_change list" where
  "observed_peer msg self expired1 live expired2 expired3 S =
     with_observer_state (\<lambda>ps.
       if msg_ttl msg > 0 \<and> expired1 then (ps, [])
       else if \<not> live then (ps, [])
       else if msg_ttl msg > 0 \<and> expired2 then (ps, [])
       else if msg_ttl msg = 0 then remove_peer (node_id (msg_node_state msg)) ps
       else apply_peer \<lparr>node_state = msg_node_state msg, measurement_endpoint = msg_measurement_endpoint msg,
                        audio_endpoint = msg_audio_endpoint msg\<rparr> ps self expired3) S"

definition saw_peer :: "peer_state \<Rightarrow> node_id \<Rightarrow> sessions \<Rightarrow> sessions \<times> peer_state_change list" where
  "saw_peer state self S = with_observer_state (\<lambda>ps. apply_peer state ps self False) S"

definition peer_left :: "node_id \<Rightarrow> sessions \<Rightarrow> sessions \<times> peer_state_change list" where
  "peer_left node S = with_observer_state (remove_peer node) S"

definition set_session_timeline :: "session_id \<Rightarrow> timeline \<Rightarrow> sessions \<Rightarrow> sessions" where
  "set_session_timeline sid tline S =
     S\<lparr>peers := map (\<lambda>p. if peer_session p = sid
          then p\<lparr>peer := (peer p)\<lparr>node_state := (node_state (peer p))\<lparr>timeline := tline\<rparr>\<rparr>\<rparr> else p) (peers S)\<rparr>"

definition forget_session :: "session_id \<Rightarrow> sessions \<Rightarrow> sessions" where
  "forget_session sid S = fst (with_observer_state (\<lambda>ps. (filter (\<lambda>p. peer_session p \<noteq> sid) ps, ())) S)"

definition reset_peers :: "sessions \<Rightarrow> sessions" where
  "reset_peers S = fst (with_observer_state (\<lambda>ps. ([], ())) S)"

section \<open>The registry as a map\<close>

text \<open>
  A registry keyed by identifiers: adding and removing entries, looking one up, and the invariant that the
  two operations keep.
\<close>

locale registry =
  fixes put :: "'v \<Rightarrow> 's \<Rightarrow> 's" and del :: "'k \<Rightarrow> 's \<Rightarrow> 's" and look :: "'s \<Rightarrow> 'k \<rightharpoonup> 'v"
    and ident_of :: "'v \<Rightarrow> 'k" and admits :: "'v \<Rightarrow> bool" and ok :: "'s \<Rightarrow> bool"
  assumes look_put: "ok s \<Longrightarrow> admits v \<Longrightarrow> look (put v s) = (look s)(ident_of v \<mapsto> v)"
    and put_refused: "\<not> admits v \<Longrightarrow> put v s = s"
    and look_del: "ok s \<Longrightarrow> look (del k s) = (look s)(k := None)"
    and ok_put: "ok s \<Longrightarrow> ok (put v s)" and ok_del: "ok s \<Longrightarrow> ok (del k s)"
begin

text \<open>A run of operations, \<open>Inl\<close> to add an entry and \<open>Inr\<close> to remove a key, is the run on the map.\<close>

lemma run_look:
  assumes "ok s"
  shows "ok (fold (case_sum put del) es s)
    \<and> look (fold (case_sum put del) es s)
        = fold (case_sum (\<lambda>v m. if admits v then m(ident_of v \<mapsto> v) else m) (\<lambda>k m. m(k := None))) es (look s)"
  using assms
proof (induction es arbitrary: s)
  case (Cons e es)
  have "ok (case_sum put del e s)" using Cons.prems by (simp add: ok_put ok_del split: sum.split)
  moreover have "look (case_sum put del e s)
      = case_sum (\<lambda>v m. if admits v then m(ident_of v \<mapsto> v) else m) (\<lambda>k m. m(k := None)) e (look s)"
    using Cons.prems by (simp add: look_put look_del put_refused split: sum.split)
  ultimately show ?case using Cons.IH by simp
qed simp

end

definition registry_ok :: "controller_peer list \<Rightarrow> bool" where
  "registry_ok ps \<longleftrightarrow> distinct (map peer_ident ps)"

definition lookup_peer :: "controller_peer list \<Rightarrow> node_id \<Rightarrow> peer_state option" where
  "lookup_peer ps i = map_of (map (\<lambda>p. (peer_ident p, peer p)) ps) i"

text \<open>An announcement in time from another node, and a goodbye, as operations of a registry.\<close>

definition put_peer :: "node_id \<Rightarrow> peer_state \<Rightarrow> controller_peer list \<Rightarrow> controller_peer list" where
  "put_peer self state ps = fst (apply_peer state ps self False)"

definition del_peer :: "node_id \<Rightarrow> controller_peer list \<Rightarrow> controller_peer list" where
  "del_peer node ps = fst (remove_peer node ps)"

lemma put_peer_simp:
  "put_peer self state ps =
     (if node_id (node_state state) = self then ps
      else case position (\<lambda>p. peer_ident p = node_id (node_state state)) ps of
             Some i \<Rightarrow> ps[i := \<lparr>peer = state\<rparr>]
           | None \<Rightarrow> ps @ [\<lparr>peer = state\<rparr>])"
  by (simp add: put_peer_def apply_peer_def Let_def)

lemma map_ident_update:
  assumes "position (\<lambda>p. peer_ident p = node_id (node_state state)) ps = Some i"
  shows "map peer_ident (ps[i := \<lparr>peer = state\<rparr>]) = map peer_ident ps"
proof -
  have "peer_ident \<lparr>peer = state\<rparr> = map peer_ident ps ! i"
    using assms by (simp add: position_Some peer_ident_def)
  then show ?thesis by (simp add: map_update)
qed

lemma lookup_peer_nth:
  assumes "registry_ok ps" and "i < length ps"
  shows "lookup_peer ps (peer_ident (ps ! i)) = Some (peer (ps ! i))"
proof -
  have "(peer_ident (ps ! i), peer (ps ! i)) \<in> set (map (\<lambda>p. (peer_ident p, peer p)) ps)"
    using assms(2) by (auto intro: nth_mem)
  then show ?thesis
    unfolding lookup_peer_def using assms(1) by (intro map_of_is_SomeI) (simp_all add: registry_ok_def comp_def)
qed

lemma lookup_peer_update:
  assumes "i < length ps" and "registry_ok ps" and "peer_ident q = peer_ident (ps ! i)"
  shows "lookup_peer (ps[i := q]) = (lookup_peer ps)(peer_ident q \<mapsto> peer q)"
  using assms
proof (induction ps arbitrary: i)
  case (Cons p ps)
  then show ?case
  proof (cases i)
    case (Suc j)
    with Cons.prems have "lookup_peer (ps[j := q]) = (lookup_peer ps)(peer_ident q \<mapsto> peer q)"
      by (intro Cons.IH) (auto simp: registry_ok_def)
    moreover have "peer_ident p \<noteq> peer_ident q" using Cons.prems Suc by (auto simp: registry_ok_def)
    ultimately show ?thesis using Suc by (auto simp: lookup_peer_def fun_eq_iff)
  qed (auto simp: lookup_peer_def fun_eq_iff)
qed simp

lemma lookup_peer_append:
  "peer_ident q \<notin> set (map peer_ident ps) \<Longrightarrow> lookup_peer (ps @ [q]) = (lookup_peer ps)(peer_ident q \<mapsto> peer q)"
  by (induction ps) (auto simp: lookup_peer_def fun_eq_iff)

lemma lookup_peer_filter:
  "lookup_peer (filter (\<lambda>p. peer_ident p \<noteq> k) ps) = (lookup_peer ps)(k := None)"
  by (induction ps) (auto simp: lookup_peer_def fun_eq_iff)

text \<open>The node itself never gets into its registry, so an announcement of its own is no update.\<close>

lemma registry_put:
  assumes "registry_ok ps"
  shows "registry_ok (put_peer self state ps)"
    and "node_id (node_state state) \<noteq> self \<Longrightarrow>
           lookup_peer (put_peer self state ps) = (lookup_peer ps)(node_id (node_state state) \<mapsto> state)"
proof -
  have new: "position (\<lambda>p. peer_ident p = node_id (node_state state)) ps = None \<Longrightarrow>
      peer_ident \<lparr>peer = state\<rparr> \<notin> set (map peer_ident ps)"
    by (auto simp: position_None peer_ident_def)
  then show "registry_ok (put_peer self state ps)"
    using assms map_ident_update [of state ps]
    by (auto simp: put_peer_simp registry_ok_def split: option.split)
  assume "node_id (node_state state) \<noteq> self"
  then show "lookup_peer (put_peer self state ps) = (lookup_peer ps)(node_id (node_state state) \<mapsto> state)"
    using lookup_peer_append [OF new] lookup_peer_update [of _ ps "\<lparr>peer = state\<rparr>"] assms
    by (auto simp: put_peer_simp position_Some peer_ident_def split: option.split)
qed

lemma registry_del:
  assumes "registry_ok ps"
  shows "registry_ok (del_peer k ps)" and "lookup_peer (del_peer k ps) = (lookup_peer ps)(k := None)"
  using assms by (simp_all add: del_peer_def remove_peer_def Let_def lookup_peer_filter registry_ok_def distinct_map_filter)

lemma put_peer_self: "node_id (node_state state) = self \<Longrightarrow> put_peer self state ps = ps"
  by (simp add: put_peer_simp)

interpretation peer_registry: registry "put_peer self" del_peer lookup_peer "\<lambda>p. node_id (node_state p)"
  "\<lambda>p. node_id (node_state p) \<noteq> self" registry_ok for self
  by unfold_locales (auto simp: registry_put registry_del put_peer_self)

section \<open>Composition with the sessions\<close>

interpretation observer_op: session_op "\<lambda>S. fst (with_observer_state action S)" for action
  by unfold_locales
    (auto simp: with_observer_state_def retain_live_sessions_def split: prod.split
      intro!: sess_inv_others dest: sess_invD)

interpretation retimed_peers_op: session_op "set_session_timeline sid tline" for sid tline
  by unfold_locales (simp_all add: set_session_timeline_def sess_inv_def edit_step_def)

text \<open>Every operation of the sessions and of the registry.\<close>

inductive link_step :: "ext \<Rightarrow> sessions \<Rightarrow> sessions \<Rightarrow> bool" for E where
  sight: "link_step E S (fst (try_sighting sid tline slot S))"
| admit: "link_step E S (fst (admit_owned_request k after S))"
| decide: "link_step E S (fst (measurement_decide E k m now S))"
| commit: "link_step E S (fst (measurement_commit E k m now was_current S))"
| failed: "link_step E S (fst (handle_failed_measurement k S))"
| reset: "link_step E S (reset_session s S)"
| retime: "link_step E S (fst (reset_timeline k form tline S))"
| observed: "link_step E S (fst (observed_peer msg self expired1 live expired2 expired3 S))"
| saw: "link_step E S (fst (saw_peer state self S))"
| left: "link_step E S (fst (peer_left node S))"
| retime_peers: "link_step E S (set_session_timeline sid tline S)"
| forget: "link_step E S (forget_session sid S)"
| reset_all: "link_step E S (reset_peers S)"

lemma link_step_op: "link_step E S S' \<Longrightarrow> \<exists>f. session_op f \<and> S' = f S"
proof (induction rule: link_step.induct)
  case (observed S msg self expired1 live expired2 expired3)
  then show ?case unfolding observed_peer_def by (blast intro: observer_op.session_op_axioms)
next
  case (saw S state self)
  then show ?case unfolding saw_peer_def by (blast intro: observer_op.session_op_axioms)
next
  case (left S node)
  then show ?case unfolding peer_left_def by (blast intro: observer_op.session_op_axioms)
next
  case (forget S sid)
  then show ?case unfolding forget_session_def by (blast intro: observer_op.session_op_axioms)
next
  case (reset_all S)
  then show ?case unfolding reset_peers_def by (blast intro: observer_op.session_op_axioms)
qed (blast intro: sight_op.session_op_axioms admit_op.session_op_axioms decide_op.session_op_axioms
    commit_op.session_op_axioms failed_op.session_op_axioms reset_op.session_op_axioms
    retime_op.session_op_axioms retimed_peers_op.session_op_axioms)+

lemma link_steps_inv: "(link_step E)\<^sup>*\<^sup>* S S' \<Longrightarrow> sess_inv S \<Longrightarrow> sess_inv S'"
  by (induction rule: rtranclp_induct) (auto dest!: link_step_op intro: session_op.keeps_inv)

lemma link_steps_origin:
  assumes "(link_step E)\<^sup>*\<^sup>* S S'" and "\<not> origin_matches e (current S)" and "revision e < next_revision S"
  shows "\<not> origin_matches e (current S') \<and> revision e < next_revision S'"
  using assms by (induction rule: rtranclp_induct) (auto dest!: link_step_op dest: session_op.origin_stays_dead)

lemma link_steps_revisions: "(link_step E)\<^sup>*\<^sup>* S S' \<Longrightarrow> next_revision S \<le> next_revision S'"
proof (induction rule: rtranclp_induct)
  case (step T U)
  then obtain f where "session_op f" "U = f T" by (auto dest: link_step_op)
  then have "edit_step T U" using session_op.edits by blast
  with step show ?case by (simp add: edit_step_def)
qed simp

section \<open>Properties\<close>

text \<open>C20: The registry of peers implements a map from node identifiers to peer states: after any run of
  announcements and goodbyes it has one entry per identifier, and looking a node up gives its last
  announcement, or nothing if it left since; announcements with the node's own identifier are ignored.\<close>

theorem peer_registry_refines_map:
  "distinct (map peer_ident (fold (case_sum (put_peer self) del_peer) es []))
   \<and> lookup_peer (fold (case_sum (put_peer self) del_peer) es [])
       = fold (case_sum (\<lambda>p m. if node_id (node_state p) \<noteq> self then m(node_id (node_state p) \<mapsto> p) else m)
                 (\<lambda>k m. m(k := None))) es (\<lambda>_. None)"
proof -
  have "lookup_peer [] = (\<lambda>_. None)" by (simp add: lookup_peer_def fun_eq_iff)
  with peer_registry.run_look [of "[]" self es] show ?thesis by (simp add: registry_ok_def)
qed

text \<open>Announcements are edge-triggered: repeating the announcement of a node changes nothing and reports no
  change, whatever other peers there are.\<close>

theorem repeated_announcement_silent:
  assumes "\<not> is_nan (tempo_value (tempo (timeline (node_state state))))"
  shows "apply_peer state (fst (apply_peer state ps self False)) self False
           = (fst (apply_peer state ps self False), [])"
proof (cases "node_id (node_state state) = self")
  case False
  let ?p = "\<lparr>peer = state\<rparr>" and ?qs = "put_peer self state ps"
  have refl: "timeline_eq (timeline (node_state state)) (timeline (node_state state))"
    using assms by (cases "tempo_value (tempo (timeline (node_state state)))") (simp_all add: timeline_eq_def tempo_eq_def)
  have in_qs: "?p \<in> set ?qs"
    using False by (auto simp: put_peer_simp position_Some set_update_memI split: option.split)
  obtain i where i: "position (\<lambda>p. peer_ident p = node_id (node_state state)) ?qs = Some i" "?qs ! i = ?p"
  proof (cases "position (\<lambda>p. peer_ident p = node_id (node_state state)) ps")
    case None
    then have qs: "?qs = ps @ [?p]" using False by (simp add: put_peer_simp)
    have "position (\<lambda>p. peer_ident p = node_id (node_state state)) ?qs = Some (length ps)" "?qs ! length ps = ?p"
      using None unfolding qs by (auto simp: position_Some position_None nth_append peer_ident_def)
    with that show ?thesis .
  next
    case (Some i)
    then have qs: "?qs = ps[i := ?p]" using False by (simp add: put_peer_simp)
    have "position (\<lambda>p. peer_ident p = node_id (node_state state)) ?qs = Some i" "?qs ! i = ?p"
      using Some unfolding qs by (auto simp: position_Some peer_ident_def)
    with that show ?thesis .
  qed
  have "?qs[i := ?p] = ?qs" using i by (metis list_update_id)
  with i in_qs refl False show ?thesis
    by (auto simp: apply_peer_def [of state ?qs] put_peer_def [symmetric] Let_def peer_session_def intro!: bexI [of _ ?p])
qed (simp add: apply_peer_def)

theorem repeated_announcement_silent_witness:
  "snd (apply_peer \<lparr>node_state = \<lparr>node_id = replicate 8 1, session_id = replicate 8 9, timeline = default_timeline,
        start_stop_state = default_start_stop\<rparr>, measurement_endpoint = None, audio_endpoint = None\<rparr>
     (fst (apply_peer \<lparr>node_state = \<lparr>node_id = replicate 8 1, session_id = replicate 8 9, timeline = default_timeline,
        start_stop_state = default_start_stop\<rparr>, measurement_endpoint = None, audio_endpoint = None\<rparr>
       [] (replicate 8 2) False)) (replicate 8 2) False) = []"
  by (subst repeated_announcement_silent) (simp_all add: default_timeline_def)

text \<open>In every run of the session and registry operations, from a state that satisfies it, every known session
  has a tempo between 20 and 999 bpm and identities that were handed out before, so that a new session
  never shares its incarnation or its edit revision with a known one.\<close>

theorem sessions_invariant:
  assumes "(link_step E)\<^sup>*\<^sup>* S S'" and "sess_inv S"
  shows "\<forall>s\<in>set (current S' # other_sessions S').
           (\<exists>r. tempo (se_timeline s) = Tempo (Fin r) \<and> 20 \<le> r \<and> r \<le> 999)
         \<and> incarnation s < next_incarnation S' \<and> (\<forall>r. edit_revision s = Some r \<longrightarrow> r < next_revision S')"
  using link_steps_inv [OF assms] by (auto simp: sess_inv_def session_ok_def tempo_ok_def)

theorem sessions_invariant_witness:
  "incarnation (current (reset_peers (with_session \<lparr>incarnation = 0, edit_revision = None, se_id = replicate 8 1,
      se_timeline = clamp_tempo default_timeline, se_measurement = default_measurement\<rparr> 1 1))) < 1"
proof -
  let ?S = "with_session \<lparr>incarnation = 0, edit_revision = None, se_id = replicate 8 1,
      se_timeline = clamp_tempo default_timeline, se_measurement = default_measurement\<rparr> 1 1"
  have "sess_inv ?S" by (simp add: with_session_def sess_inv_def session_ok_def)
  moreover have "(link_step std_ext)\<^sup>*\<^sup>* ?S (reset_peers ?S)" by (rule r_into_rtranclp) (rule link_step.reset_all)
  moreover have "next_incarnation (reset_peers ?S) = 1" by (simp add: reset_peers_def with_observer_state_def with_session_def)
  ultimately show ?thesis using sessions_invariant [of std_ext ?S "reset_peers ?S"] by (metis list.set_intros(1))
qed

text \<open>A deferred edit is never applied to a session that changed in between. Once the origin captured
  from the current session stops matching the current session (another session was joined, or its timeline or
  mapping was edited), it does not match again in any later state, not even when the same
  session comes back with the same timeline and mapping.\<close>

theorem edit_origin_never_revives:
  assumes "sess_inv S" and "edit_origin (current S) = Some e"
    and "(link_step E)\<^sup>*\<^sup>* S T" and "\<not> origin_matches e (current T)" and "(link_step E)\<^sup>*\<^sup>* T U"
  shows "\<not> origin_matches e (current U)"
proof -
  have "revision e < next_revision S"
    using assms(1,2) sess_invD(1) [OF assms(1)] by (auto simp: edit_origin_def session_ok_def)
  then have "revision e < next_revision T" using link_steps_revisions [OF assms(3)] by simp
  with link_steps_origin [OF assms(5,4)] show ?thesis by simp
qed

theorem edit_origin_never_revives_witness:
  "\<not> origin_matches \<lparr>origin_session = replicate 8 1, revision = 1, origin_timeline = clamp_tempo default_timeline,
        mapping = default_xform\<rparr>
      (current (reset_peers (reset_session \<lparr>incarnation = 0, edit_revision = Some 1, se_id = replicate 8 1,
          se_timeline = clamp_tempo default_timeline, se_measurement = default_measurement\<rparr>
        (with_session \<lparr>incarnation = 0, edit_revision = Some 1, se_id = replicate 8 1,
          se_timeline = clamp_tempo default_timeline, se_measurement = default_measurement\<rparr> 1 2))))"
proof -
  let ?s = "\<lparr>incarnation = 0, edit_revision = Some 1, se_id = replicate 8 1,
      se_timeline = clamp_tempo default_timeline, se_measurement = default_measurement\<rparr>"
  let ?S = "with_session ?s 1 2"
  let ?e = "\<lparr>origin_session = replicate 8 1, revision = 1, origin_timeline = clamp_tempo default_timeline,
        mapping = default_xform\<rparr>"
  have inv: "sess_inv ?S" by (simp add: with_session_def sess_inv_def session_ok_def)
  have e: "edit_origin (current ?S) = Some ?e"
    by (simp add: edit_origin_def with_session_def default_measurement_def)
  have "edit_revision (current (reset_session ?s ?S)) \<noteq> Some 1"
    by (auto simp: reset_session_def set_timeline_def invalidate_edit_origin_def allocate_edit_revision_def
        with_session_def Let_def)
  then have dead: "\<not> origin_matches ?e (current (reset_session ?s ?S))" by (simp add: origin_matches_def)
  show ?thesis
    by (rule edit_origin_never_revives [OF inv e _ dead])
      (auto intro: link_step.intros)
qed

text \<open>After every action on the registry, each candidate session still has a peer or is the incarnation the
  node is in: an announcement, goodbye or timeout leaves no session behind that only absent
  peers were in.\<close>

theorem observer_leaves_no_orphans:
  "\<forall>s\<in>set (other_sessions (fst (with_observer_state action S))).
     session_matches s (current S) \<or> (\<exists>p\<in>set (peers (fst (with_observer_state action S))). peer_session p = se_id s)"
  by (auto simp: with_observer_state_def retain_live_sessions_def key_matches_def session_key_of_def
      session_matches_def split: prod.split)

theorem observer_leaves_no_orphans_witness:
  "\<exists>s. s \<in> set (other_sessions (fst (with_observer_state (\<lambda>ps. ([], ()))
      (with_session \<lparr>incarnation = 0, edit_revision = None, se_id = replicate 8 1,
         se_timeline = default_timeline, se_measurement = default_measurement\<rparr> 1 1))))
     \<and> session_matches s \<lparr>incarnation = 0, edit_revision = None, se_id = replicate 8 1,
         se_timeline = default_timeline, se_measurement = default_measurement\<rparr>"
proof -
  let ?s = "\<lparr>incarnation = 0, edit_revision = None, se_id = replicate 8 1,
         se_timeline = default_timeline, se_measurement = default_measurement\<rparr>"
  let ?T = "fst (with_observer_state (\<lambda>ps. ([], ())) (with_session ?s 1 1))"
  have "other_sessions ?T = [?s]" "peers ?T = []"
    by (simp_all add: with_observer_state_def with_session_def retain_live_sessions_def key_matches_def session_key_of_def)
  then show ?thesis using observer_leaves_no_orphans [of "\<lambda>ps. ([], ())" "with_session ?s 1 1"]
    by (simp add: with_session_def)
qed

end
