(* ===== verification/Controller.thy ===== *)
theory Controller
  imports ClientApi Peers
begin

text \<open>
  The controller, \<open>src/link/controller.rs\<close>: what happens under all of its locks when a client
  edit, a received timeline, a received start/stop state, a join or a reset is committed. Such a commit
  (\<open>SessionCommit\<close>) sees the sessions, the state of the session, the client's state, the announced
  peer state, the peer count and the state of the ping responder together, and either
  installs all of its changes or none of them.

  Readings of the clock are arguments, one per call of \<open>Clock::micros\<close>; a random node identifier is one too.
  A commit waits until it has every lock, so it is one state transformer here, and \<open>ctl_step\<close> interleaves the commits
  with the operations of the sessions and of the registry.
\<close>

section \<open>Data\<close>

text \<open>\<open>SessionState\<close> of \<open>src/link/state.rs\<close>.\<close>

record shared_state =
  sh_timeline :: timeline
  sh_start_stop :: start_stop_state
  sh_xform :: ghost_xform

datatype client_commit = WaitingForPublication | Completed "tempo option" | Rejected commit_error

record controller =
  sess :: sessions
  published_session :: session
  own :: peer_state
  gateway_peer :: "peer_state option"
  shared :: shared_state
  client :: client_state
  session_peer_count :: nat
  sync_enabled :: bool
  responder :: "session_id \<times> ghost_xform"

text \<open>\<open>PartialEq\<close> of the client state.\<close>

definition client_eq :: "client_state \<Rightarrow> client_state \<Rightarrow> bool" where
  "client_eq a b \<longleftrightarrow> timeline_eq (cl_timeline a) (cl_timeline b)
     \<and> timeline_session_id a = timeline_session_id b \<and> cl_start_stop a = cl_start_stop b"

abbreviation own_session :: "controller \<Rightarrow> session_id" where
  "own_session C \<equiv> session_id (node_state (own C))"

abbreviation own_ident :: "controller \<Rightarrow> node_id" where
  "own_ident C \<equiv> node_id (node_state (own C))"

section \<open>Timing\<close>

definition map_start_stop_state_from_session_to_client ::
  "ext \<Rightarrow> start_stop_state \<Rightarrow> timeline \<Rightarrow> ghost_xform \<Rightarrow> client_start_stop_state" where
  "map_start_stop_state_from_session_to_client E s tline form =
     \<lparr>c_is_playing = is_playing s,
      c_time = ghost_nanos_to_host E form (nanos_at_microbeats E tline (mb (beats s))),
      c_timestamp = ghost_to_host_nanos E form (timestamp s)\<rparr>"

definition map_start_stop_state_from_client_to_session ::
  "ext \<Rightarrow> client_start_stop_state \<Rightarrow> timeline \<Rightarrow> ghost_xform \<Rightarrow> start_stop_state" where
  "map_start_stop_state_from_client_to_session E c tline form =
     \<lparr>is_playing = c_is_playing c,
      beats = to_beats E tline (host_to_ghost_nanos E form (c_time c)),
      timestamp = host_to_ghost_nanos E form (c_timestamp c)\<rparr>"

definition init_x_form :: "ext \<Rightarrow> duration \<Rightarrow> ghost_xform" where
  "init_x_form E now = \<lparr>slope = Fin 1, intercept = dur_neg E now\<rparr>"

text \<open>The new session and client state, and the tempo if it changed; on an error nothing is changed.\<close>

definition update_timing_guarded ::
  "ext \<Rightarrow> shared_state \<Rightarrow> client_state \<Rightarrow> timeline \<Rightarrow> ghost_xform \<Rightarrow> duration \<Rightarrow> bool \<Rightarrow> session_id
     \<Rightarrow> commit_error + shared_state \<times> client_state \<times> tempo option" where
  "update_timing_guarded E s c new_timeline new_x_form now sync sid =
     (let tline = clamp_tempo new_timeline
      in if num_microseconds E (time_origin tline) = None then Inl TimelineOriginExhausted
         else
           let old = sh_timeline s;
               changed = (\<not> timeline_eq old tline \<or> \<not> xform_eq (sh_xform s) new_x_form);
               notify = (if \<not> tempo_eq (tempo old) (tempo tline) then Some (tempo tline) else None)
           in bind_res
                (if changed
                 then bind_res (update_client_timeline_from_session E (cl_timeline c) tline now new_x_form)
                   (\<lambda>client_timeline.
                      let c' = c\<lparr>cl_timeline := client_timeline\<rparr>
                      in Inr (s\<lparr>sh_timeline := tline, sh_xform := new_x_form\<rparr>,
                              if sync \<and> sh_start_stop s \<noteq> default_start_stop
                              then c'\<lparr>cl_start_stop :=
                                     (map_start_stop_state_from_session_to_client E (sh_start_stop s) tline new_x_form)
                                       \<lparr>c_timestamp := c_timestamp (cl_start_stop c)\<rparr>\<rparr>
                              else c'))
                 else Inr (s, c))
                (\<lambda>(s, c). Inr (s, c\<lparr>timeline_session_id := sid\<rparr>, notify)))"

section \<open>Commits\<close>

text \<open>The announced state, the responder and the published session are set from the committed state.\<close>

definition publish_discovery :: "controller \<Rightarrow> controller" where
  "publish_discovery C =
     (let node = (node_state (own C))\<lparr>timeline := sh_timeline (shared C), start_stop_state := sh_start_stop (shared C)\<rparr>
      in C\<lparr>published_session := current (sess C), own := (own C)\<lparr>node_state := node\<rparr>,
           responder := (session_id node, sh_xform (shared C)),
           gateway_peer := map_option (\<lambda>p. p\<lparr>node_state := node\<rparr>) (gateway_peer C)\<rparr>)"

text \<open>The current session goes back to the published one.\<close>

definition reject_pending_timing :: "controller \<Rightarrow> controller" where
  "reject_pending_timing C =
     (let S = sess C; rejected = current S; pub = published_session C
      in C\<lparr>sess := S\<lparr>current := pub,
            other_sessions :=
              (if \<not> session_matches pub rejected
               then filter (\<lambda>s. \<not> session_matches pub s \<and> \<not> session_matches rejected s) (other_sessions S)
               else map (\<lambda>s. if session_matches pub s then pub else s) (other_sessions S))\<rparr>\<rparr>)"

definition reset_commit ::
  "ext \<Rightarrow> node_id \<Rightarrow> duration \<Rightarrow> duration \<Rightarrow> controller \<Rightarrow> controller \<times> (commit_error + tempo option)" where
  "reset_commit E fresh now now' C =
     (let node = (if own_ident C = replicate 8 0 then fresh else own_ident C);
          form = init_x_form E now;
          host_time = dur_neg E (intercept form);
          tline = \<lparr>tempo = tempo (sh_timeline (shared C)),
                   beat_origin = to_beats E (sh_timeline (shared C))
                                   (host_to_ghost_nanos E (sh_xform (shared C)) host_time),
                   time_origin = host_to_ghost_nanos E form host_time\<rparr>
      in case update_timing_guarded E ((shared C)\<lparr>sh_start_stop := default_start_stop\<rparr>) (client C) tline form now'
                (sync_enabled C) node of
           Inl e \<Rightarrow> (reject_pending_timing C, Inl e)
         | Inr (s, c, changed) \<Rightarrow>
             (case new_session node tline \<lparr>x_form = form, measured_at = host_time\<rparr> (sess C) of (cur, S) \<Rightarrow>
                (publish_discovery
                   (C\<lparr>sess := S\<lparr>current := cur, other_sessions := [], peers := []\<rparr>,
                      own := (own C)\<lparr>node_state := (node_state (own C))\<lparr>node_id := node, session_id := node\<rparr>\<rparr>,
                      shared := s, client := c, session_peer_count := 0\<rparr>),
                 Inr changed)))"

text \<open>The candidates of the same incarnation get the revision of the current session.\<close>

definition share_revision :: "session_key \<Rightarrow> sessions \<Rightarrow> sessions" where
  "share_revision k S =
     S\<lparr>other_sessions := map (\<lambda>s. if key_matches k s then s\<lparr>edit_revision := edit_revision (current S)\<rparr> else s)
          (other_sessions S)\<rparr>"

definition invalidate_current :: "sessions \<Rightarrow> sessions" where
  "invalidate_current S =
     (case invalidate_edit_origin (next_revision S) (current S) of (cur, c) \<Rightarrow> S\<lparr>current := cur, next_revision := c\<rparr>)"

definition invalidate_client_captures :: "sessions \<Rightarrow> sessions" where
  "invalidate_client_captures S =
     (let S = invalidate_current S in share_revision (session_key_of (current S)) S)"

definition refresh_timing :: "ext \<Rightarrow> duration \<Rightarrow> controller \<Rightarrow> controller \<times> (commit_error + tempo option)" where
  "refresh_timing E now C =
     (let cur = current (sess C)
      in if \<not> session_matches (published_session C) cur \<or> se_id cur \<noteq> own_session C then (C, Inr None)
         else case update_timing_guarded E (shared C) (client C) (se_timeline cur) (x_form (se_measurement cur)) now
                     (sync_enabled C) (se_id cur) of
             Inl e \<Rightarrow> (reject_pending_timing C, Inl e)
           | Inr (s, c, changed) \<Rightarrow>
               (publish_discovery
                  (C\<lparr>shared := s, client := c,
                     sess := (if \<not> client_eq c (client C) then invalidate_client_captures (sess C) else sess C)\<rparr>),
                Inr changed))"

text \<open>
  A client edit. First everything that can fail is computed, \<open>None\<close> standing for the parts the edit does
  not have; then the parts are installed.
\<close>

definition proposed_start_stop ::
  "ext \<Rightarrow> client_start_stop_state option \<Rightarrow> timeline option \<Rightarrow> controller
     \<Rightarrow> commit_error + start_stop_state option" where
  "proposed_start_stop E inc target C =
     (case inc of
        None \<Rightarrow> Inr None
      | Some st \<Rightarrow>
          if c_timestamp st \<le> c_timestamp (cl_start_stop (client C)) then Inl StaleClientState
          else if \<not> sync_enabled C then Inr None
          else case checked_i64 (micros E (timestamp (sh_start_stop (shared C))) + 1) of
                 None \<Rightarrow> Inl StartStopTimestampExhausted
               | Some successor \<Rightarrow>
                   let mapped = map_start_stop_state_from_client_to_session E st
                                  (case target of None \<Rightarrow> sh_timeline (shared C) | Some t \<Rightarrow> t) (sh_xform (shared C))
                   in Inr (Some (mapped\<lparr>timestamp :=
                             of_microseconds E (max (micros E (timestamp mapped)) successor)\<rparr>)))"

definition install_timeline :: "session_key \<Rightarrow> timeline \<Rightarrow> sessions \<Rightarrow> sessions" where
  "install_timeline k target S =
     (case set_timeline (next_revision S) target (current S) of (cur, c) \<Rightarrow>
        S\<lparr>current := cur, next_revision := c,
          other_sessions := map (\<lambda>s. if key_matches k s
               then s\<lparr>se_timeline := target, edit_revision := edit_revision cur\<rparr> else s) (other_sessions S),
          peers := map (\<lambda>p. if peer_session p = key_session k
               then p\<lparr>peer := (peer p)\<lparr>node_state := (node_state (peer p))\<lparr>timeline := target\<rparr>\<rparr>\<rparr> else p) (peers S)\<rparr>)"

definition client_edit_target ::
  "ext \<Rightarrow> incoming_client_state \<Rightarrow> controller \<Rightarrow> commit_error + timeline option" where
  "client_edit_target E inc C =
     (case in_timeline inc of
        None \<Rightarrow> Inr None
      | Some tline \<Rightarrow>
          bind_res (update_session_timeline_from_client E (se_timeline (current (sess C))) (clamp_tempo tline)
                      (timeline_timestamp inc) (sh_xform (shared C)))
            (\<lambda>target. Inr (Some target)))"

definition client_edit_prepared ::
  "ext \<Rightarrow> incoming_client_state \<Rightarrow> timeline option \<Rightarrow> duration \<Rightarrow> controller
     \<Rightarrow> commit_error + shared_state \<times> client_state \<times> tempo option" where
  "client_edit_prepared E inc target now C =
     (case (in_timeline inc, target) of
        (Some tline, Some target) \<Rightarrow>
          update_timing_guarded E (shared C) ((client C)\<lparr>cl_timeline := clamp_tempo tline\<rparr>) target
            (sh_xform (shared C)) now (sync_enabled C) (se_id (current (sess C)))
      | _ \<Rightarrow> Inr (shared C, client C, None))"

definition client_edit_install ::
  "incoming_client_state \<Rightarrow> timeline option \<Rightarrow> start_stop_state option
     \<Rightarrow> shared_state \<times> client_state \<times> tempo option \<Rightarrow> controller \<Rightarrow> controller" where
  "client_edit_install inc target proposed = (\<lambda>(s, c, _) C.
     let k = session_key_of (current (sess C));
         S = (if in_timeline inc \<noteq> None \<or> in_start_stop inc \<noteq> None
              then invalidate_current (sess C) else sess C);
         S = (case target of None \<Rightarrow> S | Some t \<Rightarrow> install_timeline k t S);
         C = C\<lparr>sess := S, shared := s, client := c\<rparr>;
         C = (case in_start_stop inc of
                None \<Rightarrow> C
              | Some st \<Rightarrow>
                  let C = C\<lparr>client := (client C)\<lparr>cl_start_stop := st\<rparr>, sess := share_revision k (sess C)\<rparr>
                  in case proposed of
                       None \<Rightarrow> C
                     | Some mapped \<Rightarrow> C\<lparr>shared := (shared C)\<lparr>sh_start_stop := mapped\<rparr>\<rparr>)
     in publish_discovery C)"

definition client_edit_from_origin ::
  "ext \<Rightarrow> incoming_client_state \<Rightarrow> duration \<Rightarrow> session_edit_origin option \<Rightarrow> controller
     \<Rightarrow> controller \<times> client_commit" where
  "client_edit_from_origin E inc now orig C =
     (let cur = current (sess C)
      in if (case orig of None \<Rightarrow> False | Some e \<Rightarrow> \<not> origin_matches e cur) then (C, Rejected StaleClientState)
         else if \<not> session_matches (published_session C) cur \<or> se_id cur \<noteq> own_session C
              \<or> \<not> xform_eq (x_form (se_measurement cur)) (sh_xform (shared C))
              \<or> in_timeline inc = None \<and> \<not> timeline_eq (se_timeline cur) (sh_timeline (shared C))
           then (C, WaitingForPublication)
         else case client_edit_target E inc C of
             Inl e \<Rightarrow> (C, Rejected e)
           | Inr target \<Rightarrow>
             (case proposed_start_stop E (in_start_stop inc) target C of
                Inl e \<Rightarrow> (C, Rejected e)
              | Inr proposed \<Rightarrow>
                (case client_edit_prepared E inc target now C of
                   Inl e \<Rightarrow> (C, Rejected e)
                 | Inr prepared \<Rightarrow>
                     (client_edit_install inc target proposed prepared C, Completed (snd (snd prepared))))))"

definition received_start_stop ::
  "ext \<Rightarrow> session_id \<Rightarrow> timeline \<Rightarrow> start_stop_state \<Rightarrow> duration \<Rightarrow> duration \<Rightarrow> controller
     \<Rightarrow> controller \<times> client_commit" where
  "received_start_stop E source advertised inc now now' C =
     (let cur = current (sess C); adv = clamp_tempo advertised; tline = sh_timeline (shared C)
      in if source \<noteq> se_id cur then (C, Completed None)
         else if \<not> session_matches (published_session C) cur \<or> own_session C \<noteq> source
              \<or> \<not> xform_eq (x_form (se_measurement cur)) (sh_xform (shared C))
              \<or> \<not> timeline_eq (se_timeline cur) tline
           then (C, WaitingForPublication)
         else if beat_origin adv \<noteq> beat_origin tline
              \<or> period_micros (tempo adv) \<noteq> period_micros (tempo tline)
              \<or> micros E (time_origin adv) \<noteq> micros E (time_origin tline)
           then (C, Completed None)
         else if timestamp inc \<le> timestamp (sh_start_stop (shared C)) then (C, Completed None)
         else case update_timing_guarded E ((shared C)\<lparr>sh_start_stop := inc\<rparr>) (client C) (se_timeline cur)
                     (x_form (se_measurement cur)) now (sync_enabled C) source of
             Inl e \<Rightarrow> (C, Rejected e)
           | Inr (s, c, changed) \<Rightarrow>
               let c = (if sync_enabled C
                        then c\<lparr>cl_start_stop :=
                               (map_start_stop_state_from_session_to_client E inc (sh_timeline s) (sh_xform s))
                                 \<lparr>c_timestamp := max now' (c_timestamp (cl_start_stop c))\<rparr>\<rparr>
                        else c)
               in (publish_discovery
                     (C\<lparr>sess := invalidate_client_captures (sess C), shared := s, client := c\<rparr>),
                   Completed changed))"

definition join_commit ::
  "ext \<Rightarrow> session \<Rightarrow> node_id \<Rightarrow> duration \<Rightarrow> duration \<Rightarrow> controller \<Rightarrow> controller \<times> (commit_error + tempo option)" where
  "join_commit E queued fresh now now' C =
     (let cur = current (sess C)
      in if \<not> key_matches (session_key_of queued) cur then (C, Inr None)
         else
           let count = count_session_peers (se_id cur) (peers (sess C)) (own_ident C)
           in if se_id cur \<noteq> own_ident C \<and> count = 0 then reset_commit E fresh now now' C
              else
                let s = (if own_session C \<noteq> se_id cur then (shared C)\<lparr>sh_start_stop := default_start_stop\<rparr>
                         else shared C)
                in case update_timing_guarded E s (client C) (se_timeline cur) (x_form (se_measurement cur)) now'
                          (sync_enabled C) (se_id cur) of
                     Inl e \<Rightarrow> (reject_pending_timing C, Inl e)
                   | Inr (s, c, changed) \<Rightarrow>
                       ((publish_discovery
                          (C\<lparr>own := (own C)\<lparr>node_state := (node_state (own C))\<lparr>session_id := se_id cur\<rparr>\<rparr>,
                             shared := s, client := c,
                             sess := (if \<not> client_eq c (client C) then invalidate_client_captures (sess C)
                                      else sess C)\<rparr>))\<lparr>session_peer_count := count\<rparr>,
                        Inr changed))"

section \<open>Around the commits\<close>

text \<open>The peer count is refreshed under its own locks; a session without peers is reset if it is still that session.\<close>

definition refresh_peer_count :: "controller \<Rightarrow> controller \<times> session_id \<times> nat \<times> nat" where
  "refresh_peer_count C =
     (let count = count_session_peers (own_session C) (peers (sess C)) (own_ident C)
      in (C\<lparr>session_peer_count := count\<rparr>, own_session C, session_peer_count C, count))"

definition reset_state_if_peerless ::
  "ext \<Rightarrow> session_id option \<Rightarrow> node_id \<Rightarrow> duration \<Rightarrow> duration \<Rightarrow> controller
     \<Rightarrow> controller \<times> (commit_error + tempo option)" where
  "reset_state_if_peerless E expected fresh now now' C =
     (case expected of
        Some sid \<Rightarrow>
          if se_id (current (sess C)) \<noteq> sid \<or> own_session C \<noteq> sid
             \<or> count_session_peers sid (peers (sess C)) (own_ident C) \<noteq> 0
          then (C, Inr None) else reset_commit E fresh now now' C
      | None \<Rightarrow> reset_commit E fresh now now' C)"

text \<open>A capture succeeds only if no publication is pending; \<open>locked\<close> says that a try-lock fails.\<close>

definition capture_client_state :: "bool \<Rightarrow> controller \<Rightarrow> (client_state \<times> session_edit_origin) option" where
  "capture_client_state locked C =
     (let cur = current (sess C)
      in if \<not> locked \<and> session_matches (published_session C) cur \<and> se_id cur = timeline_session_id (client C)
            \<and> timeline_eq (se_timeline cur) (sh_timeline (shared C))
            \<and> xform_eq (x_form (se_measurement cur)) (sh_xform (shared C))
         then map_option (\<lambda>e. (client C, e)) (edit_origin cur) else None)"

definition set_audio_endpoint :: "socket_v4 option \<Rightarrow> controller \<Rightarrow> controller" where
  "set_audio_endpoint endpoint C = C\<lparr>own := (own C)\<lparr>audio_endpoint := endpoint\<rparr>\<rparr>"

definition init_session_state :: "ext \<Rightarrow> tempo \<Rightarrow> duration \<Rightarrow> shared_state" where
  "init_session_state E b now =
     \<lparr>sh_timeline = clamp_tempo \<lparr>tempo = b, beat_origin = beats_new (Fin 0), time_origin = 0\<rparr>,
      sh_start_stop = \<lparr>is_playing = False, beats = beats_new (Fin 0), timestamp = of_microseconds E 0\<rparr>,
      sh_xform = init_x_form E now\<rparr>"

definition init_client_state :: "ext \<Rightarrow> shared_state \<Rightarrow> session_id \<Rightarrow> client_state" where
  "init_client_state E s sid =
     (let host_time = ghost_to_host_nanos E (sh_xform s) (of_microseconds E 0)
      in \<lparr>cl_timeline = \<lparr>tempo = tempo (sh_timeline s), beat_origin = beat_origin (sh_timeline s),
                         time_origin = host_time\<rparr>,
          timeline_session_id = sid,
          cl_start_stop = \<lparr>c_is_playing = is_playing (sh_start_stop s), c_time = host_time,
                           c_timestamp = host_time\<rparr>\<rparr>)"

text \<open>A new controller; the counters of the process are at \<open>i\<close> and \<open>r\<close>.\<close>

definition new_controller ::
  "ext \<Rightarrow> tempo \<Rightarrow> node_id \<Rightarrow> duration \<Rightarrow> duration \<Rightarrow> nat \<Rightarrow> nat \<Rightarrow> controller" where
  "new_controller E b node now now' i r =
     (let s = init_session_state E b now; (rev, r') = allocate_edit_revision r;
          init = \<lparr>incarnation = i, edit_revision = rev, se_id = node, se_timeline = sh_timeline s,
                  se_measurement = \<lparr>x_form = sh_xform s, measured_at = now'\<rparr>\<rparr>
      in \<lparr>sess = with_session init (i + 1) r', published_session = init,
          own = \<lparr>node_state = \<lparr>node_id = node, session_id = node, timeline = sh_timeline s,
                               start_stop_state = default_start_stop\<rparr>,
                 measurement_endpoint = None, audio_endpoint = None\<rparr>,
          gateway_peer = None, shared = s, client = init_client_state E s node,
          session_peer_count = 0, sync_enabled = False, responder = (node, sh_xform s)\<rparr>)"

text \<open>
  A sighting that waits for a slot for its measurement request; \<open>slot\<close> says whether it gets one. Then the dispatch of a
  change reported by the registry, as it runs when nothing comes between; a start/stop state that has to wait is
  tried again later and changes nothing now.
\<close>

definition saw_session_timeline :: "session_id \<Rightarrow> timeline \<Rightarrow> bool \<Rightarrow> sessions \<Rightarrow> sessions \<times> timeline" where
  "saw_session_timeline sid tline slot S =
     (case try_sighting sid tline False S of
        (S, Complete t, _) \<Rightarrow> (S, t)
      | (S, NeedsCapacity, _) \<Rightarrow>
          if \<not> slot then (S, se_timeline (current S))
          else (case try_sighting sid tline True S of
                  (S, Complete t, _) \<Rightarrow> (S, t)
                | (S, NeedsCapacity, _) \<Rightarrow> (S, se_timeline (current S))))"

fun apply_change ::
  "ext \<Rightarrow> bool \<Rightarrow> node_id \<Rightarrow> duration \<Rightarrow> duration \<Rightarrow> peer_state_change \<Rightarrow> controller \<Rightarrow> controller" where
  "apply_change E slot fresh now now' SessionMembershipChange C =
     (case refresh_peer_count C of (C, sid, old_count, new_count) \<Rightarrow>
        if old_count \<noteq> new_count \<and> new_count = 0 then fst (reset_state_if_peerless E (Some sid) fresh now now' C) else C)"
| "apply_change E slot fresh now now' (SessionTimeline sid tline) C =
     fst (refresh_timing E now (C\<lparr>sess := fst (saw_session_timeline sid tline slot (sess C))\<rparr>))"
| "apply_change E slot fresh now now' (SessionStartStopState sid tline st) C =
     fst (received_start_stop E sid tline st now now' C)"
| "apply_change E slot fresh now now' PeerLeft C =
     (case refresh_peer_count C of (C, sid, old_count, new_count) \<Rightarrow>
        if old_count \<noteq> new_count \<and> new_count = 0 then fst (reset_state_if_peerless E (Some sid) fresh now now' C) else C)"
| "apply_change E slot fresh now now' (AudioEndpoint p a) C = C"

text \<open>Every commit, the operations of the sessions and of the registry, and the setters of the controller.\<close>

inductive ctl_step :: "ext \<Rightarrow> controller \<Rightarrow> controller \<Rightarrow> bool" for E where
  link: "link_step E (sess C) S \<Longrightarrow> ctl_step E C (C\<lparr>sess := S\<rparr>)"
| refresh: "ctl_step E C (fst (refresh_timing E now C))"
| edit: "ctl_step E C (fst (client_edit_from_origin E inc now orig C))"
| playback: "ctl_step E C (fst (received_start_stop E source advertised st now now' C))"
| join: "ctl_step E C (fst (join_commit E queued fresh now now' C))"
| reset: "ctl_step E C (fst (reset_state_if_peerless E expected fresh now now' C))"
| count: "ctl_step E C (fst (refresh_peer_count C))"
| no_peers: "ctl_step E C (C\<lparr>session_peer_count := 0\<rparr>)"
| sync: "ctl_step E C (C\<lparr>sync_enabled := b\<rparr>)"
| endpoint: "ctl_step E C (set_audio_endpoint a C)"

section \<open>Steps on the sessions\<close>

lemma f64_eq_trans: "f64_eq a b \<Longrightarrow> f64_eq b c \<Longrightarrow> f64_eq a c"
  by (cases a; cases b; cases c) (auto simp: is_zero_def is_finite_def)

lemma f64_eq_sym: "f64_eq a b \<Longrightarrow> f64_eq b a"
  by (cases a; cases b) (auto simp: is_zero_def is_finite_def)

lemma xform_eq_trans: "xform_eq a b \<Longrightarrow> xform_eq b c \<Longrightarrow> xform_eq a c"
  by (auto simp: xform_eq_def intro: f64_eq_trans)

lemma xform_eq_sym: "xform_eq a b \<Longrightarrow> xform_eq b a"
  by (auto simp: xform_eq_def intro: f64_eq_sym)

lemma edit_step_trans:
  assumes "edit_step S T" and "edit_step T U"
  shows "edit_step S U"
  using assms xform_eq_trans unfolding edit_step_def by (smt (verit) order_trans)

interpretation share_op: session_op "share_revision k" for k
proof
  show "edit_step S (share_revision k S)" for S by (simp add: edit_step_def share_revision_def)
  show "sess_inv (share_revision k S)" if "sess_inv S" for S
    using that by (auto simp: sess_inv_def share_revision_def session_ok_def)
qed

interpretation invalidate_op: session_op invalidate_current
proof
  fix S :: sessions
  obtain s c where i: "invalidate_edit_origin (next_revision S) (current S) = (s, c)" by fastforce
  note p = invalidate_edit_origin_props [OF i]
  show "edit_step S (invalidate_current S)" using p(1,2) by (auto simp: edit_step_def invalidate_current_def i)
  show "sess_inv (invalidate_current S)" if "sess_inv S"
    using sess_invD(1) [OF that] sess_inv_grow(2) [OF that _ p(1)] p
    by (auto simp: sess_inv_def invalidate_current_def i session_ok_def)
qed

interpretation captures_op: session_op invalidate_client_captures
proof
  show "edit_step S (invalidate_client_captures S)" for S
    unfolding invalidate_client_captures_def Let_def
    by (rule edit_step_trans [OF invalidate_op.edits share_op.edits])
  show "sess_inv (invalidate_client_captures S)" if "sess_inv S" for S
    unfolding invalidate_client_captures_def Let_def
    by (rule share_op.keeps_inv [OF invalidate_op.keeps_inv [OF that]])
qed

lemma install_timeline_step:
  assumes "tempo_ok t"
  shows "edit_step S (install_timeline k t S)" and "sess_inv S \<Longrightarrow> sess_inv (install_timeline k t S)"
proof -
  obtain s c where i: "set_timeline (next_revision S) t (current S) = (s, c)" by fastforce
  note p = set_timeline_props [OF i assms]
  show "edit_step S (install_timeline k t S)" using p(1,6) by (auto simp: edit_step_def install_timeline_def i)
  assume inv: "sess_inv S"
  have ok: "session_ok (next_incarnation S) c s" by (rule session_ok_set [OF sess_invD(1) [OF inv] i assms])
  then have "session_ok (next_incarnation S) c (u\<lparr>se_timeline := t, edit_revision := edit_revision s\<rparr>)"
    if "u \<in> set (other_sessions S)" for u
    using that sess_invD(2) [OF inv that] assms by (auto simp: session_ok_def)
  with ok show "sess_inv (install_timeline k t S)"
    using sess_inv_grow(2) [OF inv order.refl p(1)] by (auto simp: sess_inv_def install_timeline_def i)
qed

lemma current_of_steps [simp]:
  "current (share_revision k S) = current S"
  "se_id (current (invalidate_current S)) = se_id (current S)"
  "se_timeline (current (invalidate_current S)) = se_timeline (current S)"
  "se_measurement (current (invalidate_current S)) = se_measurement (current S)"
  "se_id (current (invalidate_client_captures S)) = se_id (current S)"
  "se_timeline (current (invalidate_client_captures S)) = se_timeline (current S)"
  "se_measurement (current (invalidate_client_captures S)) = se_measurement (current S)"
proof -
  obtain s c where i: "invalidate_edit_origin (next_revision S) (current S) = (s, c)" by fastforce
  note p = invalidate_edit_origin_props [OF i]
  show "current (share_revision k S) = current S" for k S by (simp add: share_revision_def)
  with p show "se_id (current (invalidate_current S)) = se_id (current S)"
    "se_timeline (current (invalidate_current S)) = se_timeline (current S)"
    "se_measurement (current (invalidate_current S)) = se_measurement (current S)"
    "se_id (current (invalidate_client_captures S)) = se_id (current S)"
    "se_timeline (current (invalidate_client_captures S)) = se_timeline (current S)"
    "se_measurement (current (invalidate_client_captures S)) = se_measurement (current S)"
    by (simp_all add: invalidate_current_def invalidate_client_captures_def Let_def i)
qed

lemma current_install:
  assumes "tempo_ok t"
  shows "se_id (current (install_timeline k t S)) = se_id (current S)"
    "se_timeline (current (install_timeline k t S)) = t"
    "se_measurement (current (install_timeline k t S)) = se_measurement (current S)"
proof -
  obtain s c where i: "set_timeline (next_revision S) t (current S) = (s, c)" by fastforce
  show "se_id (current (install_timeline k t S)) = se_id (current S)"
    "se_timeline (current (install_timeline k t S)) = t"
    "se_measurement (current (install_timeline k t S)) = se_measurement (current S)"
    using set_timeline_props [OF i assms] by (simp_all add: install_timeline_def i)
qed

lemma tempo_ok_clamp_id: "tempo_ok t \<Longrightarrow> clamp_tempo t = t"
  by (auto simp: tempo_ok_def intro: clamp_tempo_id)

section \<open>The contract of a commit\<close>

text \<open>What the node announces, answers to pings and shows to its client all stem from the published session.\<close>

definition announced :: "controller \<Rightarrow> bool" where
  "announced C \<longleftrightarrow>
     timeline (node_state (own C)) = sh_timeline (shared C)
   \<and> start_stop_state (node_state (own C)) = sh_start_stop (shared C)
   \<and> responder C = (own_session C, sh_xform (shared C))
   \<and> se_id (published_session C) = own_session C
   \<and> timeline_session_id (client C) = own_session C
   \<and> se_timeline (published_session C) = sh_timeline (shared C)
   \<and> (sh_xform (shared C) = x_form (se_measurement (published_session C))
      \<or> xform_eq (sh_xform (shared C)) (x_form (se_measurement (published_session C))))
   \<and> (\<forall>g. gateway_peer C = Some g \<longrightarrow> node_state g = node_state (own C))"

definition coherent :: "controller \<Rightarrow> bool" where
  "coherent C \<longleftrightarrow> sess_inv (sess C)
     \<and> session_ok (next_incarnation (sess C)) (next_revision (sess C)) (published_session C) \<and> announced C"

lemma announced_fields [simp]:
  "announced (C\<lparr>sess := S\<rparr>) = announced C"
  "announced (C\<lparr>session_peer_count := n\<rparr>) = announced C"
  "announced (C\<lparr>sync_enabled := b\<rparr>) = announced C"
  "announced (set_audio_endpoint a C) = announced C"
  unfolding announced_def set_audio_endpoint_def by simp_all

text \<open>
  The current session follows the contract of the sessions or goes back to the published one, and the published
  session is the old one or the current one.
\<close>

definition ctl_edit :: "controller \<Rightarrow> controller \<Rightarrow> bool" where
  "ctl_edit C D \<longleftrightarrow>
     next_revision (sess C) \<le> next_revision (sess D)
   \<and> (edit_step (sess C) (sess D) \<or> current (sess D) = published_session C)
   \<and> (published_session D = published_session C \<or> published_session D = current (sess D))"

definition live_origin :: "session_edit_origin \<Rightarrow> controller \<Rightarrow> bool" where
  "live_origin e C \<longleftrightarrow> origin_matches e (current (sess C)) \<or> origin_matches e (published_session C)"

locale commit_op =
  fixes f :: "controller \<Rightarrow> controller"
  assumes keeps_coherent: "coherent C \<Longrightarrow> coherent (f C)"
    and edits: "coherent C \<Longrightarrow> ctl_edit C (f C)"
begin

lemma origin_stays_dead:
  assumes "coherent C" and "\<not> live_origin e C" and "revision e < next_revision (sess C)"
  shows "\<not> live_origin e (f C) \<and> revision e < next_revision (sess (f C))"
proof -
  note step = edits [OF assms(1), unfolded ctl_edit_def]
  have "\<not> origin_matches e (current (sess (f C)))"
    using step edit_step_origin(1) [of "sess C" "sess (f C)" e] assms(2,3) by (auto simp: live_origin_def)
  then show ?thesis using step assms(2,3) by (auto simp: live_origin_def)
qed

end

text \<open>An operation of the sessions is one of the controller.\<close>

sublocale session_op \<subseteq> lifted: commit_op "\<lambda>C. C\<lparr>sess := f (sess C)\<rparr>"
proof
  fix C :: controller
  show "ctl_edit C (C\<lparr>sess := f (sess C)\<rparr>)" using edits [of "sess C"] by (simp add: ctl_edit_def edit_step_def)
  have grow: "next_incarnation (sess C) \<le> next_incarnation (f (sess C))"
    "next_revision (sess C) \<le> next_revision (f (sess C))"
    using edits [of "sess C"] by (simp_all add: edit_step_def)
  assume "coherent C"
  then show "coherent (C\<lparr>sess := f (sess C)\<rparr>)"
    using keeps_inv session_ok_mono [OF _ grow] by (simp add: coherent_def)
qed

context session_op
begin

lemmas lifted_commit = lifted.commit_op_axioms

end

section \<open>Every commit keeps the contract\<close>

lemma update_timing_result:
  assumes "update_timing_guarded E s c tline form now sync sid = Inr (s', c', changed)"
  shows "sh_timeline s' = clamp_tempo tline" and "sh_start_stop s' = sh_start_stop s"
    and "sh_xform s' = form \<or> xform_eq (sh_xform s') form" and "timeline_session_id c' = sid"
    and "c_timestamp (cl_start_stop c') = c_timestamp (cl_start_stop c)"
    and "sh_xform s = form \<Longrightarrow> sh_xform s' = form"
  using assms timeline_eq_clamped [of "sh_timeline s" "clamp_tempo tline"]
  by (auto simp: update_timing_guarded_def Let_def result_simps split: if_splits)

lemma publish_coherent:
  assumes "sess_inv (sess C)" and "se_timeline (current (sess C)) = sh_timeline (shared C)"
    and "sh_xform (shared C) = x_form (se_measurement (current (sess C)))
       \<or> xform_eq (sh_xform (shared C)) (x_form (se_measurement (current (sess C))))"
    and "se_id (current (sess C)) = own_session C" and "timeline_session_id (client C) = own_session C"
  shows "coherent (publish_discovery C)"
proof -
  have "announced (publish_discovery C)"
    using assms(2-5) by (auto simp: announced_def publish_discovery_def Let_def)
  then show ?thesis
    using assms(1) sess_invD(1) [OF assms(1)] by (simp add: coherent_def publish_discovery_def Let_def)
qed

lemma sess_publish [simp]: "sess (publish_discovery C) = sess C"
  "published_session (publish_discovery C) = current (sess C)"
  by (simp_all add: publish_discovery_def Let_def)

lemma reject_coherent:
  assumes "coherent C"
  shows "coherent (reject_pending_timing C)" and "ctl_edit C (reject_pending_timing C)"
proof -
  have "sess_inv (sess (reject_pending_timing C))"
    using assms by (auto simp: coherent_def reject_pending_timing_def Let_def sess_inv_def)
  with assms show "coherent (reject_pending_timing C)"
    by (simp add: coherent_def reject_pending_timing_def Let_def)
  show "ctl_edit C (reject_pending_timing C)"
    by (simp add: ctl_edit_def reject_pending_timing_def Let_def)
qed

lemma coherentD:
  assumes "coherent C"
  shows "sess_inv (sess C)" and "tempo_ok (se_timeline (current (sess C)))" and "tempo_ok (sh_timeline (shared C))"
    and "timeline_session_id (client C) = own_session C"
  using assms sess_invD(1) [of "sess C"] by (auto simp: coherent_def announced_def session_ok_def)

lemma edit_step_refl: "edit_step S S"
  by simp

lemma ctl_edit_publish: "edit_step (sess C) (sess D) \<Longrightarrow> ctl_edit C (publish_discovery D)"
  by (simp add: ctl_edit_def edit_step_def)

text \<open>Sessions with or without the invalidation a change of the client's state brings.\<close>

definition maybe_invalidated :: "bool \<Rightarrow> sessions \<Rightarrow> sessions" where
  "maybe_invalidated b S = (if b then invalidate_client_captures S else S)"

lemma maybe_invalidated_props:
  "edit_step S (maybe_invalidated b S)" "sess_inv S \<Longrightarrow> sess_inv (maybe_invalidated b S)"
  "se_id (current (maybe_invalidated b S)) = se_id (current S)"
  "se_timeline (current (maybe_invalidated b S)) = se_timeline (current S)"
  "se_measurement (current (maybe_invalidated b S)) = se_measurement (current S)"
  using captures_op.edits [of S] captures_op.keeps_inv [of S] by (simp_all add: maybe_invalidated_def)

text \<open>A commit that installs updated timing and publishes it.\<close>

lemma timed_commit:
  assumes u: "update_timing_guarded E s0 c0 (se_timeline (current (sess D))) form now sync (own_session D) = Inr (s, c, t)"
    and step: "edit_step (sess C) (sess D)" and inv: "sess_inv (sess D)"
    and "sh_timeline (shared D) = sh_timeline s" "sh_xform (shared D) = sh_xform s"
    and "timeline_session_id (client D) = timeline_session_id c"
    and "se_id (current (sess D)) = own_session D" and "x_form (se_measurement (current (sess D))) = form"
  shows "coherent (publish_discovery D) \<and> ctl_edit C (publish_discovery D)"
proof
  note p = update_timing_result [OF u]
  have "clamp_tempo (se_timeline (current (sess D))) = se_timeline (current (sess D))"
    using sess_invD(1) [OF inv] by (simp add: session_ok_def tempo_ok_clamp_id)
  then show "coherent (publish_discovery D)"
    by (intro publish_coherent) (use assms(3-) p in auto)
  show "ctl_edit C (publish_discovery D)" by (rule ctl_edit_publish [OF step])
qed

interpretation refresh_op: commit_op "\<lambda>C. fst (refresh_timing E now C)" for E now
proof -
  have "coherent (fst (refresh_timing E now C)) \<and> ctl_edit C (fst (refresh_timing E now C))" if C: "coherent C" for C
  proof -
    let ?cur = "current (sess C)"
    let ?u = "update_timing_guarded E (shared C) (client C) (se_timeline ?cur) (x_form (se_measurement ?cur)) now
        (sync_enabled C) (se_id ?cur)"
    consider "\<not> session_matches (published_session C) ?cur \<or> se_id ?cur \<noteq> own_session C"
      | "session_matches (published_session C) ?cur \<and> se_id ?cur = own_session C" by blast
    then show ?thesis
    proof cases
      case 1
      then show ?thesis using C by (auto simp: refresh_timing_def Let_def ctl_edit_def)
    next
      case 2
      show ?thesis
      proof (cases ?u)
        case (Inl e)
        then show ?thesis using 2 reject_coherent [OF C] by (simp add: refresh_timing_def Let_def)
      next
        case (Inr r)
        obtain s c t where r: "r = (s, c, t)" by (cases r) auto
        let ?D = "C\<lparr>shared := s, client := c, sess := maybe_invalidated (\<not> client_eq c (client C)) (sess C)\<rparr>"
        have "coherent (publish_discovery ?D) \<and> ctl_edit C (publish_discovery ?D)"
          using Inr r 2 coherentD(1) [OF C]
          by (intro timed_commit [where s = s and c = c and t = t]) (simp_all add: maybe_invalidated_props)
        then show ?thesis using 2 Inr r by (simp add: refresh_timing_def Let_def maybe_invalidated_def)
      qed
    qed
  qed
  then show "commit_op (\<lambda>C. fst (refresh_timing E now C))" by unfold_locales simp_all
qed

lemma reset_commit_keeps:
  assumes C: "coherent C"
  shows "coherent (fst (reset_commit E fresh now now' C)) \<and> ctl_edit C (fst (reset_commit E fresh now now' C))"
proof -
  let ?node = "if own_ident C = replicate 8 0 then fresh else own_ident C"
  let ?form = "init_x_form E now"
  let ?host = "dur_neg E (intercept ?form)"
  let ?tline = "\<lparr>tempo = tempo (sh_timeline (shared C)),
      beat_origin = to_beats E (sh_timeline (shared C)) (host_to_ghost_nanos E (sh_xform (shared C)) ?host),
      time_origin = host_to_ghost_nanos E ?form ?host\<rparr>"
  let ?u = "update_timing_guarded E ((shared C)\<lparr>sh_start_stop := default_start_stop\<rparr>) (client C) ?tline ?form now'
      (sync_enabled C) ?node"
  show ?thesis
  proof (cases ?u)
    case (Inl e)
    then show ?thesis using reject_coherent [OF C] unfolding reset_commit_def Let_def by simp
  next
    case (Inr r)
    obtain s c t where r: "r = (s, c, t)" by (cases r) auto
    obtain cur S where n: "new_session ?node ?tline \<lparr>x_form = ?form, measured_at = ?host\<rparr> (sess C) = (cur, S)"
      by fastforce
    obtain rev d where a: "allocate_edit_revision (next_revision (sess C)) = (rev, d)" by fastforce
    have cur: "cur = \<lparr>incarnation = next_incarnation (sess C), edit_revision = rev, se_id = ?node, se_timeline = ?tline,
        se_measurement = \<lparr>x_form = ?form, measured_at = ?host\<rparr>\<rparr>"
      and S: "S = (sess C)\<lparr>next_incarnation := next_incarnation (sess C) + 1, next_revision := d\<rparr>"
      using n a by (auto simp: new_session_def)
    have fresh: "next_revision (sess C) \<le> d" "\<And>x. rev = Some x \<Longrightarrow> x = next_revision (sess C) \<and> x < d"
      using allocate_edit_revision_fresh [OF a] by auto
    have tempo: "tempo_ok ?tline" using coherentD(3) [OF C] by (simp add: tempo_ok_def)
    let ?D = "C\<lparr>sess := S\<lparr>current := cur, other_sessions := [], peers := []\<rparr>,
        own := (own C)\<lparr>node_state := (node_state (own C))\<lparr>node_id := ?node, session_id := ?node\<rparr>\<rparr>,
        shared := s, client := c, session_peer_count := 0\<rparr>"
    have "edit_step (sess C) (sess ?D)" using fresh by (auto simp: edit_step_def cur S)
    moreover have "sess_inv (sess ?D)" using fresh tempo by (auto simp: sess_inv_def session_ok_def cur S)
    moreover have "update_timing_guarded E ((shared C)\<lparr>sh_start_stop := default_start_stop\<rparr>) (client C)
        (se_timeline (current (sess ?D))) ?form now' (sync_enabled C) (own_session ?D) = Inr (s, c, t)"
      using Inr by (simp add: cur r)
    ultimately have "coherent (publish_discovery ?D) \<and> ctl_edit C (publish_discovery ?D)"
      by (intro timed_commit) (simp_all add: cur)
    then show ?thesis using Inr n unfolding reset_commit_def Let_def by (simp add: r)
  qed
qed

interpretation peerless_op: commit_op "\<lambda>C. fst (reset_state_if_peerless E expected fresh now now' C)"
  for E expected fresh now now'
proof -
  have "coherent (fst (reset_state_if_peerless E expected fresh now now' C))
      \<and> ctl_edit C (fst (reset_state_if_peerless E expected fresh now now' C))" if C: "coherent C" for C
    using reset_commit_keeps [OF C, of E fresh now now'] C
    by (auto simp: reset_state_if_peerless_def ctl_edit_def split: option.split)
  then show "commit_op (\<lambda>C. fst (reset_state_if_peerless E expected fresh now now' C))" by unfold_locales simp_all
qed

interpretation join_op: commit_op "\<lambda>C. fst (join_commit E queued fresh now now' C)" for E queued fresh now now'
proof -
  have "coherent (fst (join_commit E queued fresh now now' C)) \<and> ctl_edit C (fst (join_commit E queued fresh now now' C))"
    if C: "coherent C" for C
  proof -
    let ?cur = "current (sess C)" and ?count = "count_session_peers (se_id (current (sess C))) (peers (sess C)) (own_ident C)"
    let ?s = "if own_session C \<noteq> se_id ?cur then (shared C)\<lparr>sh_start_stop := default_start_stop\<rparr> else shared C"
    let ?u = "update_timing_guarded E ?s (client C) (se_timeline ?cur) (x_form (se_measurement ?cur)) now'
        (sync_enabled C) (se_id ?cur)"
    consider "\<not> key_matches (session_key_of queued) ?cur"
      | "key_matches (session_key_of queued) ?cur \<and> se_id ?cur \<noteq> own_ident C \<and> ?count = 0"
      | "key_matches (session_key_of queued) ?cur \<and> \<not> (se_id ?cur \<noteq> own_ident C \<and> ?count = 0)" by blast
    then show ?thesis
    proof cases
      case 1
      then show ?thesis using C by (auto simp: join_commit_def Let_def ctl_edit_def)
    next
      case 2
      then show ?thesis using reset_commit_keeps [OF C] unfolding join_commit_def Let_def by simp
    next
      case 3
      show ?thesis
      proof (cases ?u)
        case (Inl e)
        then show ?thesis using 3 reject_coherent [OF C] unfolding join_commit_def Let_def by auto
      next
        case (Inr r)
        obtain s c t where r: "r = (s, c, t)" by (cases r) auto
        let ?D = "C\<lparr>own := (own C)\<lparr>node_state := (node_state (own C))\<lparr>session_id := se_id ?cur\<rparr>\<rparr>, shared := s, client := c,
            sess := maybe_invalidated (\<not> client_eq c (client C)) (sess C)\<rparr>"
        have D: "coherent (publish_discovery ?D) \<and> ctl_edit C (publish_discovery ?D)"
          using Inr r coherentD(1) [OF C]
          by (intro timed_commit [where s = s and c = c and t = t]) (simp_all add: maybe_invalidated_props)
        have g: "(se_id ?cur \<noteq> own_ident C \<and> ?count = 0) = False" "key_matches (session_key_of queued) ?cur"
          using 3 by blast+
        have "fst (join_commit E queued fresh now now' C) = (publish_discovery ?D)\<lparr>session_peer_count := ?count\<rparr>"
          unfolding join_commit_def Let_def maybe_invalidated_def Inr r g if_False by (simp add: g(2))
        then show ?thesis using D by (simp add: ctl_edit_def coherent_def)
      qed
    qed
  qed
  then show "commit_op (\<lambda>C. fst (join_commit E queued fresh now now' C))" by unfold_locales simp_all
qed

text \<open>The guards under which a received start/stop state is installed.\<close>

definition playback_applies ::
  "ext \<Rightarrow> session_id \<Rightarrow> timeline \<Rightarrow> start_stop_state \<Rightarrow> controller \<Rightarrow> bool" where
  "playback_applies E source advertised st C \<longleftrightarrow>
     (let cur = current (sess C); adv = clamp_tempo advertised; tline = sh_timeline (shared C)
      in source = se_id cur \<and> session_matches (published_session C) cur \<and> own_session C = source
       \<and> xform_eq (x_form (se_measurement cur)) (sh_xform (shared C)) \<and> timeline_eq (se_timeline cur) tline
       \<and> beat_origin adv = beat_origin tline \<and> period_micros (tempo adv) = period_micros (tempo tline)
       \<and> micros E (time_origin adv) = micros E (time_origin tline)
       \<and> timestamp (sh_start_stop (shared C)) < timestamp st)"

lemma received_start_stop_cases:
  obtains (idle) r where "received_start_stop E source advertised st now now' C = (C, r)"
  | (applied) s c t c' where "playback_applies E source advertised st C"
      "update_timing_guarded E ((shared C)\<lparr>sh_start_stop := st\<rparr>) (client C) (se_timeline (current (sess C)))
         (x_form (se_measurement (current (sess C)))) now (sync_enabled C) source = Inr (s, c, t)"
      "timeline_session_id c' = timeline_session_id c"
      "received_start_stop E source advertised st now now' C
         = (publish_discovery (C\<lparr>sess := invalidate_client_captures (sess C), shared := s, client := c'\<rparr>), Completed t)"
proof (cases "playback_applies E source advertised st C")
  case False
  then have "fst (received_start_stop E source advertised st now now' C) = C"
    unfolding playback_applies_def received_start_stop_def Let_def by auto
  then show ?thesis
    by (intro idle [of "snd (received_start_stop E source advertised st now now' C)"]) (simp add: prod_eq_iff)
next
  case True
  note g = True [unfolded playback_applies_def Let_def]
  let ?u = "update_timing_guarded E ((shared C)\<lparr>sh_start_stop := st\<rparr>) (client C) (se_timeline (current (sess C)))
      (x_form (se_measurement (current (sess C)))) now (sync_enabled C) source"
  show ?thesis
  proof (cases ?u)
    case (Inl e)
    then show ?thesis using g by (intro idle [of "Rejected e"]) (auto simp: received_start_stop_def Let_def)
  next
    case (Inr r)
    obtain s c t where r: "r = (s, c, t)" by (cases r) auto
    show ?thesis
      by (rule applied [OF True, of s c t "if sync_enabled C
            then c\<lparr>cl_start_stop := (map_start_stop_state_from_session_to_client E st (sh_timeline s) (sh_xform s))
                   \<lparr>c_timestamp := max now' (c_timestamp (cl_start_stop c))\<rparr>\<rparr> else c"])
        (use g Inr r in \<open>auto simp: received_start_stop_def Let_def\<close>)
  qed
qed

interpretation playback_op: commit_op "\<lambda>C. fst (received_start_stop E source advertised st now now' C)"
  for E source advertised st now now'
proof -
  have "coherent (fst (received_start_stop E source advertised st now now' C))
      \<and> ctl_edit C (fst (received_start_stop E source advertised st now now' C))" if C: "coherent C" for C
  proof (cases rule: received_start_stop_cases [of E source advertised st now now' C])
    case (idle r)
    then show ?thesis using C by (simp add: ctl_edit_def)
  next
    case (applied s c t c')
    let ?D = "C\<lparr>sess := invalidate_client_captures (sess C), shared := s, client := c'\<rparr>"
    have "own_session C = source" "source = se_id (current (sess C))"
      using applied(1) by (simp_all add: playback_applies_def Let_def)
    then have "coherent (publish_discovery ?D) \<and> ctl_edit C (publish_discovery ?D)"
      using applied(2,3) captures_op.keeps_inv [OF coherentD(1) [OF C]]
      by (intro timed_commit [where s = s and c = c and t = t]) (simp_all add: captures_op.edits)
    then show ?thesis using applied(4) by simp
  qed
  then show "commit_op (\<lambda>C. fst (received_start_stop E source advertised st now now' C))" by unfold_locales simp_all
qed

text \<open>The sessions after an installed client edit.\<close>

definition edited_sessions :: "incoming_client_state \<Rightarrow> timeline option \<Rightarrow> sessions \<Rightarrow> sessions" where
  "edited_sessions inc target S =
     (let k = session_key_of (current S);
          S = (if in_timeline inc \<noteq> None \<or> in_start_stop inc \<noteq> None then invalidate_current S else S);
          S = (case target of None \<Rightarrow> S | Some t \<Rightarrow> install_timeline k t S)
      in if in_start_stop inc \<noteq> None then share_revision k S else S)"

lemma invalidate_current_fresh:
  "edit_revision (current (invalidate_current S)) = Some r \<Longrightarrow> next_revision S \<le> r"
  using invalidate_edit_origin_props(2) [of "next_revision S" "current S"]
  by (auto simp: invalidate_current_def split: prod.splits)

lemma install_timeline_fresh:
  assumes "edit_revision (current (install_timeline k t S)) = Some r" and "tempo_ok t"
    and "\<And>r. edit_revision (current S) = Some r \<Longrightarrow> n \<le> r" and "n \<le> next_revision S"
  shows "n \<le> r"
proof -
  obtain s c where i: "set_timeline (next_revision S) t (current S) = (s, c)" by fastforce
  then show ?thesis
    using set_timeline_props(6) [OF i assms(2)] assms by (auto simp: install_timeline_def)
qed

lemma edited_sessions_props:
  assumes "\<And>t. target = Some t \<Longrightarrow> tempo_ok t"
  shows "edit_step S (edited_sessions inc target S)"
    and "sess_inv S \<Longrightarrow> sess_inv (edited_sessions inc target S)"
    and "se_id (current (edited_sessions inc target S)) = se_id (current S)"
    and "se_measurement (current (edited_sessions inc target S)) = se_measurement (current S)"
    and "se_timeline (current (edited_sessions inc target S))
           = (case target of None \<Rightarrow> se_timeline (current S) | Some t \<Rightarrow> t)"
    and "in_timeline inc \<noteq> None \<or> in_start_stop inc \<noteq> None \<Longrightarrow>
         edit_revision (current (edited_sessions inc target S)) = Some r \<Longrightarrow> next_revision S \<le> r"
proof -
  define k where "k = session_key_of (current S)"
  define T where "T = (if in_timeline inc \<noteq> None \<or> in_start_stop inc \<noteq> None then invalidate_current S else S)"
  define U where "U = (case target of None \<Rightarrow> T | Some t \<Rightarrow> install_timeline k t T)"
  define V where "V = (if in_start_stop inc \<noteq> None then share_revision k U else U)"
  have V: "edited_sessions inc target S = V"
    by (simp only: edited_sessions_def Let_def V_def U_def T_def k_def)
  have T: "edit_step S T" "sess_inv S \<Longrightarrow> sess_inv T" "se_id (current T) = se_id (current S)"
    "se_measurement (current T) = se_measurement (current S)" "se_timeline (current T) = se_timeline (current S)"
    by (simp_all add: T_def invalidate_op.edits invalidate_op.keeps_inv)
  have "edit_step T U" using install_timeline_step(1) assms by (simp add: U_def split: option.split)
  moreover have "edit_step U V" by (simp add: V_def share_op.edits)
  ultimately show "edit_step S (edited_sessions inc target S)" unfolding V using T(1) edit_step_trans by blast
  show "sess_inv (edited_sessions inc target S)" if "sess_inv S"
    using T(2) [OF that] install_timeline_step(2) assms share_op.keeps_inv
    by (auto simp: V V_def U_def split: option.split)
  have cur: "current V = current U" by (simp add: V_def)
  show "se_id (current (edited_sessions inc target S)) = se_id (current S)"
    "se_measurement (current (edited_sessions inc target S)) = se_measurement (current S)"
    "se_timeline (current (edited_sessions inc target S))
       = (case target of None \<Rightarrow> se_timeline (current S) | Some t \<Rightarrow> t)"
    using assms current_install T by (simp_all add: V cur U_def split: option.split)
  assume "in_timeline inc \<noteq> None \<or> in_start_stop inc \<noteq> None"
  then have "T = invalidate_current S" by (auto simp: T_def)
  then have "\<And>r. edit_revision (current T) = Some r \<Longrightarrow> next_revision S \<le> r" "next_revision S \<le> next_revision T"
    using invalidate_current_fresh [of S] T(1) by (auto simp: edit_step_def)
  then show "edit_revision (current (edited_sessions inc target S)) = Some r \<Longrightarrow> next_revision S \<le> r"
    using install_timeline_fresh [of k _ T r "next_revision S"] assms by (auto simp: V cur U_def split: option.splits)
qed

text \<open>What an installed client edit publishes.\<close>

definition edited_start_stop :: "incoming_client_state \<Rightarrow> start_stop_state option \<Rightarrow> start_stop_state \<Rightarrow> start_stop_state" where
  "edited_start_stop inc proposed st =
     (if in_start_stop inc = None then st else case proposed of None \<Rightarrow> st | Some mapped \<Rightarrow> mapped)"

lemma client_edit_install_publish:
  "client_edit_install inc target proposed (s, c, t) C =
     publish_discovery
       (C\<lparr>sess := edited_sessions inc target (sess C),
          shared := s\<lparr>sh_start_stop := edited_start_stop inc proposed (sh_start_stop s)\<rparr>,
          client := (case in_start_stop inc of None \<Rightarrow> c | Some st \<Rightarrow> c\<lparr>cl_start_stop := st\<rparr>)\<rparr>)"
  unfolding client_edit_install_def edited_sessions_def edited_start_stop_def Let_def prod.case
  by (intro arg_cong [where f = publish_discovery] controller.equality) (simp_all split: option.split)

definition edit_applies :: "incoming_client_state \<Rightarrow> session_edit_origin option \<Rightarrow> controller \<Rightarrow> bool" where
  "edit_applies inc orig C \<longleftrightarrow>
     (let cur = current (sess C)
      in (\<forall>e. orig = Some e \<longrightarrow> origin_matches e cur)
       \<and> session_matches (published_session C) cur \<and> se_id cur = own_session C
       \<and> xform_eq (x_form (se_measurement cur)) (sh_xform (shared C))
       \<and> (in_timeline inc = None \<longrightarrow> timeline_eq (se_timeline cur) (sh_timeline (shared C))))"

lemma client_edit_cases:
  obtains (refused) r where "client_edit_from_origin E inc now orig C = (C, r)" "\<And>t. r \<noteq> Completed t"
  | (accepted) target proposed s c t where "edit_applies inc orig C"
      "client_edit_target E inc C = Inr target"
      "proposed_start_stop E (in_start_stop inc) target C = Inr proposed"
      "client_edit_prepared E inc target now C = Inr (s, c, t)"
      "client_edit_from_origin E inc now orig C = (client_edit_install inc target proposed (s, c, t) C, Completed t)"
proof (cases "edit_applies inc orig C")
  case False
  then have "client_edit_from_origin E inc now orig C = (C, Rejected StaleClientState)
      \<or> client_edit_from_origin E inc now orig C = (C, WaitingForPublication)"
    unfolding edit_applies_def client_edit_from_origin_def Let_def by (auto split: option.split)
  then show ?thesis using refused by blast
next
  case True
  have eq: "client_edit_from_origin E inc now orig C =
      (case client_edit_target E inc C of
         Inl e \<Rightarrow> (C, Rejected e)
       | Inr target \<Rightarrow>
         (case proposed_start_stop E (in_start_stop inc) target C of
            Inl e \<Rightarrow> (C, Rejected e)
          | Inr proposed \<Rightarrow>
            (case client_edit_prepared E inc target now C of
               Inl e \<Rightarrow> (C, Rejected e)
             | Inr prepared \<Rightarrow>
                 (client_edit_install inc target proposed prepared C, Completed (snd (snd prepared))))))"
    using True unfolding edit_applies_def client_edit_from_origin_def Let_def by (auto split: option.split)
  show ?thesis
  proof (cases "\<exists>e. client_edit_from_origin E inc now orig C = (C, Rejected e)")
    case True
    then show ?thesis using refused by blast
  next
    case False
    then obtain target proposed prepared where "client_edit_target E inc C = Inr target"
      "proposed_start_stop E (in_start_stop inc) target C = Inr proposed"
      "client_edit_prepared E inc target now C = Inr prepared"
      unfolding eq by (auto split: sum.splits)
    then show ?thesis using accepted True eq by (cases prepared) simp
  qed
qed

lemma client_edit_target_cases:
  assumes "client_edit_target E inc C = Inr target" and "coherent C"
  shows "target = None \<longleftrightarrow> in_timeline inc = None" and "target = Some t \<Longrightarrow> tempo_ok t"
  using assms(1) coherentD(2) [OF assms(2)] tempo_ok_clamp [of "the (in_timeline inc)"]
  by (auto simp: client_edit_target_def update_session_timeline_from_client_def tempo_ok_def Let_def result_simps
      split: option.splits if_splits)

lemma client_edit_accepted:
  assumes C: "coherent C" and "edit_applies inc orig C"
    and t: "client_edit_target E inc C = Inr target"
    and p: "client_edit_prepared E inc target now C = Inr (s, c, ch)"
  shows "coherent (client_edit_install inc target proposed (s, c, ch) C)"
    and "ctl_edit C (client_edit_install inc target proposed (s, c, ch) C)"
    and "sh_timeline s = (case target of None \<Rightarrow> se_timeline (current (sess C)) | Some t \<Rightarrow> t)"
    and "sh_start_stop s = sh_start_stop (shared C)"
proof -
  note g = assms(2) [unfolded edit_applies_def Let_def] and tt = client_edit_target_cases [OF t C]
  note es = edited_sessions_props [where S = "sess C" and inc = inc, OF tt(2)]
  have s: "sh_timeline s = (case target of None \<Rightarrow> se_timeline (current (sess C)) | Some t \<Rightarrow> t)
      \<and> sh_start_stop s = sh_start_stop (shared C)
      \<and> sh_xform s = sh_xform (shared C) \<and> timeline_session_id c = own_session C"
  proof (cases target)
    case None
    then have "in_timeline inc = None" using tt(1) by simp
    moreover from this have "se_timeline (current (sess C)) = sh_timeline (shared C)"
      using g timeline_eq_clamped [OF _ coherentD(3) [OF C]] by blast
    ultimately show ?thesis using p None coherentD(4) [OF C] by (auto simp: client_edit_prepared_def)
  next
    case (Some x)
    then obtain y where "in_timeline inc = Some y" using tt(1) by auto
    then have u: "update_timing_guarded E (shared C) ((client C)\<lparr>cl_timeline := clamp_tempo y\<rparr>) x (sh_xform (shared C))
        now (sync_enabled C) (se_id (current (sess C))) = Inr (s, c, ch)"
      using p Some by (simp add: client_edit_prepared_def)
    then show ?thesis using update_timing_result [OF u] Some g tt(2) by (auto simp: tempo_ok_clamp_id)
  qed
  then show "sh_timeline s = (case target of None \<Rightarrow> se_timeline (current (sess C)) | Some t \<Rightarrow> t)"
    "sh_start_stop s = sh_start_stop (shared C)" by simp_all
  show "coherent (client_edit_install inc target proposed (s, c, ch) C)"
    unfolding client_edit_install_publish
    by (rule publish_coherent) (use s es g coherentD [OF C] xform_eq_sym in \<open>auto split: option.split\<close>)
  show "ctl_edit C (client_edit_install inc target proposed (s, c, ch) C)"
    unfolding client_edit_install_publish by (rule ctl_edit_publish) (use es(1) in simp)
qed

interpretation edit_op: commit_op "\<lambda>C. fst (client_edit_from_origin E inc now orig C)" for E inc now orig
proof -
  have "coherent (fst (client_edit_from_origin E inc now orig C)) \<and> ctl_edit C (fst (client_edit_from_origin E inc now orig C))"
    if C: "coherent C" for C
  proof (cases rule: client_edit_cases [of E inc now orig C])
    case (refused r)
    then show ?thesis using C by (simp add: ctl_edit_def)
  next
    case (accepted target proposed s c t)
    then show ?thesis using client_edit_accepted [OF C accepted(1,2,4)] by simp
  qed
  then show "commit_op (\<lambda>C. fst (client_edit_from_origin E inc now orig C))" by unfold_locales simp_all
qed

section \<open>Runs of the controller\<close>

interpretation count_op: commit_op "\<lambda>C. fst (refresh_peer_count C)"
  by unfold_locales (simp_all add: refresh_peer_count_def Let_def coherent_def ctl_edit_def)

interpretation no_peers_op: commit_op "\<lambda>C. C\<lparr>session_peer_count := 0\<rparr>"
  by unfold_locales (simp_all add: coherent_def ctl_edit_def)

interpretation sync_op: commit_op "\<lambda>C. C\<lparr>sync_enabled := b\<rparr>" for b
  by unfold_locales (simp_all add: coherent_def ctl_edit_def)

interpretation endpoint_op: commit_op "set_audio_endpoint a" for a
proof -
  have "sess (set_audio_endpoint a C) = sess C" "published_session (set_audio_endpoint a C) = published_session C" for C
    by (simp_all add: set_audio_endpoint_def)
  then show "commit_op (set_audio_endpoint a)" by unfold_locales (simp_all add: coherent_def ctl_edit_def)
qed

lemma ctl_step_op: "ctl_step E C D \<Longrightarrow> \<exists>f. commit_op f \<and> D = f C"
proof (induction rule: ctl_step.induct)
  case (link C S)
  then obtain f where "session_op f" "S = f (sess C)" using link_step_op by blast
  moreover from this(1) have "commit_op (\<lambda>C. C\<lparr>sess := f (sess C)\<rparr>)" by (rule session_op.lifted_commit)
  ultimately show ?case by (intro exI [of _ "\<lambda>C. C\<lparr>sess := f (sess C)\<rparr>"]) simp
qed (blast intro: refresh_op.commit_op_axioms edit_op.commit_op_axioms playback_op.commit_op_axioms
    join_op.commit_op_axioms peerless_op.commit_op_axioms count_op.commit_op_axioms
    no_peers_op.commit_op_axioms sync_op.commit_op_axioms endpoint_op.commit_op_axioms)+

text \<open>The dispatch of a change is made of these steps.\<close>

lemma saw_session_timeline_steps: "(link_step E)\<^sup>*\<^sup>* S (fst (saw_session_timeline sid tline slot S))"
proof -
  obtain S1 r1 e1 where 1: "try_sighting sid tline False S = (S1, r1, e1)" by (metis prod.collapse)
  obtain S2 r2 e2 where 2: "try_sighting sid tline True S1 = (S2, r2, e2)" by (metis prod.collapse)
  have "link_step E S S1" "link_step E S1 S2"
    using link_step.sight [of E S sid tline False] link_step.sight [of E S1 sid tline True] 1 2 by simp_all
  then show ?thesis
    by (cases r1; cases r2) (auto simp: saw_session_timeline_def 1 2 intro: rtranclp.rtrancl_into_rtrancl)
qed

lemma link_steps_ctl: "(link_step E)\<^sup>*\<^sup>* (sess C) S \<Longrightarrow> (ctl_step E)\<^sup>*\<^sup>* C (C\<lparr>sess := S\<rparr>)"
proof (induction rule: rtranclp_induct)
  case (step S T)
  have "ctl_step E (C\<lparr>sess := S\<rparr>) ((C\<lparr>sess := S\<rparr>)\<lparr>sess := T\<rparr>)" by (rule ctl_step.link) (use step in simp)
  with step show ?case by simp
qed simp

lemma apply_change_steps: "(ctl_step E)\<^sup>*\<^sup>* C (apply_change E slot fresh now now' change C)"
proof -
  have count: "(ctl_step E)\<^sup>*\<^sup>* C (case refresh_peer_count C of (C, sid, old_count, new_count) \<Rightarrow>
      if old_count \<noteq> new_count \<and> new_count = 0 then fst (reset_state_if_peerless E (Some sid) fresh now now' C) else C)"
    using ctl_step.count [of E C] ctl_step.reset [of E "fst (refresh_peer_count C)"]
    by (auto split: prod.split intro: rtranclp.rtrancl_into_rtrancl)
  show ?thesis
  proof (cases change)
    case (SessionTimeline sid tline)
    show ?thesis
      unfolding SessionTimeline apply_change.simps
      by (rule rtranclp.rtrancl_into_rtrancl [OF link_steps_ctl [OF saw_session_timeline_steps] ctl_step.refresh])
  next
    case (SessionStartStopState sid tline st)
    then show ?thesis by (auto intro: ctl_step.playback)
  qed (use count in auto)
qed

lemma ctl_steps_coherent: "(ctl_step E)\<^sup>*\<^sup>* C D \<Longrightarrow> coherent C \<Longrightarrow> coherent D"
  by (induction rule: rtranclp_induct) (auto dest!: ctl_step_op intro: commit_op.keeps_coherent)

lemma ctl_steps_origin:
  assumes "(ctl_step E)\<^sup>*\<^sup>* C D" and "coherent C" and "\<not> live_origin e C" and "revision e < next_revision (sess C)"
  shows "\<not> live_origin e D \<and> revision e < next_revision (sess D)"
  using assms(1)
proof (induction rule: rtranclp_induct)
  case (step D F)
  then obtain f where f: "commit_op f" "F = f D" using ctl_step_op by blast
  then show ?case
    using commit_op.origin_stays_dead [OF f(1) ctl_steps_coherent [OF step.hyps(1) assms(2)]] step.IH by simp
qed (use assms in simp)

lemma ctl_steps_revisions:
  assumes "(ctl_step E)\<^sup>*\<^sup>* C D" and "coherent C"
  shows "next_revision (sess C) \<le> next_revision (sess D)"
  using assms(1)
proof (induction rule: rtranclp_induct)
  case (step D F)
  then obtain f where "commit_op f" "F = f D" using ctl_step_op by blast
  then have "ctl_edit D F" using commit_op.edits ctl_steps_coherent [OF step.hyps(1) assms(2)] by blast
  with step.IH show ?case by (simp add: ctl_edit_def)
qed simp

lemma new_controller_coherent:
  assumes "chrono_ok E"
  shows "coherent (new_controller E b node now now' i r)"
proof -
  obtain rev r' where a: "allocate_edit_revision r = (rev, r')" by fastforce
  have "of_microseconds E 0 = 0" using chrono_laws(6) [OF assms, of 0] by (simp add: in_i64_def)
  moreover have "beats_new (Fin 0) = Beats 0"
    using round_f64_int [of 0 False] by (simp add: beats_new_def f64_mul_def is_zero_def clamp_def mk_zero_def)
  moreover have "\<And>x. rev = Some x \<Longrightarrow> x < r'" using allocate_edit_revision_fresh [OF a] by simp
  ultimately show ?thesis
    unfolding new_controller_def Let_def a prod.case
    by (simp add: coherent_def announced_def sess_inv_def session_ok_def with_session_def init_session_state_def
        init_client_state_def Let_def default_start_stop_def)
qed

lemma origin_live_committed:
  assumes "coherent C" and "client_edit_from_origin E inc now (Some e) C = (D, Completed t)"
    and "in_timeline inc \<noteq> None \<or> in_start_stop inc \<noteq> None"
  shows "origin_matches e (current (sess C)) \<and> \<not> live_origin e D \<and> revision e < next_revision (sess D)"
proof (cases rule: client_edit_cases [of E inc now "Some e" C])
  case (refused r)
  then show ?thesis using assms(2) by auto
next
  case (accepted target proposed s c ch)
  note es = edited_sessions_props [where S = "sess C" and inc = inc and target = target,
      OF client_edit_target_cases(2) [OF accepted(2) assms(1)], simplified]
  have m: "origin_matches e (current (sess C))" using accepted(1) by (simp add: edit_applies_def Let_def)
  then have old: "revision e < next_revision (sess C)"
    using sess_invD(1) [OF coherentD(1) [OF assms(1)]] by (auto simp: origin_matches_def session_ok_def)
  have D: "sess D = edited_sessions inc target (sess C)" "published_session D = current (sess D)"
    using accepted(5) assms(2) by (auto simp: client_edit_install_publish)
  have "edit_revision (current (sess D)) \<noteq> Some (revision e)"
    using es(6) [of "revision e"] assms(3) old unfolding D(1) by auto
  then have "\<not> origin_matches e (current (sess D))" unfolding origin_matches_def by metis
  with m old es(1) D show ?thesis by (auto simp: live_origin_def edit_step_def)
qed

lemma rejected_timing:
  "refresh_timing E now C = (D, Inl err) \<Longrightarrow> D = reject_pending_timing C"
  "reset_commit E fresh now now' C = (D, Inl err) \<Longrightarrow> D = reject_pending_timing C"
  "join_commit E queued fresh now now' C = (D, Inl err) \<Longrightarrow> D = reject_pending_timing C"
  "reset_state_if_peerless E expected fresh now now' C = (D, Inl err) \<Longrightarrow> D = reject_pending_timing C"
proof -
  show "refresh_timing E now C = (D, Inl err) \<Longrightarrow> D = reject_pending_timing C"
    unfolding refresh_timing_def Let_def by (auto split: if_splits sum.splits prod.splits)
  show reset: "reset_commit E fresh now now' C = (D, Inl err) \<Longrightarrow> D = reject_pending_timing C"
    unfolding reset_commit_def Let_def by (auto split: sum.splits prod.splits)
  show "join_commit E queued fresh now now' C = (D, Inl err) \<Longrightarrow> D = reject_pending_timing C"
    unfolding join_commit_def Let_def by (auto split: if_splits sum.splits prod.splits dest: reset)
  show "reset_state_if_peerless E expected fresh now now' C = (D, Inl err) \<Longrightarrow> D = reject_pending_timing C"
    unfolding reset_state_if_peerless_def by (auto split: if_splits option.splits dest: reset)
qed

text \<open>The proposed start/stop state is later by a microsecond at least.\<close>

lemma micros_of_microseconds:
  assumes "chrono_ok E" and "in_i64 m"
  shows "micros E (of_microseconds E m) = m"
proof -
  have "wire_time E (m * 1000)" using assms by (auto simp: wire_time_def)
  moreover have "m * 1000 sdiv 1000 = m" by (simp add: signed_divide_int_def sgn_mult abs_mult mult_sgn_abs)
  ultimately show ?thesis using wire_time_micros(1) [of E "m * 1000"] chrono_laws(6) [OF assms] by simp
qed

lemma proposed_later:
  assumes E: "chrono_ok E" and "proposed_start_stop E st target C = Inr (Some mapped)"
  shows "micros E (timestamp (sh_start_stop (shared C))) < micros E (timestamp mapped)"
proof -
  obtain x where x: "st = Some x" using assms(2) by (cases st) (simp_all add: proposed_start_stop_def)
  obtain s where s: "checked_i64 (micros E (timestamp (sh_start_stop (shared C))) + 1) = Some s"
    using assms(2) x by (cases "checked_i64 (micros E (timestamp (sh_start_stop (shared C))) + 1)")
      (simp_all add: proposed_start_stop_def split: if_splits)
  let ?m = "host_to_ghost_nanos E (sh_xform (shared C)) (c_timestamp x)"
  have v: "valid_dur E ?m" using E by (simp add: host_to_ghost_nanos_def)
  have m: "timestamp mapped = of_microseconds E (max (micros E ?m) s)"
    using assms(2) x s
    by (auto simp: proposed_start_stop_def Let_def map_start_stop_state_from_client_to_session_def split: if_splits)
  from s have "s = micros E (timestamp (sh_start_stop (shared C))) + 1" "in_i64 s"
    by (auto simp: checked_i64_def split: if_splits)
  moreover from this have "in_i64 (max (micros E ?m) s)" using micros_in_i64 [OF E v] by (simp add: max_def)
  ultimately show ?thesis by (simp add: m micros_of_microseconds [OF E])
qed

text \<open>A capture is taken only when an edit can be applied.\<close>

lemma fresh_capture:
  assumes "coherent C" and "capture_client_state False C = Some (cl, e)"
  shows "edit_applies inc (Some e) C" and "cl = client C"
proof -
  let ?cur = "current (sess C)"
  have g: "session_matches (published_session C) ?cur" "se_id ?cur = timeline_session_id (client C)"
    "timeline_eq (se_timeline ?cur) (sh_timeline (shared C))"
    "xform_eq (x_form (se_measurement ?cur)) (sh_xform (shared C))" "edit_origin ?cur \<noteq> None"
    using assms(2) unfolding capture_client_state_def Let_def by (simp_all split: if_split_asm)
  then have ce: "Some (cl, e) = map_option (\<lambda>e. (client C, e)) (edit_origin ?cur)"
    using assms(2) unfolding capture_client_state_def Let_def by simp
  then show "cl = client C" by (cases "edit_origin ?cur") simp_all
  obtain r where e: "edit_revision ?cur = Some r"
      "e = \<lparr>origin_session = se_id ?cur, revision = r, origin_timeline = se_timeline ?cur,
            mapping = x_form (se_measurement ?cur)\<rparr>"
    using ce by (cases "edit_revision ?cur") (simp_all add: edit_origin_def)
  have "timeline_eq (se_timeline ?cur) (se_timeline ?cur)"
    using coherentD(2) [OF assms(1)] by (intro timeline_eq_refl) (auto simp: tempo_ok_def)
  then have "origin_matches e ?cur"
    using xform_eq_trans [OF g(4) xform_eq_sym [OF g(4)]] e by (simp add: origin_matches_def)
  then show "edit_applies inc (Some e) C"
    using g coherentD(4) [OF assms(1)] by (simp add: edit_applies_def Let_def)
qed

lemma timing_errors:
  "update_timing_guarded E s c tline form now sync sid = Inl e \<Longrightarrow> e = TimelineOriginExhausted"
  "update_session_timeline_from_client E tl1 tl2 at_time form = Inl e \<Longrightarrow> e = TimelineOriginExhausted"
  by (auto simp: update_timing_guarded_def update_client_timeline_from_session_def
      update_session_timeline_from_client_def Let_def result_simps split: if_splits)

lemma stale_causes:
  "client_edit_target E inc C \<noteq> Inl StaleClientState"
  "client_edit_prepared E inc target now C \<noteq> Inl StaleClientState"
  "proposed_start_stop E ss target C = Inl StaleClientState \<Longrightarrow>
     \<exists>st. ss = Some st \<and> c_timestamp st \<le> c_timestamp (cl_start_stop (client C))"
  by (auto simp: client_edit_target_def client_edit_prepared_def proposed_start_stop_def Let_def result_simps
      split: option.splits if_splits dest: timing_errors)

section \<open>Properties\<close>

text \<open>A controller to try the properties on: one millisecond after the clock's start, at 120 bpm.\<close>

definition sample_controller :: controller where
  "sample_controller = new_controller std_ext (Tempo (Fin 120)) (replicate 8 3) 1000000 1000000 0 1"

definition sample_origin :: session_edit_origin where
  "sample_origin = \<lparr>origin_session = replicate 8 3, revision = 1,
     origin_timeline = \<lparr>tempo = Tempo (Fin 120), beat_origin = Beats 0, time_origin = 0\<rparr>,
     mapping = \<lparr>slope = Fin 1, intercept = - 1000000\<rparr>\<rparr>"

definition sample_edit :: incoming_client_state where
  "sample_edit = \<lparr>in_timeline = None,
     in_start_stop = Some \<lparr>c_is_playing = True, c_time = 5000000, c_timestamp = 3000000\<rparr>, timeline_timestamp = 3000000\<rparr>"

lemma sample_controller_eq:
  "sample_controller =
     (let t = \<lparr>tempo = Tempo (Fin 120), beat_origin = Beats 0, time_origin = 0\<rparr>;
          x = \<lparr>slope = Fin 1, intercept = - 1000000\<rparr>; h = ghost_to_host_nanos std_ext x 0;
          init = \<lparr>incarnation = 0, edit_revision = Some 1, se_id = replicate 8 3, se_timeline = t,
                  se_measurement = \<lparr>x_form = x, measured_at = 1000000\<rparr>\<rparr>
      in \<lparr>sess = with_session init 1 2, published_session = init,
          own = \<lparr>node_state = \<lparr>node_id = replicate 8 3, session_id = replicate 8 3, timeline = t,
                               start_stop_state = default_start_stop\<rparr>,
                 measurement_endpoint = None, audio_endpoint = None\<rparr>,
          gateway_peer = None, shared = \<lparr>sh_timeline = t, sh_start_stop = default_start_stop, sh_xform = x\<rparr>,
          client = \<lparr>cl_timeline = t\<lparr>time_origin := h\<rparr>, timeline_session_id = replicate 8 3,
                    cl_start_stop = \<lparr>c_is_playing = False, c_time = h, c_timestamp = h\<rparr>\<rparr>,
          session_peer_count = 0, sync_enabled = False, responder = (replicate 8 3, x)\<rparr>)"
proof -
  have "beats_new (Fin 0) = Beats 0"
    using round_f64_int [of 0 False] by (simp add: beats_new_def f64_mul_def is_zero_def clamp_def mk_zero_def)
  moreover have "clamp_tempo \<lparr>tempo = Tempo (Fin 120), beat_origin = b, time_origin = t\<rparr>
      = \<lparr>tempo = Tempo (Fin 120), beat_origin = b, time_origin = t\<rparr>" for b t
    by (rule clamp_tempo_id [where r = 120]) simp_all
  moreover have "allocate_edit_revision (Suc 0) = (Some (Suc 0), 2)" by (simp add: allocate_edit_revision_def)
  ultimately show ?thesis
    by (simp add: sample_controller_def new_controller_def Let_def init_session_state_def
        init_client_state_def init_x_form_def default_start_stop_def std_ext_def)
qed

lemma sample_host: "ghost_to_host_nanos std_ext \<lparr>slope = Fin 1, intercept = - 1000000\<rparr> 0 = 1000000"
proof -
  let ?x = "\<lparr>slope = Fin 1, intercept = - 1000000\<rparr>"
  have "round_away (1000000 :: rat) = 1000000" using round_away_of_int [of 1000000] by simp
  then have "ghost_nanos_to_host_units std_ext ?x 0 1 = Inr 1000000"
    using ghost_to_host_exact [of std_ext ?x 1 0]
    by (simp add: is_finite_def f64_repr_numeral valid_dur_def std_ext_def std_ext_ok [unfolded std_ext_def]
        in_i128_def sat_sub_def sat128_def clamp_def)
  then show ?thesis
    by (simp add: ghost_to_host_nanos_def ghost_nanos_to_host_def unwrap_dur_def duration_nanos_id valid_dur_def)
qed

lemma sample_accepted:
  "snd (client_edit_from_origin std_ext sample_edit 3000000 (Some sample_origin) sample_controller) = Completed None"
  by (simp add: client_edit_from_origin_def sample_controller_eq sample_edit_def sample_origin_def Let_def sample_host
      with_session_def origin_matches_def timeline_eq_def tempo_eq_def xform_eq_def session_matches_def
      client_edit_target_def proposed_start_stop_def client_edit_prepared_def)

text \<open>C4: A node tells everybody the same. In every state a controller reaches, by any interleaving of client
  edits, received timelines and start/stop states, joins, resets, measurements and announcements, accepted or
  rejected, what it announces to its peers (session, timeline, start/stop state), the mapping its ping
  responder answers with, the session its client's timeline is labelled with and the published session belong together.\<close>

theorem announced_state_coherent:
  assumes "chrono_ok E" and "(ctl_step E)\<^sup>*\<^sup>* (new_controller E b node now now' i r) C"
  shows "timeline (node_state (own C)) = sh_timeline (shared C)
       \<and> start_stop_state (node_state (own C)) = sh_start_stop (shared C)
       \<and> responder C = (session_id (node_state (own C)), sh_xform (shared C))
       \<and> se_id (published_session C) = session_id (node_state (own C))
       \<and> timeline_session_id (client C) = session_id (node_state (own C))
       \<and> se_timeline (published_session C) = sh_timeline (shared C)
       \<and> (\<exists>bpm. tempo (sh_timeline (shared C)) = Tempo (Fin bpm) \<and> 20 \<le> bpm \<and> bpm \<le> 999)"
proof -
  have C: "coherent C" by (rule ctl_steps_coherent [OF assms(2) new_controller_coherent [OF assms(1)]])
  then have "announced C" by (simp add: coherent_def)
  then show ?thesis using coherentD(3) [OF C] unfolding announced_def tempo_ok_def by blast
qed

theorem announced_state_coherent_witness:
  "timeline_session_id (client (fst (refresh_timing std_ext 7 sample_controller)))
   = session_id (node_state (own (fst (refresh_timing std_ext 7 sample_controller))))"
proof -
  have "(ctl_step std_ext)\<^sup>*\<^sup>* (new_controller std_ext (Tempo (Fin 120)) (replicate 8 3) 1000000 1000000 0 1)
      (fst (refresh_timing std_ext 7 sample_controller))"
    unfolding sample_controller_def [symmetric] by (rule r_into_rtranclp) (rule ctl_step.refresh)
  from announced_state_coherent [OF std_chrono_ok this] show ?thesis by blast
qed

text \<open>C3: A captured state is committed at most once, and no edit is lost to a stale one. If an edit made from
  a capture is accepted, the capture's origin matched the current session at that moment, and from then
  on every edit with this origin, and every copy of it, is rejected as stale without any effect, whatever
  happens in between: joins, resets, rejected timelines that restore the published session, and
  edits that restore the same values.\<close>

theorem captured_state_commits_once:
  assumes "coherent C" and "client_edit_from_origin E inc now (Some e) C = (D, Completed t)"
    and "in_timeline inc \<noteq> None \<or> in_start_stop inc \<noteq> None"
    and "(ctl_step E)\<^sup>*\<^sup>* D F"
  shows "origin_matches e (current (sess C))
       \<and> client_edit_from_origin E inc' now' (Some e) F = (F, Rejected StaleClientState)"
proof -
  note o = origin_live_committed [OF assms(1-3)]
  have "coherent D" using edit_op.keeps_coherent [OF assms(1), of E inc now "Some e"] assms(2) by simp
  with ctl_steps_origin [OF assms(4)] o have "\<not> live_origin e F" by blast
  then show ?thesis using o by (simp add: client_edit_from_origin_def Let_def live_origin_def)
qed

lemma sample_coherent: "coherent sample_controller"
  unfolding sample_controller_def by (rule new_controller_coherent) simp

theorem captured_state_commits_once_witness:
  "snd (client_edit_from_origin std_ext sample_edit 4000000 (Some sample_origin)
      (fst (client_edit_from_origin std_ext sample_edit 3000000 (Some sample_origin) sample_controller)))
   = Rejected StaleClientState"
proof -
  let ?D = "fst (client_edit_from_origin std_ext sample_edit 3000000 (Some sample_origin) sample_controller)"
  have "client_edit_from_origin std_ext sample_edit 3000000 (Some sample_origin) sample_controller = (?D, Completed None)"
    using sample_accepted by (simp add: prod_eq_iff)
  from captured_state_commits_once [OF sample_coherent this, of ?D] show ?thesis by (simp add: sample_edit_def)
qed

text \<open>C17: A rejected commit has no effect but to drop what was not published. A client edit or a received start/stop
  state that is rejected, or has to wait, changes nothing at all. A rejected timeline, join or reset puts the current session
  back to the published one and changes the list of other sessions, and nothing else: the peers, the counters, the announced
  peer state, the responder, the session state and the client's state are as they were. Of the other sessions, it removes those that match the
  published or the rejected session when these are different sessions, and otherwise replaces those that match the published one by it;
  all others stay, in their order.\<close>

theorem rejected_commits_roll_back:
  "(client_edit_from_origin E inc now orig C = (D, r) \<and> (\<forall>t. r \<noteq> Completed t) \<longrightarrow> D = C)
   \<and> (received_start_stop E source advertised st now now' C = (D, r) \<and> (\<forall>t. r \<noteq> Completed t) \<longrightarrow> D = C)
   \<and> (refresh_timing E now C = (D, Inl err) \<or> join_commit E queued fresh now now' C = (D, Inl err)
        \<or> reset_state_if_peerless E expected fresh now now' C = (D, Inl err) \<longrightarrow>
      current (sess D) = published_session C
      \<and> D\<lparr>sess := (sess D)\<lparr>current := current (sess C), other_sessions := other_sessions (sess C)\<rparr>\<rparr> = C
      \<and> (if session_matches (published_session C) (current (sess C))
         then other_sessions (sess D)
                = map (\<lambda>s. if session_matches (published_session C) s then published_session C else s) (other_sessions (sess C))
         else other_sessions (sess D)
                = filter (\<lambda>s. \<not> session_matches (published_session C) s \<and> \<not> session_matches (current (sess C)) s)
                    (other_sessions (sess C))))"
proof (intro conjI impI)
  show "D = C" if "client_edit_from_origin E inc now orig C = (D, r) \<and> (\<forall>t. r \<noteq> Completed t)"
    using that by (cases rule: client_edit_cases [of E inc now orig C]) auto
  show "D = C" if "received_start_stop E source advertised st now now' C = (D, r) \<and> (\<forall>t. r \<noteq> Completed t)"
    using that by (cases rule: received_start_stop_cases [of E source advertised st now now' C]) auto
  assume "refresh_timing E now C = (D, Inl err) \<or> join_commit E queued fresh now now' C = (D, Inl err)
      \<or> reset_state_if_peerless E expected fresh now now' C = (D, Inl err)"
  then have D: "D = reject_pending_timing C" by (elim disjE) (blast dest: rejected_timing)+
  show "current (sess D) = published_session C"
    "D\<lparr>sess := (sess D)\<lparr>current := current (sess C), other_sessions := other_sessions (sess C)\<rparr>\<rparr> = C"
    by (simp_all add: D reject_pending_timing_def Let_def)
  show "if session_matches (published_session C) (current (sess C))
      then other_sessions (sess D)
             = map (\<lambda>s. if session_matches (published_session C) s then published_session C else s) (other_sessions (sess C))
      else other_sessions (sess D)
             = filter (\<lambda>s. \<not> session_matches (published_session C) s \<and> \<not> session_matches (current (sess C)) s)
                 (other_sessions (sess C))"
    by (simp add: D reject_pending_timing_def Let_def)
qed

theorem rejected_commits_roll_back_witness:
  "current (sess (fst (refresh_timing std_ext 7 (sample_controller\<lparr>sess := (sess sample_controller)
      \<lparr>current := (published_session sample_controller)
         \<lparr>se_timeline := \<lparr>tempo = Tempo (Fin 120), beat_origin = Beats 5, time_origin = max_nanos\<rparr>\<rparr>\<rparr>\<rparr>))))
   = published_session sample_controller"
proof -
  let ?C = "sample_controller\<lparr>sess := (sess sample_controller)\<lparr>current := (published_session sample_controller)
      \<lparr>se_timeline := \<lparr>tempo = Tempo (Fin 120), beat_origin = Beats 5, time_origin = max_nanos\<rparr>\<rparr>\<rparr>\<rparr>"
  have "time_origin (clamp_tempo t) = time_origin t" for t by (simp add: clamp_tempo_def)
  then have "snd (refresh_timing std_ext 7 ?C) = Inl TimelineOriginExhausted"
    by (simp add: refresh_timing_def Let_def sample_controller_eq session_matches_def update_timing_guarded_def
        std_ext_def checked_i64_def in_i64_def signed_divide_int_def)
  then have "refresh_timing std_ext 7 ?C = (fst (refresh_timing std_ext 7 ?C), Inl TimelineOriginExhausted)"
    by (simp add: prod_eq_iff)
  then have "current (sess (fst (refresh_timing std_ext 7 ?C))) = published_session ?C"
    using rejected_commits_roll_back [of std_ext _ 7 _ ?C "fst (refresh_timing std_ext 7 ?C)"] by blast
  then show ?thesis by simp
qed

text \<open>The start/stop state of a session only moves forward. An accepted client edit keeps it or replaces it
  by one whose time stamp is later by at least a microsecond, the unit it is announced in, so that every peer takes
  it for newer, and a received state is taken only if its time stamp is later.\<close>

theorem playback_moves_forward:
  assumes "chrono_ok E" and "coherent C"
    and "client_edit_from_origin E inc now orig C = (D, r)
       \<or> received_start_stop E source advertised st now now' C = (D, r)"
  shows "sh_start_stop (shared D) = sh_start_stop (shared C)
       \<or> micros E (timestamp (sh_start_stop (shared C))) < micros E (timestamp (sh_start_stop (shared D)))
       \<or> sh_start_stop (shared D) = st \<and> timestamp (sh_start_stop (shared C)) < timestamp st"
  using assms(3)
proof
  assume eq: "client_edit_from_origin E inc now orig C = (D, r)"
  show ?thesis
  proof (cases rule: client_edit_cases [of E inc now orig C])
    case (refused r)
    then show ?thesis using eq by simp
  next
    case (accepted target proposed s c t)
    note s = client_edit_accepted(4) [OF assms(2) accepted(1,2,4)]
    have D: "sh_start_stop (shared D) = edited_start_stop inc proposed (sh_start_stop s)"
      using accepted(5) eq by (auto simp: client_edit_install_publish publish_discovery_def Let_def)
    show ?thesis
    proof (cases "\<exists>mapped. in_start_stop inc \<noteq> None \<and> proposed = Some mapped")
      case True
      then obtain mapped where m: "in_start_stop inc \<noteq> None" "proposed = Some mapped" by blast
      then have "micros E (timestamp (sh_start_stop (shared C))) < micros E (timestamp mapped)"
        using proposed_later [OF assms(1), of "in_start_stop inc" target C mapped] accepted(3) by simp
      then show ?thesis using D m by (simp add: edited_start_stop_def)
    qed (use D s in \<open>auto simp: edited_start_stop_def split: option.split\<close>)
  qed
next
  assume eq: "received_start_stop E source advertised st now now' C = (D, r)"
  show ?thesis
  proof (cases rule: received_start_stop_cases [of E source advertised st now now' C])
    case (idle r)
    then show ?thesis using eq by simp
  next
    case (applied s c t c')
    have "sh_start_stop (shared D) = st" using applied(4) eq update_timing_result(2) [OF applied(2)]
      by (auto simp: publish_discovery_def Let_def)
    then show ?thesis using applied(1) by (simp add: playback_applies_def Let_def)
  qed
qed

theorem playback_moves_forward_witness:
  "micros std_ext (timestamp (sh_start_stop (shared (fst (client_edit_from_origin std_ext sample_edit 3000000
      (Some sample_origin) (sample_controller\<lparr>sync_enabled := True\<rparr>)))))) > 0"
proof -
  let ?C = "sample_controller\<lparr>sync_enabled := True\<rparr>"
  have C: "coherent ?C" by (rule sync_op.keeps_coherent [OF sample_coherent])
  have zero: "micros std_ext 0 = 0"
    by (simp add: micros_def std_ext_def checked_i64_def in_i64_def signed_divide_int_def)
  have "checked_i64 1 = Some 1" by (simp add: checked_i64_def in_i64_def)
  with zero have playing: "is_playing (sh_start_stop (shared (fst (client_edit_from_origin std_ext sample_edit 3000000
      (Some sample_origin) ?C))))"
    by (simp add: client_edit_from_origin_def sample_controller_eq sample_edit_def sample_origin_def Let_def sample_host
        with_session_def origin_matches_def timeline_eq_def tempo_eq_def xform_eq_def session_matches_def
        client_edit_target_def proposed_start_stop_def client_edit_prepared_def client_edit_install_publish
        publish_discovery_def edited_start_stop_def map_start_stop_state_from_client_to_session_def
        default_start_stop_def)
  note zero
  moreover have "sh_start_stop (shared ?C) = default_start_stop" by (simp add: sample_controller_eq Let_def)
  ultimately show ?thesis
    using playback_moves_forward [OF std_chrono_ok C disjI1 [OF surjective_pairing], of sample_edit 3000000 "Some sample_origin" default_start_stop]
      playing by (auto simp: default_start_stop_def)
qed

text \<open>A fresh capture can be committed. An edit made from a capture, with no other change in between, never
  has to wait for a publication; it is accepted, or refused because a time does not fit its type, and it
  is refused as stale only if it carries a start/stop state stamped no later than the captured one.\<close>

theorem fresh_capture_commits:
  assumes "coherent C" and "capture_client_state False C = Some (cl, e)"
  shows "(\<exists>t. snd (client_edit_from_origin E inc now (Some e) C) = Completed t)
       \<or> (\<exists>err. snd (client_edit_from_origin E inc now (Some e) C) = Rejected err
            \<and> (err = StaleClientState \<longrightarrow>
                (\<exists>st. in_start_stop inc = Some st \<and> c_timestamp st \<le> c_timestamp (cl_start_stop cl))))"
proof -
  have ready: "edit_applies inc (Some e) C" and cl: "cl = client C"
    using fresh_capture [OF assms] by simp_all
  then have not_wait: "snd (client_edit_from_origin E inc now (Some e) C) \<noteq> WaitingForPublication"
    by (auto simp: client_edit_from_origin_def edit_applies_def Let_def split: option.splits sum.splits)
  have "\<exists>st. in_start_stop inc = Some st \<and> c_timestamp st \<le> c_timestamp (cl_start_stop cl)"
    if "snd (client_edit_from_origin E inc now (Some e) C) = Rejected StaleClientState"
    using that ready stale_causes(1) [of E inc C] stale_causes(2) [of E inc _ now C] stale_causes(3) [of E "in_start_stop inc" _ C] unfolding cl
    by (auto simp: client_edit_from_origin_def edit_applies_def Let_def split: sum.splits)
  then show ?thesis using not_wait by (cases "snd (client_edit_from_origin E inc now (Some e) C)") auto
qed

theorem fresh_capture_commits_witness:
  "\<exists>e. capture_client_state False sample_controller = Some (client sample_controller, e)
     \<and> snd (client_edit_from_origin std_ext sample_edit 3000000 (Some e) sample_controller) \<noteq> WaitingForPublication"
proof -
  have "capture_client_state False sample_controller = Some (client sample_controller, sample_origin)"
    by (simp add: capture_client_state_def sample_controller_eq sample_origin_def Let_def with_session_def
        session_matches_def timeline_eq_def tempo_eq_def xform_eq_def edit_origin_def)
  then show ?thesis using fresh_capture_commits [OF sample_coherent, of _ sample_origin std_ext sample_edit 3000000] by auto
qed

end
