(* ===== verification/Interfaces.thy ===== *)
theory Interfaces
  imports Messages "HOL-Library.Multiset" "HOL-Library.Product_Lexorder"
begin

text \<open>
  The interfaces of the host and the sockets of the messenger on them: \<open>src/platform/network.rs\<close>,
  \<open>src/discovery/topology.rs\<close> and the registration of interfaces in \<open>src/discovery/messenger.rs\<close>.

  What the operating system reports (the lists of the crates \<open>network-interface\<close> and \<open>if-addrs\<close>, the outcome of
  opening a socket and of joining or leaving the multicast group, the notifications about the topology) is an argument.
  A socket is a number, which stands for its pointer; the flag \<open>cancel\<close> that all leases of a registration share is
  the membership of that number in \<open>cancelled\<close>. An error stands for its message. A hash map is an association list in the order of its iteration.
\<close>

section \<open>Addresses of the host\<close>

datatype ip_addr = IpV4 u32 | IpV6 "128 word"

record ipv4_interface =
  if_addr :: u32
  if_index :: u32
  if_name :: bytes

text \<open>An entry of \<open>NetworkInterface::show\<close> and one of \<open>get_if_addrs\<close>.\<close>

record network_interface =
  ni_index :: u32
  ni_name :: bytes
  ni_addrs :: "ip_addr list"

record if_entry =
  ie_index :: "u32 option"
  ie_ip :: ip_addr
  ie_netmask :: u32
  ie_loopback :: bool
  ie_up :: bool

definition is_loopback_v4 :: "u32 \<Rightarrow> bool" where
  "is_loopback_v4 a \<longleftrightarrow> drop_bit 24 a = 127"

definition is_multicast_v4 :: "u32 \<Rightarrow> bool" where
  "is_multicast_v4 a \<longleftrightarrow> drop_bit 28 a = 14"

definition is_link_local_v4 :: "u32 \<Rightarrow> bool" where
  "is_link_local_v4 a \<longleftrightarrow> drop_bit 16 a = 43518"

definition is_usable_ipv4 :: "u32 \<Rightarrow> bool" where
  "is_usable_ipv4 a \<longleftrightarrow> \<not> is_loopback_v4 a \<and> a \<noteq> 4294967295 \<and> \<not> is_multicast_v4 a \<and> a \<noteq> 0"

definition is_usable_ipv6 :: "128 word \<Rightarrow> bool" where
  "is_usable_ipv6 a \<longleftrightarrow> a \<noteq> 1 \<and> drop_bit 118 a = 1018"

fun is_usable_interface :: "ip_addr \<Rightarrow> bool" where
  "is_usable_interface (IpV4 a) = is_usable_ipv4 a"
| "is_usable_interface (IpV6 a) = is_usable_ipv6 a"

definition down_indices :: "(u32 \<times> bool) list \<Rightarrow> u32 set" where
  "down_indices es = fst ` set es - fst ` set (filter snd es)"

definition down_interface_indices :: "if_entry list option \<Rightarrow> u32 set" where
  "down_interface_indices r =
     (case r of None \<Rightarrow> {}
      | Some es \<Rightarrow> down_indices (List.map_filter (\<lambda>i. map_option (\<lambda>x. (x, ie_up i)) (ie_index i)) es))"

definition interfaces_of :: "network_interface \<Rightarrow> ipv4_interface list" where
  "interfaces_of i =
     List.map_filter (\<lambda>a. case a of
         IpV4 v \<Rightarrow> if is_usable_ipv4 v \<and> ni_index i \<noteq> 0
                   then Some \<lparr>if_addr = v, if_index = ni_index i, if_name = ni_name i\<rparr> else None
       | IpV6 v \<Rightarrow> None) (ni_addrs i)"

fun dedup :: "'a list \<Rightarrow> 'a list" where
  "dedup (x # y # xs) = (if x = y then dedup (x # xs) else x # dedup (y # xs))"
| "dedup xs = xs"

definition scan_discovery_interfaces ::
  "network_interface list option \<Rightarrow> if_entry list option \<Rightarrow> ipv4_interface list option" where
  "scan_discovery_interfaces shown entries =
     (case shown of None \<Rightarrow> None
      | Some is \<Rightarrow>
          let down = down_interface_indices entries;
              result = concat (map interfaces_of (filter (\<lambda>i. ni_index i \<notin> down) is))
          in Some (dedup (sort_key (\<lambda>i. (if_addr i, if_index i)) result)))"

definition v4_addresses :: "network_interface \<Rightarrow> ip_addr list" where
  "v4_addresses i = filter (\<lambda>a. case a of IpV4 v \<Rightarrow> is_usable_ipv4 v | IpV6 v \<Rightarrow> False) (ni_addrs i)"

definition v6_addresses :: "network_interface \<Rightarrow> ip_addr list" where
  "v6_addresses i = filter (\<lambda>a. case a of IpV6 v \<Rightarrow> is_usable_ipv6 v | IpV4 v \<Rightarrow> False) (ni_addrs i)"

definition collect_interface_addresses :: "network_interface list \<Rightarrow> u32 set \<Rightarrow> ip_addr list" where
  "collect_interface_addresses is down =
     (let up = filter (\<lambda>i. ni_index i \<notin> down) is;
          ipv4 = {(ni_index i, ni_name i) |i. i \<in> set up \<and> v4_addresses i \<noteq> []}
      in concat (map v4_addresses up) @ concat (map v6_addresses (filter (\<lambda>i. (ni_index i, ni_name i) \<in> ipv4) up)))"

definition collect_fallback_addresses :: "if_entry list \<Rightarrow> ip_addr list" where
  "collect_fallback_addresses es =
     (let down = down_indices (List.map_filter (\<lambda>i. map_option (\<lambda>x. (x, ie_up i)) (ie_index i)) es)
      in filter is_usable_interface
           (map ie_ip (filter (\<lambda>i. case ie_index i of None \<Rightarrow> True | Some x \<Rightarrow> x \<notin> down) es)))"

text \<open>IPv4 addresses come before IPv6 addresses.\<close>

instantiation ip_addr :: linorder
begin

fun less_eq_ip_addr :: "ip_addr \<Rightarrow> ip_addr \<Rightarrow> bool" where
  "less_eq_ip_addr (IpV4 a) (IpV4 b) = (a \<le> b)"
| "less_eq_ip_addr (IpV4 a) (IpV6 b) = True"
| "less_eq_ip_addr (IpV6 a) (IpV4 b) = False"
| "less_eq_ip_addr (IpV6 a) (IpV6 b) = (a \<le> b)"

definition less_ip_addr :: "ip_addr \<Rightarrow> ip_addr \<Rightarrow> bool" where
  "less_ip_addr a b \<longleftrightarrow> a \<le> b \<and> \<not> b \<le> a"

instance
proof
  fix a b c :: ip_addr
  show "a < b \<longleftrightarrow> a \<le> b \<and> \<not> b \<le> a" by (simp add: less_ip_addr_def)
  show "a \<le> a" by (cases a) simp_all
  show "a \<le> b \<Longrightarrow> b \<le> c \<Longrightarrow> a \<le> c" by (cases a; cases b; cases c) simp_all
  show "a \<le> b \<Longrightarrow> b \<le> a \<Longrightarrow> a = b" by (cases a; cases b) simp_all
  show "a \<le> b \<or> b \<le> a" by (cases a; cases b) auto
qed

end

definition scan_interfaces_safe :: "network_interface list option \<Rightarrow> if_entry list option \<Rightarrow> if_entry list option \<Rightarrow> ip_addr list" where
  "scan_interfaces_safe shown entries fallback =
     (let found = (case shown of
                     Some is \<Rightarrow> collect_interface_addresses is (down_interface_indices entries)
                   | None \<Rightarrow> (case fallback of Some es \<Rightarrow> collect_fallback_addresses es | None \<Rightarrow> []))
      in dedup (sort found))"

section \<open>Local delivery\<close>

record local_identity =
  loopback_indices :: "u32 set"
  addresses :: "ip_addr set"
  subnets :: "u32 \<times> u32 \<rightharpoonup> u32"

definition default_identity :: local_identity where
  "default_identity = \<lparr>loopback_indices = {}, addresses = {}, subnets = Map.empty\<rparr>"

definition subnet_of :: "if_entry \<Rightarrow> ((u32 \<times> u32) \<times> u32) option" where
  "subnet_of i =
     (case ie_ip i of IpV4 a \<Rightarrow> map_option (\<lambda>x. ((x, a), ie_netmask i)) (ie_index i) | IpV6 _ \<Rightarrow> None)"

text \<open>Collecting into a hash map keeps the last of two equal keys.\<close>

definition identity :: "if_entry list option \<Rightarrow> local_identity" where
  "identity r =
     (case r of None \<Rightarrow> default_identity
      | Some es \<Rightarrow>
          \<lparr>loopback_indices = set (List.map_filter ie_index (filter ie_loopback es)),
           addresses = ie_ip ` set es,
           subnets = map_of (rev (List.map_filter subnet_of es))\<rparr>)"

definition same_subnet :: "local_identity \<Rightarrow> u32 \<Rightarrow> u32 \<Rightarrow> ip_addr \<Rightarrow> bool" where
  "same_subnet D i address source =
     (case source of
        IpV6 _ \<Rightarrow> False
      | IpV4 s \<Rightarrow>
          (case subnets D (i, address) of None \<Rightarrow> False
           | Some netmask \<Rightarrow> and address netmask = and s netmask))"

definition accepts :: "local_identity \<Rightarrow> u64 \<Rightarrow> ip_addr \<Rightarrow> bool" where
  "accepts D i source \<longleftrightarrow> unat i < 2 ^ 32 \<and> ucast i \<in> loopback_indices D \<and> source \<in> addresses D"

section \<open>Topology\<close>

text \<open>
  What one read of the notification socket gives; the reads of one drain end with \<open>WouldBlock\<close>, which is the end of
  the list. \<open>Notified\<close> says whether the message is about the lifetime of an interface.
\<close>

datatype topology_read = StreamEnd | Notified bool | ReadFailed

fun drain_source :: "topology_read list \<Rightarrow> bool \<Rightarrow> nat \<Rightarrow> bool \<times> nat" where
  "drain_source [] changed e = (True, if changed then e + 1 else e)"
| "drain_source (StreamEnd # rs) changed e = (False, e + 1)"
| "drain_source (ReadFailed # rs) changed e = (False, e + 1)"
| "drain_source (Notified b # rs) changed e = drain_source rs (changed \<or> b) e"

text \<open>The generation, or \<open>None\<close> for an error, and the new count.\<close>

definition topology_check :: "topology_read list \<Rightarrow> nat \<Rightarrow> nat option \<times> nat" where
  "topology_check rs e = (case drain_source rs False e of (ok, e') \<Rightarrow> (if ok then Some e' else None, e'))"

section \<open>Registered sockets\<close>

record iface_socket =
  sock :: nat
  if_identity :: ipv4_interface
  lease_generation :: nat
  measurement_responder :: bool
  local_delivery :: local_identity

type_synonym iface_group = "iface_socket \<times> iface_socket list"
type_synonym interface_map = "(u32 \<times> iface_group) list"

definition registrations :: "iface_group \<Rightarrow> iface_socket list" where
  "registrations g = fst g # snd g"

definition all_registrations :: "interface_map \<Rightarrow> iface_socket list" where
  "all_registrations m = concat (map (registrations \<circ> snd) m)"

datatype io_error = AlreadyRegistered | TopologyChanged | Unregistered | Invalidated | OsError bytes

record packet =
  pk_bytes :: bytes
  pk_index :: u64
  pk_dst :: ip_addr
  pk_src :: ip_addr
  pk_port :: u16

record interfaces =
  if_map :: interface_map
  cancelled :: "nat set"
  members :: "u32 set"
  multicast_queue :: "packet list"
  next_socket :: nat

definition no_interfaces :: interfaces where
  "no_interfaces = \<lparr>if_map = [], cancelled = {}, members = {}, multicast_queue = [], next_socket = 0\<rparr>"

text \<open>\<open>None\<close>: the topology could not be read.\<close>

definition is_current :: "nat set \<Rightarrow> nat option \<Rightarrow> iface_socket \<Rightarrow> bool option" where
  "is_current stopped_socks g e =
     (if sock e \<in> stopped_socks then Some False else map_option (\<lambda>n. n = lease_generation e) g)"

definition drain_multicast :: "interfaces \<Rightarrow> interfaces" where
  "drain_multicast I = I\<lparr>multicast_queue := []\<rparr>"

definition add_to_group :: "iface_socket \<Rightarrow> interface_map \<Rightarrow> interface_map" where
  "add_to_group e m =
     (let a = if_addr (if_identity e)
      in if a \<in> fst ` set m then map (\<lambda>(k, r, ss). if k = a then (k, r, ss @ [e]) else (k, r, ss)) m
         else m @ [(a, e, [])])"

text \<open>
  The calls to the operating system in one pass over the interfaces: an error when the socket cannot be opened, the
  generation read at the registration, an error when the group cannot be joined, and whether it can be left.
\<close>

record host =
  open_error :: "ipv4_interface \<Rightarrow> io_error option"
  topology_now :: "ipv4_interface \<Rightarrow> nat option"
  topology_error :: io_error
  join_error :: "ipv4_interface \<Rightarrow> io_error option"
  can_leave :: "u32 \<Rightarrow> bool"

definition add_interface ::
  "host \<Rightarrow> ipv4_interface \<Rightarrow> nat \<Rightarrow> bool \<Rightarrow> local_identity \<Rightarrow> interfaces \<Rightarrow> (io_error + iface_socket) \<times> interfaces" where
  "add_interface H i generation responder D I =
     (case open_error H i of
        Some err \<Rightarrow> (Inl err, I)
      | None \<Rightarrow>
          let e = \<lparr>sock = next_socket I, if_identity = i, lease_generation = generation,
                   measurement_responder = responder, local_delivery = D\<rparr>;
              I = I\<lparr>next_socket := next_socket I + 1\<rparr>;
              others = all_registrations (if_map I)
          in if \<exists>x\<in>set others. if_identity x = i then (Inl AlreadyRegistered, I)
             else (case is_current (cancelled I) (topology_now H i) e of
                     None \<Rightarrow> (Inl (topology_error H), I)
                   | Some False \<Rightarrow> (Inl TopologyChanged, I)
                   | Some True \<Rightarrow>
                       if \<exists>x\<in>set others. if_index (if_identity x) = if_index i
                       then (Inr e, (drain_multicast I)\<lparr>if_map := add_to_group e (if_map I)\<rparr>)
                       else (case join_error H i of
                               Some err \<Rightarrow> (Inl err, I)
                             | None \<Rightarrow> (Inr e, (drain_multicast I)\<lparr>members := insert (if_index i) (members I),
                                                                   if_map := add_to_group e (if_map I)\<rparr>))))"

fun take_first :: "('a \<Rightarrow> bool) \<Rightarrow> 'a list \<Rightarrow> ('a \<times> 'a list) option" where
  "take_first P [] = None"
| "take_first P (x # xs) = (if P x then Some (x, xs) else map_option (\<lambda>(y, ys). (y, x # ys)) (take_first P xs))"

text \<open>Removing from the group of an address: the last sibling replaces a removed root.\<close>

definition remove_from_group :: "ipv4_interface \<Rightarrow> iface_group \<Rightarrow> iface_socket option \<times> iface_group option" where
  "remove_from_group i g =
     (case g of (top_entry, siblings) \<Rightarrow>
        if if_identity top_entry = i
        then (Some top_entry, if siblings = [] then None else Some (List.last siblings, butlast siblings))
        else (case take_first (\<lambda>e. if_identity e = i) siblings of
                None \<Rightarrow> (None, Some g)
              | Some (e, rest) \<Rightarrow> (Some e, Some (top_entry, rest))))"

definition remove_entry :: "ipv4_interface \<Rightarrow> interface_map \<Rightarrow> iface_socket option \<times> interface_map" where
  "remove_entry i m =
     (case map_of m (if_addr i) of
        None \<Rightarrow> (None, m)
      | Some g \<Rightarrow>
          (case remove_from_group i g of (removed, left) \<Rightarrow>
             (removed, filter (\<lambda>x. fst x \<noteq> if_addr i) m @ (case left of None \<Rightarrow> [] | Some g' \<Rightarrow> [(if_addr i, g')]))))"

definition remove_interface :: "host \<Rightarrow> ipv4_interface \<Rightarrow> interfaces \<Rightarrow> interfaces" where
  "remove_interface H i I =
     (case remove_entry i (if_map I) of
        (None, m) \<Rightarrow> I\<lparr>if_map := m\<rparr>
      | (Some e, m) \<Rightarrow>
          let I = I\<lparr>if_map := m, cancelled := insert (sock e) (cancelled I)\<rparr>;
              I = (if (\<exists>x\<in>set (all_registrations m). if_index (if_identity x) = if_index i) \<or> \<not> can_leave H (if_index i)
                   then I else I\<lparr>members := members I - {if_index i}\<rparr>)
          in drain_multicast I)"

section \<open>Reconciliation with a scan\<close>

type_synonym setup_failures = "ipv4_interface \<rightharpoonup> io_error"

definition failed_setup :: "ipv4_interface \<Rightarrow> io_error \<Rightarrow> setup_failures \<Rightarrow> setup_failures" where
  "failed_setup i err f = (if f i = Some err then f else f(i \<mapsto> err))"

definition forget_except :: "ipv4_interface list \<Rightarrow> setup_failures \<Rightarrow> setup_failures" where
  "forget_except cur f = f |` set cur"

fun add_interfaces ::
  "host \<Rightarrow> nat \<Rightarrow> bool \<Rightarrow> local_identity \<Rightarrow> ipv4_interface list \<Rightarrow> interfaces \<times> setup_failures \<times> iface_socket list \<Rightarrow>
   interfaces \<times> setup_failures \<times> iface_socket list" where
  "add_interfaces H g r D [] s = s"
| "add_interfaces H g r D (i # is) (I, f, spawned) =
     (case add_interface H i g r D I of
        (Inl err, I') \<Rightarrow> add_interfaces H g r D is (I', failed_setup i err f, spawned)
      | (Inr e, I') \<Rightarrow> add_interfaces H g r D is (I', f(i := None), spawned @ [e]))"

definition refresh_all :: "local_identity \<Rightarrow> interface_map \<Rightarrow> interface_map" where
  "refresh_all D m = map (\<lambda>(k, r, ss). (k, r\<lparr>local_delivery := D\<rparr>, map (\<lambda>e. e\<lparr>local_delivery := D\<rparr>) ss)) m"

text \<open>The new state, the failures, the sockets with a new receive loop and whether the registrations changed.\<close>

definition reconcile_interfaces ::
  "host \<Rightarrow> ipv4_interface list \<Rightarrow> local_identity \<Rightarrow> nat \<Rightarrow> bool \<Rightarrow> interfaces \<Rightarrow> setup_failures \<Rightarrow>
   interfaces \<times> setup_failures \<times> iface_socket list \<times> bool" where
  "reconcile_interfaces H cur D generation responder I f =
     (let f = forget_except cur f;
          I = I\<lparr>if_map := refresh_all D (if_map I)\<rparr>;
          entries = all_registrations (if_map I);
          stale = map if_identity (filter (\<lambda>e. if_identity e \<notin> set cur \<or> lease_generation e \<noteq> generation) entries);
          new = filter (\<lambda>i. i \<notin> if_identity ` set entries \<or> i \<in> set stale) cur;
          I = fold (remove_interface H) stale I
      in case add_interfaces H generation responder D new (I, f, []) of
           (I, f, spawned) \<Rightarrow> (I, f, spawned, stale \<noteq> [] \<or> spawned \<noteq> []))"

section \<open>The registrations as a set\<close>

definition map_ok :: "interface_map \<Rightarrow> bool" where
  "map_ok m \<longleftrightarrow> distinct (map fst m) \<and> (\<forall>x\<in>set m. \<forall>e\<in>set (registrations (snd x)). if_addr (if_identity e) = fst x)"

abbreviation regs :: "interfaces \<Rightarrow> iface_socket list" where "regs I \<equiv> all_registrations (if_map I)"

definition interfaces_ok :: "interfaces \<Rightarrow> bool" where
  "interfaces_ok I \<longleftrightarrow>
     map_ok (if_map I) \<and> distinct (map if_identity (regs I)) \<and> distinct (map sock (regs I))
   \<and> (\<forall>e\<in>set (regs I). sock e < next_socket I \<and> sock e \<notin> cancelled I \<and> if_index (if_identity e) \<in> members I)
   \<and> (\<forall>s\<in>cancelled I. s < next_socket I)"

lemma fst_in: "(k, v) \<in> A \<Longrightarrow> k \<in> fst ` A"
  by force

lemma all_registrations_simps [simp]:
  "all_registrations [] = []" "all_registrations (x # m) = registrations (snd x) @ all_registrations m"
  "all_registrations (m @ m') = all_registrations m @ all_registrations m'"
  by (simp_all add: all_registrations_def)

lemma registrations_simps [simp]: "registrations (r, ss) = r # ss"
  by (simp add: registrations_def)

lemma mset_regs_split:
  assumes "distinct (map fst m)" and "map_of m a = Some g"
  shows "mset (all_registrations m) = mset (registrations g) + mset (all_registrations (filter (\<lambda>x. fst x \<noteq> a) m))"
  using assms
proof (induction m)
  case (Cons x m)
  show ?case
  proof (cases "fst x = a")
    case True
    then have "filter (\<lambda>x. fst x \<noteq> a) m = m" using Cons.prems by (auto simp: filter_id_conv dest: fst_in)
    then show ?thesis using Cons.prems True by auto
  next
    case False
    then show ?thesis using Cons by auto
  qed
qed simp

lemma mset_regs_add:
  assumes "map_ok m"
  shows "mset (all_registrations (add_to_group e m)) = add_mset e (mset (all_registrations m))" and "map_ok (add_to_group e m)"
proof -
  define a where "a = if_addr (if_identity e)"
  let ?f = "\<lambda>(k, r, ss). if k = a then (k, r, ss @ [e]) else (k, r, ss)"
  have fst: "map fst (map ?f m) = map fst m" by auto
  have "distinct (map fst m) \<Longrightarrow> a \<in> fst ` set m \<Longrightarrow>
    mset (all_registrations (map ?f m)) = add_mset e (mset (all_registrations m))" for m
  proof (induction m)
    case (Cons x m)
    show ?case
    proof (cases "fst x = a")
      case True
      then have "map ?f m = m" using Cons.prems by (intro map_idI) (auto split: prod.splits dest: fst_in)
      then show ?thesis using True by (cases x) auto
    next
      case False
      then show ?thesis using Cons by (cases x) auto
    qed
  qed simp
  from this [of m] show "mset (all_registrations (add_to_group e m)) = add_mset e (mset (all_registrations m))"
    using assms by (auto simp: add_to_group_def map_ok_def a_def Let_def)
  have "\<forall>y\<in>set (registrations (snd (?f x))). if_addr (if_identity y) = fst (?f x)" if "x \<in> set m" for x
  proof -
    have "\<forall>y\<in>set (registrations (snd x)). if_addr (if_identity y) = fst x" using assms that by (simp add: map_ok_def)
    then show ?thesis by (cases x) (simp add: a_def)
  qed
  then have "map_ok (map ?f m)"
    unfolding map_ok_def fst using assms by (simp only: map_ok_def set_map ball_simps) blast
  moreover have "map_ok (m @ [(a, e, [])])" if "a \<notin> fst ` set m"
    using assms that by (simp add: map_ok_def a_def ball_Un)
  moreover have "add_to_group e m = (if a \<in> fst ` set m then map ?f m else m @ [(a, e, [])])"
    by (simp add: add_to_group_def a_def Let_def)
  ultimately show "map_ok (add_to_group e m)" by simp
qed

lemma take_first_mset:
  "take_first P xs = Some (x, ys) \<Longrightarrow> mset xs = add_mset x (mset ys) \<and> P x"
  "take_first P xs = None \<Longrightarrow> \<forall>x\<in>set xs. \<not> P x"
  by (induction xs arbitrary: ys) (auto split: if_splits)

lemma remove_from_group_mset:
  assumes "remove_from_group i g = (r, l)"
  shows "mset (registrations g) = (case r of None \<Rightarrow> {#} | Some e \<Rightarrow> {#e#}) + (case l of None \<Rightarrow> {#} | Some g' \<Rightarrow> mset (registrations g'))"
    and "r = Some e \<Longrightarrow> if_identity e = i" and "r = None \<Longrightarrow> \<forall>e\<in>set (registrations g). if_identity e \<noteq> i"
proof -
  obtain top_entry ss where g: "g = (top_entry, ss)" by (cases g)
  have "ss \<noteq> [] \<Longrightarrow> mset ss = add_mset (List.last ss) (mset (butlast ss))"
    by (metis append_butlast_last_id mset.simps(1,2) mset_append union_mset_add_mset_right add.right_neutral)
  then show "mset (registrations g) = (case r of None \<Rightarrow> {#} | Some e \<Rightarrow> {#e#}) + (case l of None \<Rightarrow> {#} | Some g' \<Rightarrow> mset (registrations g'))"
    using assms by (auto simp: g remove_from_group_def split: if_splits option.splits dest: take_first_mset)
  show "r = Some e \<Longrightarrow> if_identity e = i"
    using assms by (auto simp: g remove_from_group_def split: if_splits option.splits dest: take_first_mset)
  show "r = None \<Longrightarrow> \<forall>e\<in>set (registrations g). if_identity e \<noteq> i"
    using assms by (auto simp: g remove_from_group_def split: if_splits option.splits dest: take_first_mset)
qed

lemma remove_entry_mset:
  assumes "map_ok m" and "remove_entry i m = (r, m')"
  shows "mset (all_registrations m) = (case r of None \<Rightarrow> {#} | Some e \<Rightarrow> {#e#}) + mset (all_registrations m')"
    and "map_ok m'" and "r = Some e \<Longrightarrow> if_identity e = i"
    and "r = None \<Longrightarrow> \<forall>e\<in>set (all_registrations m). if_identity e \<noteq> i"
proof -
  let ?rest = "filter (\<lambda>x. fst x \<noteq> if_addr i) m"
  have rest: "map_ok ?rest" using assms(1) by (auto simp: map_ok_def distinct_map_filter)
  have in_rest: "\<forall>e\<in>set (all_registrations ?rest). if_identity e \<noteq> i"
    using assms(1) by (auto simp: all_registrations_def map_ok_def)
  have "mset (all_registrations m) = (case r of None \<Rightarrow> {#} | Some e \<Rightarrow> {#e#}) + mset (all_registrations m')
      \<and> map_ok m' \<and> (r = Some e \<longrightarrow> if_identity e = i) \<and> (r = None \<longrightarrow> (\<forall>e\<in>set (all_registrations m). if_identity e \<noteq> i))"
  proof (cases "map_of m (if_addr i)")
    case None
    then have "?rest = m" by (auto simp: filter_id_conv map_of_eq_None_iff dest: fst_in)
    then show ?thesis using assms None in_rest by (simp add: remove_entry_def)
  next
    case (Some g)
    obtain l where l: "remove_from_group i g = (r, l)" and
      m': "m' = ?rest @ (case l of None \<Rightarrow> [] | Some g' \<Rightarrow> [(if_addr i, g')])"
      using assms(2) Some by (auto simp: remove_entry_def split: prod.splits)
    have split: "mset (all_registrations m) = mset (registrations g) + mset (all_registrations ?rest)"
      using mset_regs_split Some assms(1) by (simp add: map_ok_def)
    note group = remove_from_group_mset [OF l]
    have "set (all_registrations m) = set (registrations g) \<union> set (all_registrations ?rest)"
      by (metis split set_mset_mset set_mset_union)
    moreover have "\<forall>e\<in>set (registrations g). if_addr (if_identity e) = if_addr i"
      using assms(1) map_of_SomeD [OF Some] by (fastforce simp: map_ok_def)
    moreover have "l = Some g' \<Longrightarrow> set (registrations g') \<subseteq> set (registrations g)" for g'
      using group(1) by (metis option.simps(5) set_mset_mset mset_subset_eq_add_right set_mset_mono)
    ultimately show ?thesis
      using split group in_rest rest m' by (cases l) (auto simp: map_ok_def)
  qed
  then show "mset (all_registrations m) = (case r of None \<Rightarrow> {#} | Some e \<Rightarrow> {#e#}) + mset (all_registrations m')"
    and "map_ok m'" and "r = Some e \<Longrightarrow> if_identity e = i"
    and "r = None \<Longrightarrow> \<forall>e\<in>set (all_registrations m). if_identity e \<noteq> i" by auto
qed

lemma interfaces_ok_mset:
  "interfaces_ok I \<longleftrightarrow>
     map_ok (if_map I) \<and> distinct (map if_identity (regs I)) \<and> distinct (map sock (regs I))
   \<and> (\<forall>e\<in>#mset (regs I). sock e < next_socket I \<and> sock e \<notin> cancelled I \<and> if_index (if_identity e) \<in> members I)
   \<and> (\<forall>s\<in>cancelled I. s < next_socket I)"
  by (simp add: interfaces_ok_def)

lemma distinct_map_mset: "mset xs = mset ys \<Longrightarrow> distinct (map f xs) \<longleftrightarrow> distinct (map f ys)"
  by (metis mset_map mset_eq_imp_distinct_iff)

lemma remove_interface_regs:
  assumes ok: "interfaces_ok I"
  shows "interfaces_ok (remove_interface H i I)"
    and "set (regs (remove_interface H i I)) = {e \<in> set (regs I). if_identity e \<noteq> i}"
    and "cancelled (remove_interface H i I) = cancelled I \<union> sock ` {e \<in> set (regs I). if_identity e = i}"
    and "next_socket (remove_interface H i I) = next_socket I"
proof -
  obtain r m where rm: "remove_entry i (if_map I) = (r, m)" by fastforce
  have mok: "map_ok (if_map I)" using ok by (simp add: interfaces_ok_def)
  note entry = remove_entry_mset [OF mok rm]
  have "interfaces_ok (remove_interface H i I) \<and> set (regs (remove_interface H i I)) = {e \<in> set (regs I). if_identity e \<noteq> i}
    \<and> cancelled (remove_interface H i I) = cancelled I \<union> sock ` {e \<in> set (regs I). if_identity e = i}"
  proof (cases r)
    case None
    then have same: "mset (regs I) = mset (all_registrations m)" using entry(1) by simp
    then have "set (all_registrations m) = set (regs I)" by (metis set_mset_mset)
    moreover have "distinct (map if_identity (all_registrations m))" "distinct (map sock (all_registrations m))"
      using ok distinct_map_mset [OF same] by (auto simp: interfaces_ok_def)
    moreover have "\<forall>e\<in>set (regs I). if_identity e \<noteq> i" using entry(4) None by blast
    ultimately show ?thesis using None rm ok entry(2) by (auto simp: remove_interface_def interfaces_ok_def)
  next
    case (Some e)
    then have same: "mset (regs I) = mset (e # all_registrations m)" using entry(1) by simp
    then have set: "set (regs I) = insert e (set (all_registrations m))" by (metis set_mset_mset list.simps(15))
    have "distinct (map if_identity (e # all_registrations m))" "distinct (map sock (e # all_registrations m))"
      using ok distinct_map_mset [OF same] by (auto simp only: interfaces_ok_def)
    then have distinct: "distinct (map if_identity (all_registrations m))" "distinct (map sock (all_registrations m))"
      "\<forall>x\<in>set (all_registrations m). if_identity x \<noteq> i \<and> sock x \<noteq> sock e" using entry(3) [OF Some] by (force simp: image_iff)+
    define I' where "I' = remove_interface H i I"
    have I': "if_map I' = m" "cancelled I' = insert (sock e) (cancelled I)" "next_socket I' = next_socket I"
      "members I' = members I \<or> (members I' = members I - {if_index i} \<and> (\<forall>x\<in>set (all_registrations m). if_index (if_identity x) \<noteq> if_index i))"
      using rm Some by (auto simp: I'_def remove_interface_def drain_multicast_def Let_def)
    have "\<forall>x\<in>set (all_registrations m). sock x < next_socket I \<and> sock x \<notin> cancelled I \<and> if_index (if_identity x) \<in> members I"
      and "sock e < next_socket I" and "\<forall>x\<in>cancelled I. x < next_socket I"
      using ok by (simp_all add: interfaces_ok_def set)
    then have "interfaces_ok I'" using I' distinct entry(2) by (auto simp: interfaces_ok_def)
    then show ?thesis unfolding I'_def [symmetric] I'(1,2) set using distinct(3) entry(3) [OF Some] by auto
  qed
  then show "interfaces_ok (remove_interface H i I)"
    and "set (regs (remove_interface H i I)) = {e \<in> set (regs I). if_identity e \<noteq> i}"
    and "cancelled (remove_interface H i I) = cancelled I \<union> sock ` {e \<in> set (regs I). if_identity e = i}" by auto
  show "next_socket (remove_interface H i I) = next_socket I"
    by (auto simp: remove_interface_def drain_multicast_def Let_def split: prod.splits option.splits)
qed

lemma remove_interfaces_regs:
  assumes "interfaces_ok I"
  shows "interfaces_ok (fold (remove_interface H) is I)
   \<and> set (regs (fold (remove_interface H) is I)) = {e \<in> set (regs I). if_identity e \<notin> set is}
   \<and> cancelled (fold (remove_interface H) is I) = cancelled I \<union> sock ` {e \<in> set (regs I). if_identity e \<in> set is}
   \<and> next_socket (fold (remove_interface H) is I) = next_socket I"
  using assms
proof (induction "is" arbitrary: I)
  case (Cons i "is")
  show ?case
    using Cons.IH [OF remove_interface_regs(1) [OF Cons.prems]] remove_interface_regs(2-4) [OF Cons.prems]
    by auto
qed simp

lemma add_interface_regs:
  assumes ok: "interfaces_ok I" and add: "add_interface H i g r D I = (res, I')"
  shows "interfaces_ok I'" and "cancelled I' = cancelled I" and "next_socket I \<le> next_socket I'"
    and "set (regs I') = set (regs I) \<union> (case res of Inl _ \<Rightarrow> {} | Inr e \<Rightarrow> {e})"
    and "res = Inr e \<Longrightarrow> e = \<lparr>sock = next_socket I, if_identity = i, lease_generation = g, measurement_responder = r, local_delivery = D\<rparr>"
proof -
  show fields: "cancelled I' = cancelled I" "next_socket I \<le> next_socket I'"
    "res = Inr e \<Longrightarrow> e = \<lparr>sock = next_socket I, if_identity = i, lease_generation = g, measurement_responder = r, local_delivery = D\<rparr>" for e
    using add by (auto simp: add_interface_def drain_multicast_def Let_def split: option.splits if_splits bool.splits)
  have mok: "map_ok (if_map I)" using ok by (simp add: interfaces_ok_def)
  have "interfaces_ok I' \<and> set (regs I') = set (regs I) \<union> (case res of Inl _ \<Rightarrow> {} | Inr e \<Rightarrow> {e})"
  proof (cases res)
    case (Inl err)
    then have "if_map I' = if_map I" "members I' = members I"
      using add by (auto simp: add_interface_def drain_multicast_def Let_def split: option.splits if_splits bool.splits)
    then show ?thesis using Inl ok fields(1,2) by (fastforce simp: interfaces_ok_def)
  next
    case (Inr e)
    then have m: "if_map I' = add_to_group e (if_map I)" "next_socket I' = next_socket I + 1"
        "members I \<subseteq> members I'" "if_index i \<in> members I' \<or> (\<exists>x\<in>set (regs I). if_index (if_identity x) = if_index i)"
        "\<forall>x\<in>set (regs I). if_identity x \<noteq> i"
      using add by (auto simp: add_interface_def drain_multicast_def Let_def split: option.splits if_splits bool.splits)
    have same: "mset (regs I') = mset (e # regs I)" using mset_regs_add(1) [OF mok] m(1) by simp
    then have set: "set (regs I') = insert e (set (regs I))" by (metis set_mset_mset list.simps(15))
    have "distinct (map if_identity (e # regs I))" "distinct (map sock (e # regs I))"
      using ok m(5) fields(3) [OF Inr] by (auto simp: interfaces_ok_def)
    then have "distinct (map if_identity (regs I'))" "distinct (map sock (regs I'))"
      using distinct_map_mset [OF same] by auto
    moreover have "\<forall>x\<in>set (regs I). sock x < next_socket I \<and> sock x \<notin> cancelled I \<and> if_index (if_identity x) \<in> members I"
      and "\<forall>x\<in>cancelled I. x < next_socket I"
      using ok by (simp_all add: interfaces_ok_def)
    moreover from this have "sock e \<notin> cancelled I" "if_index (if_identity e) \<in> members I'"
      using m(3,4) fields(3) [OF Inr] by auto
    ultimately have "interfaces_ok I'"
      unfolding interfaces_ok_def set fields(1) m(2) using m(1,3) mset_regs_add(2) [OF mok] fields(3) [OF Inr] by auto
    then show ?thesis using set Inr by simp
  qed
  then show "interfaces_ok I'" and "set (regs I') = set (regs I) \<union> (case res of Inl _ \<Rightarrow> {} | Inr e \<Rightarrow> {e})" by auto
qed

lemma add_interfaces_regs:
  assumes "interfaces_ok I" and "add_interfaces H g r D is (I, f, sp) = (I', f', sp')"
  shows "interfaces_ok I' \<and> cancelled I' = cancelled I \<and> next_socket I \<le> next_socket I'
   \<and> (\<exists>new. sp' = sp @ new \<and> set (regs I') = set (regs I) \<union> set new
        \<and> (\<forall>e\<in>set new. if_identity e \<in> set is \<and> lease_generation e = g \<and> local_delivery e = D \<and> next_socket I \<le> sock e))"
  using assms
proof (induction "is" arbitrary: I f sp)
  case (Cons i "is")
  obtain res J where add: "add_interface H i g r D I = (res, J)" by fastforce
  note J = add_interface_regs [OF Cons.prems(1) add]
  show ?case
  proof (cases res)
    case (Inl err)
    then have "add_interfaces H g r D is (J, failed_setup i err f, sp) = (I', f', sp')" using Cons.prems(2) add by simp
    from Cons.IH [OF J(1) this] show ?thesis using J(2,3,4) Inl by fastforce
  next
    case (Inr e)
    then have "add_interfaces H g r D is (J, f(i := None), sp @ [e]) = (I', f', sp')" using Cons.prems(2) add by simp
    from Cons.IH [OF J(1) this] obtain new where new: "interfaces_ok I'" "cancelled I' = cancelled I" "sp' = sp @ e # new"
      "set (regs I') = set (regs J) \<union> set new"
      "\<forall>e\<in>set new. if_identity e \<in> set is \<and> lease_generation e = g \<and> local_delivery e = D \<and> next_socket J \<le> sock e"
      and later: "next_socket I \<le> next_socket I'"
      using J(2,3) by auto
    show ?thesis
    proof (intro conjI exI [of _ "e # new"])
      show "\<forall>x\<in>set (e # new). if_identity x \<in> set (i # is) \<and> lease_generation x = g \<and> local_delivery x = D \<and> next_socket I \<le> sock x"
        using new(5) J(3) J(5) [OF Inr] by fastforce
    qed (use new later J(4) Inr in auto)
  qed
qed simp

text \<open>When the operating system reports no errors, every interface asked for is registered.\<close>

definition host_works :: "host \<Rightarrow> nat \<Rightarrow> ipv4_interface list \<Rightarrow> bool" where
  "host_works H g is \<longleftrightarrow> (\<forall>i\<in>set is. open_error H i = None \<and> topology_now H i = Some g \<and> join_error H i = None)"

lemma add_interface_works:
  assumes "interfaces_ok I" and "host_works H g (i # is)" and "add_interface H i g r D I = (res, I')"
  shows "i \<in> if_identity ` set (regs I')"
proof (cases "\<exists>x\<in>set (regs I). if_identity x = i")
  case True
  then show ?thesis using add_interface_regs(4) [OF assms(1,3)] by auto
next
  case False
  then obtain e where "res = Inr e"
    using assms by (auto simp: add_interface_def host_works_def is_current_def interfaces_ok_def Let_def split: if_splits)
  then show ?thesis using add_interface_regs(4) [OF assms(1,3)] add_interface_regs(5) [OF assms(1,3)] by auto
qed

lemma add_interfaces_work:
  assumes "interfaces_ok I" and "host_works H g is" and "add_interfaces H g r D is (I, f, sp) = (I', f', sp')"
  shows "set is \<subseteq> if_identity ` set (regs I')"
  using assms
proof (induction "is" arbitrary: I f sp)
  case (Cons i "is")
  obtain res J where add: "add_interface H i g r D I = (res, J)" by fastforce
  note J = add_interface_regs [OF Cons.prems(1) add]
  obtain f'' sp'' where rest: "add_interfaces H g r D is (J, f'', sp'') = (I', f', sp')"
    using Cons.prems(3) add by (cases res) auto
  have "host_works H g is" using Cons.prems(2) by (simp add: host_works_def)
  then show ?case
    using Cons.IH [OF J(1) _ rest] add_interface_works [OF Cons.prems(1,2) add] add_interfaces_regs [OF J(1) rest] by auto
qed simp

abbreviation refreshed :: "local_identity \<Rightarrow> iface_socket \<Rightarrow> iface_socket" where
  "refreshed D e \<equiv> e\<lparr>local_delivery := D\<rparr>"

lemma regs_map: "all_registrations (map (\<lambda>(k, r, ss). (k, h r, map h ss)) m) = map h (all_registrations m)"
  by (induction m) auto

lemma interfaces_ok_map:
  assumes "\<And>e. if_identity (h e) = if_identity e" and "\<And>e. sock (h e) = sock e" and ok: "interfaces_ok I"
  shows "interfaces_ok (I\<lparr>if_map := map (\<lambda>(k, r, ss). (k, h r, map h ss)) (if_map I)\<rparr>)"
proof -
  let ?f = "\<lambda>(k, r, ss). (k, h r, map h ss)"
  have fst: "map fst (map ?f m) = map fst m" for m :: interface_map by auto
  have "\<forall>e\<in>set (registrations (snd (?f x))). if_addr (if_identity e) = fst (?f x)"
    if "\<forall>e\<in>set (registrations (snd x)). if_addr (if_identity e) = fst x" for x :: "u32 \<times> iface_group"
    using that assms(1) by (cases x) simp
  then have "\<forall>x\<in>set (if_map I). \<forall>e\<in>set (registrations (snd (?f x))). if_addr (if_identity e) = fst (?f x)"
    using ok unfolding interfaces_ok_def map_ok_def by blast
  then have "map_ok (map ?f (if_map I))"
    using ok fst [of "if_map I"] by (simp only: interfaces_ok_def map_ok_def set_map ball_simps)
  then show ?thesis using ok assms(1,2) by (simp add: interfaces_ok_def regs_map comp_def)
qed

lemma regs_refresh: "all_registrations (refresh_all D m) = map (refreshed D) (all_registrations m)"
  by (simp add: refresh_all_def regs_map)

lemma interfaces_ok_refresh: "interfaces_ok I \<Longrightarrow> interfaces_ok (I\<lparr>if_map := refresh_all D (if_map I)\<rparr>)"
  unfolding refresh_all_def by (rule interfaces_ok_map) simp_all

definition stale_identities :: "ipv4_interface list \<Rightarrow> nat \<Rightarrow> iface_socket list \<Rightarrow> ipv4_interface list" where
  "stale_identities cur g es = map if_identity (filter (\<lambda>e. if_identity e \<notin> set cur \<or> lease_generation e \<noteq> g) es)"

lemma reconcile_interfaces_regs:
  assumes ok: "interfaces_ok I" and rec: "reconcile_interfaces H cur D g r I f = (I', f', sp, ch)"
  defines "kept \<equiv> {e \<in> set (regs I). if_identity e \<in> set cur \<and> lease_generation e = g}"
  shows "interfaces_ok I'" and "set (regs I') = refreshed D ` kept \<union> set sp"
    and "\<forall>e\<in>set sp. if_identity e \<in> set cur \<and> lease_generation e = g \<and> local_delivery e = D \<and> next_socket I \<le> sock e"
    and "cancelled I' = cancelled I \<union> sock ` (set (regs I) - kept)"
    and "ch \<longleftrightarrow> set (regs I) \<noteq> kept \<or> sp \<noteq> []"
    and "next_socket I \<le> next_socket I'"
    and "host_works H g cur \<Longrightarrow> if_identity ` set (regs I') = set cur"
proof -
  define J where "J = I\<lparr>if_map := refresh_all D (if_map I)\<rparr>"
  define stale where "stale = stale_identities cur g (regs J)"
  define new where "new = filter (\<lambda>i. i \<notin> if_identity ` set (regs J) \<or> i \<in> set stale) cur"
  define K where "K = fold (remove_interface H) stale J"
  have add: "add_interfaces H g r D new (K, forget_except cur f, []) = (I', f', sp)" and ch: "ch \<longleftrightarrow> stale \<noteq> [] \<or> sp \<noteq> []"
    using rec by (auto simp: reconcile_interfaces_def J_def K_def new_def stale_def stale_identities_def Let_def split: prod.splits)
  have J: "interfaces_ok J" "regs J = map (refreshed D) (regs I)" "cancelled J = cancelled I" "next_socket J = next_socket I"
    using interfaces_ok_refresh [OF ok] by (simp_all add: J_def regs_refresh)
  have inj: "x = y" if "x \<in> set (regs I)" "y \<in> set (regs I)" "if_identity x = if_identity y" for x y
    using ok that by (metis interfaces_ok_def distinct_map inj_onD)
  have stale: "set stale = if_identity ` (set (regs I) - kept)"
    by (auto simp: stale_def stale_identities_def J(2) kept_def filter_map comp_def)
  have left: "{e \<in> set (regs J). if_identity e \<notin> set stale} = refreshed D ` kept"
    unfolding stale J(2) kept_def by (auto dest: inj)
  have "{e \<in> set (regs J). if_identity e \<in> set stale} = refreshed D ` (set (regs I) - kept)"
    unfolding stale J(2) kept_def by (auto dest: inj)
  then have gone: "sock ` {e \<in> set (regs J). if_identity e \<in> set stale} = sock ` (set (regs I) - kept)"
    by (simp add: image_image)
  have K: "interfaces_ok K" "set (regs K) = refreshed D ` kept"
    "cancelled K = cancelled I \<union> sock ` (set (regs I) - kept)" "next_socket K = next_socket I"
    using remove_interfaces_regs [OF J(1), of H stale] left gone J(3,4) by (simp_all add: K_def)
  note added = add_interfaces_regs [OF K(1) add]
  show "interfaces_ok I'" and regs': "set (regs I') = refreshed D ` kept \<union> set sp"
    and sp: "\<forall>e\<in>set sp. if_identity e \<in> set cur \<and> lease_generation e = g \<and> local_delivery e = D \<and> next_socket I \<le> sock e"
    and "cancelled I' = cancelled I \<union> sock ` (set (regs I) - kept)" and "next_socket I \<le> next_socket I'"
    using added K by (auto simp: new_def)
  have "stale = [] \<longleftrightarrow> set stale = {}" by simp
  then show "ch \<longleftrightarrow> set (regs I) \<noteq> kept \<or> sp \<noteq> []"
    unfolding ch stale by (auto simp: kept_def)
  assume "host_works H g cur"
  then have "host_works H g new" by (auto simp: host_works_def new_def)
  from add_interfaces_work [OF K(1) this add] have "set new \<subseteq> if_identity ` set (regs I')" .
  moreover have "set cur \<subseteq> set new \<union> if_identity ` kept"
    unfolding new_def stale by (auto simp: J(2) image_iff)
  moreover have "if_identity ` set (regs I') = if_identity ` kept \<union> if_identity ` set sp"
    by (simp add: regs' image_Un image_image)
  moreover have "if_identity ` kept \<subseteq> set cur" "if_identity ` set sp \<subseteq> set cur" using sp by (auto simp: kept_def)
  ultimately show "if_identity ` set (regs I') = set cur" by blast
qed

section \<open>Steps\<close>

text \<open>
  Construction registers the interfaces of the first scan one by one; later scans reconcile. A scan whose generation has
  changed under the lock is dropped (\<open>reconcile_interfaces_async\<close>), and a hash map may be iterated in any order.
\<close>

definition new_interfaces :: "host \<Rightarrow> ipv4_interface list option \<Rightarrow> nat \<Rightarrow> local_identity \<Rightarrow> interfaces" where
  "new_interfaces H scanned g D =
     fst (add_interfaces H g False D (case scanned of None \<Rightarrow> [] | Some is \<Rightarrow> is) (no_interfaces, Map.empty, []))"

definition set_measurement_responder :: "interfaces \<Rightarrow> interfaces" where
  "set_measurement_responder I =
     I\<lparr>if_map := map (\<lambda>(k, r, ss). (k, r\<lparr>measurement_responder := True\<rparr>, map (\<lambda>e. e\<lparr>measurement_responder := True\<rparr>) ss)) (if_map I)\<rparr>"

definition reconcile_at ::
  "nat option \<Rightarrow> host \<Rightarrow> ipv4_interface list \<Rightarrow> local_identity \<Rightarrow> nat \<Rightarrow> bool \<Rightarrow> interfaces \<Rightarrow> setup_failures \<Rightarrow>
   interfaces \<times> setup_failures \<times> iface_socket list \<times> bool" where
  "reconcile_at now H cur D g r I f = (if now \<noteq> Some g then (I, f, [], False) else reconcile_interfaces H cur D g r I f)"

inductive ifs_step :: "interfaces \<Rightarrow> interfaces \<Rightarrow> bool" where
  ifs_responder: "ifs_step I (set_measurement_responder I)"
| ifs_arrive: "ifs_step I (I\<lparr>multicast_queue := multicast_queue I @ [p]\<rparr>)"
| ifs_taken: "multicast_queue I = p # ps \<Longrightarrow> ifs_step I (I\<lparr>multicast_queue := ps\<rparr>)"
| ifs_drain: "ifs_step I (drain_multicast I)"
| ifs_scan: "ifs_step I (fst (reconcile_at now H cur D g r I f))"
| ifs_order: "mset m = mset (if_map I) \<Longrightarrow> ifs_step I (I\<lparr>if_map := m\<rparr>)"

inductive ifs_reachable :: "interfaces \<Rightarrow> bool" where
  ifs_new: "ifs_reachable (new_interfaces H scanned g D)"
| ifs_next: "ifs_reachable I \<Longrightarrow> ifs_step I I' \<Longrightarrow> ifs_reachable I'"

lemma interfaces_ok_responder: "interfaces_ok I \<Longrightarrow> interfaces_ok (set_measurement_responder I)"
  unfolding set_measurement_responder_def by (rule interfaces_ok_map) simp_all

lemma interfaces_ok_order:
  assumes "interfaces_ok I" and "mset m = mset (if_map I)"
  shows "interfaces_ok (I\<lparr>if_map := m\<rparr>)"
proof -
  have "mset (all_registrations m) = mset (regs I)"
    using assms(2) by (simp add: all_registrations_def mset_concat flip: sum_mset_sum_list)
  from mset_eq_setD [OF this] distinct_map_mset [OF this, of if_identity] distinct_map_mset [OF this, of sock]
  have "set (all_registrations m) = set (regs I)" "distinct (map if_identity (all_registrations m)) = distinct (map if_identity (regs I))"
    "distinct (map sock (all_registrations m)) = distinct (map sock (regs I))" .
  moreover have "set m = set (if_map I)" "distinct (map fst m) = distinct (map fst (if_map I))"
    using mset_eq_setD [OF assms(2)] distinct_map_mset [OF assms(2), of fst] .
  ultimately show ?thesis using assms(1) by (simp add: interfaces_ok_def map_ok_def)
qed

lemma interfaces_ok_step: "ifs_step I I' \<Longrightarrow> interfaces_ok I \<Longrightarrow> interfaces_ok I'"
proof (induction rule: ifs_step.induct)
  case (ifs_scan I now H cur D g r f)
  then show ?case
    using reconcile_interfaces_regs(1) [OF ifs_scan.prems, of H cur D g r f]
    by (auto simp: reconcile_at_def) (metis prod.collapse)
next
  case (ifs_order m I)
  then show ?case by (simp add: interfaces_ok_order)
next
  case (ifs_responder I)
  then show ?case by (rule interfaces_ok_responder)
qed (simp_all add: drain_multicast_def interfaces_ok_def)

lemma ifs_reachable_ok: "ifs_reachable I \<Longrightarrow> interfaces_ok I"
proof (induction rule: ifs_reachable.induct)
  case (ifs_new H scanned g D)
  have "interfaces_ok no_interfaces" by (simp add: interfaces_ok_def map_ok_def no_interfaces_def)
  from add_interfaces_regs [OF this] show ?case unfolding new_interfaces_def by (metis prod.collapse)
qed (rule interfaces_ok_step)

section \<open>Choosing the socket of an incoming datagram\<close>

definition ingress_key :: "ip_addr \<Rightarrow> ip_addr \<Rightarrow> iface_socket \<Rightarrow> bool \<times> bool \<times> bool \<times> u32" where
  "ingress_key dst src e =
     (IpV4 (if_addr (if_identity e)) \<noteq> dst,
      (case src of IpV4 a \<Rightarrow> is_link_local_v4 a | IpV6 _ \<Rightarrow> False) \<noteq> is_link_local_v4 (if_addr (if_identity e)),
      \<not> same_subnet (local_delivery e) (if_index (if_identity e)) (if_addr (if_identity e)) src,
      if_addr (if_identity e))"

definition socket_for_ingress :: "interfaces \<Rightarrow> u64 \<Rightarrow> ip_addr \<Rightarrow> ip_addr \<Rightarrow> iface_socket option" where
  "socket_for_ingress I i dst src =
     (let es = filter (\<lambda>e. ucast (if_index (if_identity e)) = i \<and> sock e \<notin> cancelled I) (regs I)
      in if es = [] then None else Some (arg_min_list (ingress_key dst src) es))"

text \<open>
  The route of a received datagram. \<open>owner\<close> is the socket it was read from, \<open>None\<close> for the multicast socket;
  \<open>Inl\<close> is an error of the topology.
\<close>

definition route_of :: "interfaces \<Rightarrow> nat option \<Rightarrow> nat option \<Rightarrow> io_error \<Rightarrow> packet \<Rightarrow> io_error + iface_socket option" where
  "route_of I g owner err p =
     (let route =
        (if owner \<noteq> None \<and> starts_with (pk_bytes p) LINK_HEADER
         then find (\<lambda>e. Some (sock e) = owner \<and> pk_dst p = IpV4 (if_addr (if_identity e))
                      \<and> (pk_index p = ucast (if_index (if_identity e)) \<or> accepts (local_delivery e) (pk_index p) (pk_src p))) (regs I)
         else socket_for_ingress I (pk_index p) (pk_dst p) (pk_src p))
      in case route of
           None \<Rightarrow> Inr None
         | Some e \<Rightarrow> (case is_current (cancelled I) g e of
                        None \<Rightarrow> Inl err | Some c \<Rightarrow> Inr (if c then Some e else None)))"

text \<open>Sending through a lease: refused unless it is still registered and of the present generation.\<close>

definition registered :: "interfaces \<Rightarrow> iface_socket \<Rightarrow> bool" where
  "registered I e \<longleftrightarrow>
     (case map_of (if_map I) (if_addr (if_identity e)) of None \<Rightarrow> False | Some g \<Rightarrow> sock e \<in> sock ` set (registrations g))"

definition while_current :: "interfaces \<Rightarrow> nat option \<Rightarrow> iface_socket \<Rightarrow> bool" where
  "while_current I g e \<longleftrightarrow> registered I e \<and> is_current (cancelled I) g e = Some True"

definition send_registered :: "interfaces \<Rightarrow> nat option \<Rightarrow> io_error \<Rightarrow> iface_socket \<Rightarrow> io_error option" where
  "send_registered I g err e =
     (case is_current (cancelled I) g e of
        None \<Rightarrow> Some err
      | Some valid \<Rightarrow> if registered I e \<and> valid then None else Some Unregistered)"

lemma registered_iff:
  assumes "interfaces_ok I"
  shows "registered I e \<longleftrightarrow> (\<exists>x\<in>set (regs I). sock x = sock e \<and> if_addr (if_identity x) = if_addr (if_identity e))"
proof -
  have ok: "map_ok (if_map I)" using assms by (simp add: interfaces_ok_def)
  have mem: "x \<in> set (registrations g) \<Longrightarrow> (k, g) \<in> set (if_map I) \<Longrightarrow> x \<in> set (regs I) \<and> if_addr (if_identity x) = k" for x g k
    using ok by (force simp: all_registrations_def map_ok_def)
  show ?thesis
  proof
    assume "registered I e"
    then obtain g where g: "map_of (if_map I) (if_addr (if_identity e)) = Some g" "sock e \<in> sock ` set (registrations g)"
      by (auto simp: registered_def split: option.splits)
    then show "\<exists>x\<in>set (regs I). sock x = sock e \<and> if_addr (if_identity x) = if_addr (if_identity e)"
      using mem [OF _ map_of_SomeD [OF g(1)]] by force
  next
    assume "\<exists>x\<in>set (regs I). sock x = sock e \<and> if_addr (if_identity x) = if_addr (if_identity e)"
    then obtain x k g where x: "sock x = sock e" "if_addr (if_identity x) = if_addr (if_identity e)" "(k, g) \<in> set (if_map I)" "x \<in> set (registrations g)"
      by (auto simp: all_registrations_def)
    then have "map_of (if_map I) (if_addr (if_identity e)) = Some g"
      using mem [OF x(4,3)] ok by (auto simp: map_ok_def)
    then show "registered I e" using imageI [OF x(4), of sock] x(1) by (simp add: registered_def)
  qed
qed

text \<open>A lease is what was registered at some time: its socket number and its identity belong together.\<close>

definition retired :: "interfaces \<Rightarrow> iface_socket \<Rightarrow> bool" where
  "retired I e \<longleftrightarrow> sock e < next_socket I \<and> sock e \<notin> sock ` set (regs I)"

lemma ifs_step_socks:
  assumes "ifs_step I I'" and "interfaces_ok I"
  shows "next_socket I \<le> next_socket I' \<and> (\<forall>e\<in>set (regs I'). sock e \<in> sock ` set (regs I) \<or> next_socket I \<le> sock e)"
  using assms
proof (induction rule: ifs_step.induct)
  case (ifs_scan I now H cur D g r f)
  obtain I' f' sp ch where rec: "reconcile_interfaces H cur D g r I f = (I', f', sp, ch)" by (cases "reconcile_interfaces H cur D g r I f") auto
  note facts = reconcile_interfaces_regs [OF ifs_scan.prems rec]
  show ?case using facts(2,3,6) rec by (auto simp: reconcile_at_def)
next
  case (ifs_order m I)
  have "mset (all_registrations m) = mset (regs I)"
    using ifs_order.hyps by (simp add: all_registrations_def mset_concat flip: sum_mset_sum_list)
  from mset_eq_setD [OF this] show ?case by simp
qed (auto simp: set_measurement_responder_def regs_map drain_multicast_def)

lemma retired_step: "ifs_step I I' \<Longrightarrow> interfaces_ok I \<Longrightarrow> retired I e \<Longrightarrow> retired I' e"
  using ifs_step_socks [of I I'] by (fastforce simp: retired_def)

lemma retired_steps: "ifs_step\<^sup>*\<^sup>* I I' \<Longrightarrow> interfaces_ok I \<Longrightarrow> retired I e \<Longrightarrow> interfaces_ok I' \<and> retired I' e"
proof (induction rule: rtranclp_induct)
  case (step J K)
  then show ?case using interfaces_ok_step [of J K] retired_step [of J K e] by simp
qed simp

lemma registered_not_retired: "interfaces_ok I \<Longrightarrow> retired I e \<Longrightarrow> \<not> registered I e"
  by (metis registered_iff retired_def imageI)

lemma union_eq_iff: "X = B \<union> C \<Longrightarrow> A \<inter> C = {} \<Longrightarrow> B \<subseteq> A \<Longrightarrow> X = A \<longleftrightarrow> B = A \<and> C = {}"
  by blast

section \<open>Properties of the registrations\<close>

text \<open>C25: A scan is carried over exactly. After the registered interfaces have been reconciled with a scan, every registration is
  of a scanned interface, of the generation of the scan and knows the local addresses of the scan; the registrations that
  were current keep their sockets and all others are cancelled; the gateways count as changed exactly when the set of
  sockets has changed; and when the operating system reports no error, the registered interfaces are the scanned ones.\<close>

theorem reconcile_follows_scan:
  assumes "ifs_reachable I" and "reconcile_at (Some g) H cur D g r I f = (I', f', sp, ch)"
  shows "(\<forall>e\<in>set (regs I'). if_identity e \<in> set cur \<and> lease_generation e = g \<and> local_delivery e = D
            \<and> sock e \<notin> cancelled I' \<and> if_index (if_identity e) \<in> members I')
       \<and> distinct (map if_identity (regs I'))
       \<and> (\<forall>e\<in>set (regs I). if if_identity e \<in> set cur \<and> lease_generation e = g then refreshed D e \<in> set (regs I')
                            else sock e \<in> cancelled I')
       \<and> (ch \<longleftrightarrow> sock ` set (regs I') \<noteq> sock ` set (regs I))
       \<and> (host_works H g cur \<longrightarrow> if_identity ` set (regs I') = set cur)"
proof -
  define kept where "kept = {e \<in> set (regs I). if_identity e \<in> set cur \<and> lease_generation e = g}"
  have ok: "interfaces_ok I" using assms(1) by (rule ifs_reachable_ok)
  have rec: "reconcile_interfaces H cur D g r I f = (I', f', sp, ch)" using assms(2) by (simp add: reconcile_at_def)
  note facts = reconcile_interfaces_regs [OF ok rec, folded kept_def]
  have "sock ` set (regs I') = sock ` set (regs I) \<longleftrightarrow> sock ` kept = sock ` set (regs I) \<and> sock ` set sp = {}"
  proof -
    have "sock ` set (regs I') = sock ` kept \<union> sock ` set sp" using facts(2) by (simp add: image_Un image_image)
    moreover have "sock ` set (regs I) \<inter> sock ` set sp = {}" using ok facts(3) by (fastforce simp: interfaces_ok_def)
    moreover have "sock ` kept \<subseteq> sock ` set (regs I)" by (auto simp: kept_def)
    ultimately show ?thesis by (rule union_eq_iff)
  qed
  moreover have "sock ` kept = sock ` set (regs I) \<longleftrightarrow> kept = set (regs I)"
    using ok by (intro inj_on_image_eq_iff [of sock "set (regs I)"]) (auto simp: interfaces_ok_def distinct_map kept_def)
  ultimately have "ch \<longleftrightarrow> sock ` set (regs I') \<noteq> sock ` set (regs I)" unfolding facts(5) by auto
  then show ?thesis using facts(1-4) facts(7) by (auto simp: interfaces_ok_def kept_def)
qed

definition wired :: ipv4_interface where
  "wired = \<lparr>if_addr = 2130706433 + 16777216, if_index = 2, if_name = []\<rparr>"

definition wireless :: ipv4_interface where
  "wireless = \<lparr>if_addr = 3232235777, if_index = 3, if_name = []\<rparr>"

definition sound_host :: "nat \<Rightarrow> host" where
  "sound_host g = \<lparr>open_error = \<lambda>_. None, topology_now = \<lambda>_. Some g, topology_error = OsError [], join_error = \<lambda>_. None, can_leave = \<lambda>_. True\<rparr>"

lemmas interface_defs = new_interfaces_def no_interfaces_def add_interface_def sound_host_def is_current_def add_to_group_def
  drain_multicast_def wired_def wireless_def host_works_def Let_def

theorem reconcile_follows_scan_witness:
  "if_identity ` set (regs (fst (reconcile_at (Some 1) (sound_host 1) [wireless] default_identity 1 True
     (new_interfaces (sound_host 0) (Some [wired]) 0 default_identity) Map.empty))) = {wireless}"
proof -
  let ?I = "new_interfaces (sound_host 0) (Some [wired]) 0 default_identity"
  obtain I' f' sp ch where rec: "reconcile_at (Some 1) (sound_host 1) [wireless] default_identity 1 True ?I Map.empty = (I', f', sp, ch)"
    by (cases "reconcile_at (Some 1) (sound_host 1) [wireless] default_identity 1 True ?I Map.empty") auto
  have "host_works (sound_host 1) 1 [wireless]" by (simp add: interface_defs)
  then have "if_identity ` set (regs I') = set [wireless]" using reconcile_follows_scan [OF ifs_new rec] by blast
  then show ?thesis unfolding rec by simp
qed

text \<open>C26: A removed socket stays removed. Once a socket is no longer registered, no later pass over the interfaces registers it
  again, nothing is sent through its lease and no result that came in over it is accepted.\<close>

theorem retired_sockets_stay_silent:
  assumes "ifs_reachable I" and "sock e < next_socket I" and "sock e \<notin> sock ` set (regs I)" and "ifs_step\<^sup>*\<^sup>* I I'"
  shows "send_registered I' g err e \<noteq> None \<and> \<not> while_current I' g e \<and> socket_for_ingress I' i dst src \<noteq> Some e"
proof -
  have "interfaces_ok I'" and retired: "retired I' e"
    using retired_steps [OF assms(4)] ifs_reachable_ok [OF assms(1)] assms(2,3) by (auto simp: retired_def)
  then have "\<not> registered I' e" by (rule registered_not_retired)
  moreover have "socket_for_ingress I' i dst src \<noteq> Some e"
  proof
    assume "socket_for_ingress I' i dst src = Some e"
    then have "e \<in> set (regs I')"
      using arg_min_list_in [of "filter (\<lambda>e. ucast (if_index (if_identity e)) = i \<and> sock e \<notin> cancelled I') (regs I')" "ingress_key dst src"]
      by (auto simp: socket_for_ingress_def Let_def split: if_splits)
    then show False using retired by (auto simp: retired_def)
  qed
  ultimately show ?thesis by (simp add: while_current_def send_registered_def split: option.split)
qed

theorem retired_sockets_stay_silent_witness:
  "send_registered (fst (reconcile_at (Some 1) (sound_host 1) [] default_identity 1 True
     (new_interfaces (sound_host 0) (Some [wired]) 0 default_identity) Map.empty)) (Some 0) Invalidated
     \<lparr>sock = 0, if_identity = wired, lease_generation = 0, measurement_responder = False, local_delivery = default_identity\<rparr> \<noteq> None"
proof -
  let ?I = "new_interfaces (sound_host 0) (Some [wired]) 0 default_identity"
  let ?I' = "fst (reconcile_at (Some 1) (sound_host 1) [] default_identity 1 True ?I Map.empty)"
  have "ifs_reachable ?I'" by (rule ifs_next [OF ifs_new ifs_scan])
  moreover have "next_socket ?I' = 1" "regs ?I' = []"
    by (simp_all add: interface_defs reconcile_at_def reconcile_interfaces_def refresh_all_def remove_interface_def remove_entry_def remove_from_group_def)
  ultimately show ?thesis using retired_sockets_stay_silent [of ?I' _ ?I'] by simp
qed

text \<open>A datagram is attributed to the adapter it came in on. The chosen socket is registered on exactly that adapter and is
  not cancelled, its address is the destination whenever the adapter has a socket with that address, and no socket of
  the adapter comes before it in the order of preference; without one the datagram has no socket.\<close>

theorem ingress_choice:
  assumes "ifs_reachable I"
  shows "case socket_for_ingress I i dst src of
           None \<Rightarrow> \<forall>e\<in>set (regs I). ucast (if_index (if_identity e)) \<noteq> i
         | Some e \<Rightarrow> e \<in> set (regs I) \<and> ucast (if_index (if_identity e)) = i \<and> sock e \<notin> cancelled I
             \<and> (\<forall>x\<in>set (regs I). ucast (if_index (if_identity x)) = i \<longrightarrow>
                  ingress_key dst src e \<le> ingress_key dst src x \<and> (IpV4 (if_addr (if_identity x)) = dst \<longrightarrow> IpV4 (if_addr (if_identity e)) = dst))"
proof -
  let ?es = "filter (\<lambda>e. ucast (if_index (if_identity e)) = i \<and> sock e \<notin> cancelled I) (regs I)"
  have ok: "\<forall>e\<in>set (regs I). sock e \<notin> cancelled I" using ifs_reachable_ok [OF assms] by (simp add: interfaces_ok_def)
  show ?thesis
  proof (cases "?es = []")
    case True
    then show ?thesis using ok by (auto simp: socket_for_ingress_def filter_empty_conv)
  next
    case False
    define e where "e = arg_min_list (ingress_key dst src) ?es"
    have "e \<in> set ?es" using arg_min_list_in [OF False] by (simp add: e_def)
    moreover have "ingress_key dst src e \<le> ingress_key dst src x" if "x \<in> set ?es" for x
      unfolding e_def f_arg_min_list_f [OF False] using that by (intro Min_le) auto
    moreover from this have "IpV4 (if_addr (if_identity e)) = dst" if "x \<in> set ?es" "IpV4 (if_addr (if_identity x)) = dst" for x
      using that by (fastforce simp: ingress_key_def less_eq_prod_def)
    moreover have "socket_for_ingress I i dst src = Some e" using False by (simp add: socket_for_ingress_def e_def)
    ultimately show ?thesis using ok by auto
  qed
qed

theorem ingress_choice_witness:
  "socket_for_ingress (new_interfaces (sound_host 0) (Some [wired]) 0 default_identity) 2 (IpV4 0) (IpV4 0) \<noteq> None"
proof -
  let ?I = "new_interfaces (sound_host 0) (Some [wired]) 0 default_identity"
  have "\<exists>e\<in>set (regs ?I). ucast (if_index (if_identity e)) = (2 :: u64)" by (simp add: interface_defs)
  moreover have "\<not> ?thesis \<Longrightarrow> \<forall>e\<in>set (regs ?I). ucast (if_index (if_identity e)) \<noteq> (2 :: u64)"
    using ingress_choice [OF ifs_new, of "sound_host 0" "Some [wired]" 0 default_identity 2 "IpV4 0" "IpV4 0"] by (simp only: not_not option.case)
  ultimately show ?thesis by blast
qed

lemma set_dedup [simp]: "set (dedup xs) = set xs"
  by (induction xs rule: dedup.induct) auto

lemma sorted_dedup: "sorted (map f xs) \<Longrightarrow> sorted (map f (dedup xs))"
proof (induction xs rule: dedup.induct)
  case (1 x y xs)
  then show ?case by (auto split: if_splits simp flip: set_dedup [of "y # xs"])
qed auto

lemma scan_interfaces_safe_sorted: "sorted (scan_interfaces_safe shown entries fallback)"
  using sorted_dedup [of id "sort xs" for xs] by (simp add: scan_interfaces_safe_def Let_def)

text \<open>A scan of the interfaces lists, sorted by address and index, exactly the usable IPv4 addresses of the adapters that
  have an index and are not down; an adapter is down when it is reported and every report about it says so, so that
  nothing is left out when no report is available.\<close>

theorem scan_lists_usable:
  assumes "scan_discovery_interfaces (Some is) entries = Some result"
  shows "set result = {\<lparr>if_addr = a, if_index = ni_index i, if_name = ni_name i\<rparr> |i a.
           i \<in> set is \<and> IpV4 a \<in> set (ni_addrs i) \<and> is_usable_ipv4 a \<and> ni_index i \<noteq> 0
         \<and> \<not> (\<exists>es. entries = Some es \<and> Some (ni_index i) \<in> ie_index ` set es
                \<and> (\<forall>x\<in>set es. ie_index x = Some (ni_index i) \<longrightarrow> \<not> ie_up x))}
       \<and> sorted (map (\<lambda>i. (if_addr i, if_index i)) result)"
proof
  have entries: "(x, b) \<in> set (List.map_filter (\<lambda>i. map_option (\<lambda>x. (x, ie_up i)) (ie_index i)) es) \<longleftrightarrow>
      (\<exists>y\<in>set es. ie_index y = Some x \<and> ie_up y = b)" for x b es
    by (induction es) (auto simp: List.map_filter_simps split: option.splits)
  have down: "x \<in> down_interface_indices entries \<longleftrightarrow>
      (\<exists>es. entries = Some es \<and> Some x \<in> ie_index ` set es \<and> (\<forall>y\<in>set es. ie_index y = Some x \<longrightarrow> \<not> ie_up y))" for x
  proof (cases entries)
    case (Some es)
    let ?L = "List.map_filter (\<lambda>i. map_option (\<lambda>x. (x, ie_up i)) (ie_index i)) es"
    have "x \<in> fst ` set ?L \<longleftrightarrow> (\<exists>b. (x, b) \<in> set ?L)" by force
    also have "(\<exists>b. (x, b) \<in> set ?L) \<longleftrightarrow> (\<exists>y\<in>set es. ie_index y = Some x)" unfolding entries by blast
    also have "(\<exists>y\<in>set es. ie_index y = Some x) \<longleftrightarrow> Some x \<in> ie_index ` set es" by (metis imageE imageI)
    finally have "x \<in> fst ` set ?L \<longleftrightarrow> Some x \<in> ie_index ` set es" .
    moreover have "x \<in> fst ` set (filter snd ?L) \<longleftrightarrow> (x, True) \<in> set ?L" by force
    then have "x \<in> fst ` set (filter snd ?L) \<longleftrightarrow> (\<exists>y\<in>set es. ie_index y = Some x \<and> ie_up y)" unfolding entries by simp
    ultimately show ?thesis using Some by (auto simp: down_interface_indices_def down_indices_def)
  qed (simp add: down_interface_indices_def)
  have usable: "y \<in> set (List.map_filter (\<lambda>a. case a of IpV4 v \<Rightarrow> if is_usable_ipv4 v \<and> c then Some (F v) else None | IpV6 v \<Rightarrow> None) as)
      \<longleftrightarrow> (\<exists>a. IpV4 a \<in> set as \<and> is_usable_ipv4 a \<and> c \<and> y = F a)" for y as c and F :: "u32 \<Rightarrow> ipv4_interface"
    by (induction as) (auto split: ip_addr.splits)
  have of: "y \<in> set (interfaces_of i) \<longleftrightarrow> (\<exists>a. IpV4 a \<in> set (ni_addrs i) \<and> is_usable_ipv4 a \<and> ni_index i \<noteq> 0
      \<and> y = \<lparr>if_addr = a, if_index = ni_index i, if_name = ni_name i\<rparr>)" for y i
    unfolding interfaces_of_def by (rule usable)
  have result: "set result = (\<Union>i\<in>{i \<in> set is. ni_index i \<notin> down_interface_indices entries}. set (interfaces_of i))"
    using assms by (auto simp: scan_discovery_interfaces_def Let_def)
  show "set result = {\<lparr>if_addr = a, if_index = ni_index i, if_name = ni_name i\<rparr> |i a.
           i \<in> set is \<and> IpV4 a \<in> set (ni_addrs i) \<and> is_usable_ipv4 a \<and> ni_index i \<noteq> 0
         \<and> \<not> (\<exists>es. entries = Some es \<and> Some (ni_index i) \<in> ie_index ` set es
                \<and> (\<forall>x\<in>set es. ie_index x = Some (ni_index i) \<longrightarrow> \<not> ie_up x))}"
    unfolding down [symmetric] result by (rule set_eqI) (auto simp: of)
  show "sorted (map (\<lambda>i. (if_addr i, if_index i)) result)"
    using assms sorted_dedup [OF sorted_sort_key] by (auto simp: scan_discovery_interfaces_def Let_def)
qed

theorem scan_lists_usable_witness:
  "set (the (scan_discovery_interfaces (Some [\<lparr>ni_index = 2, ni_name = [], ni_addrs = [IpV4 3232235777]\<rparr>]) None)) \<noteq> {}"
proof -
  let ?i = "\<lparr>ni_index = 2, ni_name = [], ni_addrs = [IpV4 3232235777]\<rparr>"
  obtain result where result: "scan_discovery_interfaces (Some [?i]) None = Some result"
    by (simp add: scan_discovery_interfaces_def Let_def)
  have "is_usable_ipv4 3232235777" by (simp add: is_usable_ipv4_def is_loopback_v4_def is_multicast_v4_def)
  then show ?thesis using scan_lists_usable [OF result] unfolding result by auto
qed

end
