(* ===== verification/Gateway.thy ===== *)
theory Gateway
  imports Peers
begin

text \<open>
  The gateway between the messenger and the registry of peers: \<open>src/discovery/gateway.rs\<close> and the loop of
  \<open>GatewayObserver\<close> in \<open>peers.rs\<close>.

  The gateway keeps a deadline for every peer it has announced to the observer, sorted by time, and sends the observer
  one event per change. Reserving a slot of the channel, the expiry timer and the invalidation of an observation are
  the outcomes that a step may have; removing or adding a deadline and publishing the event is one step, under the lock
  of the deadlines. Instants are durations since a common origin; \<open>clock\<close> is the latest reading.
\<close>

section \<open>Deadlines\<close>

datatype peer_event = Observed peer_state_message | SawPeerEvent peer_state | PeerLeftEvent node_id | PeerTimedOut node_id

type_synonym timeouts = "(duration \<times> node_id) list"

abbreviation second :: duration where "second \<equiv> 1000000000"

definition insert_timeout :: "duration \<times> node_id \<Rightarrow> timeouts \<Rightarrow> timeouts" where
  "insert_timeout x ts =
     (let position = length (takeWhile (\<lambda>t. fst t < fst x) ts) in take position ts @ [x] @ drop position ts)"

text \<open>The commit of an announcement: \<open>None\<close> when it is refused.\<close>

definition commit_peer_state :: "duration \<Rightarrow> duration \<Rightarrow> peer_state_message \<Rightarrow> timeouts \<Rightarrow> (timeouts \<times> peer_event) option" where
  "commit_peer_state now deadline msg ts =
     (let p = node_id (msg_node_state msg)
      in if msg_ttl msg > 0 \<and> deadline \<le> now then None
         else if msg_ttl msg = 0
           then if p \<notin> snd ` set ts then None
                else Some (filter (\<lambda>t. snd t \<noteq> p) ts, PeerLeftEvent p)
         else Some (insert_timeout (min deadline (now + 3 * second), p) (filter (\<lambda>t. snd t \<noteq> p) ts),
                    Observed (msg\<lparr>expires_at := Some deadline\<rparr>)))"

text \<open>
  An announcement from the messenger. \<open>slot\<close>: the channel had room before the deadline and before the observation was
  invalidated, at \<open>reserved\<close>; \<open>live\<close>: the observation still owns its ingress at the commit.
\<close>

definition on_peer_state ::
  "duration \<Rightarrow> bool \<Rightarrow> duration \<Rightarrow> bool \<Rightarrow> duration \<Rightarrow> peer_state_message \<Rightarrow> timeouts \<Rightarrow> (timeouts \<times> peer_event) option" where
  "on_peer_state received slot reserved live now msg ts =
     (let deadline = (case expires_at msg of Some d \<Rightarrow> d | None \<Rightarrow> received + int (unat (msg_ttl msg)) * second)
      in if \<not> slot \<or> (msg_ttl msg > 0 \<and> deadline \<le> reserved) \<or> \<not> live then None
         else commit_peer_state now deadline msg ts)"

definition find_peer :: "node_id \<Rightarrow> timeouts \<Rightarrow> bool" where
  "find_peer p ts \<longleftrightarrow> p \<in> snd ` set ts"

text \<open>A goodbye: the peer is looked up, a slot is reserved, and the peer is looked up again under the lock.\<close>

definition on_byebye :: "node_id \<Rightarrow> timeouts \<Rightarrow> (timeouts \<times> peer_event) option" where
  "on_byebye p ts = (if find_peer p ts then Some (filter (\<lambda>t. snd t \<noteq> p) ts, PeerLeftEvent p) else None)"

text \<open>The worker that prunes: it sleeps until the first deadline and a tenth of a second, then looks again.\<close>

definition prune_wake :: "timeouts \<Rightarrow> duration option" where
  "prune_wake ts = (case ts of [] \<Rightarrow> None | t # _ \<Rightarrow> Some (fst t + second div 10))"

definition prune_first :: "duration \<Rightarrow> timeouts \<Rightarrow> (timeouts \<times> peer_event) option" where
  "prune_first now ts = (case ts of t # rest \<Rightarrow> if fst t \<le> now then Some (rest, PeerTimedOut (snd t)) else None | [] \<Rightarrow> None)"

fun prune_loop :: "duration \<Rightarrow> timeouts \<Rightarrow> timeouts" where
  "prune_loop now [] = []"
| "prune_loop now (t # ts) = (if fst t \<le> now then prune_loop now ts else t # ts)"

section \<open>The gateway\<close>

record gateway =
  timeouts :: timeouts
  events :: "peer_event list"
  clock :: duration

definition new_gateway :: "duration \<Rightarrow> gateway" where
  "new_gateway now = \<lparr>timeouts = [], events = [], clock = now\<rparr>"

definition committed :: "(timeouts \<times> peer_event) option \<Rightarrow> gateway \<Rightarrow> gateway" where
  "committed r W = (case r of None \<Rightarrow> W | Some (ts, e) \<Rightarrow> W\<lparr>timeouts := ts, events := events W @ [e]\<rparr>)"

text \<open>Stopping the gateway forgets the deadlines; the registry is reset with it, so the log starts again.\<close>

definition stop_gateway :: "gateway \<Rightarrow> gateway" where
  "stop_gateway W = W\<lparr>timeouts := [], events := []\<rparr>"

inductive gateway_step :: "gateway \<Rightarrow> gateway \<Rightarrow> bool" where
  gw_tick: "clock W \<le> now \<Longrightarrow> gateway_step W (W\<lparr>clock := now\<rparr>)"
| gw_peer_state: "gateway_step W (committed (on_peer_state received slot reserved live (clock W) msg (timeouts W)) W)"
| gw_byebye: "gateway_step W (committed (on_byebye p (timeouts W)) W)"
| gw_prune: "gateway_step W (committed (prune_first (clock W) (timeouts W)) W)"
| gw_stop: "gateway_step W (stop_gateway W)"

inductive gateway_reachable :: "gateway \<Rightarrow> bool" where
  gw_new: "gateway_reachable (new_gateway now)"
| gw_next: "gateway_reachable W \<Longrightarrow> gateway_step W W' \<Longrightarrow> gateway_reachable W'"

section \<open>The observer\<close>

text \<open>The flags are the outcomes of the looks at the deadline and the ingress for an announcement.\<close>

definition handle_peer_event ::
  "node_id \<Rightarrow> bool \<times> bool \<times> bool \<times> bool \<Rightarrow> peer_event \<Rightarrow> sessions \<Rightarrow> sessions \<times> peer_state_change list" where
  "handle_peer_event self flags e S =
     (case e of
        Observed msg \<Rightarrow> (case flags of (expired1, live, expired2, expired3) \<Rightarrow> observed_peer msg self expired1 live expired2 expired3 S)
      | SawPeerEvent state \<Rightarrow> saw_peer state self S
      | PeerLeftEvent p \<Rightarrow> peer_left p S
      | PeerTimedOut p \<Rightarrow> peer_left p S)"

definition observe_events :: "node_id \<Rightarrow> ((bool \<times> bool \<times> bool \<times> bool) \<times> peer_event) list \<Rightarrow> sessions \<Rightarrow> sessions" where
  "observe_events self es S = fold (\<lambda>(flags, e) S. fst (handle_peer_event self flags e S)) es S"

section \<open>The deadlines as a sorted map\<close>

definition timeouts_ok :: "timeouts \<Rightarrow> bool" where
  "timeouts_ok ts \<longleftrightarrow> sorted (map fst ts) \<and> distinct (map snd ts)"

lemma set_insert_timeout [simp]: "set (insert_timeout x ts) = insert x (set ts)"
proof -
  have "set ts = set (take n ts) \<union> set (drop n ts)" for n by (metis append_take_drop_id set_append)
  then show ?thesis by (auto simp: insert_timeout_def Let_def)
qed

lemma insert_timeout_split:
  "insert_timeout x ts = takeWhile (\<lambda>t. fst t < fst x) ts @ [x] @ dropWhile (\<lambda>t. fst t < fst x) ts"
  by (simp add: insert_timeout_def Let_def takeWhile_eq_take [symmetric] dropWhile_eq_drop [symmetric])

lemma timeouts_ok_insert:
  assumes "timeouts_ok ts" and "snd x \<notin> snd ` set ts"
  shows "timeouts_ok (insert_timeout x ts)"
proof -
  define us where "us = takeWhile (\<lambda>t. fst t < fst x) ts"
  define vs where "vs = dropWhile (\<lambda>t. fst t < fst x) ts"
  have ts: "ts = us @ vs" by (simp add: us_def vs_def)
  have us: "\<forall>t\<in>set us. fst t < fst x" by (auto simp: us_def dest: set_takeWhileD)
  have "\<forall>t\<in>set vs. fst x \<le> fst t"
  proof (cases vs)
    case (Cons t ws)
    then have "\<not> fst t < fst x" unfolding vs_def by (metis dropWhile_eq_Cons_conv)
    then show ?thesis using assms(1) by (auto simp: Cons ts timeouts_ok_def sorted_append)
  qed simp
  then show ?thesis
    using assms us unfolding insert_timeout_split us_def [symmetric] vs_def [symmetric]
    by (auto simp: ts timeouts_ok_def sorted_append intro: less_imp_le)
qed

lemma timeouts_ok_filter: "timeouts_ok ts \<Longrightarrow> timeouts_ok (filter P ts)"
  by (auto simp: timeouts_ok_def sorted_filter distinct_map_filter)

text \<open>Which peers an observer that follows the events knows.\<close>

fun known_after :: "node_id set \<Rightarrow> peer_event \<Rightarrow> node_id set" where
  "known_after K (Observed msg) = insert (node_id (msg_node_state msg)) K"
| "known_after K (SawPeerEvent st) = insert (node_id (node_state st)) K"
| "known_after K (PeerLeftEvent p) = K - {p}"
| "known_after K (PeerTimedOut p) = K - {p}"

fun leaves_known :: "node_id set \<Rightarrow> peer_event \<Rightarrow> bool" where
  "leaves_known K (PeerLeftEvent p) = (p \<in> K)"
| "leaves_known K (PeerTimedOut p) = (p \<in> K)"
| "leaves_known K _ = True"

fun log_ok :: "node_id set \<Rightarrow> peer_event list \<Rightarrow> bool" where
  "log_ok K [] = True"
| "log_ok K (e # es) = (leaves_known K e \<and> log_ok (known_after K e) es)"

definition known :: "peer_event list \<Rightarrow> node_id set" where
  "known es = foldl known_after {} es"

lemma log_ok_append: "log_ok K (es @ fs) \<longleftrightarrow> log_ok K es \<and> log_ok (foldl known_after K es) fs"
  by (induction es arbitrary: K) auto

definition gateway_ok :: "gateway \<Rightarrow> bool" where
  "gateway_ok W \<longleftrightarrow>
     timeouts_ok (timeouts W) \<and> known (events W) = snd ` set (timeouts W) \<and> log_ok {} (events W)
   \<and> (\<forall>t\<in>set (timeouts W). fst t \<le> clock W + 3 * second)"

text \<open>What a commit does to the deadlines is what its event says.\<close>

definition faithful :: "duration \<Rightarrow> timeouts \<Rightarrow> timeouts \<Rightarrow> peer_event \<Rightarrow> bool" where
  "faithful now ts ts' e \<longleftrightarrow>
     timeouts_ok ts' \<and> snd ` set ts' = known_after (snd ` set ts) e \<and> leaves_known (snd ` set ts) e
   \<and> (\<forall>t\<in>set ts'. t \<in> set ts \<or> fst t \<le> now + 3 * second)"

lemma faithful_remove:
  assumes "timeouts_ok ts" and "p \<in> snd ` set ts"
  shows "faithful now ts (filter (\<lambda>t. snd t \<noteq> p) ts) (PeerLeftEvent p)"
  using assms by (auto simp: faithful_def timeouts_ok_filter)

lemma faithful_peer_state:
  assumes "timeouts_ok ts" and "on_peer_state received slot reserved live now msg ts = Some (ts', e)"
  shows "faithful now ts ts' e"
proof -
  obtain deadline where c: "commit_peer_state now deadline msg ts = Some (ts', e)"
    using assms(2) by (auto simp: on_peer_state_def Let_def split: if_splits)
  show ?thesis
  proof (cases "msg_ttl msg = 0")
    case True
    then show ?thesis using c assms(1) faithful_remove by (auto simp: commit_peer_state_def Let_def split: if_splits)
  next
    case False
    let ?p = "node_id (msg_node_state msg)"
    have "ts' = insert_timeout (min deadline (now + 3 * second), ?p) (filter (\<lambda>t. snd t \<noteq> ?p) ts)"
      "e = Observed (msg\<lparr>expires_at := Some deadline\<rparr>)"
      using c False by (auto simp: commit_peer_state_def Let_def split: if_splits)
    moreover have "?p \<notin> snd ` set (filter (\<lambda>t. snd t \<noteq> ?p) ts)" by auto
    then have "timeouts_ok (insert_timeout (min deadline (now + 3 * second), ?p) (filter (\<lambda>t. snd t \<noteq> ?p) ts))"
      by (intro timeouts_ok_insert timeouts_ok_filter assms(1)) simp
    ultimately show ?thesis by (auto simp: faithful_def)
  qed
qed

lemma faithful_byebye: "timeouts_ok ts \<Longrightarrow> on_byebye p ts = Some (ts', e) \<Longrightarrow> faithful now ts ts' e"
  using faithful_remove by (auto simp: on_byebye_def find_peer_def split: if_splits)

lemma faithful_prune: "timeouts_ok ts \<Longrightarrow> prune_first now ts = Some (ts', e) \<Longrightarrow> faithful now ts ts' e"
  by (cases ts) (force simp: prune_first_def faithful_def timeouts_ok_def split: if_splits)+

lemma gateway_ok_committed:
  assumes "gateway_ok W" and "\<And>ts e. r = Some (ts, e) \<Longrightarrow> faithful (clock W) (timeouts W) ts e"
  shows "gateway_ok (committed r W)"
proof (cases r)
  case (Some x)
  obtain ts e where x: "x = (ts, e)" by fastforce
  have "faithful (clock W) (timeouts W) ts e" using assms(2) Some x by simp
  then show ?thesis
    using assms(1) Some x by (auto simp: committed_def gateway_ok_def faithful_def known_def log_ok_append)
qed (use assms in \<open>simp add: committed_def\<close>)

lemma gateway_ok_step: "gateway_step W W' \<Longrightarrow> gateway_ok W \<Longrightarrow> gateway_ok W'"
proof (induction rule: gateway_step.induct)
  case (gw_tick W now)
  then show ?case by (fastforce simp: gateway_ok_def)
next
  case (gw_stop W)
  then show ?case by (simp add: gateway_ok_def stop_gateway_def timeouts_ok_def known_def)
qed (intro gateway_ok_committed; auto simp: gateway_ok_def intro: faithful_peer_state faithful_byebye faithful_prune)+

lemma gateway_reachable_ok: "gateway_reachable W \<Longrightarrow> gateway_ok W"
  by (induction rule: gateway_reachable.induct)
    (auto simp: gateway_ok_step, simp add: gateway_ok_def new_gateway_def timeouts_ok_def known_def)

section \<open>The registry behind the gateway\<close>

lemma peers_observed:
  "peer_ident ` set (peers (fst (handle_peer_event self flags e S))) \<subseteq> known_after (peer_ident ` set (peers S)) e"
proof -
  have app: "peer_ident ` set (fst (apply_peer st ps self x)) \<subseteq> insert (node_id (node_state st)) (peer_ident ` set ps)" for st ps x
    by (auto simp: apply_peer_def Let_def peer_ident_def dest!: set_update_subset_insert [THEN subsetD] split: option.splits)
  have w: "peers (fst (with_observer_state f S)) = fst (f (peers S))" for f :: "controller_peer list \<Rightarrow> controller_peer list \<times> peer_state_change list"
    by (simp add: with_observer_state_def split: prod.splits)
  have left: "peer_ident ` set (fst (remove_peer p ps)) = peer_ident ` set ps - {p}" for p ps
    by (auto simp: remove_peer_def Let_def)
  show ?thesis
  proof (cases e)
    case (Observed msg)
    show ?thesis
      using app [of "\<lparr>node_state = msg_node_state msg, measurement_endpoint = msg_measurement_endpoint msg,
          audio_endpoint = msg_audio_endpoint msg\<rparr>" "peers S"]
      by (auto simp: Observed handle_peer_event_def observed_peer_def w left split: prod.splits)
  next
    case (SawPeerEvent st)
    then show ?thesis using app by (simp add: handle_peer_event_def saw_peer_def w)
  qed (simp_all add: handle_peer_event_def peer_left_def w left)
qed

lemma known_after_mono: "K \<subseteq> L \<Longrightarrow> known_after K e \<subseteq> known_after L e"
  by (cases e) auto

lemma peers_after_events:
  assumes "peer_ident ` set (peers S) \<subseteq> K"
  shows "peer_ident ` set (peers (observe_events self es S)) \<subseteq> foldl known_after K (map snd es)"
  using assms
proof (induction es arbitrary: S K)
  case (Cons x es)
  obtain flags e where x: "x = (flags, e)" by fastforce
  have "peer_ident ` set (peers (fst (handle_peer_event self flags e S))) \<subseteq> known_after K e"
    using peers_observed known_after_mono [OF Cons.prems] by blast
  from Cons.IH [OF this] show ?case by (simp add: observe_events_def x)
qed (simp add: observe_events_def)

section \<open>Properties\<close>

text \<open>The gateway and its observer agree. In every reachable state the deadlines are sorted with one per
  peer, the peers with a deadline are those that the events so far say are present, a departure is
  only reported for a peer that was reported before, and no deadline is more than three seconds away.\<close>

theorem gateway_tracks_peers:
  assumes "gateway_reachable W"
  shows "sorted (map fst (timeouts W)) \<and> distinct (map snd (timeouts W)) \<and> known (events W) = snd ` set (timeouts W)
       \<and> log_ok {} (events W) \<and> (\<forall>t\<in>set (timeouts W). fst t \<le> clock W + 3 * second)"
  using gateway_reachable_ok [OF assms] by (simp add: gateway_ok_def timeouts_ok_def)

definition sample_message :: peer_state_message where
  "sample_message = \<lparr>msg_node_state = \<lparr>node_id = replicate 8 1, session_id = replicate 8 2, timeline = default_timeline,
     start_stop_state = \<lparr>is_playing = False, beats = Beats 0, timestamp = 0\<rparr>\<rparr>, msg_ttl = 5, expires_at = None,
     msg_measurement_endpoint = None, msg_audio_endpoint = None\<rparr>"

definition sample_gateway :: gateway where
  "sample_gateway = committed (on_peer_state 0 True 0 True 0 sample_message []) (new_gateway 0)"

lemma sample_gateway_reachable: "gateway_reachable sample_gateway"
  using gw_next [OF gw_new [of 0] gw_peer_state [of "new_gateway 0" 0 True 0 True sample_message]]
  by (simp add: sample_gateway_def) (simp add: new_gateway_def)

lemma sample_gateway_eq:
  "sample_gateway = \<lparr>timeouts = [(3 * second, replicate 8 1)],
     events = [Observed (sample_message\<lparr>expires_at := Some (5 * second)\<rparr>)], clock = 0\<rparr>"
  by (simp add: sample_gateway_def committed_def on_peer_state_def commit_peer_state_def new_gateway_def sample_message_def
      insert_timeout_def Let_def)

theorem gateway_tracks_peers_witness: "known (events sample_gateway) = {replicate 8 1}"
  using gateway_tracks_peers [OF sample_gateway_reachable] by (simp add: sample_gateway_eq)

text \<open>C23: The registry never keeps a peer that the gateway has given up. When the observer has handled all events of the
  gateway, in order and dropping any announcement that expired or lost its ingress on the way, every peer of
  the registry still has a deadline at the gateway.\<close>

theorem registry_within_deadlines:
  assumes "gateway_reachable W" and "map snd es = events W" and "peers S = []"
  shows "peer_ident ` set (peers (observe_events self es S)) \<subseteq> snd ` set (timeouts W)"
proof -
  have "peer_ident ` set (peers (observe_events self es S)) \<subseteq> known (events W)"
    using peers_after_events [of S "{}" self es] assms(2,3) by (simp add: known_def)
  then show ?thesis using gateway_reachable_ok [OF assms(1)] by (simp add: gateway_ok_def)
qed

theorem registry_within_deadlines_witness:
  "peer_ident ` set (peers (observe_events (replicate 8 9)
      [((False, True, False, False), Observed (sample_message\<lparr>expires_at := Some (5 * second)\<rparr>))]
      (with_session \<lparr>incarnation = 0, edit_revision = None, se_id = replicate 8 1, se_timeline = default_timeline,
         se_measurement = default_measurement\<rparr> 1 1))) \<subseteq> {replicate 8 1}"
  by (rule order_trans [OF registry_within_deadlines [OF sample_gateway_reachable]])
    (simp_all add: sample_gateway_eq with_session_def)

text \<open>Pruning one entry after the other removes exactly the expired peers, and the worker wakes after the
  first of them has expired.\<close>

theorem pruning_removes_expired:
  assumes "sorted (map fst ts)"
  shows "prune_loop now ts = filter (\<lambda>t. now < fst t) ts
       \<and> (case prune_wake ts of None \<Rightarrow> ts = [] | Some w \<Rightarrow> \<forall>now. w \<le> now \<longrightarrow> prune_first now ts \<noteq> None)"
proof
  show "prune_loop now ts = filter (\<lambda>t. now < fst t) ts"
    using assms by (induction ts) (auto intro!: filter_True [symmetric])
  show "case prune_wake ts of None \<Rightarrow> ts = [] | Some w \<Rightarrow> \<forall>now. w \<le> now \<longrightarrow> prune_first now ts \<noteq> None"
    by (auto simp: prune_wake_def prune_first_def split: list.splits)
qed

theorem pruning_removes_expired_witness:
  "prune_loop 5 [(3, replicate 8 1), (7, replicate 8 2)] = [(7, replicate 8 2)]"
  using pruning_removes_expired [of "[(3, replicate 8 1), (7, replicate 8 2)]" 5] by simp

end
