(* ===== verification/Messenger.thy ===== *)
theory Messenger
  imports Interfaces Gateway
begin

text \<open>
  The messenger of \<open>src/discovery/messenger.rs\<close> on top of the registered sockets: the cache of measurement routes, the
  revisions that order what several interfaces hear of one peer, the admission of a received datagram, its delivery to
  the gateway, the reaction to it and the pace of the broadcasts.

  A receive loop has a queue of at most 64 events and a delivery task that holds one of them. Receiving and admitting a
  datagram is one step, under the locks that the code holds from the read to the admission; committing an event is one
  step under the same locks. The locks themselves, waiting for them and the gate are left to the steps that may or may
  not be taken. Every message of a peer that is parsed gets a number (\<open>seen\<close>), which only the theorems read; the
  latest clock reading is \<open>m_now\<close>.
\<close>

section \<open>Measurement routes\<close>

record route_hint =
  hint_expires :: duration
  hint_observed :: duration
  hint_route :: iface_socket

type_synonym route_map = "((node_id \<times> socket_v4) \<times> route_hint) list"

definition MAX_MEASUREMENT_ROUTES :: nat where "MAX_MEASUREMENT_ROUTES = 1024"
definition MAX_ROUTES_PER_PEER :: nat where "MAX_ROUTES_PER_PEER = 16"

text \<open>The topology is read at most once in a pass: \<open>g\<close> is what that read gave.\<close>

definition current_in_snapshot :: "nat set \<Rightarrow> nat option \<Rightarrow> iface_socket \<Rightarrow> bool" where
  "current_in_snapshot stopped_socks g e \<longleftrightarrow> sock e \<notin> stopped_socks \<and> g = Some (lease_generation e)"

definition sweep :: "nat set \<Rightarrow> nat option \<Rightarrow> duration \<Rightarrow> route_map \<Rightarrow> route_map" where
  "sweep stopped_socks g now m =
     filter (\<lambda>x. hint_expires (snd x) > now \<and> current_in_snapshot stopped_socks g (hint_route (snd x))) m"

definition remove_route :: "node_id \<times> socket_v4 \<Rightarrow> route_map \<Rightarrow> route_map" where
  "remove_route k m = filter (\<lambda>x. fst x \<noteq> k) m"

definition evict_route :: "(node_id \<times> socket_v4 \<Rightarrow> bool) \<Rightarrow> route_map \<Rightarrow> route_map" where
  "evict_route P m =
     (let xs = filter (P \<circ> fst) m
      in if xs = [] then m else remove_route (fst (arg_min_list (hint_expires \<circ> snd) xs)) m)"

definition put_route :: "node_id \<times> socket_v4 \<Rightarrow> route_hint \<Rightarrow> route_map \<Rightarrow> route_map" where
  "put_route k h m =
     (if k \<in> fst ` set m then map (\<lambda>x. if fst x = k then (k, h) else x) m else m @ [(k, h)])"

text \<open>Room for a new key: the oldest route of the peer goes when it has too many, then the oldest of all.\<close>

definition make_room :: "node_id \<Rightarrow> route_map \<Rightarrow> route_map" where
  "make_room p m =
     (let m = (if length (filter (\<lambda>x. fst (fst x) = p) m) \<ge> MAX_ROUTES_PER_PEER then evict_route (\<lambda>k. fst k = p) m else m)
      in if length m \<ge> MAX_MEASUREMENT_ROUTES then evict_route (\<lambda>_. True) m else m)"

definition forget_peer_routes :: "node_id \<Rightarrow> duration \<Rightarrow> route_map \<Rightarrow> route_map" where
  "forget_peer_routes p observed m = filter (\<lambda>x. fst (fst x) \<noteq> p \<or> hint_observed (snd x) > observed) m"

definition record_received ::
  "nat set \<Rightarrow> nat option \<Rightarrow> duration \<Rightarrow> node_id \<Rightarrow> socket_v4 option \<Rightarrow> duration \<Rightarrow> duration \<Rightarrow> iface_socket \<Rightarrow> bool \<Rightarrow>
   route_map \<Rightarrow> route_map" where
  "record_received stopped_socks g now p endpoint observed expires route existing_only m =
     (let m = sweep stopped_socks g now m
      in if \<not> current_in_snapshot stopped_socks g route then m
         else case endpoint of
           None \<Rightarrow> forget_peer_routes p observed m
         | Some ep \<Rightarrow>
             let k = (p, ep)
             in if (case map_of m k of Some h \<Rightarrow> hint_observed h > observed | None \<Rightarrow> False) then m
                else if expires \<le> now then remove_route k m
                else if existing_only \<and> k \<notin> fst ` set m then m
                else put_route k \<lparr>hint_expires = expires, hint_observed = observed, hint_route = route\<rparr>
                       (if k \<in> fst ` set m then m else make_room p m))"

definition resolve :: "nat set \<Rightarrow> nat option \<Rightarrow> duration \<Rightarrow> peer_state \<Rightarrow> route_map \<Rightarrow> iface_socket option \<times> route_map" where
  "resolve stopped_socks g now st m =
     (case measurement_endpoint st of
        None \<Rightarrow> (None, m)
      | Some ep \<Rightarrow>
          let m = sweep stopped_socks g now m
          in (map_option hint_route (map_of m (node_id (node_state st), ep)), m))"

section \<open>Revisions\<close>

record revision =
  rv_id :: nat
  rv_received :: duration

text \<open>
  \<open>alive\<close> are the revisions that something still owns, \<open>fresh\<close> is the number of a new one. The older revision of the
  peer is cancelled even when the new message is not admitted.
\<close>

definition observe_revision ::
  "nat set \<Rightarrow> nat \<Rightarrow> node_id \<Rightarrow> duration \<Rightarrow> bool \<Rightarrow> (node_id \<rightharpoonup> revision) \<Rightarrow> nat set \<Rightarrow>
   (node_id \<rightharpoonup> revision) \<times> nat set \<times> revision option" where
  "observe_revision alive fresh p received admitted pend canc =
     (let pend = (\<lambda>q. case pend q of Some r \<Rightarrow> if rv_id r \<in> alive then Some r else None | None \<Rightarrow> None)
      in if (case pend p of Some r \<Rightarrow> rv_received r > received | None \<Rightarrow> False) then (pend, canc, None)
         else let canc = (case pend p of Some r \<Rightarrow> insert (rv_id r) canc | None \<Rightarrow> canc);
                  pend = pend(p := None)
              in if \<not> admitted then (pend, canc, None)
                 else let r = \<lparr>rv_id = fresh, rv_received = received\<rparr> in (pend(p \<mapsto> r), canc, Some r))"

section \<open>The messenger\<close>

record discovery_event =
  ev_message :: peer_state_message
  ev_ingress :: iface_socket
  ev_received :: duration
  ev_revision :: revision
  ev_number :: nat

record receive_loop =
  handoff :: "discovery_event list"
  delivering :: "discovery_event option"

record messenger =
  m_ifs :: interfaces
  topo :: nat
  hints :: route_map
  pending :: "node_id \<rightharpoonup> revision"
  superseded :: "nat set"
  next_rev :: nat
  loops :: "receive_loop list"
  forwarded :: "discovery_event list"
  delivered :: "discovery_event list"
  seen :: "node_id \<Rightarrow> nat"
  m_now :: duration
  m_state :: peer_state
  m_enabled :: bool
  m_group :: u16
  gateways_changed :: nat

abbreviation DISCOVERY_HANDOFF_CAPACITY :: nat where "DISCOVERY_HANDOFF_CAPACITY \<equiv> 64"

abbreviation ev_peer :: "discovery_event \<Rightarrow> node_id" where
  "ev_peer ev \<equiv> node_id (msg_node_state (ev_message ev))"

definition loop_events :: "receive_loop \<Rightarrow> discovery_event set" where
  "loop_events l = set (handoff l) \<union> set_option (delivering l)"

definition held :: "messenger \<Rightarrow> discovery_event set" where
  "held M = (\<Union>l\<in>set (loops M). loop_events l) \<union> set (forwarded M)"

definition alive_revisions :: "messenger \<Rightarrow> nat set" where
  "alive_revisions M = (rv_id \<circ> ev_revision) ` held M"

section \<open>Admission\<close>

fun first_measurement_endpoint :: "payload \<Rightarrow> socket_v4 option" where
  "first_measurement_endpoint (MeasurementEndpointV4 (Some ep) # es) = Some ep"
| "first_measurement_endpoint (e # es) = first_measurement_endpoint es"
| "first_measurement_endpoint [] = None"

fun first_audio_endpoint :: "payload \<Rightarrow> socket_v4 option" where
  "first_audio_endpoint (AudioEndpointV4 (Some ep) # es) = Some ep"
| "first_audio_endpoint (e # es) = first_audio_endpoint es"
| "first_audio_endpoint [] = None"

definition peer_state_event :: "ext \<Rightarrow> duration \<Rightarrow> message_header \<Rightarrow> bytes \<Rightarrow> peer_state_message option" where
  "peer_state_event E now header buf =
     (case parse_payload E buf of
        Inl _ \<Rightarrow> None
      | Inr es \<Rightarrow>
          Some \<lparr>msg_node_state = from_payload (ident header) es, msg_ttl = ttl header,
                expires_at = Some (now + int (unat (ttl header)) * second),
                msg_measurement_endpoint = first_measurement_endpoint es, msg_audio_endpoint = first_audio_endpoint es\<rparr>)"

definition push_event :: "nat \<Rightarrow> discovery_event \<Rightarrow> messenger \<Rightarrow> messenger" where
  "push_event i ev M = M\<lparr>loops := (loops M)[i := (loops M ! i)\<lparr>handoff := handoff (loops M ! i) @ [ev]\<rparr>]\<rparr>"

definition queue_peer_state ::
  "ext \<Rightarrow> nat option \<Rightarrow> duration \<Rightarrow> nat \<Rightarrow> message_header \<Rightarrow> bytes \<Rightarrow> iface_socket \<Rightarrow> messenger \<Rightarrow> messenger" where
  "queue_peer_state E g now i header buf ingress M =
     (let received = m_now M;
          expires = received + int (unat (ttl header)) * second
      in case peer_state_event E now header buf of
           None \<Rightarrow> M
         | Some st \<Rightarrow>
             let p = node_id (msg_node_state st);
                 slot = length (handoff (loops M ! i)) < DISCOVERY_HANDOFF_CAPACITY;
                 stops = cancelled (m_ifs M);
                 (pend, canc, rev) = observe_revision (alive_revisions M) (next_rev M) p received
                   (slot \<and> (msg_ttl st = 0 \<or> expires > now)) (pending M) (superseded M);
                 M = M\<lparr>pending := pend, superseded := canc, seen := (seen M)(p := seen M p + 1), m_now := now,
                       hints := (if msg_ttl st = 0 then forget_peer_routes p received (hints M)
                                 else record_received stops g now p (msg_measurement_endpoint st) received expires ingress True (hints M))\<rparr>
             in case rev of
                  None \<Rightarrow> M
                | Some r \<Rightarrow>
                    if \<not> slot then M
                    else push_event i \<lparr>ev_message = st\<lparr>expires_at := Some expires\<rparr>, ev_ingress = ingress, ev_received = received,
                                      ev_revision = r, ev_number = seen M p\<rparr> (M\<lparr>next_rev := next_rev M + 1\<rparr>))"

definition observe_discovery ::
  "ext \<Rightarrow> nat option \<Rightarrow> duration \<Rightarrow> nat \<Rightarrow> bytes \<Rightarrow> iface_socket option \<Rightarrow> messenger \<Rightarrow> messenger" where
  "observe_discovery E g now i data route M =
     (case route of
        None \<Rightarrow> M
      | Some e \<Rightarrow>
          if starts_with data LINK_HEADER then M
          else case parse_message_header data of
            Inl _ \<Rightarrow> M
          | Inr (header, len) \<Rightarrow>
              if message_type header \<notin> {ALIVE, RESPONSE, BYEBYE} then M
              else if node_id (node_state (m_state M)) = ident header \<and> group_id header = m_group M then M
              else if message_type header \<noteq> BYEBYE \<and> \<not> m_enabled M then M
              else if message_type header = BYEBYE then queue_peer_state E g now i (header\<lparr>ttl := 0\<rparr>) [] e M
              else queue_peer_state E g now i header (drop len data) e M)"

text \<open>Reading a datagram from the socket \<open>owner\<close> (or the multicast socket) and admitting it, under one lock.\<close>

definition receive_datagram ::
  "ext \<Rightarrow> nat option \<Rightarrow> duration \<Rightarrow> nat \<Rightarrow> nat option \<Rightarrow> packet \<Rightarrow> messenger \<Rightarrow> messenger" where
  "receive_datagram E g now i owner p M =
     (if (\<exists>s. owner = Some s \<and> s \<in> cancelled (m_ifs M)) then M
      else case route_of (m_ifs M) g owner Invalidated p of
             Inl _ \<Rightarrow> M
           | Inr route \<Rightarrow> observe_discovery E g now i (pk_bytes p) route M)"

section \<open>Delivery\<close>

text \<open>The commit of an observation, wherever its event is: its socket is registered and current and no newer message of the
  peer has been observed.\<close>

definition try_commit :: "nat option \<Rightarrow> discovery_event \<Rightarrow> messenger \<Rightarrow> bool" where
  "try_commit g ev M \<longleftrightarrow> while_current (m_ifs M) g (ev_ingress ev) \<and> rv_id (ev_revision ev) \<notin> superseded M"

definition take_event :: "nat \<Rightarrow> messenger \<Rightarrow> messenger" where
  "take_event i M =
     (case handoff (loops M ! i) of
        [] \<Rightarrow> M
      | ev # rest \<Rightarrow> M\<lparr>loops := (loops M)[i := \<lparr>handoff = rest, delivering = Some ev\<rparr>]\<rparr>)"

definition abandon_event :: "nat \<Rightarrow> messenger \<Rightarrow> messenger" where
  "abandon_event i M = M\<lparr>loops := (loops M)[i := (loops M ! i)\<lparr>delivering := None\<rparr>]\<rparr>"

definition event_expires :: "discovery_event \<Rightarrow> duration" where
  "event_expires ev = (case expires_at (ev_message ev) of Some d \<Rightarrow> d | None \<Rightarrow> 0)"

definition deliver_event :: "nat option \<Rightarrow> nat \<Rightarrow> messenger \<Rightarrow> messenger" where
  "deliver_event g i M =
     (case delivering (loops M ! i) of
        None \<Rightarrow> M
      | Some ev \<Rightarrow>
          let st = ev_message ev;
              N = abandon_event i M
          in if \<not> try_commit g ev M \<or> (msg_ttl st > 0 \<and> event_expires ev \<le> m_now M) then N
             else N\<lparr>hints := (if msg_ttl st = 0 then forget_peer_routes (ev_peer ev) (ev_received ev) (hints M)
                             else record_received (cancelled (m_ifs M)) g (m_now M) (ev_peer ev) (msg_measurement_endpoint st)
                                    (ev_received ev) (event_expires ev) (ev_ingress ev) False (hints M)),
                    forwarded := forwarded M @ [ev], delivered := delivered M @ [ev]\<rparr>)"

definition discard_loop :: "nat \<Rightarrow> messenger \<Rightarrow> messenger" where
  "discard_loop i M = M\<lparr>loops := (loops M)[i := \<lparr>handoff = [], delivering = None\<rparr>]\<rparr>"

definition discard_queued_datagrams :: "messenger \<Rightarrow> messenger" where
  "discard_queued_datagrams M = M\<lparr>hints := [], m_ifs := drain_multicast (m_ifs M)\<rparr>"

text \<open>One pass of the scan of the interfaces; every new socket gets a receive loop.\<close>

definition scan_interfaces ::
  "nat option \<Rightarrow> host \<Rightarrow> ipv4_interface list \<Rightarrow> local_identity \<Rightarrow> nat \<Rightarrow> bool \<Rightarrow> setup_failures \<Rightarrow> messenger \<Rightarrow> messenger" where
  "scan_interfaces now H cur D g r f M =
     (case reconcile_at now H cur D g r (m_ifs M) f of
        (I, f', spawned, changed) \<Rightarrow>
          M\<lparr>m_ifs := I, loops := loops M @ map (\<lambda>_. \<lparr>handoff = [], delivering = None\<rparr>) spawned,
            gateways_changed := gateways_changed M + (if changed then 1 else 0)\<rparr>)"

definition new_messenger :: "host \<Rightarrow> ipv4_interface list option \<Rightarrow> nat \<Rightarrow> local_identity \<Rightarrow> peer_state \<Rightarrow> duration \<Rightarrow> messenger" where
  "new_messenger H scanned g D st now =
     (let I = new_interfaces H scanned g D
      in \<lparr>m_ifs = I, topo = g, hints = [], pending = Map.empty, superseded = {}, next_rev = 0,
          loops = replicate (Suc (length (regs I))) \<lparr>handoff = [], delivering = None\<rparr>,
          forwarded = [], delivered = [], seen = (\<lambda>_. 0), m_now = now, m_state = st, m_enabled = False, m_group = 0,
          gateways_changed = 1\<rparr>)"

section \<open>Sending\<close>

text \<open>The endpoint of a responder on a wildcard address names the interface the message leaves by.\<close>

definition advertise_endpoint_for :: "u32 option \<Rightarrow> socket_v4 option \<Rightarrow> peer_state \<Rightarrow> peer_state" where
  "advertise_endpoint_for interface local_addr st =
     (case measurement_endpoint st of
        None \<Rightarrow> st
      | Some ep \<Rightarrow>
          if fst ep \<noteq> 0 then st
          else let local_ip = (case interface of
                                 Some a \<Rightarrow> Some a
                               | None \<Rightarrow> (case local_addr of Some a \<Rightarrow> if fst a \<noteq> 0 then Some (fst a) else None | None \<Rightarrow> None))
               in st\<lparr>measurement_endpoint := map_option (\<lambda>ip. (ip, snd ep)) local_ip\<rparr>)"

definition announced_state :: "socket_v4 option \<Rightarrow> iface_socket option \<Rightarrow> peer_state \<Rightarrow> peer_state" where
  "announced_state local_addr registration st =
     (if (\<exists>e. registration = Some e \<and> measurement_responder e) \<and> measurement_endpoint st \<noteq> None
      then st\<lparr>measurement_endpoint := (case local_addr of Some a \<Rightarrow> if fst a \<noteq> 0 then Some a else None | None \<Rightarrow> None)\<rparr>
      else advertise_endpoint_for (map_option (if_addr \<circ> if_identity) registration) local_addr st)"

definition state_message ::
  "ext \<Rightarrow> socket_v4 option \<Rightarrow> iface_socket option \<Rightarrow> u8 \<Rightarrow> u8 \<Rightarrow> u16 \<Rightarrow> peer_state \<Rightarrow> link_error + bytes" where
  "state_message E local_addr registration t kind grp st =
     encode_message E (node_id (node_state st)) t kind (payload_of_peer (announced_state local_addr registration st)) grp"

text \<open>
  What is sent and the new time of the last broadcast. \<open>st = None\<close>: the state is locked; \<open>accepted\<close>: the system takes
  the datagram; \<open>free\<close>: the time is not locked. A message that is dropped or refused leaves the time alone.
\<close>

definition send_peer_state_via ::
  "ext \<Rightarrow> socket_v4 option \<Rightarrow> iface_socket option \<Rightarrow> u8 \<Rightarrow> u8 \<Rightarrow> u16 \<Rightarrow> peer_state option \<Rightarrow> bool \<Rightarrow> bool \<Rightarrow> duration \<Rightarrow> duration \<Rightarrow>
   bytes option \<times> duration" where
  "send_peer_state_via E local_addr registration t kind grp st accepted free now last_time =
     (case st of
        None \<Rightarrow> (None, last_time)
      | Some st \<Rightarrow>
          (case state_message E local_addr registration t kind grp st of
             Inl _ \<Rightarrow> (None, last_time)
           | Inr m \<Rightarrow> if accepted then (Some m, if free then now else last_time) else (None, last_time)))"

abbreviation millisecond :: duration where "millisecond \<equiv> 1000000"

text \<open>One turn of the broadcaster: how long it sleeps and whether it announces. \<open>last_time = None\<close>: the time is locked.\<close>

definition broadcast_turn :: "u8 \<Rightarrow> u8 \<Rightarrow> duration option \<Rightarrow> duration \<Rightarrow> bool \<Rightarrow> duration \<times> bool" where
  "broadcast_turn t ratio last_time now on =
     (let nominal = int (unat t * 1000 div unat ratio) * millisecond;
          since = (case last_time of None \<Rightarrow> 0 | Some l \<Rightarrow> if l > now then 0 else (now - l) div millisecond);
          delay = (if since > 50 then 0 else (50 - since) * millisecond)
      in (if delay > 0 then delay else nominal, delay < millisecond \<and> on))"

section \<open>Reacting\<close>

datatype reaction = NoReaction | TakePong bytes | SendPong bytes | SendResponse

definition receive_reaction ::
  "ext \<Rightarrow> ping_responder option \<Rightarrow> duration \<Rightarrow> nat option \<Rightarrow> packet \<Rightarrow> iface_socket option \<Rightarrow> node_id option \<Rightarrow> bool \<Rightarrow> u16 \<Rightarrow>
   ping_responder option \<times> reaction" where
  "receive_reaction E responder now owner p route self on grp =
     (case route of
        None \<Rightarrow> (responder, NoReaction)
      | Some e \<Rightarrow>
          if starts_with (pk_bytes p) LINK_HEADER
          then (case (responder, pk_src p) of
                  (Some r, IpV4 _) \<Rightarrow>
                    if measurement_responder e \<and> owner = Some (sock e)
                    then if length (pk_bytes p) > 8 \<and> pk_bytes p ! 8 = PONG then (responder, TakePong (pk_bytes p))
                         else (case pong_message E r now (pk_bytes p) of
                                 (r', None) \<Rightarrow> (Some r', NoReaction)
                               | (r', Some m) \<Rightarrow> (Some r', SendPong m))
                    else (responder, NoReaction)
                | _ \<Rightarrow> (responder, NoReaction))
          else (case parse_message_header (pk_bytes p) of
                  Inl _ \<Rightarrow> (responder, NoReaction)
                | Inr (header, _) \<Rightarrow>
                    if self = Some (ident header) \<and> group_id header = grp then (responder, NoReaction)
                    else (case pk_src p of
                            IpV6 _ \<Rightarrow> (responder, NoReaction)
                          | IpV4 _ \<Rightarrow> (responder, if message_type header = ALIVE \<and> on then SendResponse else NoReaction))))"

section \<open>Steps\<close>

text \<open>
  A check of the topology gives the present generation or an error (\<open>g = Some (topo M) \<or> g = None\<close>); a notification moves
  the generation on. An event leaves \<open>forwarded\<close> when the gateway and the observer are done with it.
\<close>

inductive messenger_step :: "ext \<Rightarrow> messenger \<Rightarrow> messenger \<Rightarrow> bool" for E where
  ms_receive: "i < length (loops M) \<Longrightarrow> m_now M \<le> now \<Longrightarrow> g = Some (topo M) \<or> g = None \<Longrightarrow>
    messenger_step E M (receive_datagram E g now i owner p M)"
| ms_take: "i < length (loops M) \<Longrightarrow> delivering (loops M ! i) = None \<Longrightarrow> messenger_step E M (take_event i M)"
| ms_abandon: "i < length (loops M) \<Longrightarrow> messenger_step E M (abandon_event i M)"
| ms_deliver: "i < length (loops M) \<Longrightarrow> g = Some (topo M) \<or> g = None \<Longrightarrow> messenger_step E M (deliver_event g i M)"
| ms_discard: "i < length (loops M) \<Longrightarrow> messenger_step E M (discard_loop i M)"
| ms_consume: "forwarded M = xs @ ev # ys \<Longrightarrow> messenger_step E M (M\<lparr>forwarded := xs @ ys\<rparr>)"
| ms_interfaces: "ifs_step (m_ifs M) I \<Longrightarrow> messenger_step E M (M\<lparr>m_ifs := I\<rparr>)"
| ms_scan: "messenger_step E M (scan_interfaces now H cur D g r f M)"
| ms_topology: "topo M < g \<Longrightarrow> messenger_step E M (M\<lparr>topo := g\<rparr>)"
| ms_tick: "m_now M \<le> now \<Longrightarrow> messenger_step E M (M\<lparr>m_now := now\<rparr>)"
| ms_prune: "messenger_step E M (M\<lparr>hints := sweep (cancelled (m_ifs M)) g (m_now M) (hints M)\<rparr>)"
| ms_clear: "messenger_step E M (discard_queued_datagrams M)"
| ms_order: "mset m = mset (hints M) \<Longrightarrow> messenger_step E M (M\<lparr>hints := m\<rparr>)"
| ms_set_state: "messenger_step E M (M\<lparr>m_state := st, m_enabled := b, m_group := grp\<rparr>)"

inductive messenger_reachable :: "ext \<Rightarrow> messenger \<Rightarrow> bool" for E where
  mr_new: "messenger_reachable E (new_messenger H scanned g D st now)"
| mr_step: "messenger_reachable E M \<Longrightarrow> messenger_step E M M' \<Longrightarrow> messenger_reachable E M'"

section \<open>The cache of routes stays bounded\<close>

definition hints_ok :: "route_map \<Rightarrow> bool" where
  "hints_ok m \<longleftrightarrow> distinct (map fst m) \<and> length m \<le> MAX_MEASUREMENT_ROUTES
   \<and> (\<forall>p. length (filter (\<lambda>x. fst (fst x) = p) m) \<le> MAX_ROUTES_PER_PEER)"

lemma length_filter_filter: "length (filter P (filter Q xs)) \<le> length (filter P xs)"
  by (induction xs) auto

lemma hints_ok_filter: "hints_ok m \<Longrightarrow> hints_ok (filter P m)"
  unfolding hints_ok_def
  by (auto simp: distinct_map_filter intro: le_trans [OF length_filter_filter] le_trans [OF length_filter_le] simp del: filter_filter)

lemma hints_ok_order:
  assumes "hints_ok m" and "mset m' = mset m"
  shows "hints_ok m'"
proof -
  have "length m' = length m" "distinct (map fst m') = distinct (map fst m)"
    using assms(2) distinct_map_mset [OF assms(2), of fst] by (auto dest: mset_eq_length)
  moreover have "length (filter P m') = length (filter P m)" for P
    using assms(2) by (metis mset_filter size_mset)
  ultimately show ?thesis using assms(1) by (simp add: hints_ok_def)
qed

lemma length_remove_route:
  "distinct (map fst m) \<Longrightarrow> k \<in> fst ` set m \<Longrightarrow> Suc (length (remove_route k m)) = length m"
proof (induction m)
  case (Cons x m)
  show ?case
  proof (cases "fst x = k")
    case True
    then have "remove_route k m = m" using Cons.prems by (auto simp: remove_route_def filter_id_conv image_iff)
    then show ?thesis using True by (simp add: remove_route_def)
  next
    case False
    then show ?thesis using Cons by (auto simp: remove_route_def)
  qed
qed simp

lemma evict_route_cases:
  assumes "distinct (map fst m)"
  obtains (none) "evict_route P m = m" "filter (P \<circ> fst) m = []"
  | (one) Q where "evict_route P m = filter Q m" "Suc (length (filter Q m)) = length m"
      "Suc (length (filter (P \<circ> fst) (filter Q m))) = length (filter (P \<circ> fst) m)"
proof (cases "filter (P \<circ> fst) m = []")
  case True
  then show ?thesis using none by (simp add: evict_route_def)
next
  case False
  define k where "k = fst (arg_min_list (hint_expires \<circ> snd) (filter (P \<circ> fst) m))"
  have k: "k \<in> fst ` set (filter (P \<circ> fst) m)" using arg_min_list_in [OF False] by (auto simp: k_def)
  then have "k \<in> fst ` set m" by auto
  moreover have "filter (P \<circ> fst) (remove_route k m) = remove_route k (filter (P \<circ> fst) m)"
    by (simp add: remove_route_def conj_commute)
  ultimately show ?thesis
    using one [of "\<lambda>x. fst x \<noteq> k"] length_remove_route [OF assms] length_remove_route [OF _ k] assms False
    by (simp add: evict_route_def k_def remove_route_def distinct_map_filter)
qed

lemma make_room_room:
  assumes "hints_ok m"
  shows "\<exists>Q. make_room p m = filter Q m \<and> length (make_room p m) < MAX_MEASUREMENT_ROUTES
    \<and> length (filter (\<lambda>x. fst (fst x) = p) (make_room p m)) < MAX_ROUTES_PER_PEER"
proof -
  let ?mine = "filter (\<lambda>x. fst (fst x) = p)"
  define n where "n = (if length (?mine m) \<ge> MAX_ROUTES_PER_PEER then evict_route (\<lambda>k. fst k = p) m else m)"
  have d: "distinct (map fst m)" and few: "length (?mine m) \<le> MAX_ROUTES_PER_PEER" "length m \<le> MAX_MEASUREMENT_ROUTES"
    using assms by (auto simp: hints_ok_def)
  have n: "(\<exists>Q. n = filter Q m) \<and> length (?mine n) < MAX_ROUTES_PER_PEER"
  proof (cases "length (?mine m) \<ge> MAX_ROUTES_PER_PEER")
    case True
    consider (none) "?mine m = []"
      | (one) Q where "evict_route (\<lambda>k. fst k = p) m = filter Q m" "Suc (length (?mine (filter Q m))) = length (?mine m)"
      using evict_route_cases [OF d, of "\<lambda>k. fst k = p"] by (metis (no_types, lifting) comp_def filter_cong)
    then show ?thesis
    proof cases
      case none
      then show ?thesis using True by (simp add: MAX_ROUTES_PER_PEER_def)
    next
      case (one Q)
      then show ?thesis using True few(1) by (auto simp: n_def simp del: filter_filter)
    qed
  next
    case False
    then show ?thesis by (auto simp: n_def intro: exI [of _ "\<lambda>_. True"])
  qed
  then obtain Q where Q: "n = filter Q m" by blast
  have dn: "distinct (map fst n)" using d by (simp add: Q distinct_map_filter)
  have small: "length n \<le> MAX_MEASUREMENT_ROUTES" using few(2) unfolding Q by (meson le_trans length_filter_le)
  have room: "make_room p m = (if length n \<ge> MAX_MEASUREMENT_ROUTES then evict_route (\<lambda>_. True) n else n)"
    by (simp add: make_room_def n_def Let_def)
  show ?thesis
  proof (cases "length n \<ge> MAX_MEASUREMENT_ROUTES")
    case True
    consider (none) "n = []" | (one) R where "evict_route (\<lambda>_. True) n = filter R n" "Suc (length (filter R n)) = length n"
      by (rule evict_route_cases [OF dn, of "\<lambda>_. True"]) (auto simp: comp_def)
    then show ?thesis
    proof cases
      case none
      then show ?thesis using True by (simp add: MAX_MEASUREMENT_ROUTES_def)
    next
      case (one R)
      moreover have "length (?mine (filter R n)) \<le> length (?mine n)" by (rule length_filter_filter)
      ultimately have "length (filter R n) < MAX_MEASUREMENT_ROUTES" "length (?mine (filter R n)) < MAX_ROUTES_PER_PEER"
        using small n by simp_all
      moreover have "filter R n = filter (\<lambda>x. Q x \<and> R x) m" by (simp add: Q)
      moreover have "make_room p m = filter R n" using True one room by simp
      ultimately show ?thesis by metis
    qed
  next
    case False
    then show ?thesis using n room by auto
  qed
qed

lemma hints_ok_put:
  assumes "hints_ok m" and "k \<notin> fst ` set m \<Longrightarrow> length m < MAX_MEASUREMENT_ROUTES \<and> length (filter (\<lambda>x. fst (fst x) = fst k) m) < MAX_ROUTES_PER_PEER"
  shows "hints_ok (put_route k h m)"
proof (cases "k \<in> fst ` set m")
  case True
  then have put: "put_route k h m = map (\<lambda>x. if fst x = k then (k, h) else x) m" by (simp add: put_route_def)
  have "map fst (put_route k h m) = map fst m" by (auto simp: put)
  moreover have "length (put_route k h m) = length m" by (simp add: put)
  moreover have "length (filter (\<lambda>x. fst (fst x) = p) (put_route k h m)) = length (filter (\<lambda>x. fst (fst x) = p) m)" for p
    unfolding put by (induction m) auto
  ultimately show ?thesis using assms(1) by (simp add: hints_ok_def)
next
  case False
  then have put: "put_route k h m = m @ [(k, h)]" by (simp add: put_route_def)
  have "length (filter (\<lambda>x. fst (fst x) = p) (m @ [(k, h)])) \<le> MAX_ROUTES_PER_PEER" for p
    using assms False by (cases "p = fst k") (simp_all add: hints_ok_def)
  then show ?thesis unfolding put using assms False by (simp add: hints_ok_def)
qed

lemma hints_ok_record: "hints_ok m \<Longrightarrow> hints_ok (record_received S g now p ep obs ex route b m)"
proof -
  assume "hints_ok m"
  then have m: "hints_ok (sweep S g now m)" by (simp add: sweep_def hints_ok_filter)
  moreover have "hints_ok (put_route (p, a) h (make_room p n))" if "hints_ok n" for a h n
  proof (rule hints_ok_put)
    show "hints_ok (make_room p n)" using make_room_room [OF that, of p] hints_ok_filter [OF that] by metis
  qed (use make_room_room [OF that, of p] in auto)
  moreover have "hints_ok (put_route k h n)" if "hints_ok n" "k \<in> fst ` set n" for k h n using that hints_ok_put by blast
  ultimately show ?thesis
    by (simp add: record_received_def forget_peer_routes_def remove_route_def hints_ok_filter Let_def split: option.split)
qed

lemma hints_ok_forget: "hints_ok m \<Longrightarrow> hints_ok (forget_peer_routes p obs m)"
  by (simp add: forget_peer_routes_def hints_ok_filter)

section \<open>What is held is the latest or superseded\<close>

definition event_ok :: "messenger \<Rightarrow> discovery_event \<Rightarrow> bool" where
  "event_ok M ev \<longleftrightarrow> rv_id (ev_revision ev) < next_rev M
   \<and> (rv_id (ev_revision ev) \<notin> superseded M \<longrightarrow>
        pending M (ev_peer ev) = Some (ev_revision ev) \<and> ev_number ev = seen M (ev_peer ev))"

definition revisions_ok :: "messenger \<Rightarrow> bool" where
  "revisions_ok M \<longleftrightarrow>
     (\<forall>p r. pending M p = Some r \<longrightarrow> rv_received r \<le> m_now M \<and> rv_id r < next_rev M) \<and> (\<forall>x\<in>superseded M. x < next_rev M)"

definition delivery_log_ok :: "(node_id \<Rightarrow> nat) \<Rightarrow> discovery_event list \<Rightarrow> bool" where
  "delivery_log_ok latest es \<longleftrightarrow> (\<forall>ev\<in>set es. ev_number ev \<le> latest (ev_peer ev))
   \<and> sorted_wrt (\<lambda>a b. ev_peer a = ev_peer b \<longrightarrow> ev_number a \<le> ev_number b) es"

definition messenger_ok :: "messenger \<Rightarrow> bool" where
  "messenger_ok M \<longleftrightarrow> ifs_reachable (m_ifs M) \<and> hints_ok (hints M) \<and> (\<forall>ev\<in>held M. event_ok M ev) \<and> revisions_ok M
   \<and> delivery_log_ok (seen M) (delivered M)"

lemma held_loop_update:
  assumes "i < length (loops M)" and "loop_events l \<subseteq> loop_events (loops M ! i) \<union> X"
  shows "held (M\<lparr>loops := (loops M)[i := l]\<rparr>) \<subseteq> held M \<union> X"
proof -
  have "set ((loops M)[i := l]) \<subseteq> insert l (set (loops M))" by (rule set_update_subset_insert)
  moreover have "loops M ! i \<in> set (loops M)" using assms(1) by simp
  ultimately show ?thesis using assms(2) by (fastforce simp: held_def)
qed

text \<open>A step that neither admits an event nor moves the clock back keeps the invariant.\<close>

lemma messenger_ok_shrink:
  assumes "messenger_ok M" and "held M' \<subseteq> held M" and "pending M' = pending M" and "superseded M' = superseded M"
    and "next_rev M' = next_rev M" and "seen M' = seen M" and "delivered M' = delivered M" and "m_now M \<le> m_now M'"
    and "ifs_reachable (m_ifs M')" and "hints_ok (hints M')"
  shows "messenger_ok M'"
  using assms by (fastforce simp: messenger_ok_def event_ok_def revisions_ok_def)

lemma messenger_ok_loop:
  assumes "messenger_ok M" and "i < length (loops M)" and "loop_events l \<subseteq> loop_events (loops M ! i)"
  shows "messenger_ok (M\<lparr>loops := (loops M)[i := l]\<rparr>)"
  using assms(1) held_loop_update [OF assms(2), of l "{}"] assms(3)
  by (intro messenger_ok_shrink [OF assms(1)]) (auto simp: messenger_ok_def)

lemma loop_event_held: "i < length (loops M) \<Longrightarrow> ev \<in> loop_events (loops M ! i) \<Longrightarrow> ev \<in> held M"
  by (auto simp: held_def)

lemma messenger_ok_deliver:
  assumes ok: "messenger_ok M" and i: "i < length (loops M)"
  shows "messenger_ok (deliver_event g i M)"
proof (cases "delivering (loops M ! i)")
  case None
  then show ?thesis using ok by (simp add: deliver_event_def)
next
  case (Some ev)
  have N: "messenger_ok (abandon_event i M)"
    unfolding abandon_event_def by (rule messenger_ok_loop [OF ok i]) (auto simp: loop_events_def)
  show ?thesis
  proof (cases "try_commit g ev M \<and> \<not> (msg_ttl (ev_message ev) > 0 \<and> event_expires ev \<le> m_now M)")
    case False
    then show ?thesis using Some N by (auto simp: deliver_event_def Let_def)
  next
    case True
    define h where "h = (if msg_ttl (ev_message ev) = 0 then forget_peer_routes (ev_peer ev) (ev_received ev) (hints M)
      else record_received (cancelled (m_ifs M)) g (m_now M) (ev_peer ev) (msg_measurement_endpoint (ev_message ev))
        (ev_received ev) (event_expires ev) (ev_ingress ev) False (hints M))"
    have D: "deliver_event g i M = (abandon_event i M)\<lparr>hints := h, forwarded := forwarded M @ [ev], delivered := delivered M @ [ev]\<rparr>"
      using Some True by (auto simp: deliver_event_def h_def Let_def)
    have ev: "ev \<in> held M" using Some i by (intro loop_event_held [OF i]) (simp add: loop_events_def)
    then have ev_ok: "event_ok M ev" "ev_number ev = seen M (ev_peer ev)"
      using ok True by (auto simp: messenger_ok_def event_ok_def try_commit_def)
    have "hints_ok h" using ok by (simp add: h_def messenger_ok_def hints_ok_record hints_ok_forget)
    moreover have "held (deliver_event g i M) \<subseteq> insert ev (held M)"
      using held_loop_update [OF i, of "(loops M ! i)\<lparr>delivering := None\<rparr>" "{}"]
      by (auto simp: D held_def abandon_event_def loop_events_def)
    moreover have "delivery_log_ok (seen M) (delivered M @ [ev])"
      using ok ev_ok(2) by (auto simp: messenger_ok_def delivery_log_ok_def sorted_wrt_append)
    ultimately show ?thesis
      using ok ev_ok(1) by (auto simp: messenger_ok_def D event_ok_def revisions_ok_def abandon_event_def)
  qed
qed

lemma observe_revision_cases:
  assumes obs: "observe_revision alive fresh p received admitted pend canc = (pend', canc', rn)"
    and old: "\<And>r. pend p = Some r \<Longrightarrow> rv_received r \<le> received"
  shows "canc' = canc \<union> {rv_id r |r. pend p = Some r \<and> rv_id r \<in> alive}"
    and "rn = (if admitted then Some \<lparr>rv_id = fresh, rv_received = received\<rparr> else None)"
    and "pend' p = rn" and "q \<noteq> p \<Longrightarrow> pend' q = (case pend q of Some r \<Rightarrow> if rv_id r \<in> alive then Some r else None | None \<Rightarrow> None)"
  using obs old by (fastforce simp: observe_revision_def Let_def split: option.splits if_splits)+

lemma messenger_ok_queue:
  assumes ok: "messenger_ok M" and i: "i < length (loops M)" and now: "m_now M \<le> now"
  shows "messenger_ok (queue_peer_state E g now i header buf ingress M)"
proof (cases "peer_state_event E now header buf")
  case None
  then show ?thesis using ok by (simp add: queue_peer_state_def)
next
  case (Some st)
  define p where "p = node_id (msg_node_state st)"
  define received where "received = m_now M"
  define expires where "expires = received + int (unat (ttl header)) * second"
  define slot where "slot \<longleftrightarrow> length (handoff (loops M ! i)) < DISCOVERY_HANDOFF_CAPACITY"
  define admitted where "admitted \<longleftrightarrow> slot \<and> (msg_ttl st = 0 \<or> expires > now)"
  obtain pend canc rn where obs: "observe_revision (alive_revisions M) (next_rev M) p received admitted (pending M) (superseded M) = (pend, canc, rn)"
    by (metis prod_cases3)
  define h where "h = (if msg_ttl st = 0 then forget_peer_routes p received (hints M)
    else record_received (cancelled (m_ifs M)) g now p (msg_measurement_endpoint st) received expires ingress True (hints M))"
  define N where "N = M\<lparr>pending := pend, superseded := canc, seen := (seen M)(p := seen M p + 1), m_now := now, hints := h\<rparr>"
  define ev where "ev = \<lparr>ev_message = st\<lparr>expires_at := Some expires\<rparr>, ev_ingress = ingress, ev_received = received,
    ev_revision = \<lparr>rv_id = next_rev M, rv_received = received\<rparr>, ev_number = seen M p + 1\<rparr>"
  have pend_ok: "\<And>q r. pending M q = Some r \<Longrightarrow> rv_received r \<le> m_now M \<and> rv_id r < next_rev M"
    and canc_ok: "\<forall>x\<in>superseded M. x < next_rev M" and log: "delivery_log_ok (seen M) (delivered M)"
    and held_ok: "\<forall>x\<in>held M. event_ok M x"
    using ok by (auto simp: messenger_ok_def revisions_ok_def)
  have c: "canc = superseded M \<union> {rv_id r |r. pending M p = Some r \<and> rv_id r \<in> alive_revisions M}"
    and rn: "rn = (if admitted then Some \<lparr>rv_id = next_rev M, rv_received = received\<rparr> else None)" and pp: "pend p = rn"
    and pq: "\<And>q. q \<noteq> p \<Longrightarrow> pend q = (case pending M q of Some r \<Rightarrow> if rv_id r \<in> alive_revisions M then Some r else None | None \<Rightarrow> None)"
    using observe_revision_cases [OF obs] pend_ok unfolding received_def by blast+
  have old: "rv_id (ev_revision x) < next_rev M \<and> (rv_id (ev_revision x) \<notin> canc \<longrightarrow>
      ev_peer x \<noteq> p \<and> pend (ev_peer x) = Some (ev_revision x) \<and> ev_number x = seen M (ev_peer x))" if "x \<in> held M" for x
  proof -
    have x: "event_ok M x" "rv_id (ev_revision x) \<in> alive_revisions M"
      using held_ok that by (auto simp: alive_revisions_def)
    show ?thesis
    proof (cases "ev_peer x = p")
      case True
      then show ?thesis using x c by (auto simp: event_ok_def)
    next
      case False
      then show ?thesis using x c pq [OF False] by (auto simp: event_ok_def)
    qed
  qed
  have canc_lt: "\<forall>x\<in>canc. x < next_rev M" using c canc_ok pend_ok by auto
  have pend_lt: "rv_received r \<le> now \<and> rv_id r \<le> next_rev M \<and> (q \<noteq> p \<longrightarrow> rv_id r < next_rev M)" if "pend q = Some r" for q r
    using that pp rn pq [of q] pend_ok [of q] now
    by (cases "q = p") (fastforce simp: received_def split: if_splits option.splits)+
  have hints: "hints_ok h" using ok by (simp add: h_def messenger_ok_def hints_ok_record hints_ok_forget)
  have log': "delivery_log_ok ((seen M)(p := seen M p + 1)) (delivered M)" using log by (fastforce simp: delivery_log_ok_def)
  have Q: "queue_peer_state E g now i header buf ingress M =
      (if admitted then push_event i ev (N\<lparr>next_rev := next_rev M + 1\<rparr>) else N)"
    using Some obs rn
    by (simp add: queue_peer_state_def Let_def N_def h_def ev_def admitted_def slot_def expires_def received_def p_def)
  show ?thesis
  proof (cases admitted)
    case False
    then have "rn = None" using rn by simp
    then show ?thesis unfolding Q using False ok old canc_lt pend_lt hints log' pp
      by (fastforce simp: messenger_ok_def N_def held_def event_ok_def revisions_ok_def)
  next
    case True
    define N' where "N' = N\<lparr>next_rev := next_rev M + 1\<rparr>"
    have i': "i < length (loops N')" using i by (simp add: N'_def N_def)
    have "held (push_event i ev N') \<subseteq> held N' \<union> {ev}"
      unfolding push_event_def by (rule held_loop_update [OF i']) (auto simp: loop_events_def)
    moreover have "held N' = held M" by (simp add: N'_def N_def held_def)
    moreover have "event_ok (push_event i ev N') ev"
      using True pp rn canc_lt by (auto simp: event_ok_def push_event_def N'_def N_def ev_def p_def)
    moreover have "event_ok (push_event i ev N') x" if "x \<in> held M" for x
      using old [OF that] by (auto simp: event_ok_def push_event_def N'_def N_def)
    moreover have "revisions_ok (push_event i ev N')"
      using canc_lt pend_lt by (fastforce simp: revisions_ok_def push_event_def N'_def N_def)
    ultimately show ?thesis unfolding Q using True ok hints log'
      by (auto simp: messenger_ok_def N'_def [symmetric]) (auto simp: N'_def N_def push_event_def)
  qed
qed

lemma messenger_ok_receive:
  assumes "messenger_ok M" and "i < length (loops M)" and "m_now M \<le> now"
  shows "messenger_ok (receive_datagram E g now i owner pk M)"
  using assms messenger_ok_queue [OF assms]
  by (auto simp: receive_datagram_def observe_discovery_def split: sum.split option.split)

lemma messenger_ok_step: "messenger_step E M M' \<Longrightarrow> messenger_ok M \<Longrightarrow> messenger_ok M'"
proof (induction rule: messenger_step.induct)
  case (ms_take i M)
  show ?case
  proof (cases "handoff (loops M ! i)")
    case (Cons ev rest)
    then show ?thesis
      using messenger_ok_loop [OF ms_take.prems ms_take.hyps(1), of "\<lparr>handoff = rest, delivering = Some ev\<rparr>"]
      by (auto simp: take_event_def loop_events_def)
  qed (use ms_take.prems in \<open>simp add: take_event_def\<close>)
next
  case (ms_abandon i M)
  then show ?case unfolding abandon_event_def by (intro messenger_ok_loop) (auto simp: loop_events_def)
next
  case (ms_discard i M)
  then show ?case unfolding discard_loop_def by (intro messenger_ok_loop) (auto simp: loop_events_def)
next
  case (ms_consume M xs ev ys)
  then show ?case by (intro messenger_ok_shrink [OF ms_consume.prems]) (auto simp: messenger_ok_def held_def)
next
  case (ms_interfaces M I)
  then show ?case by (intro messenger_ok_shrink [OF ms_interfaces.prems]) (auto simp: messenger_ok_def held_def intro: ifs_next)
next
  case (ms_scan M now H cur D g r f)
  obtain I f' sp ch where rec: "reconcile_at now H cur D g r (m_ifs M) f = (I, f', sp, ch)"
    by (cases "reconcile_at now H cur D g r (m_ifs M) f") auto
  have "ifs_reachable I"
    using ms_scan ifs_next [OF _ ifs_scan [of "m_ifs M" now H cur D g r f]] rec by (simp add: messenger_ok_def)
  then show ?case using ms_scan
    by (intro messenger_ok_shrink [OF ms_scan]) (auto simp: messenger_ok_def scan_interfaces_def rec held_def loop_events_def)
next
  case (ms_clear M)
  then show ?case by (intro messenger_ok_shrink [OF ms_clear])
    (auto simp: messenger_ok_def discard_queued_datagrams_def held_def hints_ok_def intro: ifs_next ifs_drain)
next
  case (ms_prune M g)
  then show ?case by (intro messenger_ok_shrink [OF ms_prune]) (auto simp: messenger_ok_def held_def sweep_def intro: hints_ok_filter)
next
  case (ms_order m M)
  then show ?case by (intro messenger_ok_shrink [OF ms_order.prems]) (auto simp: messenger_ok_def held_def intro: hints_ok_order)
next
  case (ms_topology M g)
  then show ?case by (intro messenger_ok_shrink [OF ms_topology.prems]) (auto simp: messenger_ok_def held_def)
next
  case (ms_tick M now)
  then show ?case by (intro messenger_ok_shrink [OF ms_tick.prems]) (auto simp: messenger_ok_def held_def)
next
  case (ms_set_state M st b grp)
  then show ?case by (intro messenger_ok_shrink [OF ms_set_state]) (auto simp: messenger_ok_def held_def)
qed (auto intro: messenger_ok_receive messenger_ok_deliver)

lemma messenger_ok_new: "messenger_ok (new_messenger H scanned g D st now)"
  by (auto simp: messenger_ok_def new_messenger_def Let_def held_def loop_events_def hints_ok_def revisions_ok_def delivery_log_ok_def
      intro: ifs_new)

lemma messenger_reachable_ok: "messenger_reachable E M \<Longrightarrow> messenger_ok M"
  by (induction rule: messenger_reachable.induct) (auto intro: messenger_ok_new messenger_ok_step)

section \<open>What one peer announces the other hears\<close>

definition wire_state :: "ext \<Rightarrow> peer_state \<Rightarrow> bool" where
  "wire_state E st \<longleftrightarrow> length (node_id (node_state st)) = 8 \<and> (\<forall>e\<in>set (payload_of_peer st). wire_entry E e)"

text \<open>The states that can be announced, and what the peer reads: the times and the beat period in whole microseconds.\<close>

definition sendable_state :: "ext \<Rightarrow> peer_state \<Rightarrow> bool" where
  "sendable_state E st \<longleftrightarrow> length (node_id (node_state st)) = 8 \<and> (\<forall>e\<in>set (payload_of_peer st). sendable_entry E e)"

definition received_node :: "ext \<Rightarrow> node_state \<Rightarrow> node_state" where
  "received_node E n = n\<lparr>timeline := received_timeline E (timeline n), start_stop_state := received_start_stop (start_stop_state n)\<rparr>"

definition received_state :: "ext \<Rightarrow> peer_state \<Rightarrow> peer_state" where
  "received_state E st = st\<lparr>node_state := received_node E (node_state st)\<rparr>"

lemma payload_of_received: "payload_of_peer (received_state E st) = map (received_entry E) (payload_of_peer st)"
  by (simp add: payload_of_peer_def payload_of_node_def received_state_def received_node_def Let_def)

lemma received_state_wire:
  assumes "sendable_state E st"
  shows "wire_state E (received_state E st)"
  using assms received_entry_wire(1)
  by (auto simp: wire_state_def sendable_state_def payload_of_received) (simp add: received_state_def received_node_def)

lemma payload_of_peer_read:
  "first_measurement_endpoint (payload_of_peer st) = measurement_endpoint st"
  "first_audio_endpoint (payload_of_peer st) = audio_endpoint st"
  "from_payload (node_id (node_state st)) (payload_of_peer st) = node_state st"
  by (cases "measurement_endpoint st"; cases "audio_endpoint st";
      simp add: payload_of_peer_def payload_of_node_def from_payload_def Let_def)+

lemma payload_of_peer_small:
  assumes "wire_state E st"
  shows "20 + length (concat (map entry_image (payload_of_peer st))) \<le> MAX_MESSAGE_SIZE" and "32 * length (payload_of_peer st) < 2 ^ 32"
proof -
  have entries: "\<forall>e\<in>set (payload_of_peer st). wire_entry E e" using assms by (simp add: wire_state_def)
  have "length (concat (map entry_image es)) \<le> 32 * length es" if "\<forall>e\<in>set es. wire_entry E e" for es
    using that
  proof (induction es)
    case (Cons e es)
    then show ?case using entry_len_image [of E e] entry_len_le [of e] by simp
  qed simp
  moreover have "length (payload_of_peer st) \<le> 5" by (auto simp: payload_of_peer_def payload_of_node_def Let_def)
  ultimately show "20 + length (concat (map entry_image (payload_of_peer st))) \<le> MAX_MESSAGE_SIZE"
    and "32 * length (payload_of_peer st) < 2 ^ 32"
    using entries by fastforce+
qed

lemma announced_message:
  assumes "sendable_state E (announced_state local_addr reg st)" and "unat kind < 4"
  obtains m where "state_message E local_addr reg t kind grp st = Inr m" and "\<not> starts_with m LINK_HEADER"
    and "parse_message_header m = Inr (\<lparr>message_type = kind, ttl = t, group_id = grp, ident = node_id (node_state st)\<rparr>, 20)"
    and "parse_payload E (drop 20 m) = Inr (payload_of_peer (received_state E (announced_state local_addr reg st)))"
proof -
  let ?a = "received_state E (announced_state local_addr reg st)"
  let ?h = "\<lparr>message_type = kind, ttl = t, group_id = grp, ident = node_id (node_state st)\<rparr>"
  let ?m = "PROTOCOL_HEADER @ message_image ?h @ concat (map entry_image (payload_of_peer ?a))"
  have same: "node_id (node_state ?a) = node_id (node_state st)"
    by (auto simp: announced_state_def advertise_endpoint_for_def received_state_def received_node_def Let_def split: option.splits)
  have w: "wire_state E ?a" using received_state_wire [OF assms(1)] .
  have id: "length (node_id (node_state st)) = 8" and entries: "\<forall>e\<in>set (payload_of_peer ?a). wire_entry E e"
    using w same by (simp_all add: wire_state_def)
  have len: "length (message_image ?h) = 12" using message_headerc.size_image id by simp
  have "\<forall>e\<in>set (payload_of_peer (announced_state local_addr reg st)). sendable_entry E e" using assms(1) by (simp add: sendable_state_def)
  note sent = encode_message_received [OF this, folded payload_of_received]
  have "state_message E local_addr reg t kind grp st = Inr ?m"
    unfolding state_message_def sent using encode_message_image [OF entries id payload_of_peer_small [OF w]] by simp
  moreover have "\<not> starts_with ?m LINK_HEADER" by (simp add: starts_with_def PROTOCOL_HEADER_def LINK_HEADER_def)
  moreover have "parse_message_header ?m = Inr (?h, 20)" using parse_message_image [of ?h] id assms(2) by simp
  moreover have "parse_payload E (drop 20 ?m) = Inr (payload_of_peer ?a)"
    using payload_decode_images [OF entries, of "[]" "[]"] len by (simp add: parse_payload_def)
  ultimately show ?thesis by (rule that)
qed

lemma queue_admits:
  assumes ok: "messenger_ok M" and i: "i < length (loops M)" and st: "peer_state_event E now header buf = Some st"
    and room: "length (handoff (loops M ! i)) < DISCOVERY_HANDOFF_CAPACITY"
    and live: "msg_ttl st = 0 \<or> m_now M + int (unat (ttl header)) * second > now"
  shows "\<exists>ev. handoff (loops (queue_peer_state E g now i header buf ingress M) ! i) = handoff (loops M ! i) @ [ev]
    \<and> ev_message ev = st\<lparr>expires_at := Some (m_now M + int (unat (ttl header)) * second)\<rparr> \<and> ev_ingress ev = ingress"
proof -
  let ?p = "node_id (msg_node_state st)"
  obtain pend canc rn where obs: "observe_revision (alive_revisions M) (next_rev M) ?p (m_now M) True (pending M) (superseded M) = (pend, canc, rn)"
    by (metis prod_cases3)
  have "rn = Some \<lparr>rv_id = next_rev M, rv_received = m_now M\<rparr>"
    using observe_revision_cases(2) [OF obs] ok by (auto simp: messenger_ok_def revisions_ok_def)
  then show ?thesis using obs st room live i
    by (simp add: queue_peer_state_def push_event_def Let_def)
qed

section \<open>Properties of the messenger\<close>

text \<open>C8: The newest announcement wins, whichever interface it comes in by. In every reachable state an event that is still
  queued, being delivered or with the gateway can be committed only if no later message of its peer has been observed, its
  socket is still registered and no change of the topology has been noticed since; and the events of one peer are
  delivered to the gateway in the order in which they were received.\<close>

theorem newest_announcement_wins:
  assumes "messenger_reachable E M"
  shows "(\<forall>ev\<in>held M. try_commit g ev M \<longrightarrow>
            ev_number ev = seen M (ev_peer ev) \<and> g = Some (lease_generation (ev_ingress ev))
          \<and> (\<exists>e\<in>set (regs (m_ifs M)). sock e = sock (ev_ingress ev)))
       \<and> sorted_wrt (\<lambda>a b. ev_peer a = ev_peer b \<longrightarrow> ev_number a \<le> ev_number b) (delivered M)"
proof -
  have ok: "messenger_ok M" using assms by (rule messenger_reachable_ok)
  then have ifs: "interfaces_ok (m_ifs M)" by (simp add: messenger_ok_def ifs_reachable_ok)
  have "ev_number ev = seen M (ev_peer ev) \<and> g = Some (lease_generation (ev_ingress ev))
      \<and> (\<exists>e\<in>set (regs (m_ifs M)). sock e = sock (ev_ingress ev))" if "ev \<in> held M" "try_commit g ev M" for ev
    using that ok registered_iff [OF ifs]
    by (auto simp: try_commit_def while_current_def is_current_def messenger_ok_def event_ok_def split: if_splits)
  then show ?thesis using ok by (simp add: messenger_ok_def delivery_log_ok_def)
qed

definition sample_peer :: peer_state where
  "sample_peer = \<lparr>node_state = \<lparr>node_id = replicate 8 7, session_id = replicate 8 7,
     timeline = \<lparr>tempo = Tempo (Fin 127), beat_origin = Beats 9, time_origin = 4321\<rparr>,
     start_stop_state = default_start_stop\<rparr>, measurement_endpoint = None, audio_endpoint = None\<rparr>"

definition sample_messenger :: messenger where
  "sample_messenger = (new_messenger (sound_host 0) (Some [wired]) 0 default_identity (sample_peer\<lparr>node_state := (node_state sample_peer)\<lparr>node_id := replicate 8 1\<rparr>\<rparr>) 0)
     \<lparr>m_enabled := True\<rparr>"

definition wired_socket :: iface_socket where
  "wired_socket = \<lparr>sock = 0, if_identity = wired, lease_generation = 0, measurement_responder = False, local_delivery = default_identity\<rparr>"

lemma sample_messenger_simps [simp]:
  "regs (m_ifs sample_messenger) = [wired_socket]" "cancelled (m_ifs sample_messenger) = {}"
  "if_map (m_ifs sample_messenger) = [(if_addr wired, wired_socket, [])]"
  "length (loops sample_messenger) = 2" "handoff (loops sample_messenger ! 0) = []" "m_enabled sample_messenger" "m_now sample_messenger = 0"
  "superseded sample_messenger = {}" "pending sample_messenger = Map.empty" "topo sample_messenger = 0" "m_group sample_messenger = 0"
  "node_id (node_state (m_state sample_messenger)) = replicate 8 1"
  by (simp_all add: sample_messenger_def new_messenger_def interface_defs wired_socket_def)

lemma sample_messenger_reachable: "messenger_reachable E sample_messenger"
proof -
  let ?M = "new_messenger (sound_host 0) (Some [wired]) 0 default_identity (sample_peer\<lparr>node_state := (node_state sample_peer)\<lparr>node_id := replicate 8 1\<rparr>\<rparr>) 0"
  have "sample_messenger = ?M\<lparr>m_state := m_state ?M, m_enabled := True, m_group := m_group ?M\<rparr>"
    by (simp add: sample_messenger_def)
  then show ?thesis using mr_step [OF mr_new ms_set_state] by metis
qed

lemma sample_peer_sendable: "announced_state None None sample_peer = sample_peer" "sendable_state std_ext sample_peer"
proof -
  have "sendable_time std_ext 4321" "sendable_time std_ext 0"
    by (simp_all add: sendable_time_def valid_dur_iff signed_divide_int_def in_i64_def)
  moreover have "sendable_tempo std_ext (Tempo (Fin 127))" by (rule sendable_tempo_clamped) simp_all
  ultimately show "sendable_state std_ext sample_peer"
    by (simp add: sendable_state_def sample_peer_def payload_of_peer_def payload_of_node_def sendable_timeline_def default_start_stop_def)
qed (simp add: announced_state_def advertise_endpoint_for_def sample_peer_def)

lemma sample_route:
  "route_of (m_ifs sample_messenger) (Some 0) None Invalidated \<lparr>pk_bytes = m, pk_index = 2, pk_dst = IpV4 0, pk_src = IpV4 0, pk_port = 0\<rparr>
     = Inr (Some wired_socket)"
  by (simp add: route_of_def socket_for_ingress_def is_current_def wired_socket_def) (simp add: wired_def)

lemma queue_first:
  assumes "pending M = Map.empty"
  shows "m_ifs (queue_peer_state E g now i header buf ingress M) = m_ifs M"
    and "superseded (queue_peer_state E g now i header buf ingress M) = superseded M"
  using assms by (auto simp: queue_peer_state_def push_event_def observe_revision_def Let_def split: option.split)

theorem newest_announcement_wins_witness:
  "\<exists>M ev. ev \<in> held M \<and> try_commit (Some 0) ev M \<and> ev_number ev = seen M (ev_peer ev)"
proof -
  have kind: "unat ALIVE < 4" by (simp add: ALIVE_def)
  obtain m where m: "\<not> starts_with m LINK_HEADER"
      "parse_message_header m = Inr (\<lparr>message_type = ALIVE, ttl = 5, group_id = 0, ident = node_id (node_state sample_peer)\<rparr>, 20)"
      "parse_payload std_ext (drop 20 m) = Inr (payload_of_peer (received_state std_ext sample_peer))"
    using announced_message [of std_ext None None sample_peer ALIVE 5 0] sample_peer_sendable kind by (metis (no_types))
  let ?h = "\<lparr>message_type = ALIVE, ttl = 5, group_id = 0, ident = node_id (node_state sample_peer)\<rparr>"
  let ?pk = "\<lparr>pk_bytes = m, pk_index = 2, pk_dst = IpV4 0, pk_src = IpV4 0, pk_port = 0\<rparr>"
  define M where "M = receive_datagram std_ext (Some 0) 0 0 None ?pk sample_messenger"
  have M: "M = queue_peer_state std_ext (Some 0) 0 0 ?h (drop 20 m) wired_socket sample_messenger"
    using m unfolding M_def receive_datagram_def sample_route by (simp add: observe_discovery_def ALIVE_def BYEBYE_def sample_peer_def)
  have reach: "messenger_reachable std_ext M"
    unfolding M_def by (rule mr_step [OF sample_messenger_reachable ms_receive]) simp_all
  obtain msg where "peer_state_event std_ext 0 ?h (drop 20 m) = Some msg" "msg_ttl msg = 5" using m(3) by (simp add: peer_state_event_def)
  from queue_admits [OF messenger_reachable_ok [OF sample_messenger_reachable] _ this(1), of 0 "Some 0" wired_socket] this(2)
  obtain ev where ev: "handoff (loops M ! 0) = [ev]" "ev_ingress ev = wired_socket" by (auto simp: M)
  have "length (loops M) = 2" using ev(1) by (simp add: M queue_peer_state_def push_event_def Let_def split: option.split prod.split)
  then have "ev \<in> held M" using ev(1) by (intro loop_event_held [of 0]) (simp_all add: loop_events_def)
  moreover have "try_commit (Some 0) ev M"
    using queue_first [of sample_messenger] ev(2)
    by (simp add: try_commit_def M while_current_def registered_def is_current_def) (simp add: wired_socket_def)
  ultimately show ?thesis using newest_announcement_wins [OF reach, of "Some 0"] by blast
qed

text \<open>C27: The cache of measurement routes is bounded: in every reachable state it has at most 1024 routes, at most sixteen of
  one peer and one for each endpoint, and a route is resolved only while it has not expired, its socket is not cancelled
  and its generation is the present one.\<close>

theorem route_cache_bounded:
  assumes "messenger_reachable E M"
  shows "length (hints M) \<le> 1024 \<and> length (filter (\<lambda>x. fst (fst x) = p) (hints M)) \<le> 16 \<and> distinct (map fst (hints M))
       \<and> (\<forall>e. fst (resolve (cancelled (m_ifs M)) g now st (hints M)) = Some e \<longrightarrow>
            sock e \<notin> cancelled (m_ifs M) \<and> g = Some (lease_generation e)
          \<and> (\<exists>x\<in>set (hints M). fst (fst x) = node_id (node_state st) \<and> hint_expires (snd x) > now \<and> hint_route (snd x) = e))"
proof -
  have "hints_ok (hints M)" using messenger_reachable_ok [OF assms] by (simp add: messenger_ok_def)
  then have "length (hints M) \<le> 1024" "length (filter (\<lambda>x. fst (fst x) = p) (hints M)) \<le> 16" "distinct (map fst (hints M))"
    by (auto simp: hints_ok_def MAX_MEASUREMENT_ROUTES_def MAX_ROUTES_PER_PEER_def)
  moreover have "sock e \<notin> cancelled (m_ifs M) \<and> g = Some (lease_generation e)
      \<and> (\<exists>x\<in>set (hints M). fst (fst x) = node_id (node_state st) \<and> hint_expires (snd x) > now \<and> hint_route (snd x) = e)"
    if res: "fst (resolve (cancelled (m_ifs M)) g now st (hints M)) = Some e" for e
  proof -
    obtain ep h where h: "map_of (sweep (cancelled (m_ifs M)) g now (hints M)) (node_id (node_state st), ep) = Some h" "e = hint_route h"
      using res by (auto simp: resolve_def Let_def split: option.splits)
    from map_of_SomeD [OF h(1)] show ?thesis
      unfolding h(2) by (auto simp: sweep_def current_in_snapshot_def intro!: bexI [of _ "((node_id (node_state st), ep), h)"])
  qed
  ultimately show ?thesis by blast
qed

theorem route_cache_bounded_witness: "length (hints sample_messenger) \<le> 1024"
  using route_cache_bounded [OF sample_messenger_reachable [of std_ext], of "[]" "Some 0" 0 sample_peer] by blast

text \<open>C24: Discovery works between two peers. Every announced state is encoded whose beat lasts between one and \<open>2 ^ 40\<close>
  microseconds, whose times fit an \<open>i64\<close> in microseconds and whose endpoints are not zero. The other messenger, when it is
  enabled, has room in the queue of the loop that receives the message and the time to live has not passed before the
  message is queued, queues an event with the announced state, in which the beat period and the times are rounded to whole
  microseconds as the wire carries them, its endpoints and its time to live, owned by the interface it came in by; it answers
  an announcement with a response and answers nothing to a response, so that the exchange ends.\<close>

theorem announcement_reaches_peer:
  assumes "messenger_reachable E M" and "i < length (loops M)" and "m_enabled M" and "m_now M \<le> now"
    and "now < m_now M + int (unat t) * second" and "length (handoff (loops M ! i)) < DISCOVERY_HANDOFF_CAPACITY"
    and "node_id (node_state st) \<noteq> node_id (node_state (m_state M))"
    and "sendable_state E (announced_state local_addr reg st)" and "kind = ALIVE \<or> kind = RESPONSE"
  shows "\<exists>m ev. state_message E local_addr reg t kind grp st = Inr m
       \<and> handoff (loops (observe_discovery E g now i m (Some e) M) ! i) = handoff (loops M ! i) @ [ev]
       \<and> msg_node_state (ev_message ev) = received_node E (node_state st) \<and> msg_ttl (ev_message ev) = t \<and> ev_ingress ev = e
       \<and> period_micros (tempo (timeline (msg_node_state (ev_message ev)))) = period_micros (tempo (timeline (node_state st)))
       \<and> msg_measurement_endpoint (ev_message ev) = measurement_endpoint (announced_state local_addr reg st)
       \<and> msg_audio_endpoint (ev_message ev) = audio_endpoint st
       \<and> snd (receive_reaction E responder now owner \<lparr>pk_bytes = m, pk_index = x, pk_dst = dst, pk_src = IpV4 src, pk_port = port\<rparr>
               (Some e) (Some (node_id (node_state (m_state M)))) True (m_group M)) = (if kind = ALIVE then SendResponse else NoReaction)"
proof -
  let ?a = "announced_state local_addr reg st"
  let ?h = "\<lparr>message_type = kind, ttl = t, group_id = grp, ident = node_id (node_state st)\<rparr>"
  have kind: "unat kind < 4" "kind \<noteq> BYEBYE" using assms(9) by (auto simp: ALIVE_def RESPONSE_def BYEBYE_def)
  have same: "node_state ?a = node_state st" "audio_endpoint ?a = audio_endpoint st"
    by (auto simp: announced_state_def advertise_endpoint_for_def Let_def split: option.splits)
  have "sendable_timeline E (timeline (node_state st))"
    using assms(8) same by (auto simp: sendable_state_def payload_of_peer_def payload_of_node_def Let_def split: if_splits)
  then have "sendable_tempo E (tempo (timeline (node_state st)))" by (simp add: sendable_timeline_def)
  note period = received_tempo_wire(2) [OF this]
  have read: "first_measurement_endpoint (payload_of_peer (received_state E ?a)) = measurement_endpoint ?a"
    "first_audio_endpoint (payload_of_peer (received_state E ?a)) = audio_endpoint st"
    "from_payload (node_id (node_state st)) (payload_of_peer (received_state E ?a)) = received_node E (node_state st)"
    using payload_of_peer_read [of "received_state E ?a"] same by (simp_all add: received_state_def received_node_def)
  obtain m where m: "state_message E local_addr reg t kind grp st = Inr m" "\<not> starts_with m LINK_HEADER"
      "parse_message_header m = Inr (?h, 20)" "parse_payload E (drop 20 m) = Inr (payload_of_peer (received_state E ?a))"
    using announced_message [OF assms(8) kind(1)] .
  obtain msg where msg: "peer_state_event E now ?h (drop 20 m) = Some msg" and fields: "msg_node_state msg = received_node E (node_state st)"
      "msg_ttl msg = t" "msg_measurement_endpoint msg = measurement_endpoint ?a" "msg_audio_endpoint msg = audio_endpoint st"
    using m(4) read by (simp add: peer_state_event_def)
  obtain ev where ev: "handoff (loops (queue_peer_state E g now i ?h (drop 20 m) e M) ! i) = handoff (loops M ! i) @ [ev]"
      "ev_message ev = msg\<lparr>expires_at := Some (m_now M + int (unat t) * second)\<rparr>" "ev_ingress ev = e"
    using queue_admits [OF messenger_reachable_ok [OF assms(1)] assms(2) msg assms(6)] assms(5) by auto
  have "observe_discovery E g now i m (Some e) M = queue_peer_state E g now i ?h (drop 20 m) e M"
    using m kind assms(3,7,9) by (auto simp: observe_discovery_def)
  moreover have "snd (receive_reaction E responder now owner \<lparr>pk_bytes = m, pk_index = x, pk_dst = dst, pk_src = IpV4 src, pk_port = port\<rparr>
      (Some e) (Some (node_id (node_state (m_state M)))) True (m_group M)) = (if kind = ALIVE then SendResponse else NoReaction)"
    using m assms(7) by (simp add: receive_reaction_def)
  moreover have "period_micros (tempo (timeline (received_node E (node_state st)))) = period_micros (tempo (timeline (node_state st)))"
    using period by (simp add: received_node_def received_timeline_def)
  ultimately show ?thesis using m(1) ev fields by auto
qed

theorem announcement_reaches_peer_witness:
  "\<exists>m ev. state_message std_ext None None 2 ALIVE 0 sample_peer = Inr m
     \<and> handoff (loops (observe_discovery std_ext (Some 0) 0 0 m (Some wired_socket) sample_messenger) ! 0) = [ev]
     \<and> msg_node_state (ev_message ev) = received_node std_ext (node_state sample_peer)"
  using announcement_reaches_peer [OF sample_messenger_reachable [of std_ext], of 0 0 2 sample_peer None None ALIVE 0 "Some 0" wired_socket]
  by (simp add: sample_peer_sendable) (fastforce simp: sample_peer_def)

text \<open>What is not meant for the registry leaves no trace: a datagram without an interface, one of the measurement protocol,
  a malformed one, one of an unknown type, one of our own, and while disabled every one that is not a goodbye changes
  nothing in the messenger.\<close>

theorem unwanted_datagrams_ignored:
  assumes "route = None \<or> starts_with data LINK_HEADER \<or> (\<exists>err. parse_message_header data = Inl err)
    \<or> (\<exists>h n. parse_message_header data = Inr (h, n)
          \<and> (message_type h \<notin> {ALIVE, RESPONSE, BYEBYE} \<or> ident h = node_id (node_state (m_state M)) \<and> group_id h = m_group M
           \<or> message_type h \<noteq> BYEBYE \<and> (\<not> m_enabled M \<or> (\<exists>err. parse_payload E (drop n data) = Inl err))))"
  shows "observe_discovery E g now i data route M = M"
  using assms by (auto simp: observe_discovery_def queue_peer_state_def peer_state_event_def split: option.split)

theorem unwanted_datagrams_ignored_witness: "observe_discovery std_ext (Some 0) 0 0 [] (Some wired_socket) sample_messenger = sample_messenger"
  by (rule unwanted_datagrams_ignored) (simp add: parse_message_header_def)

text \<open>The pace of the broadcasts: an announcement is made exactly when Link is enabled and the last message was sent at
  least 50 milliseconds ago; a turn that comes too early sleeps for just the rest of that time, after which the next turn
  announces; and no turn sleeps for longer than 50 milliseconds or the nominal period, nor not at all.\<close>

theorem broadcast_pace:
  assumes "l \<le> now" and "unat ratio \<le> unat t * 1000" and "ratio \<noteq> 0"
  shows "(snd (broadcast_turn t ratio (Some l) now on) \<longleftrightarrow> on \<and> now - l \<ge> 50 * millisecond)
       \<and> (now - l < 50 * millisecond \<longrightarrow> snd (broadcast_turn t ratio (Some l) (now + fst (broadcast_turn t ratio (Some l) now on)) True)
            \<and> fst (broadcast_turn t ratio (Some l) now on) \<le> 50 * millisecond)
       \<and> (now - l \<ge> 50 * millisecond \<longrightarrow> fst (broadcast_turn t ratio (Some l) now on) = int (unat t * 1000 div unat ratio) * millisecond)
       \<and> fst (broadcast_turn t ratio (Some l) now on) > 0"
proof -
  have nominal: "unat t * 1000 div unat ratio > 0" using assms(2,3) by (simp add: div_greater_zero_iff unat_gt_0)
  define since where "since = (now - l) div millisecond"
  have since: "since * millisecond \<le> now - l" "now - l < (since + 1) * millisecond" "0 \<le> since"
    using assms(1) unfolding since_def by (simp_all add: algebra_simps)
  show ?thesis
  proof (cases "now - l \<ge> 50 * millisecond")
    case True
    then have "since \<ge> 50" using zdiv_mono1 [OF True, of millisecond] by (simp add: since_def)
    then show ?thesis using True assms(1) nominal by (auto simp: broadcast_turn_def Let_def since_def [symmetric])
  next
    case False
    then have "since * millisecond < 50 * millisecond" using since(1) by linarith
    then have "since < 50" by simp
    moreover have "(now + (50 - since) * millisecond - l) div millisecond = 50"
    proof -
      have "now + (50 - since) * millisecond - l = (now - l) + (50 - since) * millisecond" by simp
      then show ?thesis by (simp add: since_def)
    qed
    ultimately show ?thesis using False assms(1) since(3) by (auto simp: broadcast_turn_def Let_def since_def [symmetric])
  qed
qed

theorem broadcast_pace_witness: "snd (broadcast_turn 2 20 (Some 0) (100 * millisecond) True)"
  using broadcast_pace [of 0 "100 * millisecond" 20 2 True] by simp

end
