(* ===== verification/DispatchGate.thy ===== *)
theory DispatchGate
  imports Prelude
begin

text \<open>
  The gate in front of the background loops: \<open>DispatchGate\<close>, \<open>DispatchReceiver\<close> and
  \<open>gated_recv\<close> of \<open>src/link/controller.rs\<close>.

  Each consumer is a loop around \<open>gated_recv\<close>, with its program counter, its queue and the epoch it has
  acknowledged; what is local to a consumer is \<open>consumer_step\<close>, which sees the state and the epoch of the
  gate. Items of a queue carry the epoch in which they were put there, and every dispatch is logged with the epoch that
  the consumer read and that of the item. Starting and stopping take the controller exclusively: \<open>starting\<close> is a
  start that waits for the consumers, \<open>stopping\<close> a stop that waits for the permits, \<open>stopped\<close> says that
  a stop has returned and no start has opened the gate since.
\<close>

section \<open>Consumers\<close>

datatype dispatch_state = Shut | Preparing nat | Open

text \<open>
  \<open>Top\<close>: before the state is read. \<open>Saw\<close>: it was not open. \<open>Cleared\<close>: the queue is drained and
  the epoch not yet stored. \<open>Parked\<close>: waiting for a change or an item. \<open>Want\<close>: it was open, the permit is
  asked for. From \<open>Held\<close> to \<open>Dispatching\<close> the permit is held.
\<close>

datatype 'w consumer_pc =
  Top | Saw dispatch_state | Cleared nat | Parked | Want | Held | Checked | Receiving nat | Dispatching nat "nat \<times> 'w"

record 'w consumer =
  pc :: "'w consumer_pc"
  items :: "(nat \<times> 'w) list"
  prepared_epoch :: nat
  dispatch_log :: "(nat \<times> nat \<times> 'w) list"

fun has_permit :: "'w consumer_pc \<Rightarrow> bool" where
  "has_permit Held = True"
| "has_permit Checked = True"
| "has_permit (Receiving e) = True"
| "has_permit (Dispatching e w) = True"
| "has_permit _ = False"

definition new_consumer :: "'w consumer" where
  "new_consumer = \<lparr>pc = Top, items = [], prepared_epoch = 0, dispatch_log = []\<rparr>"

definition drain_pending :: "'w consumer \<Rightarrow> 'w consumer" where
  "drain_pending c = c\<lparr>items := []\<rparr>"

text \<open>The steps of \<open>gated_recv\<close> and of the loop around it.\<close>

inductive consumer_step :: "dispatch_state \<Rightarrow> nat \<Rightarrow> 'w consumer \<Rightarrow> 'w consumer \<Rightarrow> bool" for s e where
  cs_read: "pc c = Top \<Longrightarrow> consumer_step s e c (c\<lparr>pc := (if s = Open then Want else Saw s)\<rparr>)"
| cs_drain: "pc c = Saw s' \<Longrightarrow>
    consumer_step s e c ((drain_pending c)\<lparr>pc := (case s' of Preparing p \<Rightarrow> Cleared p | _ \<Rightarrow> Parked)\<rparr>)"
| cs_acknowledge: "pc c = Cleared p \<Longrightarrow> consumer_step s e c (c\<lparr>prepared_epoch := p, pc := Parked\<rparr>)"
| cs_changed: "pc c = Parked \<Longrightarrow> consumer_step s e c (c\<lparr>pc := Top\<rparr>)"
| cs_discard: "pc c = Parked \<Longrightarrow> items c = x # xs \<Longrightarrow> consumer_step s e c (c\<lparr>items := xs, pc := Top\<rparr>)"
| cs_permit: "pc c = Want \<Longrightarrow> consumer_step s e c (c\<lparr>pc := Held\<rparr>)"
| cs_check: "pc c = Held \<Longrightarrow> consumer_step s e c (c\<lparr>pc := (if s = Open then Checked else Top)\<rparr>)"
| cs_epoch: "pc c = Checked \<Longrightarrow> consumer_step s e c (c\<lparr>pc := Receiving e\<rparr>)"
| cs_closed: "pc c = Receiving p \<Longrightarrow> s \<noteq> Open \<Longrightarrow> consumer_step s e c ((drain_pending c)\<lparr>pc := Top\<rparr>)"
| cs_receive: "pc c = Receiving p \<Longrightarrow> items c = x # xs \<Longrightarrow>
    consumer_step s e c (c\<lparr>items := xs, pc := Dispatching p x\<rparr>)"
| cs_dispatch: "pc c = Dispatching p (t, w) \<Longrightarrow>
    consumer_step s e c (c\<lparr>pc := Top, dispatch_log := dispatch_log c @ [(p, t, w)]\<rparr>)"

text \<open>A socket consumer polls the gate under the lock of the registrations.\<close>

definition wait_open :: "dispatch_state \<Rightarrow> 'w consumer \<Rightarrow> bool \<times> 'w consumer" where
  "wait_open s c =
     (if s = Open then (True, c)
      else (False, case s of Preparing e \<Rightarrow> (drain_pending c)\<lparr>prepared_epoch := e\<rparr> | _ \<Rightarrow> drain_pending c))"

section \<open>The gate\<close>

record 'w gate =
  g_state :: dispatch_state
  g_epoch :: nat
  consumers :: "'w consumer list"
  starting :: "nat option"
  stopping :: bool
  stopped :: bool

definition new_gate :: "'w gate" where
  "new_gate = \<lparr>g_state = Shut, g_epoch = 0, consumers = [], starting = None, stopping = False, stopped = True\<rparr>"

definition new_open :: "'w gate" where
  "new_open = new_gate\<lparr>g_state := Open, stopped := False\<rparr>"

definition subscribe :: "'w gate \<Rightarrow> 'w gate" where
  "subscribe G = G\<lparr>consumers := consumers G @ [new_consumer]\<rparr>"

definition is_open :: "'w gate \<Rightarrow> bool" where
  "is_open G \<longleftrightarrow> g_state G = Open"

definition start_prepare :: "'w gate \<Rightarrow> 'w gate" where
  "start_prepare G =
     (if is_open G then G
      else G\<lparr>g_epoch := g_epoch G + 1, g_state := Preparing (g_epoch G + 1), starting := Some (g_epoch G + 1), stopping := False\<rparr>)"

text \<open>\<open>None\<close>: not every consumer is ready, or the policy could not be published yet.\<close>

definition start_open :: "bool \<Rightarrow> 'w gate \<Rightarrow> 'w gate option" where
  "start_open published G =
     (case starting G of
        None \<Rightarrow> None
      | Some e \<Rightarrow>
          if (\<forall>c\<in>set (consumers G). e \<le> prepared_epoch c) \<and> published
          then Some (G\<lparr>g_state := Open, starting := None, stopped := False\<rparr>) else None)"

definition close_gate :: "'w gate \<Rightarrow> 'w gate" where
  "close_gate G = G\<lparr>g_state := Shut, starting := None\<rparr>"

definition stop_begin :: "'w gate \<Rightarrow> 'w gate" where
  "stop_begin G = (close_gate G)\<lparr>stopping := True\<rparr>"

definition stop_return :: "'w gate \<Rightarrow> 'w gate" where
  "stop_return G = G\<lparr>stopping := False, stopped := True\<rparr>"

definition run_in_epoch :: "nat \<Rightarrow> 'w gate \<Rightarrow> bool" where
  "run_in_epoch e G \<longleftrightarrow> is_open G \<and> g_epoch G = e"

text \<open>The controller starts a gate only after a stop has returned; that its calls keep to this is part of the invariant of the lifecycle.\<close>

inductive gate_step :: "'w gate \<Rightarrow> 'w gate \<Rightarrow> bool" where
  gs_consumer: "i < length (consumers G) \<Longrightarrow> consumer_step (g_state G) (g_epoch G) (consumers G ! i) c \<Longrightarrow>
    gate_step G (G\<lparr>consumers := (consumers G)[i := c]\<rparr>)"
| gs_send: "i < length (consumers G) \<Longrightarrow>
    gate_step G (G\<lparr>consumers := (consumers G)[i := (consumers G ! i)\<lparr>items := items (consumers G ! i) @ [(g_epoch G, w)]\<rparr>]\<rparr>)"
| gs_wait_open: "i < length (consumers G) \<Longrightarrow> pc (consumers G ! i) = Parked \<Longrightarrow> wait_open (g_state G) (consumers G ! i) = (b, c) \<Longrightarrow>
    gate_step G (G\<lparr>consumers := (consumers G)[i := c]\<rparr>)"
| gs_subscribe: "gate_step G (subscribe G)"
| gs_leave: "i < length (consumers G) \<Longrightarrow>
    gate_step G (G\<lparr>consumers := take i (consumers G) @ drop (i + 1) (consumers G)\<rparr>)"
| gs_prepare: "stopped G \<Longrightarrow> gate_step G (start_prepare G)"
| gs_open: "start_open published G = Some G' \<Longrightarrow> gate_step G G'"
| gs_close: "gate_step G (close_gate G)"
| gs_stop: "gate_step G (stop_begin G)"
| gs_stopped: "stopping G \<Longrightarrow> (\<forall>c\<in>set (consumers G). \<not> has_permit (pc c)) \<Longrightarrow> gate_step G (stop_return G)"

inductive gate_reachable :: "'w gate \<Rightarrow> bool" where
  gr_new: "gate_reachable new_gate"
| gr_new_open: "gate_reachable new_open"
| gr_step: "gate_reachable G \<Longrightarrow> gate_step G G' \<Longrightarrow> gate_reachable G'"

text \<open>What the loops, their producers and the subscriptions do: every step but those of a start or a stop.\<close>

definition task_step :: "'w gate \<Rightarrow> 'w gate \<Rightarrow> bool" where
  "task_step G G' \<longleftrightarrow>
     gate_step G G' \<and> g_state G' = g_state G \<and> g_epoch G' = g_epoch G \<and> starting G' = starting G
   \<and> stopping G' = stopping G \<and> stopped G' = stopped G"

section \<open>Lifecycles do not mix\<close>

definition fresh :: "nat \<Rightarrow> 'w consumer \<Rightarrow> bool" where
  "fresh e c \<longleftrightarrow> list_all (\<lambda>x. e \<le> fst x) (items c)"

text \<open>What holds of a consumer, given the state and the epoch of the gate and whether it is stopped.\<close>

fun pc_ok :: "nat \<Rightarrow> bool \<Rightarrow> bool \<Rightarrow> 'w consumer_pc \<Rightarrow> bool" where
  "pc_ok e st fr (Saw (Preparing p)) = (p \<le> e)"
| "pc_ok e st fr (Cleared p) = (p \<le> e \<and> (p = e \<longrightarrow> fr))"
| "pc_ok e st fr Checked = (fr \<and> \<not> st)"
| "pc_ok e st fr (Receiving p) = (p = e \<and> fr \<and> \<not> st)"
| "pc_ok e st fr (Dispatching p x) = (p = e \<and> fst x = e \<and> fr \<and> \<not> st)"
| "pc_ok e st fr _ = True"

definition consumer_ok :: "dispatch_state \<Rightarrow> nat \<Rightarrow> bool \<Rightarrow> 'w consumer \<Rightarrow> bool" where
  "consumer_ok s e st c \<longleftrightarrow>
     list_all (\<lambda>x. fst x \<le> e) (items c) \<and> prepared_epoch c \<le> e \<and> (s = Open \<or> e \<le> prepared_epoch c \<longrightarrow> fresh e c)
   \<and> pc_ok e st (fresh e c) (pc c) \<and> list_all (\<lambda>(p, t, w). p = t) (dispatch_log c)"

definition gate_ok :: "'w gate \<Rightarrow> bool" where
  "gate_ok G \<longleftrightarrow>
     (\<forall>c\<in>set (consumers G). consumer_ok (g_state G) (g_epoch G) (stopped G) c)
   \<and> (\<forall>p. g_state G = Preparing p \<longrightarrow> p = g_epoch G)
   \<and> (\<forall>p. starting G = Some p \<longrightarrow> g_state G = Preparing p \<and> stopped G)
   \<and> (g_state G = Open \<longrightarrow> \<not> stopped G) \<and> (stopping G \<longrightarrow> g_state G = Shut \<and> starting G = None)"

lemma fresh_simps [simp]:
  "items c = [] \<Longrightarrow> fresh e c" "fresh e (c\<lparr>pc := p\<rparr>) = fresh e c" "fresh e (c\<lparr>prepared_epoch := n\<rparr>) = fresh e c"
  "fresh e (c\<lparr>items := xs\<rparr>) = list_all (\<lambda>x. e \<le> fst x) xs" "fresh e (c\<lparr>dispatch_log := l\<rparr>) = fresh e c"
  by (simp_all add: fresh_def)

lemma pc_ok_not_fresh: "pc_ok e st False p \<Longrightarrow> pc_ok e st fr p"
  by (cases "(e, st, fr, p)" rule: pc_ok.cases) auto

lemma pc_ok_stop: "pc_ok e st fr p \<Longrightarrow> \<not> has_permit p \<Longrightarrow> pc_ok e st' fr p"
  by (cases "(e, st, fr, p)" rule: pc_ok.cases) auto

lemma pc_ok_next: "pc_ok e True fr p \<Longrightarrow> pc_ok (e + 1) True fr' p"
  by (cases "(e, True, fr, p)" rule: pc_ok.cases) auto

lemma consumer_ok_step:
  assumes "consumer_step s e c c'" and "consumer_ok s e st c" and "\<And>p. s = Preparing p \<Longrightarrow> p = e" and "s = Open \<Longrightarrow> \<not> st"
  shows "consumer_ok s e st c'"
  using assms
proof (induction rule: consumer_step.induct)
  case (cs_read c)
  then show ?case by (cases s) (auto simp: consumer_ok_def)
next
  case (cs_drain c s')
  then show ?case by (cases s') (auto simp: consumer_ok_def drain_pending_def)
next
  case (cs_discard c x xs)
  then show ?case by (auto simp: consumer_ok_def fresh_def)
next
  case (cs_receive c p x xs)
  then show ?case by (auto simp: consumer_ok_def fresh_def)
qed (auto simp: consumer_ok_def drain_pending_def)

lemma gate_ok_update:
  assumes "gate_ok G" and "consumer_ok (g_state G) (g_epoch G) (stopped G) c"
  shows "gate_ok (G\<lparr>consumers := (consumers G)[i := c]\<rparr>)"
  using assms by (auto simp: gate_ok_def dest!: set_update_subset_insert [THEN subsetD])

lemma consumer_ok_closed: "consumer_ok s e st c \<Longrightarrow> consumer_ok Shut e st c"
  by (simp add: consumer_ok_def)

lemma consumer_ok_nth: "gate_ok G \<Longrightarrow> i < length (consumers G) \<Longrightarrow> consumer_ok (g_state G) (g_epoch G) (stopped G) (consumers G ! i)"
  by (simp add: gate_ok_def)

lemma consumer_ok_send: "consumer_ok s e st c \<Longrightarrow> consumer_ok s e st (c\<lparr>items := items c @ [(e, w)]\<rparr>)"
  by (simp add: consumer_ok_def fresh_def)

lemma consumer_ok_wait_open:
  assumes "consumer_ok s e st c" and "pc c = Parked" and "wait_open s c = (b, c')" and "\<And>p. s = Preparing p \<Longrightarrow> p = e"
  shows "consumer_ok s e st c'"
  using assms by (cases s) (auto simp: wait_open_def consumer_ok_def drain_pending_def)

lemma consumer_ok_next: "consumer_ok s e True c \<Longrightarrow> s \<noteq> Open \<Longrightarrow> consumer_ok (Preparing (Suc e)) (Suc e) True c"
  using pc_ok_next [of e "fresh e c" "pc c"] by (auto simp: consumer_ok_def list_all_iff)

lemma gate_ok_step: "gate_step G G' \<Longrightarrow> gate_ok G \<Longrightarrow> gate_ok G'"
proof (induction rule: gate_step.induct)
  case (gs_consumer i G c)
  have "consumer_ok (g_state G) (g_epoch G) (stopped G) c"
    using gs_consumer by (intro consumer_ok_step [OF gs_consumer.hyps(2)] consumer_ok_nth) (auto simp: gate_ok_def)
  then show ?case by (rule gate_ok_update [OF gs_consumer.prems])
next
  case (gs_send i G w)
  then show ?case by (intro gate_ok_update [OF gs_send.prems] consumer_ok_send consumer_ok_nth)
next
  case (gs_wait_open i G b c)
  have "consumer_ok (g_state G) (g_epoch G) (stopped G) c"
    by (rule consumer_ok_wait_open [OF consumer_ok_nth gs_wait_open.hyps(2,3)]) (use gs_wait_open in \<open>auto simp: gate_ok_def\<close>)
  then show ?case by (rule gate_ok_update [OF gs_wait_open.prems])
next
  case (gs_subscribe G)
  then show ?case by (auto simp: gate_ok_def subscribe_def new_consumer_def consumer_ok_def)
next
  case (gs_leave i G)
  then show ?case by (auto simp: gate_ok_def dest: in_set_takeD in_set_dropD)
next
  case (gs_prepare G)
  then show ?case by (auto simp: gate_ok_def start_prepare_def is_open_def dest: consumer_ok_next)
next
  case (gs_open published G G')
  then obtain e where e: "starting G = Some e" "\<forall>c\<in>set (consumers G). e \<le> prepared_epoch c"
    "G' = G\<lparr>g_state := Open, starting := None, stopped := False\<rparr>"
    by (auto simp: start_open_def split: option.splits if_splits)
  have "e = g_epoch G" "g_state G = Preparing e" "stopped G" using e(1) gs_open.prems by (auto simp: gate_ok_def)
  moreover have "consumer_ok Open e False c" if "consumer_ok (Preparing e) e True c" "e \<le> prepared_epoch c" for c :: "'a consumer"
    using that by (cases "(e, True, fresh e c, pc c)" rule: pc_ok.cases) (auto simp: consumer_ok_def)
  ultimately show ?case using e gs_open.prems by (auto simp: gate_ok_def)
next
  case (gs_stopped G)
  then show ?case by (auto simp: gate_ok_def stop_return_def consumer_ok_def intro: pc_ok_stop)
qed (auto simp: gate_ok_def close_gate_def stop_begin_def dest: consumer_ok_closed)

lemma gate_reachable_ok: "gate_reachable G \<Longrightarrow> gate_ok G"
  by (induction rule: gate_reachable.induct) (auto simp: gate_ok_step, simp_all add: gate_ok_def new_gate_def new_open_def)

section \<open>Starting never gets stuck\<close>

text \<open>A consumer without admitted work can always acknowledge the epoch that is being prepared.\<close>

lemma acknowledge_from_top:
  assumes "pc c = Top"
  shows "\<exists>c'. (consumer_step (Preparing e) e)\<^sup>*\<^sup>* c c' \<and> prepared_epoch c' = e"
proof -
  let ?a = "c\<lparr>pc := Saw (Preparing e)\<rparr>" and ?b = "c\<lparr>items := [], pc := Cleared e\<rparr>"
  let ?d = "?b\<lparr>prepared_epoch := e, pc := Parked\<rparr>"
  have "consumer_step (Preparing e) e c ?a" using cs_read [OF assms, of "Preparing e" e] by simp
  moreover have "consumer_step (Preparing e) e ?a ?b" using cs_drain [of ?a "Preparing e" "Preparing e" e] by (simp add: drain_pending_def)
  moreover have "consumer_step (Preparing e) e ?b ?d" by (rule cs_acknowledge) simp
  ultimately have "(consumer_step (Preparing e) e)\<^sup>*\<^sup>* c ?d" by (meson r_into_rtranclp rtranclp.rtrancl_into_rtrancl)
  moreover have "prepared_epoch ?d = e" by simp
  ultimately show ?thesis by blast
qed

lemma acknowledge:
  assumes "pc_ok p True fr (pc c)"
  shows "\<exists>c'. (consumer_step (Preparing e) e)\<^sup>*\<^sup>* c c' \<and> prepared_epoch c' = e"
proof -
  have "\<exists>d. (consumer_step (Preparing e) e)\<^sup>*\<^sup>* c d \<and> pc d = Top"
  proof -
    let ?R = "consumer_step (Preparing e) e"
    have parked: "\<exists>d. ?R\<^sup>*\<^sup>* c' d \<and> pc d = Top" if "pc c' = Parked" for c' :: "'a consumer"
      using cs_changed [OF that, of "Preparing e" e] by (intro exI [of _ "c'\<lparr>pc := Top\<rparr>"]) auto
    have cleared: "\<exists>d. ?R\<^sup>*\<^sup>* c' d \<and> pc d = Top" if "pc c' = Cleared q" for c' :: "'a consumer" and q
      using cs_acknowledge [OF that, of "Preparing e" e] parked [of "c'\<lparr>prepared_epoch := q, pc := Parked\<rparr>"]
      by (auto intro: converse_rtranclp_into_rtranclp)
    have held: "\<exists>d. ?R\<^sup>*\<^sup>* c' d \<and> pc d = Top" if "pc c' = Held" for c' :: "'a consumer"
      using cs_check [OF that, of "Preparing e" e] by (intro exI [of _ "c'\<lparr>pc := Top\<rparr>"]) auto
    show ?thesis
    proof (cases "pc c")
      case (Saw s')
      let ?d = "(drain_pending c)\<lparr>pc := (case s' of Preparing p \<Rightarrow> Cleared p | _ \<Rightarrow> Parked)\<rparr>"
      have "\<exists>d. ?R\<^sup>*\<^sup>* ?d d \<and> pc d = Top" using parked [of ?d] cleared [of ?d] by (cases s') auto
      then show ?thesis using cs_drain [OF Saw, of "Preparing e" e] by (meson converse_rtranclp_into_rtranclp)
    next
      case Want
      have "\<exists>d. ?R\<^sup>*\<^sup>* (c\<lparr>pc := Held\<rparr>) d \<and> pc d = Top" by (rule held) simp
      then show ?thesis using cs_permit [OF Want, of "Preparing e" e] by (meson converse_rtranclp_into_rtranclp)
    qed (use assms parked cleared held in auto)
  qed
  then show ?thesis using acknowledge_from_top [of _ e] by (meson rtranclp_trans)
qed

lemma consumer_steps_lift:
  assumes "(consumer_step (g_state G) (g_epoch G))\<^sup>*\<^sup>* (consumers G ! i) c" and "i < length (consumers G)"
  shows "task_step\<^sup>*\<^sup>* G (G\<lparr>consumers := (consumers G)[i := c]\<rparr>)"
  using assms(1)
proof (induction rule: rtranclp_induct)
  case base
  then show ?case by simp
next
  case (step c d)
  let ?H = "G\<lparr>consumers := (consumers G)[i := c]\<rparr>"
  have "gate_step ?H (?H\<lparr>consumers := (consumers ?H)[i := d]\<rparr>)"
    by (rule gs_consumer) (use step assms(2) in simp_all)
  then have "task_step ?H (?H\<lparr>consumers := (consumers ?H)[i := d]\<rparr>)" by (simp add: task_step_def)
  then show ?case using step.IH by (simp add: rtranclp.rtrancl_into_rtrancl)
qed

lemma task_steps_gate: "task_step\<^sup>*\<^sup>* G G' \<Longrightarrow> gate_step\<^sup>*\<^sup>* G G'"
  by (erule mono_rtranclp [rule_format, rotated]) (simp add: task_step_def)

text \<open>What every consumer can do by itself, they can all do one after the other.\<close>

lemma consumers_upto:
  assumes "\<And>c. c \<in> set (consumers G) \<Longrightarrow> \<exists>c'. (consumer_step (g_state G) (g_epoch G))\<^sup>*\<^sup>* c c' \<and> P c'"
    and "k \<le> length (consumers G)"
  shows "\<exists>cs. task_step\<^sup>*\<^sup>* G (G\<lparr>consumers := cs\<rparr>) \<and> length cs = length (consumers G)
       \<and> (\<forall>i < k. P (cs ! i)) \<and> drop k cs = drop k (consumers G)"
  using assms(2)
proof (induction k)
  case 0
  then show ?case by (intro exI [of _ "consumers G"]) simp
next
  case (Suc k)
  then obtain cs where cs: "task_step\<^sup>*\<^sup>* G (G\<lparr>consumers := cs\<rparr>)" "length cs = length (consumers G)"
    "\<forall>i < k. P (cs ! i)" "drop k cs = drop k (consumers G)" by auto
  have k: "k < length cs" "cs ! k = consumers G ! k" "consumers G ! k \<in> set (consumers G)"
    using Suc.prems cs(2,4) by (auto, metis Suc_le_lessD hd_drop_conv_nth)
  then obtain c where c: "(consumer_step (g_state G) (g_epoch G))\<^sup>*\<^sup>* (cs ! k) c" "P c" using assms(1) by auto
  have "task_step\<^sup>*\<^sup>* G (G\<lparr>consumers := cs[k := c]\<rparr>)"
    using cs(1) consumer_steps_lift [of "G\<lparr>consumers := cs\<rparr>" k c] c(1) k(1) by simp
  moreover have "drop (Suc k) cs = drop (Suc k) (consumers G)"
    using arg_cong [OF cs(4), of "drop 1"] by simp
  ultimately show ?case
    using cs(2,3) c(2) k(1) by (intro exI [of _ "cs[k := c]"]) (auto simp: nth_list_update less_Suc_eq)
qed

lemma all_consumers:
  assumes "\<And>c. c \<in> set (consumers G) \<Longrightarrow> \<exists>c'. (consumer_step (g_state G) (g_epoch G))\<^sup>*\<^sup>* c c' \<and> P c'"
  shows "\<exists>cs. task_step\<^sup>*\<^sup>* G (G\<lparr>consumers := cs\<rparr>) \<and> (\<forall>c\<in>set cs. P c)"
  using consumers_upto [OF assms order.refl] by (metis in_set_conv_nth)

lemma all_acknowledge:
  assumes "gate_ok G" and "starting G = Some e"
  shows "\<exists>cs. task_step\<^sup>*\<^sup>* G (G\<lparr>consumers := cs\<rparr>) \<and> (\<forall>c\<in>set cs. e \<le> prepared_epoch c)"
proof (rule all_consumers)
  fix c
  assume "c \<in> set (consumers G)"
  moreover have e: "g_state G = Preparing e" "g_epoch G = e" "stopped G" using assms by (auto simp: gate_ok_def)
  ultimately have "pc_ok e True (fresh e c) (pc c)" using assms(1) by (auto simp: gate_ok_def consumer_ok_def)
  then show "\<exists>c'. (consumer_step (g_state G) (g_epoch G))\<^sup>*\<^sup>* c c' \<and> e \<le> prepared_epoch c'" using acknowledge [of e _ c e] e by (metis order.refl)
qed

text \<open>Behind a closed gate every consumer gives its permit back, after the batch it is dispatching.\<close>

lemma release: "\<exists>c'. (consumer_step Shut e)\<^sup>*\<^sup>* c c' \<and> \<not> has_permit (pc c')"
proof -
  have top: "\<exists>c'. (consumer_step Shut e)\<^sup>*\<^sup>* d c' \<and> \<not> has_permit (pc c')" if "consumer_step Shut e d d'" "pc d' = Top" for d d' :: "'a consumer"
    using that by (intro exI [of _ d']) auto
  have receiving: "\<exists>c'. (consumer_step Shut e)\<^sup>*\<^sup>* d c' \<and> \<not> has_permit (pc c')" if "pc d = Receiving p" for d :: "'a consumer" and p
    by (rule top [OF cs_closed [OF that]]) simp_all
  show ?thesis
  proof (cases "pc c")
    case Held
    then show ?thesis by (intro top [OF cs_check]) simp_all
  next
    case Checked
    then show ?thesis
      using receiving [of "c\<lparr>pc := Receiving e\<rparr>" e] cs_epoch [OF Checked, of Shut e]
      by (auto intro: converse_rtranclp_into_rtranclp)
  next
    case (Receiving p)
    then show ?thesis by (rule receiving)
  next
    case (Dispatching p x)
    then show ?thesis by (cases x) (auto intro!: top [OF cs_dispatch])
  qed auto
qed

lemma all_release: "g_state G = Shut \<Longrightarrow> \<exists>cs. task_step\<^sup>*\<^sup>* G (G\<lparr>consumers := cs\<rparr>) \<and> (\<forall>c\<in>set cs. \<not> has_permit (pc c))"
  by (rule all_consumers) (simp add: release)

section \<open>A sample run\<close>

abbreviation one_consumer :: "dispatch_state \<Rightarrow> nat option \<Rightarrow> bool \<Rightarrow> nat consumer \<Rightarrow> nat gate" where
  "one_consumer s st off c \<equiv> \<lparr>g_state = s, g_epoch = 1, consumers = [c], starting = st, stopping = False, stopped = off\<rparr>"

abbreviation at_pc :: "nat consumer_pc \<Rightarrow> (nat \<times> nat) list \<Rightarrow> nat \<Rightarrow> nat consumer" where
  "at_pc p xs n \<equiv> \<lparr>pc = p, items = xs, prepared_epoch = n, dispatch_log = []\<rparr>"

lemma one_consumer_step:
  "gate_reachable (one_consumer s st off c) \<Longrightarrow> consumer_step s 1 c c' \<Longrightarrow> gate_reachable (one_consumer s st off c')"
  using gr_step [OF _ gs_consumer [of 0 "one_consumer s st off c" c']] by simp

lemma one_consumer_preparing: "gate_reachable (one_consumer (Preparing 1) (Some 1) True (at_pc Top [] 0))"
  using gr_step [OF gr_step [OF gr_new gs_subscribe] gs_prepare]
  by (simp add: subscribe_def new_gate_def start_prepare_def is_open_def new_consumer_def)

lemma one_consumer_opened: "gate_reachable (one_consumer Open None False (at_pc Parked [] 1))"
proof -
  have "gate_reachable (one_consumer (Preparing 1) (Some 1) True (at_pc (Saw (Preparing 1)) [] 0))"
    by (rule one_consumer_step [OF one_consumer_preparing]) (use cs_read [of "at_pc Top [] 0" "Preparing 1" 1] in simp)
  then have "gate_reachable (one_consumer (Preparing 1) (Some 1) True (at_pc (Cleared 1) [] 0))"
    by (rule one_consumer_step) (use cs_drain [of "at_pc (Saw (Preparing 1)) [] 0" "Preparing 1" "Preparing 1" 1] in \<open>simp add: drain_pending_def\<close>)
  then have "gate_reachable (one_consumer (Preparing 1) (Some 1) True (at_pc Parked [] 1))"
    by (rule one_consumer_step) (use cs_acknowledge [of "at_pc (Cleared 1) [] 0" 1 "Preparing 1" 1] in simp)
  then show ?thesis by (rule gr_step) (rule gs_open [of True], simp add: start_open_def)
qed

lemma one_consumer_dispatching: "gate_reachable (one_consumer Open None False (at_pc (Dispatching 1 (1, 7)) [] 1))"
proof -
  have "gate_reachable (one_consumer Open None False (at_pc Parked [(1, 7)] 1))"
    using gr_step [OF one_consumer_opened gs_send [of 0 _ 7]] by simp
  then have "gate_reachable (one_consumer Open None False (at_pc Top [(1, 7)] 1))"
    by (rule one_consumer_step) (use cs_changed [of "at_pc Parked [(1, 7)] 1"] in simp)
  then have "gate_reachable (one_consumer Open None False (at_pc Want [(1, 7)] 1))"
    by (rule one_consumer_step) (use cs_read [of "at_pc Top [(1, 7)] 1" Open] in simp)
  then have "gate_reachable (one_consumer Open None False (at_pc Held [(1, 7)] 1))"
    by (rule one_consumer_step) (use cs_permit [of "at_pc Want [(1, 7)] 1"] in simp)
  then have "gate_reachable (one_consumer Open None False (at_pc Checked [(1, 7)] 1))"
    by (rule one_consumer_step) (use cs_check [of "at_pc Held [(1, 7)] 1" Open] in simp)
  then have "gate_reachable (one_consumer Open None False (at_pc (Receiving 1) [(1, 7)] 1))"
    by (rule one_consumer_step) (use cs_epoch [of "at_pc Checked [(1, 7)] 1" Open 1] in simp)
  then show ?thesis
    by (rule one_consumer_step) (use cs_receive [of "at_pc (Receiving 1) [(1, 7)] 1" 1 "(1, 7)" "[]"] in simp)
qed

section \<open>Properties\<close>

text \<open>C6: Work never crosses from one lifecycle into another. Whatever the interleaving of producers, consumers, starts, stops,
  subscriptions and departures, everything a loop dispatches under an epoch was queued in that epoch: what was still
  queued when the gate was closed is discarded before it opens again.\<close>

theorem dispatch_stays_in_lifecycle:
  assumes "gate_reachable G" and "c \<in> set (consumers G)"
  shows "list_all (\<lambda>(epoch, queued_in, w). epoch = queued_in) (dispatch_log c)
       \<and> (\<forall>e t w. pc c = Dispatching e (t, w) \<longrightarrow> e = g_epoch G \<and> t = g_epoch G)"
  using gate_reachable_ok [OF assms(1)] assms(2) by (auto simp: gate_ok_def consumer_ok_def dest!: bspec)

theorem dispatch_stays_in_lifecycle_witness:
  "(1 :: nat) = g_epoch (one_consumer Open None False (at_pc (Dispatching 1 (1, 7)) [] 1))"
  using dispatch_stays_in_lifecycle [OF one_consumer_dispatching, of "at_pc (Dispatching 1 (1, 7)) [] 1"] by simp

text \<open>A stop is acknowledged. Once a stop has returned, no loop is dispatching or about to receive, and none is until a
  start has opened the gate again.\<close>

theorem stop_quiesces:
  assumes "gate_reachable G" and "stopped G"
  shows "\<not> is_open G \<and> (\<forall>c\<in>set (consumers G). \<not> (\<exists>e w. pc c = Receiving e \<or> pc c = Dispatching e w))"
  using gate_reachable_ok [OF assms(1)] assms(2) by (fastforce simp: gate_ok_def consumer_ok_def is_open_def)

theorem stop_quiesces_witness: "\<not> is_open (one_consumer (Preparing 1) (Some 1) True (at_pc Top [] 0))"
  using stop_quiesces [OF one_consumer_preparing] by simp

text \<open>A start never gets stuck. From every state in which a start waits for the consumers, the consumers can
  acknowledge and the gate can open, for the epoch of that start.\<close>

theorem start_can_finish:
  assumes "gate_reachable G" and "starting G = Some e"
  shows "\<exists>G'. gate_step\<^sup>*\<^sup>* G G' \<and> is_open G' \<and> g_epoch G' = e"
proof -
  note ok = gate_reachable_ok [OF assms(1)]
  obtain cs where cs: "gate_step\<^sup>*\<^sup>* G (G\<lparr>consumers := cs\<rparr>)" "\<forall>c\<in>set cs. e \<le> prepared_epoch c"
    using all_acknowledge [OF ok assms(2)] by (auto dest: task_steps_gate)
  let ?G = "G\<lparr>consumers := cs, g_state := Open, starting := None, stopped := False\<rparr>"
  have "start_open True (G\<lparr>consumers := cs\<rparr>) = Some ?G"
    using assms(2) cs(2) by (simp add: start_open_def)
  then have "gate_step (G\<lparr>consumers := cs\<rparr>) ?G" by (rule gs_open)
  moreover have "g_epoch G = e" using ok assms(2) by (auto simp: gate_ok_def)
  ultimately show ?thesis using cs(1) by (intro exI [of _ ?G]) (auto simp: is_open_def)
qed

theorem start_can_finish_witness:
  "\<exists>G'. gate_step\<^sup>*\<^sup>* (one_consumer (Preparing 1) (Some 1) True (at_pc Top [] 0)) G' \<and> is_open G' \<and> g_epoch G' = 1"
  by (rule start_can_finish [OF one_consumer_preparing]) simp

end
