(* ===== verification/Lifecycle.thy ===== *)
theory Lifecycle
  imports Controller Messenger DispatchGate "HOL-Library.Sublist"
begin

text \<open>
  The lifecycle of a controller, \<open>Controller::enable\<close>, \<open>Controller::disable\<close> and \<open>Drop\<close> of
  \<open>src/link/controller.rs\<close>. Enabling and disabling are long \<open>async\<close> functions that the
  application may cancel at every \<open>await\<close>; they are lists of instructions, one for what happens between two
  awaits, and \<open>remaining\<close> holds what is left of the call that is running (both take \<open>&mut self\<close>, so there is at most
  one). In between the loops behind the three gates, the application and the network go on.
\<close>

section \<open>State\<close>

text \<open>
  The gates \<open>discovery.measurement_service.tasks.gate\<close>, \<open>discovery.gate\<close> and \<open>dispatch.gate\<close>. \<open>listener_started\<close> tells that the task of
  \<open>PeerGateway::listen\<close> has been spawned, as the handle the controller keeps does; that the task itself ends when the process is
  interrupted from the terminal is not modelled.
\<close>

datatype gate_name = MeasurementGate | DiscoveryGate | TasksGate

datatype instr =
  CheckEnabled | StopGate gate_name | AwaitQuiet gate_name | ClearTimeouts | ZeroPeerCount | ResetState
| PrepareGate gate_name | OpenGate gate_name | StartListener | ClearEnabled | SendByebye | ResetPeers | Sleep

record lifecycle =
  ctl :: controller
  gates :: "gate_name \<Rightarrow> nat gate"
  gw :: gateway
  net :: messenger
  is_enabled :: bool
  listener_started :: bool
  callbacks_closed :: bool
  byebyes :: "node_id list"
  remaining :: "instr list"

section \<open>Enabling and disabling\<close>

text \<open>\<open>PeerGateway::stop\<close> and the stop of the measurement service.\<close>

definition stop_measurement :: "instr list" where
  "stop_measurement = [StopGate MeasurementGate, AwaitQuiet MeasurementGate]"

definition stop_discovery :: "instr list" where
  "stop_discovery = [StopGate DiscoveryGate, AwaitQuiet DiscoveryGate, ClearTimeouts]"

definition enable_call :: "instr list" where
  "enable_call =
     [CheckEnabled] @ stop_measurement @ stop_discovery @ [StopGate TasksGate, AwaitQuiet TasksGate]
     @ [ZeroPeerCount, ResetState, PrepareGate MeasurementGate, OpenGate MeasurementGate,
        PrepareGate TasksGate, OpenGate TasksGate, StartListener, PrepareGate DiscoveryGate, OpenGate DiscoveryGate]"

definition disable_call :: "instr list" where
  "disable_call =
     [ClearEnabled] @ stop_measurement @ stop_discovery @ [StopGate TasksGate, AwaitQuiet TasksGate]
     @ [SendByebye, ZeroPeerCount, ResetPeers, ResetState, Sleep]"

definition set_gate :: "gate_name \<Rightarrow> nat gate \<Rightarrow> lifecycle \<Rightarrow> lifecycle" where
  "set_gate g G L = L\<lparr>gates := (gates L)(g := G)\<rparr>"

text \<open>The policy that opens with a gate: discovery discards what its sockets and its route cache hold, and the flag is set.\<close>

definition publish_policy :: "gate_name \<Rightarrow> lifecycle \<Rightarrow> lifecycle" where
  "publish_policy g L =
     (if g = DiscoveryGate then L\<lparr>is_enabled := True, net := discard_queued_datagrams (net L)\<rparr> else L)"

definition open_gate :: "gate_name \<Rightarrow> lifecycle \<Rightarrow> lifecycle option" where
  "open_gate g L =
     (if is_open (gates L g) then Some (publish_policy g L)
      else map_option (\<lambda>G. set_gate g G (publish_policy g L)) (start_open True (gates L g)))"

text \<open>
  One instruction; \<open>None\<close> while it has to wait. A contended lock is tried again after five milliseconds, which is a step
  not taken; only the farewell is skipped when the lock is contended (\<open>locked\<close>). Waking the
  broadcaster, which then finds the flag off, changes nothing here.
\<close>

fun exec :: "ext \<Rightarrow> node_id \<Rightarrow> duration \<Rightarrow> duration \<Rightarrow> bool \<Rightarrow> instr \<Rightarrow> lifecycle \<Rightarrow> lifecycle option" where
  "exec E node now now' locked CheckEnabled L = Some (if is_enabled L then L\<lparr>remaining := []\<rparr> else L)"
| "exec E node now now' locked (StopGate g) L = Some (set_gate g (stop_begin (gates L g)) L)"
| "exec E node now now' locked (AwaitQuiet g) L =
     (if stopping (gates L g) \<and> (\<forall>c\<in>set (consumers (gates L g)). \<not> has_permit (pc c))
      then Some (set_gate g (stop_return (gates L g)) L) else None)"
| "exec E node now now' locked ClearTimeouts L = Some (L\<lparr>gw := stop_gateway (gw L)\<rparr>)"
| "exec E node now now' locked ZeroPeerCount L = Some (L\<lparr>ctl := (ctl L)\<lparr>session_peer_count := 0\<rparr>\<rparr>)"
| "exec E node now now' locked ResetState L = Some (L\<lparr>ctl := fst (reset_state_if_peerless E None node now now' (ctl L))\<rparr>)"
| "exec E node now now' locked (PrepareGate g) L = Some (set_gate g (start_prepare (gates L g)) L)"
| "exec E node now now' locked (OpenGate g) L = open_gate g L"
| "exec E node now now' locked StartListener L =
     Some (if listener_started L then L
           else set_gate DiscoveryGate (subscribe (gates L DiscoveryGate)) (L\<lparr>listener_started := True\<rparr>))"
| "exec E node now now' locked ClearEnabled L = Some (L\<lparr>is_enabled := False\<rparr>)"
| "exec E node now now' locked SendByebye L = Some (if locked then L else L\<lparr>byebyes := byebyes L @ [own_ident (ctl L)]\<rparr>)"
| "exec E node now now' locked ResetPeers L = Some (L\<lparr>ctl := (ctl L)\<lparr>sess := reset_peers (sess (ctl L))\<rparr>\<rparr>)"
| "exec E node now now' locked Sleep L = Some L"

text \<open>\<open>Drop\<close>: no callback starts any more, and the gates of the tasks and of discovery close without waiting.\<close>

definition drop_controller :: "lifecycle \<Rightarrow> lifecycle" where
  "drop_controller L =
     set_gate DiscoveryGate (close_gate (gates L DiscoveryGate))
       (set_gate TasksGate (close_gate (gates L TasksGate)) (L\<lparr>callbacks_closed := True, remaining := []\<rparr>))"

text \<open>
  A new controller. The gates of discovery and of the measurements are created open and stopped before the constructor
  returns; the three loops behind \<open>dispatch.gate\<close> are subscribed.
\<close>

definition new_lifecycle :: "controller \<Rightarrow> gateway \<Rightarrow> messenger \<Rightarrow> lifecycle" where
  "new_lifecycle C W M =
     \<lparr>ctl = C,
      gates = (\<lambda>g. case g of TasksGate \<Rightarrow> subscribe (subscribe (subscribe new_gate)) | _ \<Rightarrow> subscribe new_open),
      gw = W, net = M, is_enabled = False, listener_started = False, callbacks_closed = False, byebyes = [],
      remaining = stop_measurement @ stop_discovery\<rparr>"

text \<open>The getters and the setter of the start/stop synchronisation; a contended lock gives a default, or drops the write.\<close>

definition is_start_stop_sync_enabled :: "bool \<Rightarrow> lifecycle \<Rightarrow> bool" where
  "is_start_stop_sync_enabled locked L = (if locked then False else sync_enabled (ctl L))"

definition enable_start_stop_sync :: "bool \<Rightarrow> bool \<Rightarrow> lifecycle \<Rightarrow> lifecycle" where
  "enable_start_stop_sync locked b L = (if locked then L else L\<lparr>ctl := (ctl L)\<lparr>sync_enabled := b\<rparr>\<rparr>)"

definition num_peers :: "bool \<Rightarrow> lifecycle \<Rightarrow> nat" where
  "num_peers locked L = (if locked then 0 else session_peer_count (ctl L))"

definition controller_node_id :: "bool \<Rightarrow> lifecycle \<Rightarrow> node_id" where
  "controller_node_id locked L = (if locked then replicate 8 0 else own_ident (ctl L))"

definition controller_session_id :: "bool \<Rightarrow> lifecycle \<Rightarrow> session_id" where
  "controller_session_id locked L = (if locked then replicate 8 0 else own_session (ctl L))"

section \<open>Steps\<close>

text \<open>
  \<open>working g\<close>: a loop behind the gate is dispatching a batch. Only such a loop commits what comes from the network or
  reports a peer; the application edits at any time, and a measurement of a session may be scheduled at any time, which leaves the peers alone.
\<close>

definition working :: "nat gate \<Rightarrow> bool" where
  "working G \<longleftrightarrow> (\<exists>c\<in>set (consumers G). case pc c of Dispatching _ _ \<Rightarrow> True | _ \<Rightarrow> False)"

datatype action = CallEnable | CallDisable | Proceed | Cancel | Background | DropIt

inductive lc_step :: "ext \<Rightarrow> action \<Rightarrow> lifecycle \<Rightarrow> lifecycle \<Rightarrow> bool" for E where
  lc_enable: "remaining L = [] \<Longrightarrow> \<not> callbacks_closed L \<Longrightarrow> lc_step E CallEnable L (L\<lparr>remaining := enable_call\<rparr>)"
| lc_disable: "remaining L = [] \<Longrightarrow> \<not> callbacks_closed L \<Longrightarrow> lc_step E CallDisable L (L\<lparr>remaining := disable_call\<rparr>)"
| lc_proceed: "remaining L = i # is \<Longrightarrow> exec E node now now' locked i (L\<lparr>remaining := is\<rparr>) = Some L' \<Longrightarrow> lc_step E Proceed L L'"
| lc_cancel: "lc_step E Cancel L (L\<lparr>remaining := []\<rparr>)"
| lc_drop: "lc_step E DropIt L (drop_controller L)"
| lc_tasks: "task_step (gates L g) G \<Longrightarrow> lc_step E Background L (set_gate g G L)"
| lc_work: "working (gates L g) \<Longrightarrow> ctl_step E (ctl L) C \<Longrightarrow> lc_step E Background L (L\<lparr>ctl := C\<rparr>)"
| lc_sessions: "link_step E (sess (ctl L)) S \<Longrightarrow> peers S = peers (sess (ctl L)) \<Longrightarrow>
    lc_step E Background L (L\<lparr>ctl := (ctl L)\<lparr>sess := S\<rparr>\<rparr>)"
| lc_edit: "lc_step E Background L (L\<lparr>ctl := fst (client_edit_from_origin E inc now orig (ctl L))\<rparr>)"
| lc_refresh: "lc_step E Background L (L\<lparr>ctl := fst (refresh_timing E now (ctl L))\<rparr>)"
| lc_sync: "lc_step E Background L (enable_start_stop_sync locked b L)"
| lc_endpoint: "lc_step E Background L (L\<lparr>ctl := set_audio_endpoint a (ctl L)\<rparr>)"
| lc_gateway: "working (gates L DiscoveryGate) \<Longrightarrow> gateway_step (gw L) W \<Longrightarrow> lc_step E Background L (L\<lparr>gw := W\<rparr>)"
| lc_tick: "clock (gw L) \<le> now \<Longrightarrow> lc_step E Background L (L\<lparr>gw := (gw L)\<lparr>clock := now\<rparr>\<rparr>)"
| lc_prune: "lc_step E Background L (L\<lparr>gw := committed (prune_first (clock (gw L)) (timeouts (gw L))) (gw L)\<rparr>)"
| lc_net: "messenger_step E (net L) M \<Longrightarrow> lc_step E Background L (L\<lparr>net := M\<rparr>)"

inductive lc_reachable :: "ext \<Rightarrow> lifecycle \<Rightarrow> bool" for E where
  lc_new: "lc_reachable E (new_lifecycle (new_controller E b node now now' i r) (new_gateway t) (new_messenger H scanned g D st t))"
| lc_next: "lc_reachable E L \<Longrightarrow> lc_step E a L L' \<Longrightarrow> lc_reachable E L'"

section \<open>What a pending call may rely on\<close>

definition call_rest :: "instr list \<Rightarrow> bool" where
  "call_rest p \<longleftrightarrow> suffix p enable_call \<or> suffix p disable_call \<or> suffix p (stop_measurement @ stop_discovery)"

definition no_peers_left :: "lifecycle \<Rightarrow> bool" where
  "no_peers_left L \<longleftrightarrow> peers (sess (ctl L)) = []"

text \<open>Of the gates: what the rest of the call says about the stops and starts already done.\<close>

definition gate_progress :: "instr list \<Rightarrow> gate_name \<Rightarrow> nat gate \<Rightarrow> bool" where
  "gate_progress p g G \<longleftrightarrow>
     gate_reachable G
   \<and> (AwaitQuiet g \<in> set p \<and> StopGate g \<notin> set p \<longrightarrow> stopping G)
   \<and> (AwaitQuiet g \<notin> set p \<and> (PrepareGate g \<in> set p \<or> Sleep \<in> set p) \<longrightarrow> stopped G)
   \<and> (OpenGate g \<in> set p \<and> PrepareGate g \<notin> set p \<longrightarrow> starting G \<noteq> None)
   \<and> (OpenGate DiscoveryGate \<in> set p \<and> OpenGate g \<notin> set p \<longrightarrow> is_open G)"

definition state_progress :: "instr list \<Rightarrow> lifecycle \<Rightarrow> bool" where
  "state_progress p L \<longleftrightarrow>
     (OpenGate DiscoveryGate \<in> set p \<and> StartListener \<notin> set p \<longrightarrow> listener_started L)
   \<and> (Sleep \<in> set p \<and> ClearTimeouts \<notin> set p \<longrightarrow> timeouts (gw L) = [])
   \<and> (Sleep \<in> set p \<and> ZeroPeerCount \<notin> set p \<longrightarrow> session_peer_count (ctl L) = 0)
   \<and> (Sleep \<in> set p \<and> ResetPeers \<notin> set p \<longrightarrow> no_peers_left L)
   \<and> (is_enabled L \<longrightarrow> p = [] \<or> p = enable_call \<or> p = disable_call)
   \<and> (is_enabled L \<and> \<not> callbacks_closed L \<longrightarrow> listener_started L \<and> (\<forall>g. is_open (gates L g)))
   \<and> (callbacks_closed L \<longrightarrow> p = [])"

definition lc_ok :: "lifecycle \<Rightarrow> bool" where
  "lc_ok L \<longleftrightarrow> call_rest (remaining L) \<and> (\<forall>g. gate_progress (remaining L) g (gates L g)) \<and> state_progress (remaining L) L"

lemmas call_defs = enable_call_def disable_call_def stop_measurement_def stop_discovery_def

lemma call_rest_Cons:
  "call_rest (i # is) \<Longrightarrow> call_rest is"
  by (auto simp: call_rest_def dest: suffix_ConsD)

lemma call_order:
  assumes "call_rest p" and "Sleep \<in> set p"
  shows "ZeroPeerCount \<notin> set p \<Longrightarrow> AwaitQuiet g \<notin> set p" "ResetPeers \<notin> set p \<Longrightarrow> AwaitQuiet g \<notin> set p"
    "ClearTimeouts \<notin> set p \<Longrightarrow> AwaitQuiet DiscoveryGate \<notin> set p"
  using assms unfolding call_rest_def call_defs by (cases g; auto simp: suffix_Cons)+

lemma gate_progress_tasks: "gate_progress p g G \<Longrightarrow> task_step G G' \<Longrightarrow> gate_progress p g G'"
  by (auto simp: gate_progress_def task_step_def is_open_def intro: gr_step)

lemma not_working_stopped:
  assumes "gate_reachable G" and "stopped G"
  shows "\<not> working G"
proof -
  have "pc c \<noteq> Dispatching e x" if "c \<in> set (consumers G)" for c e x
    using gate_reachable_ok [OF assms(1)] assms(2) that by (auto simp: gate_ok_def consumer_ok_def dest!: bspec [of _ _ c])
  then show ?thesis by (auto simp: working_def split: consumer_pc.splits)
qed

text \<open>
  What the application commits on its own, and what a reset does, never brings back a peer: the contract of the operations
  that run while the gates are closed.
\<close>

locale quiet_op =
  fixes f :: "controller \<Rightarrow> controller"
  assumes no_peers: "peers (sess C) = [] \<Longrightarrow> peers (sess (f C)) = []"
    and no_count: "session_peer_count C = 0 \<Longrightarrow> session_peer_count (f C) = 0"
begin

lemma progress:
  assumes "call_rest p" and "state_progress p L"
  shows "state_progress p (L\<lparr>ctl := f (ctl L)\<rparr>)"
  using assms no_peers no_count by (auto simp: state_progress_def no_peers_left_def)

end

lemma quiet_simps [simp]:
  "peers (sess (publish_discovery C)) = peers (sess C)" "session_peer_count (publish_discovery C) = session_peer_count C"
  "peers (sess (reject_pending_timing C)) = peers (sess C)" "session_peer_count (reject_pending_timing C) = session_peer_count C"
  "peers (invalidate_current S) = peers S" "peers (share_revision k S) = peers S" "peers (invalidate_client_captures S) = peers S"
  "peers (install_timeline k t S) = [] \<longleftrightarrow> peers S = []"
  by (auto simp: publish_discovery_def reject_pending_timing_def invalidate_current_def share_revision_def
      invalidate_client_captures_def install_timeline_def Let_def split: prod.splits)

interpretation edit_quiet: quiet_op "\<lambda>C. fst (client_edit_from_origin E inc now orig C)" for E inc now orig
  by unfold_locales
    (auto simp: client_edit_from_origin_def client_edit_install_def Let_def split: sum.splits option.splits)

interpretation refresh_quiet: quiet_op "\<lambda>C. fst (refresh_timing E now C)" for E now
  by unfold_locales (auto simp: refresh_timing_def Let_def split: sum.splits)

interpretation reset_quiet: quiet_op "\<lambda>C. fst (reset_state_if_peerless E None node now now' C)" for E node now now'
  by unfold_locales (auto simp: reset_state_if_peerless_def reset_commit_def Let_def split: sum.splits prod.splits)

interpretation endpoint_quiet: quiet_op "set_audio_endpoint a" for a
  by unfold_locales (auto simp: set_audio_endpoint_def)

interpretation sync_quiet: quiet_op "\<lambda>C. C\<lparr>sync_enabled := b\<rparr>" for b
  by unfold_locales auto

interpretation count_quiet: quiet_op "\<lambda>C. C\<lparr>session_peer_count := 0\<rparr>"
  by unfold_locales auto

interpretation peers_quiet: quiet_op "\<lambda>C. C\<lparr>sess := reset_peers (sess C)\<rparr>"
  by unfold_locales (auto simp: reset_peers_def with_observer_state_def)

section \<open>Every step keeps the progress of the call\<close>

lemma gates_set_gate [simp]:
  "gates (set_gate g G L) g' = (if g' = g then G else gates L g')" "remaining (set_gate g G L) = remaining L"
  "ctl (set_gate g G L) = ctl L" "gw (set_gate g G L) = gw L" "is_enabled (set_gate g G L) = is_enabled L"
  "listener_started (set_gate g G L) = listener_started L" "callbacks_closed (set_gate g G L) = callbacks_closed L"
  "no_peers_left (set_gate g G L) = no_peers_left L"
  by (auto simp: set_gate_def no_peers_left_def)

lemma state_progress_gates:
  assumes "state_progress p L" and "\<And>g. is_open (gates L g) \<Longrightarrow> is_open (gates L' g)"
    and "ctl L' = ctl L" "timeouts (gw L') = timeouts (gw L)" "is_enabled L' = is_enabled L" "listener_started L' = listener_started L"
    "callbacks_closed L' = callbacks_closed L"
  shows "state_progress p L'"
  using assms by (auto simp: state_progress_def no_peers_left_def)

lemma background_ok:
  assumes "lc_step E Background L L'" and "lc_ok L"
  shows "lc_ok L'"
proof -
  let ?p = "remaining L"
  have p: "call_rest ?p" and g: "\<And>g. gate_progress ?p g (gates L g)" and s: "state_progress ?p L"
    using assms(2) by (auto simp: lc_ok_def)
  have quiet: "\<not> working (gates L g)" if "Sleep \<in> set ?p" "AwaitQuiet g \<notin> set ?p" for g
    using g [of g] that not_working_stopped by (auto simp: gate_progress_def)
  have keep: "lc_ok (L\<lparr>ctl := C\<rparr>)" if "state_progress ?p (L\<lparr>ctl := C\<rparr>)" for C
    using p g that by (simp add: lc_ok_def)
  show ?thesis
    using assms(1)
  proof (cases rule: lc_step.cases)
    case (lc_tasks h G)
    then have "is_open G = is_open (gates L h)" by (simp add: task_step_def is_open_def)
    then have "state_progress ?p L'" using lc_tasks by (intro state_progress_gates [OF s]) auto
    then show ?thesis using lc_tasks p g gate_progress_tasks [OF g lc_tasks(2)] by (simp add: lc_ok_def)
  next
    case (lc_work h C)
    then have "state_progress ?p (L\<lparr>ctl := C\<rparr>)"
      using s quiet [of h] call_order(1,2) [OF p, of h] by (auto simp: state_progress_def)
    then show ?thesis using keep lc_work by simp
  next
    case (lc_gateway W)
    then have "state_progress ?p (L\<lparr>gw := W\<rparr>)"
      using s quiet [of DiscoveryGate] call_order [OF p] by (auto simp: state_progress_def no_peers_left_def)
    then show ?thesis using lc_gateway p g by (simp add: lc_ok_def)
  next
    case (lc_prune)
    then have "state_progress ?p L'"
      using s by (auto simp: state_progress_def no_peers_left_def committed_def prune_first_def)
    then show ?thesis using lc_prune p g by (simp add: lc_ok_def)
  next
    case (lc_sync locked b)
    then show ?thesis using keep [OF sync_quiet.progress [OF p s, of b]] assms(2) by (simp add: enable_start_stop_sync_def)
  next
    case (lc_sessions S)
    then have "state_progress ?p (L\<lparr>ctl := (ctl L)\<lparr>sess := S\<rparr>\<rparr>)" using s by (auto simp: state_progress_def no_peers_left_def)
    then show ?thesis using keep lc_sessions by simp
  next
    case (lc_net M)
    then show ?thesis using p g s by (simp add: lc_ok_def state_progress_def no_peers_left_def)
  next
    case (lc_tick now)
    then show ?thesis using p g s by (simp add: lc_ok_def state_progress_def no_peers_left_def)
  qed (auto intro: keep edit_quiet.progress [OF p s] refresh_quiet.progress [OF p s] endpoint_quiet.progress [OF p s])
qed

lemma gate_progress_other:
  assumes "gate_progress (i # is) g G" and "i \<notin> {StopGate g, AwaitQuiet g, PrepareGate g, OpenGate g}"
  shows "gate_progress is g G"
  using assms by (auto simp: gate_progress_def)

lemma gate_progress_nil: "gate_progress p g G \<Longrightarrow> gate_progress [] g G"
  by (simp add: gate_progress_def)

lemma gate_progress_start:
  assumes "gate_reachable G"
  shows "gate_progress enable_call g G" "gate_progress disable_call g G" "gate_progress (stop_measurement @ stop_discovery) g G"
  using assms by (cases g; simp add: gate_progress_def call_defs)+

lemma start_marks:
  "StartListener \<in> set enable_call" "Sleep \<notin> set enable_call" "OpenGate DiscoveryGate \<notin> set disable_call"
  "ClearTimeouts \<in> set disable_call" "ZeroPeerCount \<in> set disable_call" "ResetPeers \<in> set disable_call"
  by (simp_all add: call_defs)

lemma call_head:
  assumes "call_rest (i # is)"
  shows "i = StopGate g \<Longrightarrow> AwaitQuiet g \<in> set is \<and> StopGate g \<notin> set is \<and> (OpenGate g \<in> set is \<longrightarrow> PrepareGate g \<in> set is)
      \<and> (OpenGate DiscoveryGate \<in> set is \<longrightarrow> OpenGate g \<in> set is)"
    "i = AwaitQuiet g \<Longrightarrow> AwaitQuiet g \<notin> set is \<and> StopGate g \<notin> set is \<and> (OpenGate g \<in> set is \<longrightarrow> PrepareGate g \<in> set is)
      \<and> (OpenGate DiscoveryGate \<in> set is \<longrightarrow> OpenGate g \<in> set is)"
    "i = PrepareGate g \<Longrightarrow> AwaitQuiet g \<notin> set is \<and> PrepareGate g \<notin> set is \<and> Sleep \<notin> set is \<and> OpenGate g \<in> set is"
    "i = OpenGate g \<Longrightarrow> AwaitQuiet g \<notin> set is \<and> PrepareGate g \<notin> set is \<and> Sleep \<notin> set is \<and> OpenGate g \<notin> set is
      \<and> (g = DiscoveryGate \<longrightarrow> is = [] )"
    "i = CheckEnabled \<longleftrightarrow> i # is = enable_call" "i = ClearEnabled \<longleftrightarrow> i # is = disable_call"
    "i = StartListener \<Longrightarrow> Sleep \<notin> set is"
  using assms unfolding call_rest_def call_defs by (cases g; auto simp: suffix_Cons)+

lemma call_rest_simps [simp]: "call_rest []" "call_rest enable_call" "call_rest disable_call" "call_rest (stop_measurement @ stop_discovery)"
  by (auto simp: call_rest_def)

lemma not_enabled_inside:
  assumes "call_rest (i # is)" and "state_progress (i # is) L" and "i \<notin> {CheckEnabled, ClearEnabled}"
  shows "\<not> is_enabled L" "\<not> callbacks_closed L"
  using assms call_head(5,6) [OF assms(1)] by (auto simp: state_progress_def)

lemma state_progress_other:
  assumes "call_rest (i # is)" and "state_progress (i # is) L"
    and "i \<notin> {CheckEnabled, ClearEnabled, StartListener, ClearTimeouts, ZeroPeerCount, ResetPeers}"
  shows "state_progress is L"
  using assms(2,3) not_enabled_inside [OF assms(1,2)] by (auto simp: state_progress_def)

text \<open>The gate of an instruction about a gate.\<close>

lemma stop_gate_progress:
  assumes "call_rest (StopGate g # is)" and "gate_progress (StopGate g # is) g G"
  shows "gate_progress is g (stop_begin G)"
  using call_head(1) [OF assms(1)] assms(2) gr_step [OF _ gs_stop, of G] by (auto simp: gate_progress_def stop_begin_def)

lemma quiet_gate_progress:
  assumes "call_rest (AwaitQuiet g # is)" and "gate_progress (AwaitQuiet g # is) g G"
    and "stopping G" and "\<forall>c\<in>set (consumers G). \<not> has_permit (pc c)"
  shows "gate_progress is g (stop_return G)"
  using call_head(2) [OF assms(1)] assms(2) gr_step [OF _ gs_stopped, of G] assms(3,4)
  by (auto simp: gate_progress_def stop_return_def)

lemma prepare_gate_progress:
  assumes "call_rest (PrepareGate g # is)" and "gate_progress (PrepareGate g # is) g G"
  shows "gate_progress is g (start_prepare G)"
proof -
  have "stopped G" "gate_reachable G" using assms(2) call_head(3) [OF assms(1)] by (auto simp: gate_progress_def)
  moreover have "\<not> is_open G" using gate_reachable_ok [OF calculation(2)] calculation(1) by (simp add: gate_ok_def is_open_def)
  ultimately show ?thesis
    using call_head(3) [OF assms(1)] gr_step [OF _ gs_prepare, of G] by (auto simp: gate_progress_def start_prepare_def)
qed

lemma open_gate_progress:
  assumes "call_rest (OpenGate g # is)" and "gate_progress (OpenGate g # is) g G" and "start_open b G = Some G'"
  shows "gate_progress is g G'" "is_open G'"
proof -
  have G': "is_open G'" using assms(3) by (auto simp: start_open_def is_open_def split: option.splits if_splits)
  have "gate_reachable G'" using assms(2) gr_step [OF _ gs_open [OF assms(3)]] by (simp add: gate_progress_def)
  then show "gate_progress is g G'" "is_open G'"
    using call_head(4) [OF assms(1)] G' by (auto simp: gate_progress_def)
qed

lemma waiting_not_open:
  assumes "call_rest (OpenGate g # is)" and "gate_progress (OpenGate g # is) g G"
  shows "\<exists>e. starting G = Some e" "\<not> is_open G"
proof -
  show "\<exists>e. starting G = Some e" using assms(2) call_head(4) [OF assms(1)] by (auto simp: gate_progress_def)
  then show "\<not> is_open G"
    using assms(2) by (auto simp: gate_progress_def gate_ok_def is_open_def dest!: gate_reachable_ok)
qed

lemma set_gate_ok:
  assumes "call_rest (i # is)" and "\<And>g. gate_progress (i # is) g (gates L g)" and "state_progress (i # is) L"
    and "i \<in> {StopGate h, AwaitQuiet h, PrepareGate h}" and "gate_progress is h G" and "remaining L = is"
  shows "lc_ok (set_gate h G L)"
proof -
  have "state_progress is L" using assms(4) by (intro state_progress_other [OF assms(1,3)]) auto
  moreover have "\<not> is_enabled L" using assms(4) by (intro not_enabled_inside [OF assms(1,3)]) auto
  ultimately have "state_progress is (set_gate h G L)" by (auto simp: state_progress_def)
  moreover have "gate_progress is g (gates L g)" if "g \<noteq> h" for g
    using assms(4) that by (intro gate_progress_other [OF assms(2)]) auto
  ultimately show ?thesis using assms(1,5,6) call_rest_Cons by (auto simp: lc_ok_def)
qed

lemma open_ok:
  assumes "call_rest (OpenGate h # is)" and "\<And>g. gate_progress (OpenGate h # is) g (gates L g)"
    and "state_progress (OpenGate h # is) L" and "open_gate h L = Some L'" and "remaining L = is"
  shows "lc_ok L'"
proof -
  obtain G where G: "start_open True (gates L h) = Some G" "L' = set_gate h G (publish_policy h L)"
    using assms(4) waiting_not_open [OF assms(1,2)] by (auto simp: open_gate_def)
  note own = open_gate_progress [OF assms(1,2) G(1)]
  have others: "gate_progress is g (gates L g)" if "g \<noteq> h" for g
    using that by (intro gate_progress_other [OF assms(2)]) auto
  have s: "state_progress is L" by (rule state_progress_other [OF assms(1,3)]) auto
  have "state_progress is L'"
  proof (cases "h = DiscoveryGate")
    case True
    then have "is_open (gates L' g)" for g
      using assms(2) [of g] own G(2) call_head(4) [OF assms(1)] by (auto simp: gate_progress_def publish_policy_def)
    moreover have "listener_started L" using assms(1,3) True call_head(4) [OF assms(1)] by (auto simp: state_progress_def)
    ultimately show ?thesis using s G(2) True call_head(4) [OF assms(1)] by (auto simp: state_progress_def publish_policy_def)
  next
    case False
    moreover have "\<not> is_enabled L" by (rule not_enabled_inside [OF assms(1,3)]) auto
    ultimately show ?thesis using s G(2) by (auto simp: state_progress_def publish_policy_def)
  qed
  then show ?thesis
    using others own G(2) assms(5) call_rest_Cons [OF assms(1)] by (auto simp: lc_ok_def publish_policy_def)
qed

lemma state_instr_ok:
  assumes "call_rest (i # is)" and "state_progress (i # is) L" and "exec E node now now' locked i L = Some L'"
    and "i \<in> {ClearTimeouts, ZeroPeerCount, ResetPeers, ClearEnabled, ResetState, SendByebye, Sleep}"
  shows "state_progress is L' \<and> gates L' = gates L \<and> remaining L' = remaining L"
proof -
  note inside = not_enabled_inside [OF assms(1,2)]
  show ?thesis
  proof (cases i)
    case ClearTimeouts
    then have "L' = L\<lparr>gw := stop_gateway (gw L)\<rparr>" using assms(3) by simp
    then show ?thesis using assms(2) inside ClearTimeouts by (simp add: state_progress_def no_peers_left_def stop_gateway_def)
  next
    case ZeroPeerCount
    then have "L' = L\<lparr>ctl := (ctl L)\<lparr>session_peer_count := 0\<rparr>\<rparr>" using assms(3) by simp
    then show ?thesis using assms(2) inside ZeroPeerCount by (simp add: state_progress_def no_peers_left_def)
  next
    case ResetPeers
    then have "L' = L\<lparr>ctl := (ctl L)\<lparr>sess := reset_peers (sess (ctl L))\<rparr>\<rparr>" using assms(3) by simp
    then show ?thesis
      using assms(2) inside ResetPeers by (simp add: state_progress_def no_peers_left_def reset_peers_def with_observer_state_def)
  next
    case ClearEnabled
    then have "L' = L\<lparr>is_enabled := False\<rparr>" using assms(3) by simp
    then show ?thesis using assms(2) ClearEnabled by (simp add: state_progress_def no_peers_left_def)
  next
    case ResetState
    then show ?thesis
      using assms(3) reset_quiet.progress [OF call_rest_Cons [OF assms(1)] state_progress_other [OF assms(1,2)]] by auto
  next
    case SendByebye
    then have L': "gates L' = gates L" "remaining L' = remaining L" "ctl L' = ctl L" "gw L' = gw L" "is_enabled L' = is_enabled L"
      "listener_started L' = listener_started L" "callbacks_closed L' = callbacks_closed L" using assms(3) by (auto split: if_splits)
    have "state_progress is L" using SendByebye by (intro state_progress_other [OF assms(1,2)]) simp
    then have "state_progress is L'" by (rule state_progress_gates) (simp_all add: L')
    then show ?thesis using L' by simp
  qed (use assms(3,4) state_progress_other [OF assms(1,2)] in auto)
qed

lemma start_listener_ok:
  assumes "call_rest (StartListener # is)" and "\<And>g. gate_progress (StartListener # is) g (gates L g)"
    and "state_progress (StartListener # is) L" and "exec E node now now' locked StartListener L = Some L'" and "remaining L = is"
  shows "lc_ok L'"
proof -
  have "gate_progress is g (gates L g)" for g using gate_progress_other [OF assms(2), of g] by auto
  moreover have "gate_progress is DiscoveryGate (subscribe (gates L DiscoveryGate))"
    by (rule gate_progress_tasks [OF calculation]) (simp add: task_step_def gs_subscribe, simp add: subscribe_def)
  moreover have "state_progress is L'"
    using assms(3,4) call_head(7) [OF assms(1)] not_enabled_inside [OF assms(1,3)]
    by (auto simp: state_progress_def split: if_splits)
  ultimately show ?thesis using assms(4,5) call_rest_Cons [OF assms(1)] by (auto simp: lc_ok_def)
qed

lemma check_enabled_ok:
  assumes "call_rest (CheckEnabled # is)" and "\<And>g. gate_progress (CheckEnabled # is) g (gates L g)"
    and "state_progress (CheckEnabled # is) L" and "exec E node now now' locked CheckEnabled L = Some L'" and "remaining L = is"
  shows "lc_ok L'"
proof (cases "is_enabled L")
  case True
  then have L': "L' = L\<lparr>remaining := []\<rparr>" using assms(4) by simp
  have "state_progress [] L'" using assms(3) by (auto simp: L' state_progress_def)
  then show ?thesis using gate_progress_nil [OF assms(2)] by (auto simp: lc_ok_def L')
next
  case False
  then have "state_progress is L" "L' = L" using assms(3,4) by (simp_all add: state_progress_def)
  then show ?thesis using gate_progress_other [OF assms(2)] assms(5) call_rest_Cons [OF assms(1)] by (auto simp: lc_ok_def)
qed

lemma proceed_ok:
  assumes "lc_ok L" and "remaining L = i # is" and "exec E node now now' locked i (L\<lparr>remaining := is\<rparr>) = Some L'"
  shows "lc_ok L'"
proof -
  let ?L = "L\<lparr>remaining := is\<rparr>"
  have p: "call_rest (i # is)" and g: "\<And>g. gate_progress (i # is) g (gates ?L g)" and s: "state_progress (i # is) ?L"
    using assms(1,2) by (auto simp: lc_ok_def state_progress_def no_peers_left_def)
  have state: "lc_ok L'" if "i \<in> {ClearTimeouts, ZeroPeerCount, ResetPeers, ClearEnabled, ResetState, SendByebye, Sleep}"
    using state_instr_ok [OF p s assms(3) that] gate_progress_other [OF g] call_rest_Cons [OF p] that by (auto simp: lc_ok_def)
  show ?thesis
  proof (cases i)
    case CheckEnabled
    show ?thesis by (rule check_enabled_ok [OF p [unfolded CheckEnabled] g [unfolded CheckEnabled] s [unfolded CheckEnabled]
        assms(3) [unfolded CheckEnabled]]) simp
  next
    case StartListener
    show ?thesis by (rule start_listener_ok [OF p [unfolded StartListener] g [unfolded StartListener] s [unfolded StartListener]
        assms(3) [unfolded StartListener]]) simp
  next
    case (StopGate h)
    then show ?thesis using assms(3) set_gate_ok [OF p g s, of h] stop_gate_progress [of h "is" "gates L h"] p g [of h] by auto
  next
    case (AwaitQuiet h)
    then show ?thesis
      using assms(3) set_gate_ok [OF p g s, of h] quiet_gate_progress [of h "is" "gates L h"] p g [of h] by (auto split: if_splits)
  next
    case (PrepareGate h)
    then show ?thesis using assms(3) set_gate_ok [OF p g s, of h] prepare_gate_progress [of h "is" "gates L h"] p g [of h] by auto
  next
    case (OpenGate h)
    then show ?thesis using assms(3) open_ok [of h "is" ?L L'] p g s by auto
  qed (use state in auto)
qed

lemma lc_step_ok:
  assumes "lc_step E a L L'" and "lc_ok L"
  shows "lc_ok L'"
proof -
  have g: "gate_reachable (gates L g)" for g using assms(2) by (simp add: lc_ok_def gate_progress_def)
  have s: "state_progress (remaining L) L" using assms(2) by (simp add: lc_ok_def)
  have calls: "state_progress enable_call (L\<lparr>remaining := enable_call\<rparr>)" "state_progress disable_call (L\<lparr>remaining := disable_call\<rparr>)"
    if "\<not> callbacks_closed L"
    using s that start_marks by (simp_all add: state_progress_def)
  show ?thesis
  proof (cases a)
    case Background
    then show ?thesis using assms by (auto intro: background_ok)
  next
    case Proceed
    then show ?thesis using assms by (auto elim!: lc_step.cases intro: proceed_ok)
  next
    case CallEnable
    then have "L' = L\<lparr>remaining := enable_call\<rparr>" "\<not> callbacks_closed L" using assms(1) by (auto elim: lc_step.cases)
    then show ?thesis using calls gate_progress_start(1) [OF g] by (simp add: lc_ok_def)
  next
    case CallDisable
    then have "L' = L\<lparr>remaining := disable_call\<rparr>" "\<not> callbacks_closed L" using assms(1) by (auto elim: lc_step.cases)
    then show ?thesis using calls gate_progress_start(2) [OF g] by (simp add: lc_ok_def)
  next
    case Cancel
    then have L': "L' = L\<lparr>remaining := []\<rparr>" using assms(1) by (auto elim: lc_step.cases)
    then have "state_progress [] L'" using s by (auto simp: state_progress_def)
    then show ?thesis using g by (simp add: lc_ok_def L' gate_progress_def)
  next
    case DropIt
    then have L': "L' = drop_controller L" using assms(1) by (auto elim: lc_step.cases)
    then have "state_progress [] L'" by (simp add: state_progress_def drop_controller_def)
    then show ?thesis using g gr_step [OF g gs_close] by (simp add: lc_ok_def L' gate_progress_def drop_controller_def)
  qed
qed

lemma new_lifecycle_ok: "lc_ok (new_lifecycle C (new_gateway t) M)"
proof -
  let ?L = "new_lifecycle C (new_gateway t) M"
  have "gate_reachable (gates ?L g)" for g
    by (auto simp: new_lifecycle_def split: gate_name.splits intro!: gr_new gr_new_open gr_step [OF _ gs_subscribe])
  moreover have "state_progress (remaining ?L) ?L" by (simp add: state_progress_def new_lifecycle_def call_defs)
  moreover have "remaining ?L = stop_measurement @ stop_discovery" by (simp add: new_lifecycle_def)
  ultimately show ?thesis by (simp add: lc_ok_def gate_progress_start)
qed

lemma lc_reachable_ok: "lc_reachable E L \<Longrightarrow> lc_ok L"
  by (induction rule: lc_reachable.induct) (auto intro: new_lifecycle_ok lc_step_ok)

section \<open>After disabling\<close>

text \<open>Every step but a call of \<open>enable\<close>.\<close>

definition idle_step :: "ext \<Rightarrow> lifecycle \<Rightarrow> lifecycle \<Rightarrow> bool" where
  "idle_step E L L' \<longleftrightarrow> (\<exists>a. a \<noteq> CallEnable \<and> lc_step E a L L')"

definition at_rest :: "lifecycle \<Rightarrow> bool" where
  "at_rest L \<longleftrightarrow>
     \<not> is_enabled L \<and> (\<forall>g. stopped (gates L g)) \<and> no_peers_left L \<and> session_peer_count (ctl L) = 0 \<and> timeouts (gw L) = []"

lemma disable_rests:
  assumes "lc_ok L" and "remaining L = [Sleep]"
  shows "at_rest L"
  using assms by (auto simp: lc_ok_def gate_progress_def state_progress_def at_rest_def call_defs)

lemma suffix_disable_Cons:
  assumes "suffix (i # is) disable_call"
  shows "suffix is disable_call" "i \<notin> {CheckEnabled, StartListener}" "i \<noteq> PrepareGate g" "i \<noteq> OpenGate g"
  using assms by (auto dest: suffix_ConsD) (auto simp: call_defs suffix_Cons)

lemma exec_rests:
  assumes "at_rest L" and "suffix (i # is) disable_call" and "exec E node now now' locked i (L\<lparr>remaining := is\<rparr>) = Some L'"
  shows "at_rest L' \<and> remaining L' = is"
proof -
  note rest = assms(1) [unfolded at_rest_def no_peers_left_def] and exec = assms(3)
  note off = suffix_disable_Cons(2-4) [OF assms(2)]
  show ?thesis
  proof (cases i)
    case (StopGate g)
    then show ?thesis using rest exec by (auto simp: at_rest_def no_peers_left_def stop_begin_def close_gate_def)
  next
    case (AwaitQuiet g)
    then show ?thesis using rest exec by (auto simp: at_rest_def no_peers_left_def stop_return_def split: if_splits)
  next
    case ResetState
    then show ?thesis
      using rest exec reset_quiet.no_peers [of "ctl L" E node now now'] reset_quiet.no_count [of "ctl L" E node now now']
      by (auto simp: at_rest_def no_peers_left_def)
  next
    case SendByebye
    then show ?thesis using rest exec by (auto simp: at_rest_def no_peers_left_def split: if_splits)
  qed (use rest exec off in \<open>auto simp: at_rest_def no_peers_left_def stop_gateway_def reset_peers_def with_observer_state_def\<close>)
qed

lemma background_rests:
  assumes "lc_step E Background L L'" and "lc_ok L" and "at_rest L"
  shows "at_rest L' \<and> remaining L' = remaining L"
proof -
  have "\<not> working (gates L g)" for g
    using assms(2,3) not_working_stopped by (auto simp: lc_ok_def gate_progress_def at_rest_def)
  with assms(3) show ?thesis
    by - (rule lc_step.cases [OF assms(1)];
      auto simp: at_rest_def no_peers_left_def task_step_def enable_start_stop_sync_def committed_def prune_first_def
        edit_quiet.no_peers edit_quiet.no_count refresh_quiet.no_peers refresh_quiet.no_count
        endpoint_quiet.no_peers endpoint_quiet.no_count)
qed

lemma idle_step_rests:
  assumes "idle_step E L L'" and "lc_ok L" and "at_rest L" and "suffix (remaining L) disable_call"
  shows "at_rest L' \<and> suffix (remaining L') disable_call"
proof -
  obtain a where a: "a \<noteq> CallEnable" "lc_step E a L L'" using assms(1) by (auto simp: idle_step_def)
  show ?thesis
  proof (cases a)
    case Background
    then show ?thesis using a background_rests [OF _ assms(2,3)] assms(4) by metis
  next
    case Proceed
    then obtain i "is" node now now' locked where p: "remaining L = i # is"
      "exec E node now now' locked i (L\<lparr>remaining := is\<rparr>) = Some L'" using a by (auto elim: lc_step.cases)
    then show ?thesis using exec_rests [OF assms(3) _ p(2)] assms(4) suffix_disable_Cons(1) by simp
  qed (use a assms(3) in \<open>auto elim!: lc_step.cases simp: at_rest_def no_peers_left_def drop_controller_def close_gate_def\<close>)
qed

lemma idle_steps_rest:
  assumes "(idle_step E)\<^sup>*\<^sup>* L L'" and "lc_reachable E L" and "remaining L = [Sleep]"
  shows "at_rest L' \<and> lc_reachable E L' \<and> suffix (remaining L') disable_call"
  using assms(1)
proof (induction rule: rtranclp_induct)
  case base
  then show ?case using assms(2,3) disable_rests [OF lc_reachable_ok] by (simp add: call_defs suffix_Cons)
next
  case (step L' L'')
  then have "lc_reachable E L''" by (auto simp: idle_step_def intro: lc_next)
  then show ?case using step idle_step_rests lc_reachable_ok by blast
qed

section \<open>Enabling can always finish\<close>

definition any_step :: "ext \<Rightarrow> lifecycle \<Rightarrow> lifecycle \<Rightarrow> bool" where
  "any_step E L L' \<longleftrightarrow> (\<exists>a. lc_step E a L L')"

lemma any_steps_reachable: "(any_step E)\<^sup>*\<^sup>* L L' \<Longrightarrow> lc_reachable E L \<Longrightarrow> lc_reachable E L'"
  by (induction rule: rtranclp_induct) (auto simp: any_step_def intro: lc_next)

lemma tasks_lift: "task_step\<^sup>*\<^sup>* (gates L g) G \<Longrightarrow> (any_step E)\<^sup>*\<^sup>* L (set_gate g G L)"
proof (induction rule: rtranclp_induct)
  case base
  then show ?case by (simp add: set_gate_def)
next
  case (step G G')
  then have "lc_step E Background (set_gate g G L) (set_gate g G' (set_gate g G L))" by (intro lc_tasks) simp
  then have "any_step E (set_gate g G L) (set_gate g G' L)" by (auto simp: any_step_def set_gate_def)
  then show ?case using step.IH by auto
qed

lemma waits_finish:
  assumes "lc_reachable E L" and "remaining L = i # is" and "i \<noteq> CheckEnabled"
  shows "\<exists>M. (any_step E)\<^sup>*\<^sup>* L M \<and> remaining M = i # is \<and> callbacks_closed M = callbacks_closed L
           \<and> exec E [] 0 0 False i (M\<lparr>remaining := is\<rparr>) \<noteq> None"
proof -
  have p: "call_rest (i # is)" and g: "\<And>g. gate_progress (i # is) g (gates L g)"
    using lc_reachable_ok [OF assms(1)] assms(2) by (auto simp: lc_ok_def)
  have r: "gate_ok (gates L g)" for g using g [of g] by (auto simp: gate_progress_def intro: gate_reachable_ok)
  show ?thesis
  proof (cases i)
    case (AwaitQuiet h)
    then have h: "stopping (gates L h)" using g [of h] call_head(2) [OF p] by (auto simp: gate_progress_def)
    then have "g_state (gates L h) = Shut" using r [of h] by (simp add: gate_ok_def)
    then obtain cs where cs: "task_step\<^sup>*\<^sup>* (gates L h) ((gates L h)\<lparr>consumers := cs\<rparr>)" "\<forall>c\<in>set cs. \<not> has_permit (pc c)"
      using all_release by blast
    then show ?thesis
      using tasks_lift [OF cs(1)] h AwaitQuiet assms(2) by (intro exI [of _ "set_gate h ((gates L h)\<lparr>consumers := cs\<rparr>) L"]) auto
  next
    case (OpenGate h)
    then obtain e where e: "starting (gates L h) = Some e" using waiting_not_open(1) [of h "is" "gates L h"] p g [of h] by blast
    then obtain cs where cs: "task_step\<^sup>*\<^sup>* (gates L h) ((gates L h)\<lparr>consumers := cs\<rparr>)" "\<forall>c\<in>set cs. e \<le> prepared_epoch c"
      using all_acknowledge [OF r] by blast
    then have "start_open True ((gates L h)\<lparr>consumers := cs\<rparr>) \<noteq> None" using e by (auto simp: start_open_def)
    then show ?thesis
      using tasks_lift [OF cs(1)] OpenGate assms(2)
      by (intro exI [of _ "set_gate h ((gates L h)\<lparr>consumers := cs\<rparr>) L"]) (auto simp: open_gate_def)
  qed (use assms(2,3) in \<open>auto intro!: exI [of _ L]\<close>)
qed

lemma exec_remaining:
  assumes "exec E node now now' locked i (L\<lparr>remaining := is\<rparr>) = Some L'" and "i \<noteq> CheckEnabled"
  shows "remaining L' = is" "callbacks_closed L' = callbacks_closed L" "i = OpenGate DiscoveryGate \<Longrightarrow> is_enabled L'"
  using assms by (cases i; auto simp: open_gate_def publish_policy_def split: if_splits)+

lemma instr_runs:
  assumes "lc_reachable E L" and "remaining L = i # is" and "i \<noteq> CheckEnabled"
  shows "\<exists>L'. (any_step E)\<^sup>*\<^sup>* L L' \<and> remaining L' = is \<and> callbacks_closed L' = callbacks_closed L
           \<and> (i = OpenGate DiscoveryGate \<longrightarrow> is_enabled L')"
proof -
  obtain M L' where M: "(any_step E)\<^sup>*\<^sup>* L M" "remaining M = i # is" "callbacks_closed M = callbacks_closed L"
    "exec E [] 0 0 False i (M\<lparr>remaining := is\<rparr>) = Some L'"
    using waits_finish [OF assms] by blast
  have "any_step E M L'" using lc_proceed [OF M(2,4)] by (auto simp: any_step_def)
  then have "(any_step E)\<^sup>*\<^sup>* L L'" using M(1) by auto
  then show ?thesis using exec_remaining [OF M(4) assms(3)] M(3) by blast
qed

lemma call_runs:
  assumes "lc_reachable E L" and "remaining L = xs @ ys" and "CheckEnabled \<notin> set xs"
  shows "\<exists>L'. (any_step E)\<^sup>*\<^sup>* L L' \<and> remaining L' = ys \<and> callbacks_closed L' = callbacks_closed L"
  using assms
proof (induction xs arbitrary: L)
  case Nil
  then show ?case by auto
next
  case (Cons i xs)
  then obtain L1 where L1: "(any_step E)\<^sup>*\<^sup>* L L1" "remaining L1 = xs @ ys" "callbacks_closed L1 = callbacks_closed L"
    using instr_runs [of E L i "xs @ ys"] by auto
  then obtain L2 where "(any_step E)\<^sup>*\<^sup>* L1 L2" "remaining L2 = ys" "callbacks_closed L2 = callbacks_closed L1"
    using Cons.IH [OF any_steps_reachable [OF L1(1) Cons.prems(1)]] Cons.prems(3) by auto
  then show ?case using L1 by (auto intro: rtranclp_trans)
qed

lemma new_call:
  assumes "\<not> callbacks_closed L"
  shows "(any_step E)\<^sup>*\<^sup>* L (L\<lparr>remaining := enable_call\<rparr>)" "(any_step E)\<^sup>*\<^sup>* L (L\<lparr>remaining := disable_call\<rparr>)"
proof -
  have "any_step E L (L\<lparr>remaining := []\<rparr>)" by (auto simp: any_step_def intro: lc_cancel)
  moreover have "any_step E (L\<lparr>remaining := []\<rparr>) (L\<lparr>remaining := enable_call\<rparr>)"
    using lc_enable [of "L\<lparr>remaining := []\<rparr>" E] assms by (auto simp: any_step_def)
  moreover have "any_step E (L\<lparr>remaining := []\<rparr>) (L\<lparr>remaining := disable_call\<rparr>)"
    using lc_disable [of "L\<lparr>remaining := []\<rparr>" E] assms by (auto simp: any_step_def)
  ultimately show "(any_step E)\<^sup>*\<^sup>* L (L\<lparr>remaining := enable_call\<rparr>)" "(any_step E)\<^sup>*\<^sup>* L (L\<lparr>remaining := disable_call\<rparr>)"
    by (auto intro: converse_rtranclp_into_rtranclp)
qed

lemma enable_runs:
  assumes "lc_reachable E L" and "\<not> callbacks_closed L"
  shows "\<exists>L'. (any_step E)\<^sup>*\<^sup>* L L' \<and> is_enabled L' \<and> \<not> callbacks_closed L'"
proof (cases "is_enabled L")
  case False
  let ?A = "L\<lparr>remaining := enable_call\<rparr>" and ?B = "L\<lparr>remaining := tl enable_call\<rparr>"
  have "lc_step E Proceed ?A ?B" using False by (intro lc_proceed) (auto simp: enable_call_def)
  then have "any_step E ?A ?B" by (auto simp: any_step_def)
  then have B: "(any_step E)\<^sup>*\<^sup>* L ?B" using new_call(1) [OF assms(2), of E] by simp
  obtain M where M: "(any_step E)\<^sup>*\<^sup>* ?B M" "remaining M = [OpenGate DiscoveryGate]" "callbacks_closed M = callbacks_closed L"
    using call_runs [OF any_steps_reachable [OF B assms(1)], of "butlast (tl enable_call)" "[OpenGate DiscoveryGate]"]
    by (auto simp: call_defs)
  then have M': "(any_step E)\<^sup>*\<^sup>* L M" using B by auto
  show ?thesis using instr_runs [OF any_steps_reachable [OF M' assms(1)] M(2)] M(3) M' assms(2) by (auto intro: rtranclp_trans)
qed (use assms(2) in auto)

lemma disable_runs:
  assumes "lc_reachable E L" and "\<not> callbacks_closed L"
  shows "\<exists>L'. (any_step E)\<^sup>*\<^sup>* L L' \<and> remaining L' = [Sleep] \<and> \<not> callbacks_closed L'"
proof -
  note A = new_call(2) [OF assms(2), of E]
  have "\<exists>L'. (any_step E)\<^sup>*\<^sup>* (L\<lparr>remaining := disable_call\<rparr>) L' \<and> remaining L' = [Sleep] \<and> callbacks_closed L' = callbacks_closed L"
    using call_runs [OF any_steps_reachable [OF A assms(1)], of "butlast disable_call" "[Sleep]"] by (auto simp: call_defs)
  then show ?thesis using A assms(2) by (auto intro: rtranclp_trans)
qed

section \<open>Properties of the lifecycle\<close>

abbreviation sample_lifecycle :: lifecycle where
  "sample_lifecycle \<equiv> new_lifecycle (new_controller std_ext (Tempo (Fin 120)) (replicate 8 3) 1000000 1000000 0 1) (new_gateway 0)
     (new_messenger (sound_host 0) (Some [wired]) 0 default_identity sample_peer 0)"

lemma sample_lifecycle_reachable: "lc_reachable std_ext sample_lifecycle" "\<not> callbacks_closed sample_lifecycle"
  by (rule lc_new, simp add: new_lifecycle_def)

text \<open>C11: An enabled controller is wholly running. However \<open>enable\<close> and \<open>disable\<close> are called, cancelled at
  any \<open>await\<close> and called again, while the loops, the application and the network go on: whenever the flag
  says enabled, the gates of the measurements, of discovery and of the dispatch loops are all open and the listener of the
  discovery events has been started. No cancelled call leaves a controller that claims to be enabled
  with a part of it shut.\<close>

theorem enabled_means_open:
  assumes "lc_reachable E L" and "is_enabled L" and "\<not> callbacks_closed L"
  shows "(\<forall>g. is_open (gates L g)) \<and> listener_started L"
  using lc_reachable_ok [OF assms(1)] assms(2,3) by (auto simp: lc_ok_def state_progress_def)

theorem enabled_means_open_witness:
  "\<exists>L. lc_reachable std_ext L \<and> is_enabled L \<and> is_open (gates L DiscoveryGate) \<and> listener_started L"
proof -
  obtain L where L: "(any_step std_ext)\<^sup>*\<^sup>* sample_lifecycle L" "is_enabled L" "\<not> callbacks_closed L"
    using enable_runs [OF sample_lifecycle_reachable] by blast
  have "lc_reachable std_ext L" by (rule any_steps_reachable [OF L(1) sample_lifecycle_reachable(1)])
  then show ?thesis using enabled_means_open [OF _ L(2,3)] L(2) by blast
qed

text \<open>C9: A disabled controller is at rest until it is enabled again. Once \<open>disable\<close> has come to its last wait, and
  from then on whatever the application edits, however often it disables or cancels, and whatever arrives from the network, until the next call of
  \<open>enable\<close>: the flag is off, no gate is open, no loop dispatches a batch, there are no peers, the peer count
  is zero and no peer deadline is pending.\<close>

theorem disable_quiesces:
  assumes "lc_reachable E L" and "remaining L = [Sleep]" and "(idle_step E)\<^sup>*\<^sup>* L L'"
  shows "\<not> is_enabled L' \<and> (\<forall>g. \<not> is_open (gates L' g) \<and> \<not> working (gates L' g))
       \<and> peers (sess (ctl L')) = [] \<and> num_peers locked L' = 0 \<and> timeouts (gw L') = []"
proof -
  have r: "at_rest L'" "lc_reachable E L'" using idle_steps_rest [OF assms(3,1,2)] by auto
  have g: "gate_reachable (gates L' g)" "stopped (gates L' g)" for g
    using lc_reachable_ok [OF r(2)] r(1) by (auto simp: lc_ok_def gate_progress_def at_rest_def)
  have "\<not> is_open (gates L' g)" for g using gate_reachable_ok [OF g(1), of g] g(2) [of g] by (auto simp: gate_ok_def is_open_def)
  then show ?thesis
    using r(1) not_working_stopped [OF g] by (auto simp: at_rest_def no_peers_left_def num_peers_def)
qed

theorem disable_quiesces_witness:
  "\<exists>L. lc_reachable std_ext L \<and> remaining L = [Sleep] \<and> \<not> is_open (gates L DiscoveryGate) \<and> num_peers False L = 0"
proof -
  obtain L where L: "(any_step std_ext)\<^sup>*\<^sup>* sample_lifecycle L" "remaining L = [Sleep]"
    using disable_runs [OF sample_lifecycle_reachable] by blast
  have "lc_reachable std_ext L" by (rule any_steps_reachable [OF L(1) sample_lifecycle_reachable(1)])
  then show ?thesis using disable_quiesces [OF _ L(2) rtranclp.rtrancl_refl, of std_ext False] L(2) by blast
qed

text \<open>C28: No cancelled call blocks the next one. From every reachable state of a controller that has not been dropped, whatever was
  cancelled and whatever the loops are doing, there is a run that ends enabled with all gates open, and one in which
  \<open>disable\<close> comes to its last wait: the loops can always give their permits back and acknowledge the new
  lifecycle.\<close>

theorem calls_can_finish:
  assumes "lc_reachable E L" and "\<not> callbacks_closed L"
  shows "(\<exists>L'. (any_step E)\<^sup>*\<^sup>* L L' \<and> is_enabled L' \<and> (\<forall>g. is_open (gates L' g)))
       \<and> (\<exists>L'. (any_step E)\<^sup>*\<^sup>* L L' \<and> remaining L' = [Sleep])"
proof -
  obtain L' where L': "(any_step E)\<^sup>*\<^sup>* L L'" "is_enabled L'" "\<not> callbacks_closed L'" using enable_runs [OF assms] by blast
  have "lc_ok L'" by (rule lc_reachable_ok [OF any_steps_reachable [OF L'(1) assms(1)]])
  then have "\<forall>g. is_open (gates L' g)" using L'(2,3) by (auto simp: lc_ok_def state_progress_def)
  then show ?thesis using L' disable_runs [OF assms] by blast
qed

theorem calls_can_finish_witness:
  "\<exists>L'. (any_step std_ext)\<^sup>*\<^sup>* sample_lifecycle L' \<and> is_enabled L' \<and> (\<forall>g. is_open (gates L' g))"
  using calls_can_finish [OF sample_lifecycle_reachable] by blast

end
