(* ===== verification/SafeRt.thy ===== *)
theory SafeRt
  imports ClientApi
begin

text \<open>
  The state an audio thread may touch: \<open>src/link/safe_rt_session_state.rs\<close> and its wrapper
  \<open>src/link/atomic_session_state.rs\<close>.

  The accepted state lives in two slots. A writer, who holds the mutex of the pending value, fills the slot that is
  not published and then switches the index; a reader counts itself in, loads the index and reads that slot with a
  try-lock it relies on never to fail. Every access to a shared variable is a step of its own, so that readers and
  the writer interleave freely (the atomics are sequentially consistent).

  The second part is the queue of one proposal with its ticket.
\<close>

section \<open>The accepted state\<close>

text \<open>
  What the holder of the mutex is doing: nobody holds it, flush has not started, the readers were seen to be zero,
  the slot is chosen, the slot is locked for writing, the slot is written and released, flush has ended.
\<close>

datatype flush_pc = Free | Held | Checked client_state | Chose client_state nat | Locked client_state nat
  | Written nat | Ended

text \<open>
  A reader: idle, with the count it loaded, counted in, with the index it loaded, reading the slot under its lock,
  with the value read, or in the branch marked unreachable.
\<close>

datatype reader_pc = Idle | Loaded nat | Pinned | Got nat | Reading nat client_state | Read client_state | Unreachable

record accepted =
  slots :: "nat \<Rightarrow> client_state"
  published :: nat
  readers :: nat
  pending :: "client_state option"
  writer :: flush_pc
  threads :: "reader_pc list"
  latest :: client_state

text \<open>\<open>latest\<close> records the last state given to \<open>publish\<close>; the code has no such variable.\<close>

definition new_accepted :: "client_state \<Rightarrow> nat \<Rightarrow> accepted" where
  "new_accepted initial n =
     \<lparr>slots = (\<lambda>_. initial), published = 0, readers = 0, pending = None, writer = Free,
      threads = replicate n Idle, latest = initial\<rparr>"

text \<open>One step of \<open>flush\<close> and of the operations around it.\<close>

definition slot_read_locked :: "accepted \<Rightarrow> nat \<Rightarrow> bool" where
  "slot_read_locked a i \<longleftrightarrow> (\<exists>v. Reading i v \<in> set (threads a))"

definition slot_write_locked :: "accepted \<Rightarrow> nat \<Rightarrow> bool" where
  "slot_write_locked a i \<longleftrightarrow> (case writer a of Locked _ n \<Rightarrow> n = i | _ \<Rightarrow> False)"

definition flush_step :: "accepted \<Rightarrow> accepted" where
  "flush_step a =
     (case writer a of
        Held \<Rightarrow>
          (case pending a of
             None \<Rightarrow> a\<lparr>writer := Ended\<rparr>
           | Some s \<Rightarrow> if readers a \<noteq> 0 then a\<lparr>writer := Ended\<rparr> else a\<lparr>writer := Checked s\<rparr>)
      | Checked s \<Rightarrow> a\<lparr>writer := Chose s (1 - published a)\<rparr>
      | Chose s n \<Rightarrow> if slot_read_locked a n then a\<lparr>writer := Ended\<rparr> else a\<lparr>writer := Locked s n\<rparr>
      | Locked s n \<Rightarrow> a\<lparr>slots := (slots a)(n := s), pending := None, writer := Written n\<rparr>
      | Written n \<Rightarrow> a\<lparr>published := n, writer := Ended\<rparr>
      | _ \<Rightarrow> a)"

abbreviation USIZE_MAX :: nat where "USIZE_MAX \<equiv> 2 ^ 64 - 1"

text \<open>One step of the reader of thread \<open>i\<close> after its try to flush; the value of a finished read is its result.\<close>

definition read_step :: "nat \<Rightarrow> accepted \<Rightarrow> accepted" where
  "read_step i a =
     (case threads a ! i of
        Idle \<Rightarrow> if readers a = USIZE_MAX then a else a\<lparr>threads := (threads a)[i := Loaded (readers a)]\<rparr>
      | Loaded r \<Rightarrow>
          if readers a = r then a\<lparr>readers := r + 1, threads := (threads a)[i := Pinned]\<rparr>
          else a\<lparr>threads := (threads a)[i := Idle]\<rparr>
      | Pinned \<Rightarrow> a\<lparr>threads := (threads a)[i := Got (published a)]\<rparr>
      | Got s \<Rightarrow>
          if slot_write_locked a s then a\<lparr>threads := (threads a)[i := Unreachable]\<rparr>
          else a\<lparr>threads := (threads a)[i := Reading s (slots a s)]\<rparr>
      | Reading s v \<Rightarrow> a\<lparr>threads := (threads a)[i := Read v]\<rparr>
      | Read v \<Rightarrow> a\<lparr>readers := readers a - 1, threads := (threads a)[i := Idle]\<rparr>
      | Unreachable \<Rightarrow> a)"

inductive acc_step :: "accepted \<Rightarrow> accepted \<Rightarrow> bool" where
  lock: "writer a = Free \<Longrightarrow> acc_step a (a\<lparr>writer := Held\<rparr>)"
| publish: "writer a = Free \<Longrightarrow> acc_step a (a\<lparr>pending := Some s, latest := s, writer := Held\<rparr>)"
| flush: "writer a \<notin> {Free, Ended} \<Longrightarrow> acc_step a (flush_step a)"
| unlock: "writer a = Ended \<Longrightarrow> acc_step a (a\<lparr>writer := Free\<rparr>)"
| reader: "i < length (threads a) \<Longrightarrow> acc_step a (read_step i a)"

text \<open>The application's read, under the mutex after a flush.\<close>

definition read_app :: "accepted \<Rightarrow> client_state" where
  "read_app a = slots a (published a)"

section \<open>Whole calls\<close>

text \<open>
  The accepted state as its callers see it when a call is not interrupted: the state in the published slot, and one that waits
  because a reader was counted in (\<open>busy_reader\<close>) when it should have been flushed. That the steps above do just this is shown below.
\<close>

record accepted_cache =
  shown :: client_state
  unflushed :: "client_state option"

definition cache_flush :: "bool \<Rightarrow> accepted_cache \<Rightarrow> accepted_cache" where
  "cache_flush busy_reader c =
     (case unflushed c of
        None \<Rightarrow> c
      | Some s \<Rightarrow> if busy_reader then c else c\<lparr>shown := s, unflushed := None\<rparr>)"

definition cache_publish :: "bool \<Rightarrow> client_state \<Rightarrow> accepted_cache \<Rightarrow> accepted_cache" where
  "cache_publish busy_reader s c = cache_flush busy_reader (c\<lparr>unflushed := Some s\<rparr>)"

datatype audio_capture_error = CaptureBusy | ReaderExhausted

text \<open>The audio thread's read: \<open>contended\<close> if the mutex of the pending state is taken, \<open>pin\<close> the failure of its one attempt to count
  itself in. A read that fails may have flushed before.\<close>

definition cache_read ::
  "bool \<Rightarrow> bool \<Rightarrow> audio_capture_error option \<Rightarrow> accepted_cache \<Rightarrow> accepted_cache \<times> (audio_capture_error + client_state)" where
  "cache_read contended busy_reader pin c =
     (let c = (if contended then c else cache_flush busy_reader c)
      in (c, case pin of Some e \<Rightarrow> Inl e | None \<Rightarrow> Inr (shown c)))"

definition cache_read_app :: "bool \<Rightarrow> accepted_cache \<Rightarrow> accepted_cache \<times> client_state" where
  "cache_read_app busy_reader c = (let c = cache_flush busy_reader c in (c, shown c))"

section \<open>The proposal queue\<close>

record audio_commit_ticket =
  queue :: nat
  ticket_sequence :: nat

datatype audio_queue_error = Busy | TicketExhausted | UnknownTicket

record pending_update =
  sequence :: nat
  incoming :: "incoming_client_state option"
  commit_result :: "(commit_error + unit) option"
  update_origin :: "session_edit_origin option"

record rt_handler =
  queue_id :: "nat option"
  has_pending :: bool
  update :: pending_update

definition new_handler :: "nat option \<Rightarrow> rt_handler" where
  "new_handler q =
     \<lparr>queue_id = q, has_pending = False,
      update = \<lparr>sequence = 0, incoming = None, commit_result = None, update_origin = None\<rparr>\<rparr>"

text \<open>\<open>locked\<close> says that the try-lock of the queue fails.\<close>

definition update_rt_client_state ::
  "bool \<Rightarrow> incoming_client_state \<Rightarrow> session_edit_origin option \<Rightarrow> rt_handler
     \<Rightarrow> rt_handler \<times> (audio_queue_error + audio_commit_ticket)" where
  "update_rt_client_state locked inc orig h =
     (case queue_id h of
        None \<Rightarrow> (h, Inl TicketExhausted)
      | Some q \<Rightarrow>
          if locked then (h, Inl Busy)
          else if incoming (update h) \<noteq> None \<or> commit_result (update h) \<noteq> None then (h, Inl Busy)
          else if sequence (update h) = 2 ^ 64 - 1 then (h, Inl TicketExhausted)
          else
            let u = (update h)\<lparr>sequence := sequence (update h) + 1, incoming := Some inc, update_origin := orig\<rparr>
            in (h\<lparr>update := u, has_pending := True\<rparr>, Inr \<lparr>queue = q, ticket_sequence = sequence u\<rparr>))"

definition pending_update_from_origin ::
  "rt_handler \<Rightarrow> (audio_commit_ticket \<times> incoming_client_state \<times> session_edit_origin option) option" where
  "pending_update_from_origin h =
     (case queue_id h of
        None \<Rightarrow> None
      | Some q \<Rightarrow>
          map_option (\<lambda>inc. (\<lparr>queue = q, ticket_sequence = sequence (update h)\<rparr>, inc, update_origin (update h)))
            (incoming (update h)))"

definition complete_pending_update ::
  "audio_commit_ticket \<Rightarrow> commit_error + unit \<Rightarrow> rt_handler \<Rightarrow> rt_handler \<times> bool" where
  "complete_pending_update t result h =
     (if queue_id h \<noteq> Some (queue t) then (h, False)
      else if ticket_sequence t \<noteq> sequence (update h) \<or> incoming (update h) = None then (h, False)
      else (h\<lparr>update := (update h)\<lparr>incoming := None, update_origin := None, commit_result := Some result\<rparr>,
              has_pending := False\<rparr>, True))"

definition take_commit_result ::
  "bool \<Rightarrow> audio_commit_ticket \<Rightarrow> rt_handler
     \<Rightarrow> rt_handler \<times> (audio_queue_error + (commit_error + unit) option)" where
  "take_commit_result locked t h =
     (if queue_id h \<noteq> Some (queue t) then (h, Inl UnknownTicket)
      else if locked then (h, Inl Busy)
      else if ticket_sequence t \<noteq> sequence (update h) then (h, Inl UnknownTicket)
      else if incoming (update h) \<noteq> None then (h, Inr None)
      else case commit_result (update h) of
             None \<Rightarrow> (h, Inl UnknownTicket)
           | Some r \<Rightarrow> (h\<lparr>update := (update h)\<lparr>commit_result := None\<rparr>\<rparr>, Inr (Some r)))"

definition outstanding_commit_ticket :: "bool \<Rightarrow> rt_handler \<Rightarrow> audio_queue_error + audio_commit_ticket option" where
  "outstanding_commit_ticket locked h =
     (case queue_id h of
        None \<Rightarrow> Inr None
      | Some q \<Rightarrow>
          if locked then Inl Busy
          else Inr (if incoming (update h) \<noteq> None \<or> commit_result (update h) \<noteq> None
                    then Some \<lparr>queue = q, ticket_sequence = sequence (update h)\<rparr> else None))"

section \<open>The invariant of readers and writer\<close>

fun pinned :: "reader_pc \<Rightarrow> bool" where
  "pinned Pinned = True"
| "pinned (Got _) = True"
| "pinned (Reading _ _) = True"
| "pinned (Read _) = True"
| "pinned Unreachable = True"
| "pinned _ = False"

text \<open>The slot the writer is about to fill or has filled, and the value in its hands.\<close>

fun target :: "flush_pc \<Rightarrow> nat option" where
  "target (Chose _ n) = Some n"
| "target (Locked _ n) = Some n"
| "target (Written n) = Some n"
| "target _ = None"

fun in_hand :: "flush_pc \<Rightarrow> client_state option" where
  "in_hand (Checked s) = Some s"
| "in_hand (Chose s _) = Some s"
| "in_hand (Locked s _) = Some s"
| "in_hand _ = None"

text \<open>After the look at the reader count, until the index is switched.\<close>

definition flushing :: "flush_pc \<Rightarrow> bool" where
  "flushing w \<longleftrightarrow> in_hand w \<noteq> None \<or> target w \<noteq> None"

fun reads_ok :: "accepted \<Rightarrow> reader_pc \<Rightarrow> bool" where
  "reads_ok a (Got s) = (flushing (writer a) \<longrightarrow> s = published a)"
| "reads_ok a (Reading s v) = ((flushing (writer a) \<longrightarrow> s = published a) \<and> v = slots a s)"
| "reads_ok a Unreachable = False"
| "reads_ok a _ = True"

text \<open>The slot that is published once the writer is done.\<close>

fun final_slot :: "flush_pc \<Rightarrow> nat \<Rightarrow> nat" where
  "final_slot (Written n) p = n"
| "final_slot _ p = p"

definition acc_inv :: "accepted \<Rightarrow> bool" where
  "acc_inv a \<longleftrightarrow>
     readers a = length (filter pinned (threads a)) \<and> published a < 2
   \<and> (\<forall>n. target (writer a) = Some n \<longrightarrow> n = 1 - published a)
   \<and> (\<forall>s. in_hand (writer a) = Some s \<longrightarrow> pending a = Some s)
   \<and> (\<forall>r\<in>set (threads a). reads_ok a r)
   \<and> (case pending a of
        Some s \<Rightarrow> s = latest a \<and> (\<forall>n. writer a \<noteq> Written n)
      | None \<Rightarrow> slots a (final_slot (writer a) (published a)) = latest a)"

lemma length_filter_update:
  assumes "i < length xs"
  shows "length (filter P (xs[i := y])) + (if P (xs ! i) then 1 else 0)
       = length (filter P xs) + (if P y then 1 else 0)"
  using assms
proof (induction xs arbitrary: i)
  case (Cons x xs)
  then show ?case by (cases i) (auto split: if_splits)
qed simp

lemma pinned_pos: "i < length xs \<Longrightarrow> pinned (xs ! i) \<Longrightarrow> 0 < length (filter pinned xs)"
  by (metis length_greater_0_conv filter_empty_conv nth_mem)

lemma no_readers_ok:
  assumes "readers a = length (filter pinned (threads a))" and "readers a = 0" and "\<forall>r\<in>set (threads a). reads_ok a r"
    and "r \<in> set (threads a)"
  shows "reads_ok b r"
proof -
  have "\<not> pinned r" using assms(1,2,4) by (metis filter_empty_conv length_0_conv)
  then show ?thesis by (cases r) simp_all
qed

lemma flush_step_inv:
  assumes inv: "acc_inv a"
  shows "acc_inv (flush_step a)"
proof (cases "writer a")
  case Held
  show ?thesis
  proof (cases "pending a")
    case None
    with Held inv show ?thesis
      by (auto simp: flush_step_def acc_inv_def flushing_def elim!: reads_ok.elims)
  next
    case (Some s)
    have "reads_ok b r" if "readers a = 0" "r \<in> set (threads a)" for b r
      using inv that by (intro no_readers_ok [of a]) (auto simp: acc_inv_def)
    moreover have "reads_ok (a\<lparr>writer := Ended\<rparr>) r" if "r \<in> set (threads a)" for r
      using inv that Held by (cases r) (auto simp: acc_inv_def flushing_def)
    ultimately show ?thesis using Held Some inv by (auto simp: flush_step_def acc_inv_def)
  qed
next
  case (Checked s)
  have "reads_ok (a\<lparr>writer := Chose s (1 - published a)\<rparr>) r" if "r \<in> set (threads a)" for r
    using inv that Checked by (cases r) (auto simp: acc_inv_def flushing_def)
  with Checked inv show ?thesis by (auto simp: flush_step_def acc_inv_def)
next
  case (Chose s n)
  have "reads_ok (a\<lparr>writer := Ended\<rparr>) r" "reads_ok (a\<lparr>writer := Locked s n\<rparr>) r" if "r \<in> set (threads a)" for r
    using inv that Chose by (cases r; auto simp: acc_inv_def flushing_def)+
  with Chose inv show ?thesis by (auto simp: flush_step_def acc_inv_def)
next
  case (Locked s n)
  then have n: "n = 1 - published a" "published a < 2" using inv by (simp_all add: acc_inv_def)
  have "reads_ok (a\<lparr>slots := (slots a)(n := s), pending := None, writer := Written n\<rparr>) r" if "r \<in> set (threads a)" for r
  proof -
    have "reads_ok a r" using inv that by (simp add: acc_inv_def)
    moreover have "published a \<noteq> n" using n by arith
    ultimately show ?thesis using Locked by (cases r) (auto simp: flushing_def)
  qed
  with Locked inv n show ?thesis by (auto simp: flush_step_def acc_inv_def)
next
  case (Written n)
  then have n: "n = 1 - published a" "published a < 2" using inv by (simp_all add: acc_inv_def)
  have "reads_ok (a\<lparr>published := n, writer := Ended\<rparr>) r" if "r \<in> set (threads a)" for r
    using inv that Written n by (cases r) (auto simp: acc_inv_def flushing_def)
  moreover have "pending a = None" using inv Written by (cases "pending a") (auto simp: acc_inv_def)
  ultimately show ?thesis using Written inv n by (auto simp: flush_step_def acc_inv_def)
qed (use inv in \<open>simp_all add: flush_step_def\<close>)

text \<open>A step of one reader changes its own entry and the count.\<close>

lemma reader_update_inv:
  assumes inv: "acc_inv a" and i: "i < length (threads a)"
    and n: "n + (if pinned (threads a ! i) then 1 else 0) = readers a + (if pinned r then 1 else 0)"
    and ok: "reads_ok a r"
  shows "acc_inv (a\<lparr>readers := n, threads := (threads a)[i := r]\<rparr>)"
proof -
  have "reads_ok (a\<lparr>readers := n, threads := ts\<rparr>) x = reads_ok a x" for ts x by (cases x) simp_all
  moreover have "x \<in> set ((threads a)[i := r]) \<Longrightarrow> reads_ok a x" for x
    using inv ok by (auto simp: acc_inv_def dest!: set_list_update_cases)
  moreover have "n = length (filter pinned ((threads a)[i := r]))"
    using length_filter_update [OF i, of pinned r] n inv by (auto simp: acc_inv_def)
  ultimately show ?thesis using inv by (cases "pending a") (simp_all add: acc_inv_def)
qed

lemma reader_move_inv:
  assumes "acc_inv a" and "i < length (threads a)" and "pinned (threads a ! i) = pinned r" and "reads_ok a r"
  shows "acc_inv (a\<lparr>threads := (threads a)[i := r]\<rparr>)"
  using reader_update_inv [OF assms(1,2), of "readers a" r] assms(3,4) by simp

lemma read_step_inv:
  assumes inv: "acc_inv a" and i: "i < length (threads a)"
  shows "acc_inv (read_step i a)"
proof -
  note upd = reader_update_inv [OF inv i] and move = reader_move_inv [OF inv i]
  have ri: "reads_ok a (threads a ! i)" using inv i by (simp add: acc_inv_def)
  show ?thesis
  proof (cases "threads a ! i")
    case Idle
    then show ?thesis using move [of "Loaded (readers a)"] inv by (simp add: read_step_def)
  next
    case (Loaded r)
    then show ?thesis using upd [of "readers a + 1" Pinned] move [of Idle] by (auto simp: read_step_def)
  next
    case Pinned
    then show ?thesis using move [of "Got (published a)"] by (simp add: read_step_def)
  next
    case (Got s)
    have "published a \<noteq> 1 - published a" using inv by (simp add: acc_inv_def) arith
    then have "\<not> slot_write_locked a s"
      using inv ri Got by (auto simp: acc_inv_def slot_write_locked_def flushing_def split: flush_pc.split)
    then show ?thesis using Got ri move [of "Reading s (slots a s)"] by (simp add: read_step_def)
  next
    case (Reading s v)
    then show ?thesis using move [of "Read v"] by (simp add: read_step_def)
  next
    case (Read v)
    have "0 < readers a" using pinned_pos [OF i] inv Read by (simp add: acc_inv_def)
    with Read show ?thesis using upd [of "readers a - 1" Idle] by (simp add: read_step_def)
  qed (use ri in simp)
qed

lemma acc_step_inv:
  assumes "acc_step a b" and "acc_inv a"
  shows "acc_inv b"
  using assms
proof cases
  case lock
  have "reads_ok (a\<lparr>writer := Held\<rparr>) r" if "r \<in> set (threads a)" for r
    using assms(2) that lock by (cases r) (auto simp: acc_inv_def flushing_def)
  with lock assms(2) show ?thesis by (auto simp: acc_inv_def split: option.split)
next
  case (publish s)
  have "reads_ok (a\<lparr>pending := Some s, latest := s, writer := Held\<rparr>) r" if "r \<in> set (threads a)" for r
    using assms(2) that publish by (cases r) (auto simp: acc_inv_def flushing_def)
  with publish assms(2) show ?thesis by (auto simp: acc_inv_def)
next
  case flush
  then show ?thesis using flush_step_inv [OF assms(2)] by simp
next
  case unlock
  have "reads_ok (a\<lparr>writer := Free\<rparr>) r" if "r \<in> set (threads a)" for r
    using assms(2) that unlock by (cases r) (auto simp: acc_inv_def flushing_def)
  with unlock assms(2) show ?thesis by (auto simp: acc_inv_def split: option.split)
next
  case (reader i)
  then show ?thesis using read_step_inv [OF assms(2)] by simp
qed

lemma acc_reachable_inv: "acc_step\<^sup>*\<^sup>* (new_accepted initial n) a \<Longrightarrow> acc_inv a"
proof (induction rule: rtranclp_induct)
  case base
  then show ?case by (auto simp: new_accepted_def acc_inv_def)
qed (rule acc_step_inv)

section \<open>Runs of the queue\<close>

text \<open>The calls of the audio thread and of the consumer, in any order and with any failing try-lock.\<close>

datatype rt_op =
    Submit bool incoming_client_state "session_edit_origin option"
  | Finish audio_commit_ticket "commit_error + unit"
  | Acknowledge bool audio_commit_ticket

text \<open>A run: the handler, the tickets issued and the tickets whose result was handed out.\<close>

fun rt_exec :: "rt_op \<Rightarrow> rt_handler \<times> audio_commit_ticket list \<times> audio_commit_ticket list
    \<Rightarrow> rt_handler \<times> audio_commit_ticket list \<times> audio_commit_ticket list" where
  "rt_exec (Submit locked inc orig) (h, issued, acked) =
     (case update_rt_client_state locked inc orig h of
        (h', Inr t) \<Rightarrow> (h', t # issued, acked)
      | (h', Inl _) \<Rightarrow> (h', issued, acked))"
| "rt_exec (Finish t r) (h, issued, acked) = (fst (complete_pending_update t r h), issued, acked)"
| "rt_exec (Acknowledge locked t) (h, issued, acked) =
     (case take_commit_result locked t h of
        (h', Inr (Some _)) \<Rightarrow> (h', issued, t # acked)
      | (h', _) \<Rightarrow> (h', issued, acked))"

definition rt_inv :: "nat option \<Rightarrow> rt_handler \<times> audio_commit_ticket list \<times> audio_commit_ticket list \<Rightarrow> bool" where
  "rt_inv q x =
     (case x of (h, issued, acked) \<Rightarrow>
        queue_id h = q \<and> distinct issued \<and> distinct acked \<and> set acked \<subseteq> set issued
      \<and> (\<forall>t\<in>set issued. Some (queue t) = q \<and> ticket_sequence t \<le> sequence (update h))
      \<and> (incoming (update h) \<noteq> None \<or> commit_result (update h) \<noteq> None \<longrightarrow>
           (\<forall>t. Some (queue t) = q \<and> ticket_sequence t = sequence (update h) \<longrightarrow> t \<in> set issued - set acked))
      \<and> (incoming (update h) = None \<or> commit_result (update h) = None)
      \<and> (has_pending h \<longleftrightarrow> incoming (update h) \<noteq> None))"

lemma ticket_eqI: "queue t = queue u \<Longrightarrow> ticket_sequence t = ticket_sequence u \<Longrightarrow> t = (u :: audio_commit_ticket)"
  by simp

lemma rt_exec_inv:
  assumes "rt_inv q x"
  shows "rt_inv q (rt_exec c x)"
proof -
  obtain h issued acked where x: "x = (h, issued, acked)" by (cases x)
  note inv = assms [unfolded x rt_inv_def prod.case]
  show ?thesis
  proof (cases c)
    case (Submit locked inc orig)
    obtain h' res where e: "update_rt_client_state locked inc orig h = (h', res)" by fastforce
    show ?thesis
    proof (cases res)
      case (Inl err)
      then have "h' = h" using e by (auto simp: update_rt_client_state_def Let_def split: option.splits if_splits)
      with Inl e assms show ?thesis by (simp add: x Submit)
    next
      case (Inr t)
      then have t: "Some (queue t) = q" "ticket_sequence t = Suc (sequence (update h))"
        "sequence (update h') = Suc (sequence (update h))" "queue_id h' = q" "incoming (update h') \<noteq> None"
        "commit_result (update h') = None" "has_pending h'"
        using e inv [THEN conjunct1] by (auto simp: update_rt_client_state_def Let_def split: option.splits if_splits)
      have new: "t \<notin> set issued" using inv t(2) by (metis Suc_n_not_le_n)
      have uniq: "u = t" if "Some (queue u) = q" "ticket_sequence u = Suc (sequence (update h))" for u
        using that t(1,2) by (intro ticket_eqI) auto
      have le: "\<forall>u\<in>set issued. Some (queue u) = q \<and> ticket_sequence u \<le> Suc (sequence (update h))"
        using inv le_SucI by blast
      have sets: "distinct issued" "distinct acked" "set acked \<subseteq> set issued" "t \<notin> set acked"
        using inv new by blast+
      have "rt_inv q (h', t # issued, acked)"
        unfolding rt_inv_def prod.case using t le sets new by (intro conjI) (simp_all, blast+, metis uniq)
      then show ?thesis by (simp add: x Submit e Inr)
    qed
  next
    case (Finish t r)
    let ?h = "h\<lparr>update := (update h)\<lparr>incoming := None, update_origin := None, commit_result := Some r\<rparr>,
        has_pending := False\<rparr>"
    consider "complete_pending_update t r h = (h, False)"
      | "complete_pending_update t r h = (?h, True)" "incoming (update h) \<noteq> None"
      unfolding complete_pending_update_def
      by (cases "queue_id h = Some (queue t) \<and> ticket_sequence t = sequence (update h) \<and> incoming (update h) \<noteq> None") auto
    then show ?thesis
    proof cases
      case 1
      then show ?thesis using assms by (simp add: x Finish)
    next
      case 2
      have "rt_inv q (?h, issued, acked)"
        unfolding rt_inv_def prod.case using inv 2(2) by (intro conjI) simp_all
      then show ?thesis using 2(1) by (simp add: x Finish)
    qed
  next
    case (Acknowledge locked t)
    obtain h' res where e: "take_commit_result locked t h = (h', res)" by fastforce
    show ?thesis
    proof (cases "\<exists>r. res = Inr (Some r)")
      case False
      then have "h' = h" using e by (auto simp: take_commit_result_def split: option.splits if_splits)
      with False e assms show ?thesis by (auto simp: x Acknowledge split: sum.split option.split)
    next
      case True
      then obtain r where r: "res = Inr (Some r)" by blast
      then have t: "Some (queue t) = q" "ticket_sequence t = sequence (update h)" "incoming (update h) = None"
        "commit_result (update h) = Some r" "h' = h\<lparr>update := (update h)\<lparr>commit_result := None\<rparr>\<rparr>"
        using e inv [THEN conjunct1] by (auto simp: take_commit_result_def split: option.splits if_splits)
      have "t \<in> set issued - set acked" using inv t(1,2,4) by simp
      then have "rt_inv q (h', issued, t # acked)"
        unfolding rt_inv_def prod.case using t(3,5) inv by (intro conjI) simp_all
      then show ?thesis by (simp add: x Acknowledge e r)
    qed
  qed
qed

lemma rt_run_inv: "rt_inv q x \<Longrightarrow> rt_inv q (fold rt_exec cs x)"
  by (induction cs arbitrary: x) (simp_all add: rt_exec_inv)

section \<open>Whole calls refine to steps\<close>

definition cache_of :: "accepted \<Rightarrow> accepted_cache" where
  "cache_of a = \<lparr>shown = slots a (published a), unflushed = pending a\<rparr>"

text \<open>A flush under the mutex that nothing comes between.\<close>

lemma flush_refines:
  assumes "acc_inv a" and "writer a = Held"
  shows "\<exists>a'. acc_step\<^sup>*\<^sup>* a a' \<and> writer a' = Free \<and> threads a' = threads a \<and> readers a' = readers a \<and> latest a' = latest a
           \<and> cache_of a' = cache_flush (readers a \<noteq> 0) (cache_of a)"
proof -
  have stop: "acc_step\<^sup>*\<^sup>* (b\<lparr>writer := Ended\<rparr>) (b\<lparr>writer := Free\<rparr>)" for b
    using r_into_rtranclp [of acc_step, OF acc_step.unlock [of "b\<lparr>writer := Ended\<rparr>"]] by simp
  have go: "acc_step b (flush_step b)" if "writer b \<notin> {Free, Ended}" for b using that by (rule acc_step.flush)
  show ?thesis
  proof (cases "\<exists>s. pending a = Some s \<and> readers a = 0")
    case False
    then have "flush_step a = a\<lparr>writer := Ended\<rparr>" using assms(2) by (auto simp: flush_step_def split: option.split)
    then have "acc_step\<^sup>*\<^sup>* a (a\<lparr>writer := Free\<rparr>)" using go [of a] stop [of a] assms(2) by (auto intro: converse_rtranclp_into_rtranclp)
    then show ?thesis
      using False by (intro exI [of _ "a\<lparr>writer := Free\<rparr>"]) (auto simp: cache_of_def cache_flush_def split: option.split)
  next
    case True
    then obtain s where s: "pending a = Some s" "readers a = 0" by blast
    let ?n = "1 - published a"
    let ?w = "a\<lparr>slots := (slots a)(?n := s), pending := None, writer := Written ?n\<rparr>"
    have "\<not> (\<exists>i v. Reading i v \<in> set (threads a))"
      using assms(1) s(2) by (auto simp: acc_inv_def filter_empty_conv)
    then have steps: "flush_step a = a\<lparr>writer := Checked s\<rparr>" "flush_step (a\<lparr>writer := Checked s\<rparr>) = a\<lparr>writer := Chose s ?n\<rparr>"
      "flush_step (a\<lparr>writer := Chose s ?n\<rparr>) = a\<lparr>writer := Locked s ?n\<rparr>" "flush_step (a\<lparr>writer := Locked s ?n\<rparr>) = ?w"
      "flush_step ?w = ?w\<lparr>published := ?n, writer := Ended\<rparr>"
      using s assms(2) by (simp_all add: flush_step_def slot_read_locked_def)
    have "acc_step\<^sup>*\<^sup>* a (?w\<lparr>published := ?n, writer := Free\<rparr>)"
      using go [of a] go [of "a\<lparr>writer := Checked s\<rparr>"] go [of "a\<lparr>writer := Chose s ?n\<rparr>"] go [of "a\<lparr>writer := Locked s ?n\<rparr>"] go [of ?w]
        stop [of "?w\<lparr>published := ?n\<rparr>"] steps assms(2) by (simp add: converse_rtranclp_into_rtranclp)
    then show ?thesis
      using s by (intro exI [of _ "?w\<lparr>published := ?n, writer := Free\<rparr>"]) (simp add: cache_of_def cache_flush_def)
  qed
qed

lemma publish_refines:
  assumes "acc_inv a" and "writer a = Free"
  shows "\<exists>a'. acc_step\<^sup>*\<^sup>* a a' \<and> writer a' = Free \<and> threads a' = threads a \<and> latest a' = s
           \<and> cache_of a' = cache_publish (readers a \<noteq> 0) s (cache_of a)"
proof -
  let ?b = "a\<lparr>pending := Some s, latest := s, writer := Held\<rparr>"
  have "acc_step a ?b" using assms(2) by (rule acc_step.publish)
  moreover from this have "acc_inv ?b" using assms(1) by (rule acc_step_inv)
  then obtain a' where "acc_step\<^sup>*\<^sup>* ?b a'" "writer a' = Free" "threads a' = threads ?b" "latest a' = s"
      "cache_of a' = cache_flush (readers ?b \<noteq> 0) (cache_of ?b)" using flush_refines [of ?b] by auto
  ultimately show ?thesis
    by (intro exI [of _ a']) (auto simp: cache_publish_def cache_of_def intro: converse_rtranclp_into_rtranclp)
qed

section \<open>Properties\<close>

text \<open>C14: The branch of the audio thread's capture that is marked unreachable is unreachable, for any number of
  readers and every interleaving with the writer: no reader ever finds its slot locked for writing, and what it reads
  under its lock is the value of that slot, never one being overwritten. The counter is the number of readers
  between their pin and their release, and no published state is lost: the last one published is still pending,
  or it is in the slot that is or is about to be published.\<close>

theorem capture_never_blocked:
  assumes "acc_step\<^sup>*\<^sup>* (new_accepted initial n) a"
  shows "Unreachable \<notin> set (threads a)
       \<and> (\<forall>i v. Reading i v \<in> set (threads a) \<longrightarrow> v = slots a i \<and> \<not> slot_write_locked a i)
       \<and> readers a = length (filter pinned (threads a))
       \<and> (case pending a of Some s \<Rightarrow> s = latest a | None \<Rightarrow> slots a (final_slot (writer a) (published a)) = latest a)"
proof -
  note inv = acc_reachable_inv [OF assms]
  have "published a \<noteq> 1 - published a" using inv by (simp add: acc_inv_def) arith
  then have "v = slots a i \<and> \<not> slot_write_locked a i" if "Reading i v \<in> set (threads a)" for i v
    using inv that
    by (cases "writer a") (force simp: acc_inv_def slot_write_locked_def flushing_def)+
  moreover have "Unreachable \<notin> set (threads a)" using inv by (auto simp: acc_inv_def)
  ultimately show ?thesis using inv by (auto simp: acc_inv_def split: option.split)
qed

theorem capture_never_blocked_witness:
  "Unreachable \<notin> set (threads ((new_accepted
      \<lparr>cl_timeline = default_timeline, timeline_session_id = replicate 8 1, cl_start_stop = default_client_start_stop\<rparr> 2)
      \<lparr>writer := Held\<rparr>))"
proof -
  let ?c = "\<lparr>cl_timeline = default_timeline, timeline_session_id = replicate 8 1,
      cl_start_stop = default_client_start_stop\<rparr>"
  have "acc_step\<^sup>*\<^sup>* (new_accepted ?c 2) ((new_accepted ?c 2)\<lparr>writer := Held\<rparr>)"
    by (rule r_into_rtranclp, rule acc_step.lock) (simp add: new_accepted_def)
  from capture_never_blocked [OF this] show ?thesis by blast
qed

text \<open>The queue of one proposal never mixes up its tickets. In every run of submissions, completions and
  acknowledgments, with stale and foreign tickets and failing try-locks anywhere, the tickets issued are all
  different, each result is handed out at most once, and only for a ticket that was issued.\<close>

theorem tickets_acknowledged_once:
  "case fold rt_exec cs (new_handler q, [], []) of (h, issued, acked) \<Rightarrow>
     distinct issued \<and> distinct acked \<and> set acked \<subseteq> set issued
   \<and> (has_pending h \<longleftrightarrow> incoming (update h) \<noteq> None)"
proof -
  have "rt_inv q (new_handler q, [], [])" by (simp add: rt_inv_def new_handler_def)
  then have "rt_inv q (fold rt_exec cs (new_handler q, [], []))" by (rule rt_run_inv)
  then show ?thesis by (simp add: rt_inv_def split: prod.splits)
qed

end
