(* ===== verification/Callbacks.thy ===== *)
theory Callbacks
  imports Controller
begin

text \<open>
  The callbacks of the application: \<open>TempoNotifications\<close> of \<open>src/link/controller.rs\<close> and the playback
  notifications of \<open>BasicLink\<close> in \<open>src/link/mod.rs\<close>. Both deliver from several tasks, one at a time: a
  task that does not get the dispatch lock leaves the work to the one that has it or to the next. A callback is user code that runs
  outside the locks of the state, so the application may register another one, and the tempo may change, while it runs.
  A callback is named by a number, its \<open>Arc\<close>.
\<close>

section \<open>Tempo notifications\<close>

text \<open>
  Where the holder of the dispatch lock is: \<open>Selected\<close> has the callback and whether its first call is due (\<open>initial\<close>,
  \<open>initial_requested\<close>), \<open>Calling\<close> is in the callback, \<open>Clearing\<close> is about to clear the registration.
\<close>

datatype dispatch_pc = NoDispatch | Selected bool bool nat | Calling nat f64 | Clearing nat

record tempo_notifications =
  callback :: "nat option"
  registration :: "nat option"
  delivered_to :: "nat option"
  delivered_bpm :: f64
  callbacks_shut :: bool
  dispatching :: dispatch_pc
  client_bpm :: f64
  registered :: "nat option"
  calls :: "(nat \<times> f64 \<times> bool) list"

definition new_notifications :: "f64 \<Rightarrow> tempo_notifications" where
  "new_notifications b = \<lparr>callback = None, registration = None, delivered_to = None, delivered_bpm = b, callbacks_shut = False,
     dispatching = NoDispatch, client_bpm = b, registered = None, calls = []\<rparr>"

text \<open>
  The parts of \<open>dispatch\<close>: installing what was registered, choosing the value and checking whether it is due, recording what was delivered,
  and clearing the registration. \<open>contended\<close>: a try-lock of the part fails, and the dispatch gives up.
\<close>

definition dispatch_install :: "bool \<Rightarrow> bool \<Rightarrow> tempo_notifications \<Rightarrow> tempo_notifications" where
  "dispatch_install contended requested N =
     (if contended then N
      else let installed = (case registration N of Some cb \<Rightarrow> Some cb | None \<Rightarrow> callback N)
           in N\<lparr>callback := installed,
                dispatching := (case installed of None \<Rightarrow> NoDispatch | Some cb \<Rightarrow> Selected (registration N \<noteq> None) requested cb)\<rparr>)"

definition dispatch_select :: "bool \<Rightarrow> tempo_notifications \<Rightarrow> tempo_notifications" where
  "dispatch_select contended N =
     (case dispatching N of
        Selected initial requested cb \<Rightarrow>
          let same_callback = (delivered_to N = None \<or> delivered_to N = Some cb);
              initial = (initial \<or> requested \<and> delivered_to N = None)
          in if contended \<or> \<not> initial \<and> same_callback \<and> f64_eq (delivered_bpm N) (client_bpm N) \<or> callbacks_shut N
             then N\<lparr>dispatching := NoDispatch\<rparr>
             else N\<lparr>dispatching := Calling cb (client_bpm N), calls := calls N @ [(cb, client_bpm N, initial)]\<rparr>
      | _ \<Rightarrow> N)"

definition dispatch_record :: "tempo_notifications \<Rightarrow> tempo_notifications" where
  "dispatch_record N =
     (case dispatching N of
        Calling cb b \<Rightarrow> N\<lparr>delivered_to := Some cb, delivered_bpm := b, dispatching := Clearing cb\<rparr>
      | _ \<Rightarrow> N)"

definition dispatch_clear :: "bool \<Rightarrow> tempo_notifications \<Rightarrow> tempo_notifications" where
  "dispatch_clear contended N =
     (case dispatching N of
        Clearing cb \<Rightarrow> N\<lparr>registration := (if \<not> contended \<and> registration N = Some cb then None else registration N),
                            dispatching := NoDispatch\<rparr>
      | _ \<Rightarrow> N)"

text \<open>A dispatch that nothing comes between, and the callers of it. A commit reports its tempo only if it is still the session's.\<close>

definition dispatch :: "bool \<Rightarrow> tempo_notifications \<Rightarrow> tempo_notifications" where
  "dispatch requested N =
     (if dispatching N = NoDispatch
      then dispatch_clear False (dispatch_record (dispatch_select False (dispatch_install False requested N))) else N)"

definition register_callback :: "nat \<Rightarrow> tempo_notifications \<Rightarrow> tempo_notifications" where
  "register_callback cb N = N\<lparr>registration := Some cb, registered := Some cb\<rparr>"

definition register_tempo_callback :: "nat \<Rightarrow> tempo_notifications \<Rightarrow> tempo_notifications" where
  "register_tempo_callback cb N = dispatch True (register_callback cb N)"

definition dispatch_current_tempo :: "controller \<Rightarrow> tempo \<Rightarrow> tempo_notifications \<Rightarrow> tempo_notifications" where
  "dispatch_current_tempo C t N = (if f64_eq (bpm (tempo (sh_timeline (shared C)))) (bpm t) then dispatch True N else N)"

inductive notify_step :: "tempo_notifications \<Rightarrow> tempo_notifications \<Rightarrow> bool" where
  ns_register: "notify_step N (register_callback cb N)"
| ns_install: "dispatching N = NoDispatch \<Longrightarrow> notify_step N (dispatch_install contended requested N)"
| ns_select: "notify_step N (dispatch_select contended N)"
| ns_record: "notify_step N (dispatch_record N)"
| ns_clear: "notify_step N (dispatch_clear contended N)"
| ns_tempo: "notify_step N (N\<lparr>client_bpm := b\<rparr>)"
| ns_shut: "notify_step N (N\<lparr>callbacks_shut := True\<rparr>)"

inductive notify_reachable :: "tempo_notifications \<Rightarrow> bool" where
  nr_new: "notify_reachable (new_notifications b)"
| nr_step: "notify_reachable N \<Longrightarrow> notify_step N N' \<Longrightarrow> notify_reachable N'"

section \<open>What the notifications keep\<close>

definition called :: "nat \<Rightarrow> tempo_notifications \<Rightarrow> bool" where
  "called cb N \<longleftrightarrow> cb \<in> fst ` set (calls N)"

text \<open>The callback in the hands of the dispatch is the installed one.\<close>

fun pc_notify_ok :: "dispatch_pc \<Rightarrow> tempo_notifications \<Rightarrow> bool" where
  "pc_notify_ok NoDispatch N = True"
| "pc_notify_ok (Selected initial requested cb) N = (callback N = Some cb)"
| "pc_notify_ok (Calling cb b) N = (callback N = Some cb \<and> calls N \<noteq> [] \<and> fst (last (calls N)) = cb \<and> fst (snd (last (calls N))) = b)"
| "pc_notify_ok (Clearing cb) N = (callback N = Some cb \<and> delivered_to N = Some cb \<and> called cb N)"

definition recorded :: "tempo_notifications \<Rightarrow> bool" where
  "recorded N \<longleftrightarrow> (if calls N = [] then delivered_to N = None
     else delivered_to N = Some (fst (last (calls N))) \<and> delivered_bpm N = fst (snd (last (calls N))))"

text \<open>Of two calls in a row the second is due: it was asked for, or goes to another callback, or has another tempo.\<close>

definition due_after :: "nat \<times> f64 \<times> bool \<Rightarrow> nat \<times> f64 \<times> bool \<Rightarrow> bool" where
  "due_after x y \<longleftrightarrow> snd (snd y) \<or> fst x \<noteq> fst y \<or> \<not> f64_eq (fst (snd x)) (fst (snd y))"

definition notify_ok :: "tempo_notifications \<Rightarrow> bool" where
  "notify_ok N \<longleftrightarrow>
     pc_notify_ok (dispatching N) N
   \<and> ((\<forall>cb b. dispatching N \<noteq> Calling cb b) \<longrightarrow> recorded N)
   \<and> (registration N = None \<or> registration N = registered N)
   \<and> (\<forall>cb. registered N = Some cb \<longrightarrow> registration N = Some cb \<or> callback N = Some cb \<and> called cb N)
   \<and> successively due_after (calls N)"

lemma select_ok:
  assumes "notify_ok N"
  shows "notify_ok (dispatch_select contended N)"
proof (cases "dispatching N")
  case (Selected initial requested cb)
  have r: "recorded N" "successively due_after (calls N)" "callback N = Some cb" using assms Selected by (auto simp: notify_ok_def)
  let ?x = "(cb, client_bpm N, initial \<or> requested \<and> delivered_to N = None)"
  show ?thesis
  proof (cases "dispatching (dispatch_select contended N) = NoDispatch")
    case True
    then have "dispatch_select contended N = N\<lparr>dispatching := NoDispatch\<rparr>"
      using Selected by (auto simp: dispatch_select_def Let_def split: if_splits)
    then show ?thesis using assms Selected by (auto simp: notify_ok_def recorded_def called_def)
  next
    case False
    then have N': "dispatch_select contended N = N\<lparr>dispatching := Calling cb (client_bpm N), calls := calls N @ [?x]\<rparr>"
      and due: "\<not> (\<not> snd (snd ?x) \<and> (delivered_to N = None \<or> delivered_to N = Some cb) \<and> f64_eq (delivered_bpm N) (client_bpm N))"
      using Selected by (auto simp: dispatch_select_def Let_def split: if_splits)
    have "calls N \<noteq> [] \<Longrightarrow> due_after (last (calls N)) ?x" using due r(1) by (auto simp: due_after_def recorded_def)
    then have "successively due_after (calls N @ [?x])" using r(2) by (auto simp: successively_append_iff)
    then show ?thesis using assms Selected r(3) by (auto simp: notify_ok_def N' called_def)
  qed
qed (use assms in \<open>simp_all add: dispatch_select_def\<close>)

lemma install_ok:
  assumes "notify_ok N" and "dispatching N = NoDispatch"
  shows "notify_ok (dispatch_install contended requested N)"
  using assms by (auto simp: notify_ok_def dispatch_install_def recorded_def called_def split: option.splits)

lemma record_ok: "notify_ok N \<Longrightarrow> notify_ok (dispatch_record N)"
  by (cases "dispatching N") (auto simp: notify_ok_def dispatch_record_def recorded_def called_def image_iff intro: last_in_set)

lemma clear_ok: "notify_ok N \<Longrightarrow> notify_ok (dispatch_clear contended N)"
  by (cases "dispatching N") (auto simp: notify_ok_def dispatch_clear_def recorded_def called_def)

lemma notify_ok_frame:
  assumes "notify_ok N" and "callback N' = callback N" "registration N' = registration N" "delivered_to N' = delivered_to N"
    "delivered_bpm N' = delivered_bpm N" "dispatching N' = dispatching N" "registered N' = registered N" "calls N' = calls N"
  shows "notify_ok N'"
  using assms by (cases "dispatching N") (auto simp: notify_ok_def recorded_def called_def)

lemma register_ok: "notify_ok N \<Longrightarrow> notify_ok (register_callback cb N)"
  by (cases "dispatching N") (auto simp: notify_ok_def register_callback_def recorded_def called_def)

lemma notify_step_ok: "notify_step N N' \<Longrightarrow> notify_ok N \<Longrightarrow> notify_ok N'"
  by (induction rule: notify_step.induct)
    (auto intro: register_ok install_ok select_ok record_ok clear_ok notify_ok_frame)

lemma notify_reachable_ok: "notify_reachable N \<Longrightarrow> notify_ok N"
  by (induction rule: notify_reachable.induct)
    (simp_all add: notify_step_ok, simp add: notify_ok_def new_notifications_def recorded_def)

section \<open>A dispatch settles\<close>

lemma f64_eq_refl: "\<not> is_nan b \<Longrightarrow> f64_eq b b"
  by (cases b) auto

text \<open>The callback that is due last: the registered one, else the installed one.\<close>

lemma dispatch_effect:
  assumes "notify_ok N" and "dispatching N = NoDispatch" and "\<not> callbacks_shut N" and "registered N = Some cb"
    and "\<not> is_nan (client_bpm N)"
  shows "callback (dispatch requested N) = Some cb" "registration (dispatch requested N) = None"
    "delivered_to (dispatch requested N) = Some cb" "f64_eq (delivered_bpm (dispatch requested N)) (client_bpm N)"
    "client_bpm (dispatch requested N) = client_bpm N" "dispatching (dispatch requested N) = NoDispatch"
    "callbacks_shut (dispatch requested N) = callbacks_shut N" "called cb (dispatch requested N)"
proof -
  note defs = dispatch_def dispatch_install_def dispatch_select_def dispatch_record_def dispatch_clear_def Let_def
  have r: "recorded N" "registration N = None \<or> registration N = Some cb"
    "registration N = Some cb \<or> callback N = Some cb \<and> called cb N"
    using assms(1,2,4) by (auto simp: notify_ok_def)
  consider (new) "registration N = Some cb" | (told) "registration N = None" "callback N = Some cb" "called cb N" using r by auto
  then have "callback (dispatch requested N) = Some cb \<and> registration (dispatch requested N) = None
    \<and> delivered_to (dispatch requested N) = Some cb \<and> f64_eq (delivered_bpm (dispatch requested N)) (client_bpm N)
    \<and> client_bpm (dispatch requested N) = client_bpm N \<and> dispatching (dispatch requested N) = NoDispatch
    \<and> callbacks_shut (dispatch requested N) = callbacks_shut N \<and> called cb (dispatch requested N)"
  proof cases
    case new
    then show ?thesis using assms(2,3,5) f64_eq_refl by (simp add: defs called_def)
  next
    case told
    then have "delivered_to N \<noteq> None" using r(1) by (auto simp: recorded_def called_def split: if_splits)
    then show ?thesis using told assms(2,3,5) f64_eq_refl by (auto simp: defs called_def)
  qed
  then show "callback (dispatch requested N) = Some cb" "registration (dispatch requested N) = None"
    "delivered_to (dispatch requested N) = Some cb" "f64_eq (delivered_bpm (dispatch requested N)) (client_bpm N)"
    "client_bpm (dispatch requested N) = client_bpm N" "dispatching (dispatch requested N) = NoDispatch"
    "callbacks_shut (dispatch requested N) = callbacks_shut N" "called cb (dispatch requested N)" by blast+
qed

lemma dispatch_settled:
  assumes "registration N = None" "callback N = Some cb" "delivered_to N = Some cb" "f64_eq (delivered_bpm N) (client_bpm N)"
    "dispatching N = NoDispatch"
  shows "dispatch requested N = N"
  using assms by (simp add: dispatch_def dispatch_install_def dispatch_select_def dispatch_record_def dispatch_clear_def Let_def)

section \<open>Playback notifications\<close>

text \<open>
  Several tasks may report what they accepted; the last report wins. \<open>playing_call\<close> is the report with which the
  callback runs, under the lock \<open>notification_dispatch\<close>.
\<close>

record playback_notifications =
  start_stop_callback :: "nat option"
  last_is_playing :: bool
  pending_playback :: "bool option"
  playing_call :: "bool option"
  playback_calls :: "(nat \<times> bool) list"

definition new_playback :: playback_notifications where
  "new_playback = \<lparr>start_stop_callback = None, last_is_playing = False, pending_playback = None, playing_call = None, playback_calls = []\<rparr>"

definition queue_playback_notification :: "bool \<Rightarrow> playback_notifications \<Rightarrow> playback_notifications" where
  "queue_playback_notification playing P = P\<lparr>pending_playback := Some playing\<rparr>"

text \<open>\<open>locked\<close>: the callback is running elsewhere; the report is put back unless a newer one has come.\<close>

definition playback_begin :: "bool \<Rightarrow> playback_notifications \<Rightarrow> playback_notifications" where
  "playback_begin locked P =
     (case pending_playback P of
        None \<Rightarrow> P
      | Some playing \<Rightarrow>
          let P = P\<lparr>pending_playback := None\<rparr>
          in if last_is_playing P = playing then P
             else (case start_stop_callback P of
                     None \<Rightarrow> P\<lparr>last_is_playing := playing\<rparr>
                   | Some cb \<Rightarrow>
                       if locked then P\<lparr>pending_playback := Some playing\<rparr>
                       else P\<lparr>playing_call := Some playing, playback_calls := playback_calls P @ [(cb, playing)]\<rparr>))"

definition playback_end :: "playback_notifications \<Rightarrow> playback_notifications" where
  "playback_end P = (case playing_call P of None \<Rightarrow> P | Some playing \<Rightarrow> P\<lparr>last_is_playing := playing, playing_call := None\<rparr>)"

definition dispatch_playback_notification :: "bool \<Rightarrow> playback_notifications \<Rightarrow> playback_notifications" where
  "dispatch_playback_notification locked P = (if playing_call P \<noteq> None then P else playback_end (playback_begin locked P))"

text \<open>
  Setting a callback needs the whole object, so no notification is running; it is told the current state unless that is
  contended (\<open>None\<close>).
\<close>

definition set_start_stop_callback :: "nat \<Rightarrow> bool option \<Rightarrow> playback_notifications \<Rightarrow> playback_notifications" where
  "set_start_stop_callback cb playing P =
     (case playing of
        None \<Rightarrow> P\<lparr>start_stop_callback := Some cb\<rparr>
      | Some b \<Rightarrow> P\<lparr>start_stop_callback := Some cb, last_is_playing := b, playback_calls := playback_calls P @ [(cb, b)]\<rparr>)"

inductive playback_step :: "playback_notifications \<Rightarrow> playback_notifications \<Rightarrow> bool" where
  ps_queue: "playback_step P (queue_playback_notification playing P)"
| ps_begin: "playing_call P = None \<Longrightarrow> playback_step P (playback_begin locked P)"
| ps_end: "playback_step P (playback_end P)"
| ps_callback: "playing_call P = None \<Longrightarrow> cb \<notin> fst ` set (playback_calls P) \<Longrightarrow> start_stop_callback P \<noteq> Some cb \<Longrightarrow>
    playback_step P (set_start_stop_callback cb playing P)"

inductive playback_reachable :: "playback_notifications \<Rightarrow> bool" where
  pr_new: "playback_reachable new_playback"
| pr_step: "playback_reachable P \<Longrightarrow> playback_step P P' \<Longrightarrow> playback_reachable P'"

definition told_last :: "playback_notifications \<Rightarrow> bool" where
  "told_last P \<longleftrightarrow> (case playing_call P of Some b \<Rightarrow> b | None \<Rightarrow> last_is_playing P)"

definition playback_ok :: "playback_notifications \<Rightarrow> bool" where
  "playback_ok P \<longleftrightarrow>
     successively (\<lambda>x y. fst x = fst y \<longrightarrow> snd x \<noteq> snd y) (playback_calls P)
   \<and> (\<forall>cb. start_stop_callback P = Some cb \<and> cb \<in> fst ` set (playback_calls P) \<longrightarrow> last (playback_calls P) = (cb, told_last P))"

lemma successively_snoc:
  "successively R (xs @ [x]) \<longleftrightarrow> successively R xs \<and> (xs = [] \<or> R (last xs) x)"
  by (auto simp: successively_append_iff)

lemma playback_begin_ok:
  assumes "playback_ok P" and "playing_call P = None"
  shows "playback_ok (playback_begin locked P)"
proof -
  have "successively (\<lambda>x y. fst x = fst y \<longrightarrow> snd x \<noteq> snd y) (playback_calls P @ [(cb, b)])"
    if "start_stop_callback P = Some cb" "last_is_playing P \<noteq> b" for cb b
  proof -
    have "snd (last (playback_calls P)) = last_is_playing P" if "playback_calls P \<noteq> []" "fst (last (playback_calls P)) = cb"
    proof -
      have "cb \<in> fst ` set (playback_calls P)" using imageI [OF last_in_set [OF that(1)], of fst] that(2) by simp
      then show ?thesis using assms \<open>start_stop_callback P = Some cb\<close> by (auto simp: playback_ok_def told_last_def)
    qed
    then show ?thesis using assms(1) that(2) by (auto simp: playback_ok_def successively_snoc)
  qed
  then show ?thesis
    using assms by (auto simp: playback_begin_def playback_ok_def told_last_def Let_def split: option.splits)
qed

lemma set_callback_ok:
  assumes "playback_ok P" and "playing_call P = None" and "cb \<notin> fst ` set (playback_calls P)"
  shows "playback_ok (set_start_stop_callback cb playing P)"
proof -
  have "playback_calls P = [] \<or> fst (last (playback_calls P)) \<noteq> cb" using assms(3) by (force dest: last_in_set)
  then show ?thesis
    using assms by (auto simp: set_start_stop_callback_def playback_ok_def told_last_def successively_snoc split: option.splits)
qed

lemma playback_step_ok: "playback_step P P' \<Longrightarrow> playback_ok P \<Longrightarrow> playback_ok P'"
proof (induction rule: playback_step.induct)
  case (ps_queue P playing)
  then show ?case by (cases "playing_call P") (auto simp: playback_ok_def queue_playback_notification_def told_last_def)
next
  case (ps_end P)
  then show ?case by (auto simp: playback_ok_def playback_end_def told_last_def split: option.splits)
qed (auto intro: playback_begin_ok set_callback_ok)

lemma playback_reachable_ok: "playback_reachable P \<Longrightarrow> playback_ok P"
  by (induction rule: playback_reachable.induct)
    (simp_all add: playback_step_ok, simp add: playback_ok_def new_playback_def)

section \<open>Properties\<close>

definition told_once :: tempo_notifications where
  "told_once = register_tempo_callback 1 (new_notifications (Fin 120))"

lemma registered_reachable: "notify_reachable (register_callback 1 (new_notifications (Fin 120)))"
  by (rule nr_step [OF nr_new ns_register])

text \<open>C29: Tempo notifications settle. Whatever registrations, tempo changes, concurrent and given-up dispatches came before:
  the callback registered last is never lost, and one dispatch that finds its locks free has it installed, with no
  registration left over, told at least once, and with the current tempo as the last value delivered. A further dispatch then calls
  nothing.\<close>

theorem tempo_notifications_settle:
  assumes "notify_reachable N" and "dispatching N = NoDispatch" and "\<not> callbacks_shut N" and "registered N = Some cb"
    and "\<not> is_nan (client_bpm N)"
  shows "let N' = dispatch requested N
         in callback N' = Some cb \<and> registration N' = None \<and> cb \<in> fst ` set (calls N') \<and> delivered_to N' = Some cb
          \<and> f64_eq (delivered_bpm N') (client_bpm N) \<and> dispatch again N' = N'"
proof -
  note e = dispatch_effect [OF notify_reachable_ok [OF assms(1)] assms(2-5), of requested]
  have "dispatch again (dispatch requested N) = dispatch requested N" by (rule dispatch_settled [OF e(2,1,3)]) (use e in simp_all)
  then show ?thesis using e by (simp add: Let_def called_def)
qed

theorem tempo_notifications_settle_witness:
  "delivered_to told_once = Some 1 \<and> f64_eq (delivered_bpm told_once) (Fin 120)"
  using tempo_notifications_settle [OF registered_reachable, of 1 True True]
  by (simp add: told_once_def register_tempo_callback_def register_callback_def new_notifications_def Let_def)

text \<open>C30: Callbacks hear changes. In every interleaving of the tasks that report and deliver, two tempo calls in a row
  differ in the callback or in the tempo, unless the second is an initial one: one that a registration asked for and that may repeat a tempo as long as
  the registration could not be cleared because its lock was taken. The playback callback hears
  alternating states. After a delivery that finds the callback free, the report is recorded and none is pending; if the callback has ever been
  called, the last state it heard is the one reported last (one that was set while the state was contended is called first when the state changes).\<close>

theorem callbacks_hear_changes:
  assumes "notify_reachable N" and "playback_reachable P" and "playing_call P = None" and "start_stop_callback P = Some cb"
  shows "successively (\<lambda>x y. snd (snd y) \<or> fst x \<noteq> fst y \<or> \<not> f64_eq (fst (snd x)) (fst (snd y))) (calls N)
       \<and> successively (\<lambda>x y. fst x = fst y \<longrightarrow> snd x \<noteq> snd y) (playback_calls P)
       \<and> (let P' = dispatch_playback_notification False (queue_playback_notification b P)
          in last_is_playing P' = b \<and> pending_playback P' = None
           \<and> (cb \<in> fst ` set (playback_calls P') \<longrightarrow> last (playback_calls P') = (cb, b)))"
proof -
  have "successively due_after (calls N)" using notify_reachable_ok [OF assms(1)] by (simp add: notify_ok_def)
  moreover have P: "playback_ok P" by (rule playback_reachable_ok [OF assms(2)])
  ultimately show ?thesis
    using assms(3,4)
    by (auto simp: due_after_def [abs_def] playback_ok_def told_last_def dispatch_playback_notification_def
        queue_playback_notification_def playback_begin_def playback_end_def Let_def)
qed

theorem callbacks_hear_changes_witness:
  "last (playback_calls (dispatch_playback_notification False (queue_playback_notification True
     (set_start_stop_callback 1 (Some False) new_playback)))) = (1, True)"
proof -
  have "playback_reachable (set_start_stop_callback 1 (Some False) new_playback)"
    by (rule pr_step [OF pr_new ps_callback]) (simp_all add: new_playback_def)
  from callbacks_hear_changes [OF registered_reachable this, of 1 True] show ?thesis
    by (simp add: set_start_stop_callback_def new_playback_def Let_def dispatch_playback_notification_def
        queue_playback_notification_def playback_begin_def playback_end_def)
qed

end
