(* ===== verification/Link.thy ===== *)
theory Link
  imports SafeRt Callbacks
begin

text \<open>
  The object an application holds, \<open>BasicLink\<close> of \<open>src/link/mod.rs\<close>: it captures the accepted state for the
  application and for the audio thread, takes their edits, the audio thread's through the queue of one proposal, and
  tells the callbacks. It is the composition of the controller, the accepted state with its two slots, the proposal queue and the
  notifications. Whether a reader is counted in when a publication looks (\<open>busy_reader\<close>), and how the audio thread's attempt to count itself
  in ends, are arguments.
\<close>

section \<open>State\<close>

record basic_link =
  link_controller :: controller
  rt_queue :: rt_handler
  cached :: accepted_cache
  tempo_news :: tempo_notifications
  playback_news :: playback_notifications

text \<open>The notifications read the tempo of the client state.\<close>

definition new_link :: "controller \<Rightarrow> nat option \<Rightarrow> basic_link" where
  "new_link C q = \<lparr>link_controller = C, rt_queue = new_handler q, cached = \<lparr>shown = client C, unflushed = None\<rparr>,
     tempo_news = new_notifications (bpm (tempo (cl_timeline (client C)))), playback_news = new_playback\<rparr>"

section \<open>Captures\<close>

text \<open>
  \<open>locked\<close>: a lock of the controller is contended; then the audio thread gets a state without origin, which cannot be committed,
  and the application the client state or, if that is contended too, the cached one. The audio thread's capture fails if it cannot count
  itself in (\<open>pin\<close>), and may have flushed a publication even then.
\<close>

definition capture_audio_session_state ::
  "bool \<Rightarrow> bool \<Rightarrow> audio_capture_error option \<Rightarrow> bool \<Rightarrow> basic_link \<Rightarrow> basic_link \<times> (audio_capture_error + session_state)" where
  "capture_audio_session_state contended busy_reader pin locked B =
     (case cache_read contended busy_reader pin (cached B) of
        (c, Inl e) \<Rightarrow> (B\<lparr>cached := c\<rparr>, Inl e)
      | (c, Inr read) \<Rightarrow>
          (B\<lparr>cached := c\<rparr>,
           Inr (case capture_client_state locked (link_controller B) of
                  Some (accepted, e) \<Rightarrow>
                    if client_eq accepted read then (to_session_state read)\<lparr>origin := Some e\<rparr> else to_session_state read
                | None \<Rightarrow> to_session_state read)))"

definition capture_app_session_state :: "bool \<Rightarrow> bool \<Rightarrow> bool \<Rightarrow> basic_link \<Rightarrow> basic_link \<times> session_state" where
  "capture_app_session_state busy_reader locked client_locked B =
     (case capture_client_state locked (link_controller B) of
        Some (accepted, e) \<Rightarrow> (B, (to_session_state accepted)\<lparr>origin := Some e\<rparr>)
      | None \<Rightarrow>
          if client_locked
          then case cache_read_app busy_reader (cached B) of (c, read) \<Rightarrow> (B\<lparr>cached := c\<rparr>, to_session_state read)
          else (B, to_session_state (client (link_controller B))))"

section \<open>Commits\<close>

text \<open>
  One attempt of \<open>commit_incoming_client_state\<close>, with the notification of a changed tempo. \<open>None\<close>: a publication is
  pending, and the attempt is repeated after a tenth of a second.
\<close>

definition commit_incoming_client_state ::
  "ext \<Rightarrow> incoming_client_state \<Rightarrow> session_edit_origin option \<Rightarrow> duration \<Rightarrow> basic_link
     \<Rightarrow> basic_link \<times> (commit_error + unit) option" where
  "commit_incoming_client_state E inc orig now B =
     (case orig of
        None \<Rightarrow> (B, Some (Inl StaleClientState))
      | Some e \<Rightarrow>
          (case client_edit_from_origin E inc now (Some e) (link_controller B) of
             (C, WaitingForPublication) \<Rightarrow> (B\<lparr>link_controller := C\<rparr>, None)
           | (C, Rejected err) \<Rightarrow> (B\<lparr>link_controller := C\<rparr>, Some (Inl err))
           | (C, Completed changed) \<Rightarrow>
               let N = (tempo_news B)\<lparr>client_bpm := bpm (tempo (cl_timeline (client C)))\<rparr>
               in (B\<lparr>link_controller := C,
                     tempo_news := (case changed of None \<Rightarrow> N | Some t \<Rightarrow> dispatch_current_tempo C t N)\<rparr>, Some (Inr ()))))"

definition refresh_accepted_client_state :: "bool \<Rightarrow> basic_link \<Rightarrow> basic_link" where
  "refresh_accepted_client_state busy_reader B =
     B\<lparr>cached := cache_publish busy_reader (client (link_controller B)) (cached B)\<rparr>"

text \<open>The end of a commit: the accepted state is published and the playback state reported.\<close>

definition finish_commit :: "bool \<Rightarrow> bool \<Rightarrow> basic_link \<Rightarrow> basic_link" where
  "finish_commit busy_reader locked B =
     (let B = refresh_accepted_client_state busy_reader B
      in B\<lparr>playback_news := dispatch_playback_notification locked
             (queue_playback_notification (c_is_playing (cl_start_stop (client (link_controller B)))) (playback_news B))\<rparr>)"

definition commit_audio_session_state ::
  "duration \<Rightarrow> bool \<Rightarrow> session_state \<Rightarrow> basic_link \<Rightarrow> basic_link \<times> (audio_queue_error + audio_commit_ticket)" where
  "commit_audio_session_state now locked s B =
     (case update_rt_client_state locked (to_incoming_client_state (state s) (original_state s) now) (origin s) (rt_queue B) of
        (h, r) \<Rightarrow> (B\<lparr>rt_queue := h\<rparr>, r))"

text \<open>
  Draining the queue. \<open>busy\<close>: another consumer is at it. \<open>None\<close> in the first component of the result: the commit waits for a publication,
  and the proposal stays in the queue.
\<close>

definition process_audio_session_state_updates ::
  "ext \<Rightarrow> bool \<Rightarrow> bool \<Rightarrow> bool \<Rightarrow> duration \<Rightarrow> basic_link \<Rightarrow> basic_link \<times> (audio_commit_ticket \<times> (commit_error + unit)) option option" where
  "process_audio_session_state_updates E busy busy_reader locked now B =
     (if busy then (B, Some None)
      else case pending_update_from_origin (rt_queue B) of
             None \<Rightarrow> (finish_commit busy_reader locked B, Some None)
           | Some (t, inc, orig) \<Rightarrow>
               (case commit_incoming_client_state E inc orig now B of
                  (B, None) \<Rightarrow> (B, None)
                | (B, Some r) \<Rightarrow>
                    (finish_commit busy_reader locked (B\<lparr>rt_queue := fst (complete_pending_update t r (rt_queue B))\<rparr>), Some (Some (t, r)))))"

definition commit_app_session_state ::
  "ext \<Rightarrow> duration \<Rightarrow> duration \<Rightarrow> bool \<Rightarrow> bool \<Rightarrow> session_state \<Rightarrow> basic_link \<Rightarrow> basic_link \<times> (commit_error + unit) option" where
  "commit_app_session_state E now now' busy_reader locked s B =
     (case commit_incoming_client_state E (to_incoming_client_state (state s) (original_state s) now) (origin s) now' B of
        (B, Some (Inr u)) \<Rightarrow> (finish_commit busy_reader locked B, Some (Inr u))
      | (B, r) \<Rightarrow> (B, r))"

section \<open>A proposal through the queue\<close>

definition queue_free :: "rt_handler \<Rightarrow> bool" where
  "queue_free h \<longleftrightarrow> queue_id h \<noteq> None \<and> incoming (update h) = None \<and> commit_result (update h) = None \<and> sequence (update h) < 2 ^ 64 - 1"

abbreviation proposal :: "session_state \<Rightarrow> duration \<Rightarrow> incoming_client_state" where
  "proposal s now \<equiv> to_incoming_client_state (state s) (original_state s) now"

lemma submit_free:
  assumes "queue_free (rt_queue B)"
  obtains t h where "commit_audio_session_state now False s B = (B\<lparr>rt_queue := h\<rparr>, Inr t)"
    "pending_update_from_origin h = Some (t, proposal s now, origin s)"
    "queue_id h = Some (queue t)" "ticket_sequence t = sequence (update h)" "incoming (update h) = Some (proposal s now)"
proof -
  obtain q where q: "queue_id (rt_queue B) = Some q" using assms by (auto simp: queue_free_def)
  let ?u = "(update (rt_queue B))\<lparr>sequence := sequence (update (rt_queue B)) + 1, incoming := Some (proposal s now), update_origin := origin s\<rparr>"
  let ?h = "(rt_queue B)\<lparr>update := ?u, has_pending := True\<rparr>" and ?t = "\<lparr>queue = q, ticket_sequence = sequence ?u\<rparr>"
  have "update_rt_client_state False (proposal s now) (origin s) (rt_queue B) = (?h, Inr ?t)"
    using assms q by (simp add: update_rt_client_state_def queue_free_def Let_def)
  then have "commit_audio_session_state now False s B = (B\<lparr>rt_queue := ?h\<rparr>, Inr ?t)" by (simp add: commit_audio_session_state_def)
  moreover have "pending_update_from_origin ?h = Some (?t, proposal s now, origin s)" using q by (simp add: pending_update_from_origin_def)
  ultimately show ?thesis by (rule that) (use q in simp_all)
qed

lemma finish_commit_simps [simp]:
  "link_controller (finish_commit busy_reader locked B) = link_controller B" "rt_queue (finish_commit busy_reader locked B) = rt_queue B"
  "cached (finish_commit busy_reader locked B) = cache_publish busy_reader (client (link_controller B)) (cached B)" "tempo_news (finish_commit busy_reader locked B) = tempo_news B"
  by (simp_all add: finish_commit_def refresh_accepted_client_state_def Let_def)

text \<open>What one attempt does to the controller and answers, when the edit does not have to wait.\<close>

fun answer :: "client_commit \<Rightarrow> (commit_error + unit) option" where
  "answer WaitingForPublication = None"
| "answer (Completed t) = Some (Inr ())"
| "answer (Rejected e) = Some (Inl e)"

lemma commit_incoming_eq:
  "link_controller (fst (commit_incoming_client_state E inc (Some e) now B)) = fst (client_edit_from_origin E inc now (Some e) (link_controller B))"
  "snd (commit_incoming_client_state E inc (Some e) now B) = answer (snd (client_edit_from_origin E inc now (Some e) (link_controller B)))"
  "rt_queue (fst (commit_incoming_client_state E inc (Some e) now B)) = rt_queue B"
  by (cases "client_edit_from_origin E inc now (Some e) (link_controller B)"; cases "snd (client_edit_from_origin E inc now (Some e) (link_controller B))";
      simp add: commit_incoming_client_state_def Let_def)+

lemma process_pending:
  assumes "pending_update_from_origin (rt_queue B) = Some (t, inc, Some e)"
    and "answer (snd (client_edit_from_origin E inc now (Some e) (link_controller B))) = Some r"
  shows "\<exists>B'. process_audio_session_state_updates E False busy_reader locked now B = (B', Some (Some (t, r)))
       \<and> link_controller B' = fst (client_edit_from_origin E inc now (Some e) (link_controller B))
       \<and> (\<exists>c. cached B' = cache_publish busy_reader (client (link_controller B')) c) \<and> rt_queue B' = fst (complete_pending_update t r (rt_queue B))"
proof -
  obtain B1 x where c: "commit_incoming_client_state E inc (Some e) now B = (B1, x)" by fastforce
  then have "x = Some r" "link_controller B1 = fst (client_edit_from_origin E inc now (Some e) (link_controller B))" "rt_queue B1 = rt_queue B"
    using commit_incoming_eq [of E inc e now B] assms(2) by simp_all
  then show ?thesis using c assms(1) by (auto simp: process_audio_session_state_updates_def)
qed

lemma complete_then_take:
  assumes "queue_id h = Some (queue t)" "ticket_sequence t = sequence (update h)" "incoming (update h) = Some inc"
  shows "\<exists>h'. take_commit_result False t (fst (complete_pending_update t r h)) = (h', Inr (Some r))"
  using assms by (simp add: complete_pending_update_def take_commit_result_def)

lemma accepted_start_stop:
  assumes "snd (client_edit_from_origin E inc now orig C) = Completed t" and "in_start_stop inc = Some st"
  shows "cl_start_stop (client (fst (client_edit_from_origin E inc now orig C))) = st"
proof (cases rule: client_edit_cases [of E inc now orig C])
  case (refused r)
  then show ?thesis using assms(1) by simp
next
  case (accepted target proposed s c t')
  then show ?thesis using assms(2) by (simp add: client_edit_install_publish publish_discovery_def Let_def)
qed

section \<open>Properties\<close>

lemma cache_publish_shown:
  "\<not> busy_reader \<Longrightarrow> cache_publish busy_reader s c = \<lparr>shown = s, unflushed = None\<rparr>"
  "cache_read False False None (cache_publish busy_reader s c) = (\<lparr>shown = s, unflushed = None\<rparr>, Inr s)"
  by (simp_all add: cache_publish_def cache_flush_def cache_read_def Let_def)

text \<open>C10: The audio thread's proposal goes all the way. If the queue is free, an edit made from a capture is taken with a ticket; if nothing else
  is committed before, draining the queue answers that ticket without waiting, the answer is acknowledged under the same ticket,
  and the captured state the audio thread reads next is the controller's: it is in the published slot at once unless a reader was counted in
  at that moment, and then the next capture that finds the mutex free and no reader counted in publishes and returns it. An accepted edit's
  start/stop state is then in force; a refused one has left the controller as it was, and it is refused as stale only for its time stamp.\<close>

theorem audio_commit_settles:
  assumes "coherent (link_controller B)" and "capture_client_state False (link_controller B) = Some (cl, e)"
    and "origin s = Some e" and "queue_free (rt_queue B)"
  shows "\<exists>B1 t B2 r h. commit_audio_session_state now False s B = (B1, Inr t)
       \<and> process_audio_session_state_updates E False busy_reader locked now' B1 = (B2, Some (Some (t, r)))
       \<and> take_commit_result False t (rt_queue B2) = (h, Inr (Some r))
       \<and> (\<not> busy_reader \<longrightarrow> shown (cached B2) = client (link_controller B2) \<and> unflushed (cached B2) = None)
       \<and> cache_read False False None (cached B2)
           = (\<lparr>shown = client (link_controller B2), unflushed = None\<rparr>, Inr (client (link_controller B2)))
       \<and> (case r of
            Inr _ \<Rightarrow> (case in_start_stop (proposal s now) of None \<Rightarrow> True | Some st \<Rightarrow> cl_start_stop (client (link_controller B2)) = st)
          | Inl err \<Rightarrow> link_controller B2 = link_controller B
              \<and> (err = StaleClientState \<longrightarrow> (\<exists>st. in_start_stop (proposal s now) = Some st \<and> now \<le> c_timestamp (cl_start_stop cl))))"
proof -
  let ?C = "link_controller B" and ?inc = "proposal s now"
  let ?r = "client_edit_from_origin E ?inc now' (Some e) ?C"
  obtain t h where q: "commit_audio_session_state now False s B = (B\<lparr>rt_queue := h\<rparr>, Inr t)"
    "pending_update_from_origin h = Some (t, ?inc, Some e)"
    "queue_id h = Some (queue t)" "ticket_sequence t = sequence (update h)" "incoming (update h) = Some ?inc"
    using submit_free [OF assms(4), of now s] assms(3) by metis
  note fresh = fresh_capture_commits [OF assms(1,2), of E ?inc now']
  then obtain r where r: "answer (snd ?r) = Some r" by auto
  obtain B2 c where B2: "process_audio_session_state_updates E False busy_reader locked now' (B\<lparr>rt_queue := h\<rparr>) = (B2, Some (Some (t, r)))"
    "link_controller B2 = fst ?r" "cached B2 = cache_publish busy_reader (client (link_controller B2)) c" "rt_queue B2 = fst (complete_pending_update t r h)"
    using process_pending [of "B\<lparr>rt_queue := h\<rparr>" t ?inc e E now' r busy_reader locked] q(2) r by auto
  obtain h' where h': "take_commit_result False t (rt_queue B2) = (h', Inr (Some r))"
    using complete_then_take [OF q(3-5), of r] B2(4) by auto
  have "case r of Inr _ \<Rightarrow> (case in_start_stop ?inc of None \<Rightarrow> True | Some st \<Rightarrow> cl_start_stop (client (fst ?r)) = st)
      | Inl err \<Rightarrow> fst ?r = ?C \<and> (err = StaleClientState \<longrightarrow> (\<exists>st. in_start_stop ?inc = Some st \<and> now \<le> c_timestamp (cl_start_stop cl)))"
  proof (cases "snd ?r")
    case WaitingForPublication
    then show ?thesis using r by simp
  next
    case (Completed x)
    then show ?thesis using r accepted_start_stop [OF Completed] by (auto split: option.split)
  next
    case (Rejected err)
    have "fst ?r = ?C" by (cases rule: client_edit_cases [of E ?inc now' "Some e" ?C]) (use Rejected in auto)
    then show ?thesis using r Rejected fresh by (auto simp: to_incoming_client_state_def split: if_splits)
  qed
  note this [folded B2(2)]
  moreover have "\<not> busy_reader \<longrightarrow> shown (cached B2) = client (link_controller B2) \<and> unflushed (cached B2) = None"
    "cache_read False False None (cached B2) = (\<lparr>shown = client (link_controller B2), unflushed = None\<rparr>, Inr (client (link_controller B2)))"
    using B2(3) cache_publish_shown by auto
  ultimately show ?thesis using q(1) B2(1) h' by blast
qed

definition sample_link :: basic_link where
  "sample_link = new_link sample_controller (Some 0)"

definition sample_captured :: session_state where
  "sample_captured = projr (snd (capture_audio_session_state False False None False sample_link))"

lemma sample_capture: "capture_client_state False sample_controller = Some (client sample_controller, sample_origin)"
  by (simp add: capture_client_state_def sample_controller_eq sample_origin_def Let_def with_session_def
      session_matches_def timeline_eq_def tempo_eq_def xform_eq_def edit_origin_def)

lemma sample_captured_origin: "origin sample_captured = Some sample_origin"
proof -
  have "client_eq (client sample_controller) (client sample_controller)"
    by (simp add: client_eq_def timeline_eq_def tempo_eq_def sample_controller_eq Let_def init_client_state_def)
  then show ?thesis
    by (simp add: sample_captured_def sample_link_def new_link_def capture_audio_session_state_def sample_capture cache_read_def cache_flush_def)
qed

theorem audio_commit_settles_witness:
  "\<exists>B1 t. commit_audio_session_state 3000000 False sample_captured sample_link = (B1, Inr t)
     \<and> (\<exists>B2 r. process_audio_session_state_updates std_ext False True False 3000000 B1 = (B2, Some (Some (t, r))))"
proof -
  have "queue_free (rt_queue sample_link)" "link_controller sample_link = sample_controller"
    by (simp_all add: sample_link_def new_link_def queue_free_def new_handler_def)
  then show ?thesis
    using audio_commit_settles [of sample_link "client sample_controller" sample_origin sample_captured
        3000000 std_ext True False 3000000] sample_capture sample_captured_origin sample_coherent by auto
qed

end
