(* ===== verification/Spec2Isabelle.thy ===== *)
theory Spec2Isabelle
  imports MeasureJobs AudioApi Lifecycle Link
begin

text \<open>
  A verification of the Ableton Link implementation in \<open>src/\<close>: the time arithmetic of a session, the wire formats,
  the clock measurement between peers, the agreement on one session, the commits of an application's edits and the
  streaming of audio between peers.

  \<^bold>\<open>Parts of the program.\<close> A peer announces its timeline, session and start/stop state in discovery datagrams
  (\<open>src/discovery\<close>). The registry of peers reports changes to the sessions (\<open>src/link/sessions.rs\<close>),
  which measure the clock offset to a peer of a foreign session (\<open>measurement.rs\<close>, \<open>pingresponder.rs\<close>)
  and join the session with the older ghost clock. The controller (\<open>controller.rs\<close>) commits what comes from the
  network and what the application edits to one shared state, and announces it. The application captures that state,
  edits its copy (\<open>mod.rs\<close>, \<open>timeline.rs\<close>, \<open>phase.rs\<close>) and commits it, from the audio thread
  without blocking (\<open>safe_rt_session_state.rs\<close>). LinkAudio (\<open>src/link_audio\<close>) announces channels,
  serves requests for them and streams samples in datagrams of their own. Gates (\<open>controller.rs\<close>) separate one period in which the
  controller is enabled from the next for every loop that handles work from the network.

  \<^bold>\<open>Theories.\<close>
  \<^item> \<open>Prelude\<close>: machine integers, saturation, results as sums, the lemmas on lists and words the rest uses.
  \<^item> \<open>F64\<close>: IEEE double arithmetic, computed with exact rationals and one rounding per operation.
  \<^item> \<open>Encoding\<close>, \<open>Payload\<close>, \<open>Messages\<close>: \<open>encoding.rs\<close>, \<open>link/payload.rs\<close>
    with the entries of the node state, and \<open>discovery/messages.rs\<close>, \<open>pingresponder.rs\<close>. The contract
    of a codec is the locale \<open>wire_codec\<close>.
  \<^item> \<open>LinkTime\<close>, \<open>Tempo\<close>, \<open>GhostXForm\<close>, \<open>Timeline\<close>, \<open>Phase\<close>: durations and
    beats, the period of a tempo, the transform between host and ghost time with its 256 bit products, the two updates
    of a timeline and the phase arithmetic; each optimised routine is shown equal to its exact rational value rounded
    once.
  \<^item> \<open>Measurement\<close>, \<open>MeasureJobs\<close>: medians, regression, and the tasks of one measurement as steps; the service that runs several measurements and
    hands each the pongs that come in on the interface of its route.
  \<^item> \<open>Sessions\<close>, \<open>Peers\<close>: the current session, the candidates and their measurements; the registry of
    peers as a refinement of a map. The locale \<open>session_op\<close> is the contract of every operation on the sessions.
  \<^item> \<open>ClientApi\<close>, \<open>SafeRt\<close>, \<open>Controller\<close>: the captured state and its edits; the double buffer of the accepted state
    and the queue of one proposal at the granularity of single atomic accesses; the commits. The locale
    \<open>commit_op\<close> is the contract of a commit, and every operation of the sessions gives one by a sublocale.
  \<^item> \<open>AudioWire\<close>, \<open>AudioCodec\<close>: the messages of LinkAudio, the resizer, the PCM encoder and decoder. The
    trait of payload entries is the locale \<open>audio_entry\<close>.
  \<^item> \<open>AudioChannels\<close>, \<open>AudioSink\<close>: the registry of channels (locale \<open>registry_op\<close>), the
    receivers (locale \<open>receivers_op\<close>), the network metrics, the pool of buffers between the threads as
    interleaved steps, and the sink.
  \<^item> \<open>AudioEngine\<close>, \<open>AudioPath\<close>, \<open>AudioApi\<close>: the tasks of \<open>link_audio/engine.rs\<close> with the
    epochs of pausing and resuming, the way of a block from the sink of one peer to the source of another, and the \<open>LinkAudio\<close> object with
    its notifications about channels.
  \<^item> \<open>DispatchGate\<close>: the gate of the dispatch loops and \<open>gated_recv\<close> as interleaved steps.
  \<^item> \<open>Gateway\<close>, \<open>Interfaces\<close>, \<open>Messenger\<close>: the deadlines of the announced peers and the observer loop
    (\<open>gateway.rs\<close>); the scan of the host's interfaces, the generations of its topology and the sockets registered for
    them (\<open>platform/network.rs\<close>, \<open>topology.rs\<close>, the registrations of \<open>messenger.rs\<close>); the receive loops, the
    revisions of announcements, the cache of measurement routes and the broadcasts (\<open>messenger.rs\<close>).
  \<^item> \<open>Lifecycle\<close>: \<open>Controller::enable\<close>, \<open>disable\<close> and \<open>drop\<close> as instructions that can be cancelled between any two, over
    the controller, the gateway, the messenger and the three gates. The locale \<open>quiet_op\<close> is the contract of
    the operations that run while the gates are closed.
  \<^item> \<open>Callbacks\<close>, \<open>Link\<close>: the notifications of tempo and playback changes, and the \<open>BasicLink\<close> object that captures and
    commits for the application and the audio thread.

  \<^bold>\<open>How the code is translated.\<close> A struct is a record, an enum or a newtype a datatype, a function of the code a
  definition that takes and returns the state. Integers are words, or integers with the saturation or wrap-around of
  their type written out. A critical section of a mutex is one step; where the code awaits or uses atomics, the function
  is split there and the steps interleave (\<open>Measurement\<close>, \<open>MeasureJobs\<close>, \<open>SafeRt\<close>, \<open>AudioSink\<close>, \<open>AudioEngine\<close>, \<open>AudioApi\<close>,
  \<open>DispatchGate\<close>, \<open>Gateway\<close>, \<open>Messenger\<close>, \<open>Lifecycle\<close>, \<open>Callbacks\<close>). What the operating system reports of interfaces and sockets is
  the record \<open>host\<close>, an argument. Functions
  of third-party crates (durations of \<open>chrono\<close>) are the fields of the record \<open>ext\<close>, an argument of the
  definitions; the laws the code relies on are \<open>chrono_ok\<close> and \<open>ext_ok\<close>, and \<open>std_ext\<close> is an
  instance that satisfies them. Readings of clocks, random identifiers and the outcome of a contended lock are
  arguments.

  \<^bold>\<open>What is shown.\<close> Arithmetic: the transforms and conversions are correctly rounded and invert each other, the
  phase matches are the nearest ones, forcing a beat puts it exactly at its time, and the search for an anchor stops at
  the first quantum boundary that is one. Wire: what is encoded is decoded,
  every length is checked, malformed input is rejected. A tempo travels as the whole microseconds of its beat period and a time as
  whole microseconds: what a peer holds after the transport of any tempo in the range of the program (\<open>sendable_tempo\<close>) is
  \<open>received_tempo\<close>, which is the tempo sent only when its period is a whole number of microseconds, and likewise
  for timelines, payload entries and audio buffers. Sessions: measurements are conserved, each gets its pongs and answers once, results are published
  whole, two nodes of two sessions that measure each other end up in the same one unless their clocks are within the margin
  of the comparison. Controller: what is announced, answered to pings and shown to the
  application agrees in every reachable state; a captured state commits at most once and a rejected commit leaves
  nothing behind. Audio: the published samples arrive unchanged, once for each entry of their endpoint, in datagrams of bounded size; the pool never loses a
  slot and never delivers what was discarded; every listed channel can be reached; a batch prepared before a pause is
  never sent after it, and what one peer puts into its sink comes out of the source of the other.
  Discovery: an announcement counts only if none of its peer came later and its socket is still registered, a state that is announced
  is queued at the other peer with its wire rounding, the registry holds no peer past its deadline, the sockets follow the scan, and the
  route cache stays within its bounds. Lifecycle: no work crosses from one period of being enabled into the next; an enabled controller is wholly
  running and a disabled one at rest, whatever calls were cancelled, and it can always be enabled and disabled again.
  Application: a proposal of the audio thread is answered under its ticket and what was accepted is what is captured next; between
  two initial calls a callback hears only changes, and the playback callback was told the state reported last when it was called at all.

  \<^bold>\<open>Bounds.\<close> No definition takes fuel: loops are structural or have a termination proof, and the loops of the code
  that wait for other tasks are steps. The counters that the code compares for equality only (incarnations of sessions,
  revisions of edits, epochs) are natural numbers.

  \<^bold>\<open>Not modelled.\<close> System calls: creating and configuring sockets and reading a datagram with the interface it came in on
  (\<open>ingress.rs\<close>, \<open>new_udp_reuseport\<close>), the clock and the priority of a thread (\<open>clock.rs\<close>,
  \<open>platform/thread.rs\<close>); their results are arguments. Spawning and joining tasks on the IO thread (\<open>platform/io_context.rs\<close>):
  the steps interleave freely instead. The second messenger with its scanner, which nothing uses (\<open>interface_scanner.rs\<close>,
  \<open>ip_interface.rs\<close>, \<open>multi_interface_messenger.rs\<close>). The end of the gateway's listener on Ctrl-C
  (\<open>Lifecycle\<close> records only that it was started). Methods that only forward to a modelled one.
\<close>

end
